(* ===== verification/Prelude.thy ===== *)
theory Prelude
  imports "HOL-Library.Word" "HOL-Library.AList"
begin

text \<open>
  What every component of the development shares.

  \<^item> Rust's machine integers as words, byte vectors as lists of 8-bit words, fixed arrays
    \<^verbatim>\<open>[u8; N]\<close> as byte vectors whose length is stated where it matters.
  \<^item> Rust's \<^verbatim>\<open>Result\<close> as the type \<open>result\<close>, with a third constructor \<open>Panic\<close> for an
    \<^verbatim>\<open>unwrap\<close>, an \<^verbatim>\<open>expect\<close> or an index out of range.
  \<^item> Little- and big-endian encodings, checked and saturating arithmetic.
  \<^item> The operating system's random source as an infinite tape of bytes that every draw consumes.
\<close>

named_theorems group_simps \<open>algebra of scalar multiplication\<close>
named_theorems codec_simps \<open>readers applied to what the writers wrote\<close>

section \<open>Machine integers and results\<close>

type_synonym u8 = "8 word"
type_synonym u16 = "16 word"
type_synonym u32 = "32 word"
type_synonym u64 = "64 word"
type_synonym bytes = "u8 list"

datatype ('a, 'e) result = Ok 'a | Err 'e | Panic

fun bindR :: "('a, 'e) result \<Rightarrow> ('a \<Rightarrow> ('b, 'e) result) \<Rightarrow> ('b, 'e) result" where
  "bindR (Ok x) f = f x"
| "bindR (Err e) f = Err e"
| "bindR Panic f = Panic"

fun map_err :: "('e \<Rightarrow> 'f) \<Rightarrow> ('a, 'e) result \<Rightarrow> ('a, 'f) result" where
  "map_err f (Ok x) = Ok x"
| "map_err f (Err e) = Err (f e)"
| "map_err f Panic = Panic"

definition ok_or :: "'a option \<Rightarrow> 'e \<Rightarrow> ('a, 'e) result" where
  "ok_or x e = (case x of None \<Rightarrow> Err e | Some y \<Rightarrow> Ok y)"

fun is_ok :: "('a, 'e) result \<Rightarrow> bool" where
  "is_ok (Ok x) = True"
| "is_ok (Err e) = False"
| "is_ok Panic = False"

text \<open>A call that returns no error (its error type is empty) but may panic, used inside a fallible function.\<close>

fun infallible :: "('a, unit) result \<Rightarrow> ('a, 'e) result" where
  "infallible (Ok x) = Ok x"
| "infallible (Err u) = Panic"
| "infallible Panic = Panic"

text \<open>Collecting an iterator of results stops at the first error.\<close>

fun collectR :: "('a, 'e) result list \<Rightarrow> ('a list, 'e) result" where
  "collectR [] = Ok []"
| "collectR (r # rs) = bindR r (\<lambda>x. bindR (collectR rs) (\<lambda>xs. Ok (x # xs)))"

definition checked_add :: "'w::len word \<Rightarrow> 'w word \<Rightarrow> 'w word option" where
  "checked_add a b = (if unat a + unat b < 2 ^ LENGTH('w) then Some (a + b) else None)"

definition saturating_add :: "'w::len word \<Rightarrow> 'w word \<Rightarrow> 'w word" where
  "saturating_add a b = (if unat a + unat b < 2 ^ LENGTH('w) then a + b else - 1)"

definition saturating_sub :: "'w::len word \<Rightarrow> 'w word \<Rightarrow> 'w word" where
  "saturating_sub a b = (if b \<le> a then a - b else 0)"

lemma bindR_eq_Ok [simp]: "bindR r f = Ok y \<longleftrightarrow> (\<exists>x. r = Ok x \<and> f x = Ok y)"
  by (cases r) auto

lemma map_err_eq_Ok [simp]: "map_err f r = Ok y \<longleftrightarrow> r = Ok y"
  by (cases r) auto

lemma infallible_eq_Ok [simp]: "infallible r = Ok y \<longleftrightarrow> r = Ok y"
  by (cases r) auto

lemma ok_or_eq_Ok [simp]: "ok_or x e = Ok y \<longleftrightarrow> x = Some y"
  by (auto simp: ok_or_def split: option.splits)

lemma ok_or_Some [simp]: "ok_or (Some y) e = Ok y"
  by (simp add: ok_or_def)

lemma ok_or_None [simp]: "ok_or None e = Err e"
  by (simp add: ok_or_def)

lemma is_ok_iff: "is_ok r \<longleftrightarrow> (\<exists>x. r = Ok x)"
  by (cases r) auto

lemma collectR_Ok: "collectR rs = Ok xs \<longleftrightarrow> rs = map Ok xs"
proof (induction rs arbitrary: xs)
  case (Cons r rs)
  then show ?case
    by (cases xs) auto
qed auto

lemma checked_add_Some:
  "checked_add a b = Some c \<longleftrightarrow> c = a + b \<and> unat a + unat b < 2 ^ LENGTH('w)"
  for a b c :: "'w::len word"
  by (auto simp: checked_add_def)

lemma checked_add_unat:
  "checked_add a b = Some c \<Longrightarrow> unat c = unat a + unat b"
  for a b c :: "'w::len word"
  by (auto simp: checked_add_def unat_word_ariths split: if_splits)

lemma checked_add_None:
  "checked_add a b = None \<longleftrightarrow> 2 ^ LENGTH('w) \<le> unat a + unat b"
  for a b :: "'w::len word"
  by (auto simp: checked_add_def)

lemma unat_saturating_add:
  "unat (saturating_add a b) = min (unat a + unat b) (2 ^ LENGTH('w) - 1)"
  for a b :: "'w::len word"
  by (auto simp: saturating_add_def unat_word_ariths unsigned_minus_1_eq_mask mask_eq_exp_minus_1)

lemma unat_saturating_sub: "unat (saturating_sub a b) = unat a - unat b"
  for a b :: "'w::len word"
  by (auto simp: saturating_sub_def unat_sub word_le_nat_alt not_le)

lemma unat_word_inject: "unat a = unat b \<longleftrightarrow> a = b" for a b :: "'w::len word"
  by (metis word_eq_iff_unsigned)

lemma unat_u64_of_nat: "n < 2 ^ 64 \<Longrightarrow> unat (of_nat n :: u64) = n"
  by (simp add: unat_of_nat)

lemma u64_of_nat_inject: "i < 2 ^ 64 \<Longrightarrow> j < 2 ^ 64 \<Longrightarrow> (of_nat i :: u64) = of_nat j \<longleftrightarrow> i = j"
  by (metis unat_u64_of_nat)

lemma inj_on_u64_ids: "n < 2 ^ 64 \<Longrightarrow> inj_on (\<lambda>i. of_nat (i + 1) :: u64) {0..<n}"
proof (rule inj_onI)
  fix i j
  assume n: "n < 2 ^ 64" and "i \<in> {0..<n}" "j \<in> {0..<n}" and eq: "(of_nat (i + 1) :: u64) = of_nat (j + 1)"
  then have "i + 1 < 2 ^ 64" "j + 1 < 2 ^ 64" by auto
  then have "i + 1 = j + 1" using eq u64_of_nat_inject by blast
  then show "i = j" by simp
qed

section \<open>Byte strings\<close>

text \<open>A Rust byte-string literal: one byte per ASCII character.\<close>

definition ascii :: "string \<Rightarrow> bytes" where
  "ascii s = map of_char s"

fun nat_to_le :: "nat \<Rightarrow> nat \<Rightarrow> bytes" where
  "nat_to_le 0 n = []"
| "nat_to_le (Suc k) n = of_nat (n mod 256) # nat_to_le k (n div 256)"

fun le_to_nat :: "bytes \<Rightarrow> nat" where
  "le_to_nat [] = 0"
| "le_to_nat (b # bs) = unat b + 256 * le_to_nat bs"

definition u16_le :: "u16 \<Rightarrow> bytes" where "u16_le w = nat_to_le 2 (unat w)"
definition u32_le :: "u32 \<Rightarrow> bytes" where "u32_le w = nat_to_le 4 (unat w)"
definition u64_le :: "u64 \<Rightarrow> bytes" where "u64_le w = nat_to_le 8 (unat w)"
definition u32_be :: "u32 \<Rightarrow> bytes" where "u32_be w = rev (u32_le w)"
definition u64_be :: "u64 \<Rightarrow> bytes" where "u64_be w = rev (u64_le w)"

text \<open>\<^verbatim>\<open>data.len() as u64\<close>: vector lengths fit a 64-bit \<^verbatim>\<open>usize\<close>; the cast wraps.\<close>

definition len_le :: "bytes \<Rightarrow> bytes" where
  "len_le bs = u64_le (of_nat (length bs))"

definition len_be :: "bytes \<Rightarrow> bytes" where
  "len_be bs = u64_be (of_nat (length bs))"

lemma length_nat_to_le [simp]: "length (nat_to_le k n) = k"
  by (induction k arbitrary: n) auto

lemma le_to_nat_nat_to_le [simp]: "le_to_nat (nat_to_le k n) = n mod 256 ^ k"
proof (induction k arbitrary: n)
  case (Suc k)
  have "n mod (256 * 256 ^ k) = n mod 256 + 256 * (n div 256 mod 256 ^ k)"
    by (simp add: mod_mult2_eq mult.commute)
  then show ?case
    using Suc by (simp add: unat_of_nat)
qed simp

lemma nat_to_le_le_to_nat: "length bs = k \<Longrightarrow> nat_to_le k (le_to_nat bs) = bs"
proof (induction bs arbitrary: k)
  case (Cons b bs)
  have "unat b < 256"
    using unsigned_less [of b, where ?'a = nat] by simp
  then show ?case
    using Cons by auto
qed simp

lemma le_to_nat_less: "le_to_nat bs < 256 ^ length bs"
proof (induction bs)
  case (Cons b bs)
  have "unat b < 256"
    using unsigned_less [of b, where ?'a = nat] by simp
  then show ?case
    using Cons by (simp add: algebra_simps)
qed simp

lemma length_u16_le [simp]: "length (u16_le w) = 2"
  by (simp add: u16_le_def)

lemma length_u32_le [simp]: "length (u32_le w) = 4"
  by (simp add: u32_le_def)

lemma length_u64_le [simp]: "length (u64_le w) = 8"
  by (simp add: u64_le_def)

lemma le_to_nat_u16_le [simp]: "le_to_nat (u16_le w) = unat w"
  using unsigned_less [of w, where ?'a = nat] by (simp add: u16_le_def)

lemma le_to_nat_u32_le [simp]: "le_to_nat (u32_le w) = unat w"
  using unsigned_less [of w, where ?'a = nat] by (simp add: u32_le_def)

lemma le_to_nat_u64_le [simp]: "le_to_nat (u64_le w) = unat w"
  using unsigned_less [of w, where ?'a = nat] by (simp add: u64_le_def)

lemma u32_le_inject [simp]: "u32_le a = u32_le b \<longleftrightarrow> a = b"
  by (metis le_to_nat_u32_le unat_word_inject)

lemma u64_le_inject [simp]: "u64_le a = u64_le b \<longleftrightarrow> a = b"
  by (metis le_to_nat_u64_le unat_word_inject)

lemma u32_be_inject [simp]: "u32_be a = u32_be b \<longleftrightarrow> a = b"
  by (simp add: u32_be_def)

lemma length_u32_be [simp]: "length (u32_be w) = 4"
  by (simp add: u32_be_def)

lemma length_u64_be [simp]: "length (u64_be w) = 8"
  by (simp add: u64_be_def)

lemma length_len_le [simp]: "length (len_le bs) = 8"
  by (simp add: len_le_def)

lemma length_len_be [simp]: "length (len_be bs) = 8"
  by (simp add: len_be_def)

section \<open>Decimal numbers in messages\<close>

fun show_nat :: "nat \<Rightarrow> string" where
  "show_nat n =
     (if n < 10 then [char_of (48 + n)] else show_nat (n div 10) @ [char_of (48 + n mod 10)])"

declare show_nat.simps [simp del]

section \<open>The random source\<close>

text \<open>
  \<^verbatim>\<open>OsRng\<close> and \<^verbatim>\<open>thread_rng\<close> are an unbounded tape of bytes: a draw of \<open>n\<close> bytes returns the
  next \<open>n\<close> and leaves the rest. Every statement about code that draws holds for every tape.
\<close>

type_synonym rng = "nat \<Rightarrow> u8"

definition fill_bytes :: "nat \<Rightarrow> rng \<Rightarrow> bytes \<times> rng" where
  "fill_bytes n g = (map g [0..<n], (\<lambda>i. g (i + n)))"

lemma length_fill_bytes [simp]: "fill_bytes n g = (bs, g') \<Longrightarrow> length bs = n"
  by (auto simp: fill_bytes_def)

section \<open>Lists and sums\<close>

lemma foldl_add_sum_list: "foldl (+) a xs = a + sum_list xs"
  for a :: "'a::comm_monoid_add"
  by (induction xs arbitrary: a) (auto simp: algebra_simps)

lemma foldl_add_map: "foldl (\<lambda>a i. a + f i) a xs = a + (\<Sum>i\<leftarrow>xs. f i)"
  for a :: "'a::comm_monoid_add"
  by (induction xs arbitrary: a) (auto simp: algebra_simps)

lemma map_of_zip_map: "map_of (map (\<lambda>i. (i, f i)) xs) k = (if k \<in> set xs then Some (f k) else None)"
  by (induction xs) auto

lemma prod_list_zero_iff: "prod_list xs = 0 \<longleftrightarrow> (0::'a::field) \<in> set xs"
  by (induction xs) auto

text \<open>Two independent accumulators in one loop.\<close>

lemma foldl_pair: "foldl (\<lambda>(a, b) x. (f a x, h b x)) (a, b) xs = (foldl f a xs, foldl h b xs)"
  by (induction xs arbitrary: a b) auto

text \<open>Inserting under fresh keys appends.\<close>

lemma update_fresh: "k \<notin> fst ` set m \<Longrightarrow> AList.update k v m = m @ [(k, v)]"
  by (induction m) auto

lemma foldl_update_distinct:
  "distinct (map fst m @ map key xs) \<Longrightarrow>
    foldl (\<lambda>m x. AList.update (key x) (val x) m) m xs = m @ map (\<lambda>x. (key x, val x)) xs"
  by (induction xs arbitrary: m) (auto simp: update_fresh)

lemma map_of_foldl_update:
  "map_of (foldl (\<lambda>m i. AList.update i (f i) m) m is) k = (if k \<in> set is then Some (f k) else map_of m k)"
  by (induction "is" arbitrary: m) (auto simp: update_conv')

lemma foldl_skip: "foldl (\<lambda>m x. if P x then m else f m x) m xs = foldl f m (filter (\<lambda>x. \<not> P x) xs)"
  by (induction xs arbitrary: m) auto

text \<open>A loop of fallible steps that all succeed.\<close>

lemma foldl_bind_Ok:
  assumes "\<And>m x. x \<in> set xs \<Longrightarrow> step m x = Ok (h m x)"
  shows "foldl (\<lambda>acc x. bindR acc (\<lambda>m. step m x)) (Ok m) xs = Ok (foldl h m xs)"
  using assms by (induction xs arbitrary: m) auto

lemma sum_list_alist:
  assumes "distinct (map fst m)"
  shows "(\<Sum>(k, v)\<leftarrow>m. f k v) = (\<Sum>k\<in>fst ` set m. f k (the (map_of m k)))"
proof -
  have "(\<Sum>k\<in>fst ` set m. f k (the (map_of m k))) = (\<Sum>k\<leftarrow>map fst m. f k (the (map_of m k)))"
    using sum_list_distinct_conv_sum_set [OF assms, of "\<lambda>k. f k (the (map_of m k))"] by simp
  also have "\<dots> = (\<Sum>(k, v)\<leftarrow>m. f k v)"
    unfolding map_map using assms by (intro arg_cong [where f = sum_list] map_cong) auto
  finally show ?thesis by simp
qed

lemma not_distinct_nth: "\<not> distinct xs \<longleftrightarrow> (\<exists>i j. i < j \<and> j < length xs \<and> xs ! i = xs ! j)"
proof
  assume "\<not> distinct xs"
  then obtain i j where ij: "i < length xs" "j < length xs" "i \<noteq> j" "xs ! i = xs ! j"
    by (auto simp: distinct_conv_nth)
  show "\<exists>i j. i < j \<and> j < length xs \<and> xs ! i = xs ! j"
  proof (cases "i < j")
    case True
    with ij show ?thesis by blast
  next
    case False
    with ij have "j < i" by simp
    with ij show ?thesis by metis
  qed
next
  assume "\<exists>i j. i < j \<and> j < length xs \<and> xs ! i = xs ! j"
  then show "\<not> distinct xs"
    by (metis nth_eq_iff_index_eq less_trans less_irrefl)
qed

lemma distinct_nth_neq: "distinct xs \<Longrightarrow> i < length xs \<Longrightarrow> j < length xs \<Longrightarrow> i \<noteq> j \<Longrightarrow> xs ! i \<noteq> xs ! j"
  by (simp add: nth_eq_iff_index_eq)

end
