(* ===== verification/Codec.thy ===== *)
theory Codec
  imports Prelude
begin

text \<open>
  Reading and writing bytes, for \<^verbatim>\<open>specter-core/src/serde_token.rs\<close> and the modules that use it. A reader gets the
  whole buffer and a position and returns the value with the position after it. The locale \<open>codec\<close> is the
  contract of a writer and its reader: reading at the place where a value was written
  gives the value back and stops behind it, whatever comes before and after. Its lemmas lift the law to readers that
  continue and to repeated reads. The last section is the part of Rust's strings the code uses: lossy UTF-8 decoding.
\<close>

section \<open>Readers\<close>

datatype serde_error =
    BufferTooShort nat nat
  | InvalidPoint nat
  | InvalidScalar nat
  | InvalidMagic
  | UnsupportedVersion u8
  | Io string

type_synonym 'a reader = "bytes \<Rightarrow> nat \<Rightarrow> ('a \<times> nat, serde_error) result"

definition bindP :: "'a reader \<Rightarrow> ('a \<Rightarrow> 'b reader) \<Rightarrow> 'b reader" where
  "bindP rd f data pos = bindR (rd data pos) (\<lambda>(x, pos). f x data pos)"

definition returnP :: "'a \<Rightarrow> 'a reader" where
  "returnP x data pos = Ok (x, pos)"

definition failP :: "serde_error \<Rightarrow> 'a reader" where
  "failP e data pos = Err e"

definition read_bytes :: "nat \<Rightarrow> bytes reader" where
  "read_bytes len data pos =
     (if length data < pos + len then Err (BufferTooShort (pos + len) (length data))
      else Ok (take len (drop pos data), pos + len))"

definition read_u8 :: "u8 reader" where
  "read_u8 = bindP (read_bytes 1) (\<lambda>bs. returnP (bs ! 0))"

definition read_u16 :: "u16 reader" where
  "read_u16 = bindP (read_bytes 2) (\<lambda>bs. returnP (of_nat (le_to_nat bs)))"

definition read_u32 :: "u32 reader" where
  "read_u32 = bindP (read_bytes 4) (\<lambda>bs. returnP (of_nat (le_to_nat bs)))"

definition read_u64 :: "u64 reader" where
  "read_u64 = bindP (read_bytes 8) (\<lambda>bs. returnP (of_nat (le_to_nat bs)))"

definition read_array32 :: "bytes reader" where
  "read_array32 = read_bytes 32"

fun repeatP :: "nat \<Rightarrow> 'a reader \<Rightarrow> 'a list reader" where
  "repeatP 0 rd = returnP []"
| "repeatP (Suc n) rd = bindP rd (\<lambda>x. bindP (repeatP n rd) (\<lambda>xs. returnP (x # xs)))"

section \<open>The contract of a writer and a reader\<close>

locale codec =
  fixes wr :: "'a \<Rightarrow> bytes" and rd :: "'a reader" and ok :: "'a \<Rightarrow> bool"
  assumes rd_wr: "ok x \<Longrightarrow> rd (pre @ wr x @ rest) (length pre) = Ok (x, length (pre @ wr x))"

context codec
begin

lemma bind_wr: "ok x \<Longrightarrow> bindP rd f (pre @ wr x @ rest) (length pre) = f x ((pre @ wr x) @ rest) (length (pre @ wr x))"
  by (simp add: bindP_def rd_wr)

text \<open>Repeating the reader reads a sequence.\<close>

lemma repeat_wr:
  "\<forall>x\<in>set xs. ok x \<Longrightarrow> length xs = n \<Longrightarrow>
    repeatP n rd (pre @ concat (map wr xs) @ rest) (length pre) = Ok (xs, length (pre @ concat (map wr xs)))"
proof (induction xs arbitrary: n pre)
  case (Cons x xs)
  then obtain m where n: "n = Suc m" "length xs = m" by auto
  have "repeatP n rd (pre @ wr x @ concat (map wr xs) @ rest) (length pre)
      = bindP (repeatP m rd) (\<lambda>xs. returnP (x # xs)) ((pre @ wr x) @ concat (map wr xs) @ rest) (length (pre @ wr x))"
    using Cons.prems by (simp only: n repeatP.simps bind_wr list.set_intros)
  also have "\<dots> = Ok (x # xs, length ((pre @ wr x) @ concat (map wr xs)))"
    using Cons.IH [of m "pre @ wr x"] Cons.prems n by (simp add: bindP_def returnP_def del: append_assoc)
  finally show ?case by simp
qed (simp add: returnP_def)

lemma bind_repeat_wr:
  "\<forall>x\<in>set xs. ok x \<Longrightarrow> length xs = n \<Longrightarrow>
    bindP (repeatP n rd) f (pre @ concat (map wr xs) @ rest) (length pre)
      = f xs ((pre @ concat (map wr xs)) @ rest) (length (pre @ concat (map wr xs)))"
  by (simp add: bindP_def repeat_wr)

end

lemma read_bytes_wr: "length bs = n \<Longrightarrow> read_bytes n (pre @ bs @ rest) (length pre) = Ok (bs, length (pre @ bs))"
  by (simp add: read_bytes_def)

lemma bind_read_bytes:
  "length bs = n \<Longrightarrow> bindP (read_bytes n) f (pre @ bs @ rest) (length pre) = f bs ((pre @ bs) @ rest) (length (pre @ bs))"
  by (simp add: bindP_def read_bytes_wr)

interpretation u8: codec "\<lambda>b. [b]" read_u8 "\<lambda>_. True"
  by unfold_locales (simp add: read_u8_def bindP_def returnP_def read_bytes_def)

interpretation u16: codec u16_le read_u16 "\<lambda>_. True"
  by unfold_locales (simp add: read_u16_def bindP_def returnP_def read_bytes_def)

interpretation u32: codec u32_le read_u32 "\<lambda>_. True"
  by unfold_locales (simp add: read_u32_def bindP_def returnP_def read_bytes_def)

interpretation u64: codec u64_le read_u64 "\<lambda>_. True"
  by unfold_locales (simp add: read_u64_def bindP_def returnP_def read_bytes_def)

interpretation array32: codec "\<lambda>bs. bs" read_array32 "\<lambda>bs. length bs = 32"
  by unfold_locales (simp add: read_array32_def read_bytes_def)

lemma bind_return [simp]: "bindP (returnP x) f = f x"
  by (simp add: bindP_def returnP_def fun_eq_iff)

section \<open>What a reader returns\<close>

text \<open>A reader never panics, and what it returns satisfies a predicate; one rule per construct.\<close>

definition reader_spec :: "'a reader \<Rightarrow> ('a \<Rightarrow> bool) \<Rightarrow> bool" where
  "reader_spec rd P \<longleftrightarrow> (\<forall>data pos. rd data pos \<noteq> Panic \<and> (\<forall>x pos'. rd data pos = Ok (x, pos') \<longrightarrow> P x))"

named_theorems reader_intros \<open>one rule per construct of a reader\<close>

lemma spec_bind [reader_intros]:
  assumes "reader_spec rd Q" and "\<And>x. Q x \<Longrightarrow> reader_spec (f x) P"
  shows "reader_spec (bindP rd f) P"
proof -
  have rd: "rd data pos \<noteq> Panic" "rd data pos = Ok (x, pos') \<Longrightarrow> Q x" for data pos x pos'
    using assms(1) by (auto simp: reader_spec_def)
  have f: "f x data pos \<noteq> Panic" "f x data pos = Ok (y, pos') \<Longrightarrow> P y" if "Q x" for x y data pos pos'
    using assms(2) [OF that] by (auto simp: reader_spec_def)
  have "bindP rd f data pos \<noteq> Panic \<and> (\<forall>y pos'. bindP rd f data pos = Ok (y, pos') \<longrightarrow> P y)" for data pos
  proof (cases "rd data pos")
    case (Ok r)
    obtain x pos1 where r: "r = (x, pos1)" by fastforce
    have "Q x" by (rule rd(2) [OF Ok [unfolded r]])
    from f [OF this] show ?thesis by (auto simp: bindP_def Ok r)
  qed (use rd(1) in \<open>auto simp: bindP_def\<close>)
  then show ?thesis by (simp add: reader_spec_def)
qed

lemma spec_weaken: "reader_spec rd Q \<Longrightarrow> (\<And>x. Q x \<Longrightarrow> P x) \<Longrightarrow> reader_spec rd P"
  by (auto simp: reader_spec_def)

lemma spec_return [reader_intros]: "P x \<Longrightarrow> reader_spec (returnP x) P"
  by (simp add: reader_spec_def returnP_def)

lemma spec_fail [reader_intros]: "reader_spec (failP e) P"
  by (simp add: reader_spec_def failP_def)

lemma spec_if [reader_intros]:
  "(c \<Longrightarrow> reader_spec rd P) \<Longrightarrow> (\<not> c \<Longrightarrow> reader_spec rd' P) \<Longrightarrow> reader_spec (if c then rd else rd') P"
  by simp

lemma spec_read_bytes [reader_intros]: "reader_spec (read_bytes n) (\<lambda>bs. length bs = n)"
  by (auto simp: reader_spec_def read_bytes_def)

lemma spec_array32 [reader_intros]: "reader_spec read_array32 (\<lambda>bs. length bs = 32)"
  by (simp add: read_array32_def reader_intros)

lemma spec_ints [reader_intros]: "reader_spec read_u8 (\<lambda>_. True)" "reader_spec read_u16 (\<lambda>_. True)"
    "reader_spec read_u32 (\<lambda>_. True)" "reader_spec read_u64 (\<lambda>_. True)"
  unfolding read_u8_def read_u16_def read_u32_def read_u64_def by (rule reader_intros TrueI)+

lemma spec_repeat [reader_intros]:
  "reader_spec rd P \<Longrightarrow> reader_spec (repeatP n rd) (\<lambda>xs. length xs = n \<and> (\<forall>x\<in>set xs. P x))"
proof (induction n)
  case (Suc n)
  show ?case unfolding repeatP.simps
    by (rule spec_bind [OF Suc.prems], rule spec_bind [OF Suc.IH [OF Suc.prems]], rule spec_return) simp
qed (simp add: reader_intros)

section \<open>Lossy UTF-8\<close>

text \<open>
  \<^verbatim>\<open>String::from_utf8_lossy\<close>: the bytes at the head of the input that form one scalar value, or the longest
  start of one, which becomes the replacement character. The result is how many bytes are taken
  and the scalar value, \<open>None\<close> for an ill-formed sequence. Past the end the next byte counts as zero.
\<close>

definition byte_at :: "bytes \<Rightarrow> nat \<Rightarrow> nat" where
  "byte_at bs i = (if i < length bs then unat (bs ! i) else 0)"

definition is_cont :: "nat \<Rightarrow> bool" where
  "is_cont b \<longleftrightarrow> 128 \<le> b \<and> b < 192"

definition utf8_step :: "bytes \<Rightarrow> nat \<times> nat option" where
  "utf8_step bs =
     (let b0 = byte_at bs 0; b1 = byte_at bs 1; b2 = byte_at bs 2; b3 = byte_at bs 3 in
      if b0 < 128 then (1, Some b0)
      else if 194 \<le> b0 \<and> b0 < 224 then
        (if is_cont b1 then (2, Some ((b0 mod 32) * 64 + b1 mod 64)) else (1, None))
      else if 224 \<le> b0 \<and> b0 < 240 then
        (if \<not> ((b0 = 224 \<and> 160 \<le> b1 \<and> b1 < 192) \<or> (b0 = 237 \<and> 128 \<le> b1 \<and> b1 < 160) \<or>
                (b0 \<noteq> 224 \<and> b0 \<noteq> 237 \<and> is_cont b1)) then (1, None)
         else if \<not> is_cont b2 then (2, None)
         else (3, Some ((b0 mod 16) * 4096 + (b1 mod 64) * 64 + b2 mod 64)))
      else if 240 \<le> b0 \<and> b0 < 245 then
        (if \<not> ((b0 = 240 \<and> 144 \<le> b1 \<and> b1 < 192) \<or> (b0 = 244 \<and> 128 \<le> b1 \<and> b1 < 144) \<or>
                (b0 \<noteq> 240 \<and> b0 \<noteq> 244 \<and> is_cont b1)) then (1, None)
         else if \<not> is_cont b2 then (2, None)
         else if \<not> is_cont b3 then (3, None)
         else (4, Some ((b0 mod 8) * 262144 + (b1 mod 64) * 4096 + (b2 mod 64) * 64 + b3 mod 64)))
      else (1, None))"

lemma utf8_step_pos: "0 < fst (utf8_step bs)"
  by (simp add: utf8_step_def Let_def)

lemma utf8_step_decreases: "(n, c) = utf8_step bs \<Longrightarrow> bs \<noteq> [] \<Longrightarrow> length bs - n < length bs"
  using utf8_step_pos [of bs] by (cases "utf8_step bs") auto

text \<open>The bytes of the decoded string, and its scalar values.\<close>

function from_utf8_lossy :: "bytes \<Rightarrow> bytes" where
  "from_utf8_lossy bs =
     (if bs = [] then []
      else let (n, c) = utf8_step bs
           in (if c = None then [239, 191, 189] else take n bs) @ from_utf8_lossy (drop n bs))"
  by pat_completeness auto
termination
  by (relation "measure length") (auto dest: utf8_step_decreases)

function utf8_chars :: "bytes \<Rightarrow> nat list" where
  "utf8_chars bs =
     (if bs = [] then []
      else let (n, c) = utf8_step bs
           in (case c of None \<Rightarrow> 65533 | Some v \<Rightarrow> v) # utf8_chars (drop n bs))"
  by pat_completeness auto
termination
  by (relation "measure length") (auto dest: utf8_step_decreases)

declare from_utf8_lossy.simps [simp del] utf8_chars.simps [simp del]

text \<open>A Rust string is a byte sequence without ill-formed parts; decoding leaves it alone.\<close>

function valid_utf8 :: "bytes \<Rightarrow> bool" where
  "valid_utf8 bs =
     (if bs = [] then True
      else let (n, c) = utf8_step bs in c \<noteq> None \<and> valid_utf8 (drop n bs))"
  by pat_completeness auto
termination
  by (relation "measure length") (auto dest: utf8_step_decreases)

declare valid_utf8.simps [simp del]

lemma from_utf8_lossy_valid: "valid_utf8 bs \<Longrightarrow> from_utf8_lossy bs = bs"
proof (induction bs rule: from_utf8_lossy.induct)
  case (1 bs)
  show ?case
  proof (cases "bs = []")
    case False
    obtain n c where s: "utf8_step bs = (n, c)" by fastforce
    have "c \<noteq> None" "valid_utf8 (drop n bs)" using 1(2) False by (simp_all add: s valid_utf8.simps [of bs])
    then show ?thesis using 1(1) [OF False s [symmetric] refl] False by (auto simp: s from_utf8_lossy.simps [of bs])
  qed (simp add: from_utf8_lossy.simps)
qed

lemma utf8_ascii:
  assumes "\<forall>b\<in>set bs. unat b < 128"
  shows "valid_utf8 bs" and "utf8_chars bs = map unat bs"
  using assms
  by (induction bs)
    (simp_all add: valid_utf8.simps [of "_ # _"] utf8_chars.simps [of "_ # _"] valid_utf8.simps [of "[]"] utf8_chars.simps [of "[]"]
      utf8_step_def byte_at_def)

text \<open>Strings as the lists of their UTF-8 bytes.\<close>

definition string_of_bytes :: "bytes \<Rightarrow> string" where
  "string_of_bytes bs = map (\<lambda>b. char_of (unat b)) bs"

lemma string_of_bytes_ascii [simp]: "string_of_bytes (ascii s) = s"
proof -
  have "char_of (unat (of_char c :: u8)) = c" for c
  proof -
    have "(of_char c :: u8) = of_nat (of_char c)" by (simp add: of_nat_of_char)
    moreover have "(of_char c :: nat) < 256" by (cases c) (simp add: horner_sum_simps of_char_def)
    ultimately have "unat (of_char c :: u8) = of_char c" by (simp only: unat_of_nat) simp
    then show ?thesis by simp
  qed
  then show ?thesis by (induction s) (simp_all add: string_of_bytes_def ascii_def)
qed

end
