(* ===== verification/Ristretto.thy ===== *)
theory Ristretto
  imports Prelude
begin

text \<open>
  The third-party cryptography the crates call: \<^verbatim>\<open>curve25519-dalek\<close> (Ristretto255 points and
  scalars), \<^verbatim>\<open>sha2\<close> and \<^verbatim>\<open>sha3\<close>. None of it is in the repository, so it is a
  parameter: a record \<open>R\<close> of the functions the code calls, over a scalar type \<open>'s\<close> that is a
  field and a point type \<open>'p\<close> that is an abelian group. \<^verbatim>\<open>Scalar\<close> addition, multiplication and
  \<^verbatim>\<open>invert\<close> are the field operations, point addition is the group operation.

  The locales \<open>ristretto_group\<close> and \<open>ristretto\<close> name the documented laws: scalar multiplication
  is linear, the group is cyclic of prime order, the 32-byte encodings are canonical, the digests
  have their length. Nothing is assumed of the hash functions beyond their output length.
  The locale \<open>schnorr\<close> is the interface of every signature of the form \<open>(R, s)\<close> in the code.
\<close>

section \<open>The functions the code calls\<close>

record ('s, 'p) prims =
  smul :: "'s \<Rightarrow> 'p \<Rightarrow> 'p"
  basepoint :: "'p"
  multiscalar_mul :: "'s list \<Rightarrow> 'p list \<Rightarrow> 'p"
  compress :: "'p \<Rightarrow> bytes"
  decompress :: "bytes \<Rightarrow> 'p option"
  from_uniform_bytes :: "bytes \<Rightarrow> 'p"
  hash_from_bytes :: "bytes \<Rightarrow> 'p"
  scalar_of_u64 :: "u64 \<Rightarrow> 's"
  scalar_bytes :: "'s \<Rightarrow> bytes"
  from_canonical_bytes :: "bytes \<Rightarrow> 's option"
  from_bytes_mod_order :: "bytes \<Rightarrow> 's"
  from_bytes_mod_order_wide :: "bytes \<Rightarrow> 's"
  sha256 :: "bytes \<Rightarrow> bytes"
  sha512 :: "bytes \<Rightarrow> bytes"
  shake256 :: "bytes \<Rightarrow> nat \<Rightarrow> bytes"

text \<open>
  The Fiat-Shamir challenges of the code all end the same way: a SHA-512 digest reduced to a
  scalar.
\<close>

definition hash512 :: "('s, 'p) prims \<Rightarrow> bytes \<Rightarrow> 's" where
  "hash512 R bs = from_bytes_mod_order_wide R (sha512 R bs)"

section \<open>Their documented laws\<close>

locale ristretto_group =
  fixes R :: "('s::field, 'p::ab_group_add) prims"
  assumes smul_add_scalar: "smul R (a + b) P = smul R a P + smul R b P"
    and smul_add_point: "smul R a (P + Q) = smul R a P + smul R a Q"
    and smul_mult: "smul R (a * b) P = smul R a (smul R b P)"
    and smul_one: "smul R 1 P = P"
    and base_inject: "smul R a (basepoint R) = smul R b (basepoint R) \<Longrightarrow> a = b"
    and base_generates: "\<exists>a. P = smul R a (basepoint R)"
    and multiscalar_sum:
      "length ss = length Ps \<Longrightarrow> multiscalar_mul R ss Ps = sum_list (map2 (smul R) ss Ps)"
    and decompress_compress: "decompress R (compress R P) = Some P"
    and scalar_of_u64_of_nat: "scalar_of_u64 R v = of_nat (unat v)"
    and of_nat_u64_inject: "of_nat (unat (v::u64)) = (of_nat (unat (w::u64)) :: 's) \<Longrightarrow> v = w"
    and from_canonical_scalar_bytes: "from_canonical_bytes R (scalar_bytes R x) = Some x"

locale ristretto = ristretto_group R
  for R :: "('s::field, 'p::ab_group_add) prims" +
  assumes length_compress: "length (compress R P) = 32"
    and compress_decompress: "decompress R bs = Some P \<Longrightarrow> compress R P = bs"
    and length_scalar_bytes: "length (scalar_bytes R x) = 32"
    and scalar_bytes_canonical: "from_canonical_bytes R bs = Some x \<Longrightarrow> scalar_bytes R x = bs"
    and from_mod_order_scalar_bytes: "from_bytes_mod_order R (scalar_bytes R x) = x"
    and length_sha256: "length (sha256 R bs) = 32"
    and length_sha512: "length (sha512 R bs) = 64"
    and length_shake256: "length (shake256 R bs n) = n"

section \<open>Algebra of scalar multiplication\<close>

context ristretto_group
begin

lemma smul_zero_scalar [simp]: "smul R 0 P = 0"
  using smul_add_scalar [of 0 0 P] by simp

lemma smul_zero_point [simp]: "smul R a 0 = 0"
  using smul_add_point [of a 0 0] by simp

lemma smul_minus_scalar: "smul R (- a) P = - smul R a P"
  using smul_add_scalar [of a "- a" P] by (simp add: minus_unique)

lemma smul_minus_point: "smul R a (- P) = - smul R a P"
  using smul_add_point [of a P "- P"] by (simp add: minus_unique)

lemma smul_diff_scalar: "smul R (a - b) P = smul R a P - smul R b P"
  using smul_add_scalar [of a "- b" P] by (simp add: smul_minus_scalar)

lemma smul_diff_point: "smul R a (P - Q) = smul R a P - smul R a Q"
  using smul_add_point [of a P "- Q"] by (simp add: smul_minus_point)

lemma smul_commute: "smul R a (smul R b P) = smul R b (smul R a P)"
  by (metis smul_mult mult.commute)

lemma smul_sum_list_scalar: "smul R (sum_list xs) P = (\<Sum>x\<leftarrow>xs. smul R x P)"
  by (induction xs) (auto simp: smul_add_scalar)

lemma smul_sum_list_point: "smul R a (sum_list Ps) = (\<Sum>P\<leftarrow>Ps. smul R a P)"
  by (induction Ps) (auto simp: smul_add_point)

lemma smul_cancel: "smul R a P = smul R b P \<Longrightarrow> P \<noteq> 0 \<Longrightarrow> a = b"
proof -
  assume eq: "smul R a P = smul R b P" and "P \<noteq> 0"
  obtain x where x: "P = smul R x (basepoint R)"
    using base_generates by blast
  with \<open>P \<noteq> 0\<close> have "x \<noteq> 0" by auto
  moreover have "a * x = b * x"
    using eq by (intro base_inject) (simp add: x smul_mult)
  ultimately show "a = b" by simp
qed

lemma smul_eq_zero_iff: "smul R a P = 0 \<longleftrightarrow> a = 0 \<or> P = 0"
  using smul_cancel [of a P 0] by auto

lemma basepoint_nonzero: "basepoint R \<noteq> 0"
proof
  assume "basepoint R = 0"
  then have "(0::'s) = 1"
    by (intro base_inject) simp
  then show False by simp
qed

lemma compress_inject [simp]: "compress R P = compress R Q \<longleftrightarrow> P = Q"
  by (metis decompress_compress option.inject)

lemma scalar_bytes_inject [simp]: "scalar_bytes R x = scalar_bytes R y \<longleftrightarrow> x = y"
  by (metis from_canonical_scalar_bytes option.inject)

lemma scalar_of_u64_inject [simp]: "scalar_of_u64 R v = scalar_of_u64 R w \<longleftrightarrow> v = w"
  using of_nat_u64_inject by (auto simp: scalar_of_u64_of_nat)

lemma scalar_of_u64_zero_iff [simp]: "scalar_of_u64 R v = 0 \<longleftrightarrow> v = 0"
  using scalar_of_u64_inject [of v 0] by (simp add: scalar_of_u64_of_nat [of 0])

lemmas smul_algebra [group_simps] =
  smul_add_scalar smul_add_point smul_mult smul_diff_scalar smul_diff_point
  smul_minus_scalar smul_minus_point smul_one

end

section \<open>Schnorr signatures in commitment form\<close>

text \<open>
  Votes, gossip messages, attestations, transfer steps, wallet signatures and the proofs of
  knowledge of the key generation are all pairs \<open>(R, s)\<close> accepted when \<open>s * G = R + e * pk\<close> with
  \<open>e\<close> a hash of \<open>R\<close>, the public key and a message. They differ in the hash only.
\<close>

definition schnorr_accepts :: "('s::field, 'p::ab_group_add) prims \<Rightarrow> 's \<Rightarrow> 'p \<Rightarrow> 'p \<Rightarrow> 's \<Rightarrow> bool" where
  "schnorr_accepts R e pk r s \<longleftrightarrow>
     compress R (smul R s (basepoint R)) = compress R (r + smul R e pk)"

locale schnorr = ristretto_group R
  for R :: "('s::field, 'p::ab_group_add) prims" +
  fixes chal :: "'p \<Rightarrow> 'p \<Rightarrow> 'm \<Rightarrow> 's"
begin

lemma signed_accepts:
  assumes "pk = smul R sk (basepoint R)" and "r = smul R k (basepoint R)"
  shows "schnorr_accepts R (chal r pk m) pk r (k + chal r pk m * sk)"
  using assms by (simp add: schnorr_accepts_def smul_add_scalar smul_mult)

text \<open>For a given nonce point at most one response is accepted.\<close>

lemma response_unique:
  "schnorr_accepts R (chal r pk m) pk r s \<Longrightarrow> schnorr_accepts R (chal r pk m) pk r s' \<Longrightarrow> s = s'"
  unfolding schnorr_accepts_def by (metis base_inject compress_inject)

text \<open>
  Special soundness: two accepted responses to the same nonce point under different challenges
  reveal the secret key.
\<close>

lemma extract_key:
  assumes "schnorr_accepts R e pk r s" and "schnorr_accepts R e' pk r s'" and "e \<noteq> e'"
  shows "pk = smul R ((s - s') / (e - e')) (basepoint R)"
proof -
  have "smul R (s - s') (basepoint R) = smul R (e - e') pk"
    using assms by (simp add: schnorr_accepts_def smul_diff_scalar algebra_simps)
  then have "smul R (inverse (e - e')) (smul R (s - s') (basepoint R)) = pk"
    using assms(3) by (simp add: smul_mult [symmetric] smul_one)
  then show ?thesis
    by (simp add: smul_mult [symmetric] divide_inverse mult.commute)
qed

end

end
