(* ===== verification/Prime_Field.thy ===== *)
theory Prime_Field
  imports Ristretto
begin

text \<open>
  A concrete instance of the laws of \<open>Ristretto\<close>: the integers modulo the prime
  \<open>9 * 2 ^ 63 + 1\<close>, as scalars and as the additive group of points, with 32-byte little-endian
  encodings. It shows that the laws hold together, and every property that assumes them is
  applied to it. The prime exceeds \<open>2 ^ 64\<close>, because the code relies on \<^verbatim>\<open>Scalar::from\<close>
  being injective on \<^verbatim>\<open>u64\<close>. Primality is proved by Proth's criterion from a chain of
  certified squarings.
\<close>

section \<open>Proth's criterion\<close>

lemma dvd_two_power: "g dvd 2 ^ Suc m \<Longrightarrow> g = 2 ^ Suc m \<or> g dvd 2 ^ m" for g :: nat
proof (induction m arbitrary: g)
  case 0
  then have "g \<le> 2" by (simp add: dvd_imp_le)
  then show ?case using 0 by (auto simp: le_Suc_eq numeral_2_eq_2)
next
  case (Suc m)
  show ?case
  proof (cases "even g")
    case True
    then obtain h where h: "g = 2 * h" by (elim evenE)
    with Suc.prems have "h dvd 2 ^ Suc m" by simp
    from Suc.IH [OF this] h show ?thesis by auto
  next
    case False
    then have "coprime g 2" by simp
    with Suc.prems have "g dvd 2 ^ Suc m"
      by (simp only: power_Suc [of _ "Suc m"] coprime_dvd_mult_right_iff)
    then show ?thesis by simp
  qed
qed

lemma power_one_mod: "a mod d = 1 mod d \<Longrightarrow> a ^ k mod d = 1 mod d" for a d :: nat
  by (metis power_mod power_one)

lemma power_gcd_one_mod:
  fixes b d x y :: nat
  assumes "b ^ x mod d = 1 mod d" and "b ^ y mod d = 1 mod d" and "x \<noteq> 0"
  shows "b ^ gcd x y mod d = 1 mod d"
proof -
  obtain u v where uv: "x * u = y * v + gcd x y"
    using bezout_nat [OF assms(3)] by metis
  have l: "b ^ (x * u) mod d = 1 mod d"
    using power_one_mod [OF assms(1), of u] by (simp add: power_mult)
  have "b ^ (y * v) mod d = 1 mod d"
    using power_one_mod [OF assms(2), of v] by (simp add: power_mult)
  then have "b ^ (x * u) mod d = b ^ gcd x y mod d"
    unfolding uv power_add by (metis mod_mult_left_eq mult_1)
  with l show ?thesis by simp
qed

text \<open>Among the powers of a unit modulo \<open>d\<close> one with exponent below \<open>d\<close> is 1.\<close>

lemma unit_order_less:
  fixes b c d :: nat
  assumes "1 < d" and unit: "b * c mod d = 1"
  shows "\<exists>e. 0 < e \<and> e < d \<and> b ^ e mod d = 1"
proof -
  let ?f = "\<lambda>i. b ^ i mod d"
  have unit': "b ^ i * c ^ i mod d = 1" for i
    using power_one_mod [of "b * c" d i] unit assms(1) by (simp add: power_mult_distrib)
  have "?f i \<noteq> 0" for i
  proof
    assume "?f i = 0"
    then have "b ^ i * c ^ i mod d = 0" by (metis mod_mult_left_eq mult_zero_left mod_0)
    with unit' show False by simp
  qed
  then have "?f ` {0..<d} \<subseteq> {1..<d}"
    using assms(1) by (auto simp: Suc_le_eq)
  then have "card (?f ` {0..<d}) \<le> card {1..<d}"
    by (intro card_mono) auto
  also have "\<dots> < card {0..<d}"
    using assms(1) by simp
  finally have "\<not> inj_on ?f {0..<d}"
    by (rule pigeonhole)
  then obtain i j where ij: "i < j" "j < d" "?f i = ?f j"
    unfolding inj_on_def by (metis atLeastLessThan_iff nat_neq_iff)
  have "b ^ j * c ^ i mod d = b ^ (j - i) mod d"
  proof -
    have "b ^ j = b ^ (j - i) * b ^ i"
      using ij(1) by (simp flip: power_add)
    then have "b ^ j * c ^ i mod d = b ^ (j - i) * (b ^ i * c ^ i mod d) mod d"
      by (simp add: mult.assoc mod_mult_right_eq)
    then show ?thesis by (simp add: unit')
  qed
  moreover have "b ^ j * c ^ i mod d = b ^ i * c ^ i mod d"
    using ij(3) by (metis mod_mult_left_eq)
  ultimately have "b ^ (j - i) mod d = 1"
    using unit' by simp
  with ij show ?thesis
    by (intro exI [of _ "j - i"]) auto
qed

lemma proth_divisor:
  fixes b d n m :: nat
  assumes n: "d dvd n" "odd n" and "1 < d" and half: "b ^ 2 ^ m mod n = n - 1" "1 < n"
  shows "2 ^ Suc m < d"
proof -
  have "odd d" using n by (meson dvd_trans)
  with \<open>1 < d\<close> have "2 < d" by (cases "d = 2") auto
  have minus: "b ^ 2 ^ m mod d = d - 1"
  proof -
    obtain q where q: "n = d * q" using n by blast
    with half(2) have "0 < q" by (cases q) auto
    then have "n - 1 = (d - 1) + d * (q - 1)"
      using \<open>1 < d\<close> by (simp add: q algebra_simps)
    then have "(n - 1) mod d = (d - 1) mod d"
      by (simp only: mod_mult_self2)
    then have "(n - 1) mod d = d - 1"
      using \<open>1 < d\<close> by simp
    moreover have "(b ^ 2 ^ m mod n) mod d = b ^ 2 ^ m mod d"
      using n by (simp add: mod_mod_cancel)
    ultimately show ?thesis using half by simp
  qed
  have sq: "b ^ 2 ^ Suc m mod d = 1"
  proof -
    have "(d - 1) * (d - 1) = 1 + d * (d - 2)"
      using \<open>2 < d\<close> by (cases d) (auto simp: algebra_simps numeral_2_eq_2)
    then have "(d - 1) * (d - 1) mod d = 1 mod d"
      by (simp only: mod_mult_self2)
    then have one: "(d - 1) * (d - 1) mod d = 1"
      using \<open>1 < d\<close> by simp
    have "b ^ 2 ^ Suc m = b ^ 2 ^ m * b ^ 2 ^ m"
      by (simp add: mult_2 power_add)
    then show ?thesis
      by (metis minus mod_mult_eq one)
  qed
  have unit: "b * b ^ (2 ^ Suc m - 1) mod d = 1"
    using sq by (simp flip: power_Suc)
  from unit_order_less [OF \<open>1 < d\<close> unit]
  obtain e where e: "0 < e" "e < d" "b ^ e mod d = 1" by blast
  have g: "b ^ gcd e (2 ^ Suc m) mod d = 1 mod d"
    by (rule power_gcd_one_mod) (use e sq \<open>1 < d\<close> in auto)
  have "\<not> gcd e (2 ^ Suc m) dvd 2 ^ m"
  proof
    assume "gcd e (2 ^ Suc m) dvd 2 ^ m"
    then obtain k where k: "2 ^ m = gcd e (2 ^ Suc m) * k" by (elim dvdE)
    have "b ^ 2 ^ m mod d = 1 mod d"
      unfolding k power_mult using g by (rule power_one_mod)
    with minus \<open>2 < d\<close> show False by simp
  qed
  then have "gcd e (2 ^ Suc m) = 2 ^ Suc m"
    using dvd_two_power [of "gcd e (2 ^ Suc m)" m] by blast
  then have "2 ^ Suc m dvd e" by (metis gcd_dvd1)
  with e show ?thesis by (meson dvd_imp_le le_less_trans)
qed

lemma proth_prime:
  fixes b d n m k :: nat
  assumes n: "n = k * 2 ^ Suc m + 1" "k < 2 ^ Suc m" "1 < n"
    and half: "b ^ 2 ^ m mod n = n - 1" and d: "d dvd n"
  shows "d = 1 \<or> d = n"
proof (rule ccontr)
  assume "\<not> ?thesis"
  with d n(3) have "1 < d" "d \<noteq> n" by (auto intro!: Nat.gr0I simp: Suc_lessI)
  obtain q where q: "n = d * q" using d by blast
  with \<open>d \<noteq> n\<close> n(3) have "1 < q" by (cases q) auto
  have "odd n" by (simp add: n)
  have "2 ^ Suc m < d" "2 ^ Suc m < q"
    by (rule proth_divisor [OF _ \<open>odd n\<close> _ half n(3)]; use d q \<open>1 < d\<close> \<open>1 < q\<close> in auto)+
  then have "2 ^ Suc m * 2 ^ Suc m < d * q"
    by (intro mult_strict_mono) auto
  moreover have "n \<le> 2 ^ Suc m * 2 ^ Suc m"
    using mult_le_mono1 [of "Suc k" "2 ^ Suc m" "2 ^ Suc m :: nat"] n(1,2) by auto
  ultimately show False using q by simp
qed

section \<open>The prime\<close>

definition zp_order :: int where
  "zp_order = 83010348331692982273"

text \<open>A chain of squarings, each with its quotient and remainder.\<close>

fun sq_chain :: "int \<Rightarrow> int \<Rightarrow> (int \<times> int) list \<Rightarrow> int \<Rightarrow> bool" where
  "sq_chain n x [] y \<longleftrightarrow> x = y"
| "sq_chain n x ((q, r) # c) y \<longleftrightarrow> x * x = q * n + r \<and> sq_chain n r c y"

lemma sq_chain_power: "sq_chain n x c y \<Longrightarrow> x ^ 2 ^ length c mod n = y mod n"
proof (induction n x c y rule: sq_chain.induct)
  case (2 n x q r c y)
  then have "(x * x) mod n = r mod n" and IH: "r ^ 2 ^ length c mod n = y mod n" by auto
  then have "(x * x) ^ 2 ^ length c mod n = y mod n"
    by (metis power_mod)
  then show ?case
    by (simp add: power_mult power2_eq_square)
qed simp

definition zp_chain :: "(int \<times> int) list" where
  "zp_chain = [
     (0, 3814697265625),
     (175302, 35145124408628219179),
     (14879828774629643172, 75238500610351944085),
     (68194292493200505695, 23176479812695942490),
     (6470870527635424516, 69333771116969795232),
     (57910512531423725632, 71978623109418212288),
     (62412967646223217183, 71734231819986197985),
     (61989861724732418328, 56564573757893760681),
     (38544001666243208829, 29207284564767495444),
     (10276615973693113366, 61822248037743396218),
     (46042336037048627397, 35896491636833570143),
     (15522861158038252446, 55398959052324150691),
     (36971832136130674926, 6820154493232190683),
     (560345887547567457, 4735509992299316728),
     (270147702519697636, 54428009444592619356),
     (35687215770538202598, 42143419821409309482),
     (21395740048538746640, 6542250880896795604),
     (515610974400087520, 2593058814345191856),
     (81001395004219207, 46986006797791607225),
     (26595296600619550230, 28177583392049127835),
     (9564785858304201867, 13707810471927283534),
     (2263622207480104709, 6765792537906705599),
     (551448699902840986, 41897684377622107623),
     (21146953259279718032, 66924207699980263393),
     (53955316009198008660, 81035970325375388269),
     (79108552349827142739, 55245028061135150614),
     (36766658456610344856, 64330480606839839308),
     (49854154551559324362, 27339035246538884038),
     (9003971953291186183, 59843716097449651485),
     (43142456673499362132, 59034686021679219189),
     (41983851697049852373, 32394399089949833892),
     (12641762304210058080, 62476165200651451824),
     (47021501494999025925, 26728234785700499451),
     (8606138260074931362, 37918657643293555575),
     (17321028358103512950, 7758777502237645275),
     (725194262391083892, 38428165394317979109),
     (17789636174906294892, 39223003557493984365),
     (18533159286645405685, 19250539651266031220),
     (4464302154042144187, 28034857936513691349),
     (9468135904935496393, 70799087838232998512),
     (60384168232818718399, 45295131676508273217),
     (24715580585136669233, 74193305863386022480),
     (66312776004052751435, 63878175948735038645),
     (49155574510216394344, 55310444191273972113),
     (36853781463630197060, 44944924234624967389),
     (24334872158161201676, 55414226495467587773),
     (36992213137341919324, 67292216920130956077),
     (54550336783698281135, 81370815281977910074),
     (79763664563805009138, 67469192261593674802),
     (54837643690430381454, 62349857052279774262),
     (46831566817501112499, 45784678597091914417),
     (25252716515088667994, 67757912201027979527),
     (55307979765329348832, 54239862568721888593),
     (35440914905191519873, 78736815883787308320),
     (74683293108775994445, 15592101337409748915),
     (2928714660305011380, 78993896443940410485),
     (75171780396126389047, 44829545556225571394),
     (24210091815870791431, 70896942400627800573),
     (60551202865376820050, 7592345649698154679),
     (694415980934781610, 75968000762953193511),
     (69523104720145626300, 40733238329029927221),
     (19987829687688213753, 83010348331692982272)]"

lemma zp_chain_checks: "sq_chain zp_order 1953125 zp_chain (zp_order - 1)"
  unfolding zp_chain_def zp_order_def by simp

lemma proth_prime_int:
  assumes "(c :: int) ^ 2 ^ m mod p = p - 1" and "0 \<le> c"
    and "nat p = k * 2 ^ Suc m + 1" "k < 2 ^ Suc m" "1 < p" and "d dvd nat p"
  shows "d = 1 \<or> d = nat p"
proof (rule proth_prime [OF assms(3,4) _ _ assms(6)])
  show "1 < nat p" using assms(5) by simp
  have "int (nat c ^ 2 ^ m mod nat p) = int (nat p - 1)"
    using assms(1,2,5) by (simp add: zmod_int)
  then show "nat c ^ 2 ^ m mod nat p = nat p - 1"
    by (simp only: of_nat_eq_iff)
qed

lemma zp_order_divisor: "d dvd nat zp_order \<Longrightarrow> d = 1 \<or> d = nat zp_order"
proof (rule proth_prime_int)
  have "(zp_order - 1) mod zp_order = zp_order - 1" by (simp add: zp_order_def)
  with sq_chain_power [OF zp_chain_checks]
  show "1953125 ^ 2 ^ length zp_chain mod zp_order = zp_order - 1" by (simp only:)
  have len: "length zp_chain = 62" by (simp add: zp_chain_def)
  show "nat zp_order = 9 * 2 ^ Suc (length zp_chain) + 1" and "(9::nat) < 2 ^ Suc (length zp_chain)"
    unfolding len by (simp_all add: zp_order_def)
qed (simp_all add: zp_order_def)

lemma zp_order_coprime:
  assumes "0 < a" and "a < zp_order"
  shows "gcd (nat a) (nat zp_order) = 1"
proof -
  have "gcd (nat a) (nat zp_order) \<noteq> nat zp_order"
  proof
    assume "gcd (nat a) (nat zp_order) = nat zp_order"
    then have "nat zp_order dvd nat a" by (metis gcd_dvd1)
    then have "nat zp_order \<le> nat a" using assms(1) by (intro dvd_imp_le) auto
    with assms show False by simp
  qed
  then show ?thesis using zp_order_divisor [of "gcd (nat a) (nat zp_order)"] by auto
qed

section \<open>The field\<close>

typedef zp = "{0..<zp_order}"
  by (rule exI [of _ 0]) (simp add: zp_order_def)

setup_lifting type_definition_zp

lemma zp_order_pos [simp]: "0 < zp_order"
  by (simp add: zp_order_def)

instantiation zp :: field
begin

lift_definition zero_zp :: zp is 0 by simp
lift_definition one_zp :: zp is 1 by (simp add: zp_order_def)
lift_definition plus_zp :: "zp \<Rightarrow> zp \<Rightarrow> zp" is "\<lambda>a b. (a + b) mod zp_order" by simp
lift_definition minus_zp :: "zp \<Rightarrow> zp \<Rightarrow> zp" is "\<lambda>a b. (a - b) mod zp_order" by simp
lift_definition uminus_zp :: "zp \<Rightarrow> zp" is "\<lambda>a. (- a) mod zp_order" by simp
lift_definition times_zp :: "zp \<Rightarrow> zp \<Rightarrow> zp" is "\<lambda>a b. (a * b) mod zp_order" by simp
lift_definition inverse_zp :: "zp \<Rightarrow> zp" is
  "\<lambda>a. if a = 0 then 0 else fst (bezw (nat a) (nat zp_order)) mod zp_order" by simp
definition divide_zp :: "zp \<Rightarrow> zp \<Rightarrow> zp" where "divide_zp a b = a * inverse b"

instance
proof
  fix a b c :: zp
  show "a * b * c = a * (b * c)" by transfer (simp add: mod_simps mult.assoc)
  show "a * b = b * a" by transfer (simp add: mult.commute)
  show "1 * a = a" by transfer simp
  show "a + b + c = a + (b + c)" by transfer (simp add: mod_simps add.assoc)
  show "a + b = b + a" by transfer (simp add: add.commute)
  show "0 + a = a" by transfer simp
  show "- a + a = 0" by transfer (simp add: mod_simps)
  show "a - b = a + - b" by transfer (simp add: mod_simps)
  show "(a + b) * c = a * c + b * c" by transfer (simp add: mod_simps distrib_right)
  show "(0::zp) \<noteq> 1" by transfer simp
  show "a \<noteq> 0 \<Longrightarrow> inverse a * a = 1"
  proof transfer
    fix a :: int
    assume a: "a \<in> {0..<zp_order}" "a \<noteq> 0"
    let ?u = "bezw (nat a) (nat zp_order)"
    have "fst ?u * a + snd ?u * zp_order = 1"
      using bezw_aux [of "nat a" "nat zp_order"] zp_order_coprime [of a] a by simp
    then have "fst ?u * a = 1 + zp_order * (- snd ?u)" by (simp add: algebra_simps)
    then have "fst ?u * a mod zp_order = 1"
      by (simp only: mod_mult_self2) (simp add: zp_order_def)
    then show "(if a = 0 then 0 else fst ?u mod zp_order) * a mod zp_order = 1"
      using a by (simp add: mod_simps)
  qed
  show "a div b = a * inverse b" by (simp add: divide_zp_def)
  show "inverse (0::zp) = 0" by transfer simp
qed

end

section \<open>The instance\<close>

lift_definition zp_of_int :: "int \<Rightarrow> zp" is "\<lambda>n. n mod zp_order" by simp

definition zp_bytes :: "zp \<Rightarrow> bytes" where
  "zp_bytes x = nat_to_le 32 (nat (Rep_zp x))"

definition zp_of_bytes :: "bytes \<Rightarrow> zp" where
  "zp_of_bytes bs = zp_of_int (int (le_to_nat bs))"

definition zp_canonical :: "bytes \<Rightarrow> zp option" where
  "zp_canonical bs =
     (if length bs = 32 \<and> int (le_to_nat bs) < zp_order then Some (zp_of_bytes bs) else None)"

text \<open>A stand-in digest of any length: the code relies on no other property of its hashes.\<close>

definition zp_digest :: "nat \<Rightarrow> bytes \<Rightarrow> bytes" where
  "zp_digest n bs = nat_to_le n (sum_list (map2 (\<lambda>i b. (i + 1) * (unat b + 1)) [0..<length bs] bs))"

definition zp_prims :: "(zp, zp) prims" where
  "zp_prims = \<lparr>
     smul = (*), basepoint = 1,
     multiscalar_mul = (\<lambda>ss Ps. sum_list (map2 (*) ss Ps)),
     compress = zp_bytes, decompress = zp_canonical,
     from_uniform_bytes = zp_of_bytes, hash_from_bytes = zp_of_bytes,
     scalar_of_u64 = (\<lambda>v. of_nat (unat v)),
     scalar_bytes = zp_bytes, from_canonical_bytes = zp_canonical,
     from_bytes_mod_order = zp_of_bytes, from_bytes_mod_order_wide = zp_of_bytes,
     sha256 = zp_digest 32, sha512 = zp_digest 64, shake256 = (\<lambda>bs n. zp_digest n bs)\<rparr>"

lemma Rep_zp_range: "0 \<le> Rep_zp x" "Rep_zp x < zp_order"
  using Rep_zp [of x] by auto

lemma zp_of_int_Rep: "zp_of_int (Rep_zp x) = x"
  by transfer simp

lemma zp_of_int_eq [simp]: "zp_of_int 0 = 0" "zp_of_int 1 = 1"
  by (transfer, simp add: zp_order_def)+

lemma le_to_nat_zp_bytes: "int (le_to_nat (zp_bytes x)) = Rep_zp x"
proof -
  have "nat (Rep_zp x) < 256 ^ 32"
    using Rep_zp_range [of x] by (simp add: zp_order_def nat_less_iff)
  then show ?thesis
    using Rep_zp_range [of x] by (simp add: zp_bytes_def)
qed

lemma zp_canonical_bytes: "zp_canonical (zp_bytes x) = Some x"
  using Rep_zp_range [of x]
  by (simp add: zp_canonical_def zp_of_bytes_def le_to_nat_zp_bytes zp_of_int_Rep) (simp add: zp_bytes_def)

lemma zp_bytes_canonical: "zp_canonical bs = Some x \<Longrightarrow> zp_bytes x = bs"
proof -
  assume "zp_canonical bs = Some x"
  then have len: "length bs = 32" and less: "int (le_to_nat bs) < zp_order" and x: "x = zp_of_bytes bs"
    by (auto simp: zp_canonical_def split: if_splits)
  have "Rep_zp x = int (le_to_nat bs)"
    using less by (simp add: x zp_of_bytes_def zp_of_int.rep_eq)
  then show "zp_bytes x = bs"
    by (simp add: zp_bytes_def nat_to_le_le_to_nat len)
qed

lemma Rep_of_nat_zp: "Rep_zp (of_nat n) = int n mod zp_order"
proof (induction n)
  case (Suc n)
  then show ?case by (simp add: plus_zp.rep_eq one_zp.rep_eq mod_simps add.commute)
qed (simp add: zero_zp.rep_eq)

lemma of_nat_zp_inject: "int n < zp_order \<Longrightarrow> int k < zp_order \<Longrightarrow> (of_nat n :: zp) = of_nat k \<Longrightarrow> n = k"
  by (metis Rep_of_nat_zp mod_pos_pos_trivial of_nat_0_le_iff of_nat_eq_iff)

lemma u64_below_zp_order: "int (unat (v :: u64)) < zp_order"
  using unsigned_less [of v, where ?'a = int] by (simp add: zp_order_def)

lemma length_zp_bytes: "length (zp_bytes x) = 32"
  by (simp add: zp_bytes_def)

interpretation zp: ristretto zp_prims
proof unfold_locales
  fix v w :: u64
  show "of_nat (unat v) = (of_nat (unat w) :: zp) \<Longrightarrow> v = w"
    using of_nat_zp_inject [OF u64_below_zp_order u64_below_zp_order] by (simp add: unat_word_inject)
next
  fix x :: zp
  show "from_bytes_mod_order zp_prims (scalar_bytes zp_prims x) = x"
    by (simp add: zp_prims_def zp_of_bytes_def le_to_nat_zp_bytes zp_of_int_Rep)
qed (auto simp: zp_prims_def algebra_simps zp_canonical_bytes zp_bytes_canonical length_zp_bytes
    zp_digest_def)

end
