(* ===== verification/Interpolation.thy ===== *)
theory Interpolation
  imports Prelude
begin

text \<open>
  Lagrange interpolation over an arbitrary field, for polynomials given as coefficient lists: the
  mathematics under the secret sharing, the threshold signatures and the key generation. The
  loops of the code that multiply a basis value up are related to products over sets here once.
\<close>

section \<open>Polynomials as coefficient lists\<close>

fun poly_eval :: "'a::field list \<Rightarrow> 'a \<Rightarrow> 'a" where
  "poly_eval [] x = 0"
| "poly_eval (c # cs) x = c + x * poly_eval cs x"

definition polyfun :: "nat \<Rightarrow> ('a::field \<Rightarrow> 'a) \<Rightarrow> bool" where
  "polyfun n f \<longleftrightarrow> (\<exists>cs. length cs = n \<and> f = poly_eval cs)"

lemma poly_eval_zero: "poly_eval cs 0 = (case cs of [] \<Rightarrow> 0 | c # _ \<Rightarrow> c)"
  by (cases cs) auto

lemma poly_eval_replicate [simp]: "poly_eval (replicate n 0) x = 0"
  by (induction n) auto

lemma poly_eval_add: "length cs = length ds \<Longrightarrow> poly_eval (map2 (+) cs ds) x = poly_eval cs x + poly_eval ds x"
  by (induction cs ds rule: list_induct2) (auto simp: algebra_simps)

lemma poly_eval_scale: "poly_eval (map ((*) a) cs) x = a * poly_eval cs x"
  by (induction cs) (auto simp: algebra_simps)

lemma poly_eval_append: "poly_eval (cs @ ds) x = poly_eval cs x + x ^ length cs * poly_eval ds x"
  by (induction cs) (auto simp: algebra_simps)

lemma polyfun_poly_eval [intro]: "length cs = n \<Longrightarrow> polyfun n (poly_eval cs)"
  by (auto simp: polyfun_def)

lemma polyfun_zero: "polyfun n (\<lambda>x. 0)"
  unfolding polyfun_def by (rule exI [of _ "replicate n 0"]) auto

lemma polyfun_add: "polyfun n f \<Longrightarrow> polyfun n g \<Longrightarrow> polyfun n (\<lambda>x. f x + g x)"
proof -
  assume "polyfun n f" and "polyfun n g"
  then obtain cs ds where "length cs = n" "f = poly_eval cs" "length ds = n" "g = poly_eval ds"
    by (auto simp: polyfun_def)
  then show ?thesis
    unfolding polyfun_def by (intro exI [of _ "map2 (+) cs ds"]) (auto simp: poly_eval_add)
qed

lemma polyfun_scale: "polyfun n f \<Longrightarrow> polyfun n (\<lambda>x. a * f x)"
proof -
  assume "polyfun n f"
  then obtain cs where "length cs = n" "f = poly_eval cs"
    by (auto simp: polyfun_def)
  then show ?thesis
    unfolding polyfun_def by (intro exI [of _ "map ((*) a) cs"]) (auto simp: poly_eval_scale)
qed

lemma polyfun_Suc: "polyfun n f \<Longrightarrow> polyfun (Suc n) (\<lambda>x. c + x * f x)"
proof -
  assume "polyfun n f"
  then obtain cs where "length cs = n" "f = poly_eval cs"
    by (auto simp: polyfun_def)
  then show ?thesis
    unfolding polyfun_def by (intro exI [of _ "c # cs"]) auto
qed

lemma polyfun_mono: "polyfun n f \<Longrightarrow> n \<le> m \<Longrightarrow> polyfun m f"
proof -
  assume "polyfun n f" and "n \<le> m"
  then obtain cs where "length cs = n" "f = poly_eval cs"
    by (auto simp: polyfun_def)
  with \<open>n \<le> m\<close> show ?thesis
    unfolding polyfun_def
    by (intro exI [of _ "cs @ replicate (m - n) 0"]) (auto simp: poly_eval_append)
qed

lemma polyfun_mult_linear: "polyfun n f \<Longrightarrow> polyfun (Suc n) (\<lambda>x. (x - a) * f x)"
proof -
  assume f: "polyfun n f"
  have "polyfun (Suc n) (\<lambda>x. (0 + x * f x) + (- a) * f x)"
    by (intro polyfun_add polyfun_Suc polyfun_scale f polyfun_mono [OF f]) auto
  then show ?thesis
    by (simp add: algebra_simps)
qed

lemma polyfun_sum: "finite A \<Longrightarrow> (\<And>i. i \<in> A \<Longrightarrow> polyfun n (f i)) \<Longrightarrow> polyfun n (\<lambda>x. \<Sum>i\<in>A. f i x)"
  by (induction A rule: finite_induct) (auto intro: polyfun_zero polyfun_add)

lemma polyfun_prod_linear: "finite A \<Longrightarrow> polyfun (Suc (card A)) (\<lambda>x. \<Prod>j\<in>A. (x - j) / d j)"
proof (induction A rule: finite_induct)
  case empty
  then show ?case using polyfun_Suc [OF polyfun_zero [of 0], of 1] by simp
next
  case (insert a A)
  then have "polyfun (Suc (Suc (card A))) (\<lambda>x. (1 / d a) * ((x - a) * (\<Prod>j\<in>A. (x - j) / d j)))"
    by (intro polyfun_scale polyfun_mult_linear)
  with insert show ?case
    by (simp add: field_simps)
qed

section \<open>Roots\<close>

lemma polyfun_factor:
  "polyfun (Suc n) f \<Longrightarrow> \<exists>g. polyfun n g \<and> (\<forall>x. f x = f a + (x - a) * g x)"
proof (induction n arbitrary: f)
  case 0
  then obtain c where "f = (\<lambda>x. c)"
    by (auto simp: polyfun_def length_Suc_conv fun_eq_iff)
  then show ?case
    by (intro exI [of _ "\<lambda>x. 0"]) (auto simp: polyfun_zero)
next
  case (Suc n)
  then obtain ds where "length ds = Suc (Suc n)" "f = poly_eval ds"
    by (auto simp: polyfun_def)
  then obtain c cs where f: "length cs = Suc n" "f = (\<lambda>x. c + x * poly_eval cs x)"
    by (cases ds) (auto simp: fun_eq_iff)
  then have "polyfun (Suc n) (poly_eval cs)" by auto
  from Suc.IH [OF this] obtain h where
    h: "polyfun n h" "\<And>x. poly_eval cs x = poly_eval cs a + (x - a) * h x" by blast
  have "f x = f a + (x - a) * (poly_eval cs a + x * h x)" for x
    unfolding f by (subst h(2) [of x]) (simp add: algebra_simps)
  moreover have "polyfun (Suc n) (\<lambda>x. poly_eval cs a + x * h x)"
    using h(1) by (rule polyfun_Suc)
  ultimately show ?case by blast
qed

lemma polyfun_roots:
  "polyfun n f \<Longrightarrow> finite A \<Longrightarrow> n \<le> card A \<Longrightarrow> (\<And>a. a \<in> A \<Longrightarrow> f a = 0) \<Longrightarrow> f x = 0"
proof (induction n arbitrary: f A)
  case 0
  then show ?case by (auto simp: polyfun_def)
next
  case (Suc n)
  then obtain a where a: "a \<in> A" by fastforce
  obtain g where g: "polyfun n g" "\<And>x. f x = f a + (x - a) * g x"
    using polyfun_factor [OF Suc.prems(1)] by blast
  have "g b = 0" if "b \<in> A - {a}" for b
    using that Suc.prems(4) [of b] Suc.prems(4) [OF a] g(2) [of b] by auto
  with Suc.IH [OF g(1), of "A - {a}"] Suc.prems a have "g x = 0"
    by (auto simp: card_Diff_singleton)
  then show ?case
    using g(2) [of x] Suc.prems(4) [OF a] by simp
qed

lemma polyfun_unique:
  assumes "polyfun n f" and "polyfun n g" and "finite A" and "n \<le> card A"
    and "\<And>a. a \<in> A \<Longrightarrow> f a = g a"
  shows "f x = g x"
proof -
  have "polyfun n (\<lambda>x. f x + (- 1) * g x)"
    by (intro polyfun_add polyfun_scale assms)
  from polyfun_roots [OF this assms(3,4)] assms(5) show ?thesis by simp
qed

text \<open>A coefficient list is determined by its values at as many points as it has coefficients.\<close>

lemma poly_eval_inject:
  fixes A :: "'a::field set"
  assumes "length cs = length ds" and "finite A" and "length cs \<le> card A"
    and "\<And>a. a \<in> A \<Longrightarrow> poly_eval cs a = poly_eval ds a"
  shows "cs = ds"
  using assms
proof (induction cs ds arbitrary: A rule: list_induct2)
  case (Cons c cs d ds)
  have eq: "poly_eval (c # cs) x = poly_eval (d # ds) x" for x
    by (rule polyfun_unique [of "length (c # cs)" "poly_eval (c # cs)" "poly_eval (d # ds)" A])
      (use Cons.prems Cons.hyps in auto)
  have "c = d" using eq [of 0] by simp
  have "cs = ds"
  proof (rule Cons.IH [of "A - {0}"])
    have "Suc (length cs) \<le> card A" using Cons.prems by simp
    moreover have "card A \<le> Suc (card (A - {0}))"
      using card_Suc_Diff1 [OF Cons.prems(1), of 0] by (cases "0 \<in> A") auto
    ultimately show "length cs \<le> card (A - {0})" by simp
  qed (use Cons.prems eq \<open>c = d\<close> in auto)
  with \<open>c = d\<close> show ?case by simp
qed simp

section \<open>Interpolation\<close>

definition lagrange :: "'a::field set \<Rightarrow> 'a \<Rightarrow> 'a \<Rightarrow> 'a" where
  "lagrange A i x = (\<Prod>j\<in>A - {i}. (x - j) / (i - j))"

lemma lagrange_same: "lagrange A i i = 1"
  unfolding lagrange_def by (rule prod.neutral) auto

lemma lagrange_other: "finite A \<Longrightarrow> a \<in> A \<Longrightarrow> a \<noteq> i \<Longrightarrow> lagrange A i a = 0"
  by (auto simp: lagrange_def prod_zero_iff intro!: bexI [of _ a])

lemma polyfun_interpolation:
  assumes "finite A"
  shows "polyfun (card A) (\<lambda>x. \<Sum>i\<in>A. y i * lagrange A i x)"
proof (rule polyfun_sum [OF assms])
  fix i assume "i \<in> A"
  then have "Suc (card (A - {i})) = card A"
    using assms by (metis card_Suc_Diff1)
  then have "polyfun (card A) (lagrange A i)"
    using polyfun_prod_linear [of "A - {i}" "\<lambda>j. i - j"] assms by (simp add: lagrange_def [abs_def])
  then show "polyfun (card A) (\<lambda>x. y i * lagrange A i x)" by (rule polyfun_scale)
qed

lemma interpolation_value:
  assumes "finite A" and "a \<in> A"
  shows "(\<Sum>i\<in>A. y i * lagrange A i a) = y a"
proof -
  have "(\<Sum>i\<in>A. y i * lagrange A i a) = (\<Sum>i\<in>A. if i = a then y a else 0)"
    using assms by (intro sum.cong) (auto simp: lagrange_same lagrange_other)
  then show ?thesis using assms by simp
qed

theorem interpolation:
  assumes "polyfun n f" and "finite A" and "n \<le> card A"
  shows "(\<Sum>i\<in>A. f i * lagrange A i x) = f x"
proof (rule polyfun_unique [of "card A" "\<lambda>x. \<Sum>i\<in>A. f i * lagrange A i x" f A])
  show "polyfun (card A) f" using assms by (intro polyfun_mono [OF assms(1)])
qed (use assms in \<open>auto simp: interpolation_value polyfun_interpolation\<close>)

text \<open>Any values at a set of points are taken by a coefficient list of that size.\<close>

lemma interpolation_exists:
  assumes "finite A"
  shows "\<exists>cs. length cs = card A \<and> (\<forall>a\<in>A. poly_eval cs a = y a)"
proof -
  obtain cs where cs: "length cs = card A" "(\<lambda>x. \<Sum>i\<in>A. y i * lagrange A i x) = poly_eval cs"
    using polyfun_interpolation [OF assms, of y] by (auto simp: polyfun_def)
  moreover have "poly_eval cs a = y a" if "a \<in> A" for a
    using interpolation_value [OF assms that, of y] cs(2) by metis
  ultimately show ?thesis by blast
qed

section \<open>The loops of the code\<close>

text \<open>A running product that skips one index.\<close>

lemma foldl_mult_skip:
  assumes "distinct js"
  shows "foldl (\<lambda>b j. if i = j then b else b * h j) b js = b * (\<Prod>j\<in>set js - {i}. h j)"
  using assms
proof (induction js arbitrary: b)
  case (Cons j js)
  show ?case
  proof (cases "i = j")
    case True
    with Cons have "set (j # js) - {i} = set js - {i}" and "i \<notin> set js" by auto
    with True Cons show ?thesis by simp
  next
    case False
    with Cons have "set (j # js) - {i} = insert j (set js - {i})" and "j \<notin> set js - {i}" by auto
    with False Cons show ?thesis by (simp add: mult.assoc)
  qed
qed simp

lemma lagrange_zero_image:
  assumes "inj_on x I" and "i \<in> I"
  shows "(\<Prod>j\<in>I - {i}. - x j * inverse (x i - x j)) = lagrange (x ` I) (x i) 0"
proof -
  have "x ` I - {x i} = x ` (I - {i})"
    using assms by (auto simp: inj_on_def)
  moreover have "inj_on x (I - {i})"
    using assms(1) by (rule inj_on_subset) auto
  ultimately show ?thesis
    unfolding lagrange_def by (simp add: prod.reindex divide_inverse)
qed

end
