(* ===== verification/Shamir.thy ===== *)
theory Shamir
  imports Prime_Field Interpolation
begin

text \<open>
  \<^verbatim>\<open>specter-primitives/src/scalar_utils.rs\<close> and \<^verbatim>\<open>shamir.rs\<close>: random scalars, the scalar hash,
  and secret sharing. The lemmas relate the evaluation and reconstruction loops to interpolation;
  the properties are that any quorum of distinct shares gives the secret back and that fewer
  shares say nothing about it.
\<close>

section \<open>Scalars\<close>

definition random_scalar :: "('s, 'p) prims \<Rightarrow> rng \<Rightarrow> 's \<times> rng" where
  "random_scalar R g = (let (bs, g') = fill_bytes 64 g in (from_bytes_mod_order_wide R bs, g'))"

fun random_scalars :: "('s, 'p) prims \<Rightarrow> nat \<Rightarrow> rng \<Rightarrow> 's list \<times> rng" where
  "random_scalars R 0 g = ([], g)"
| "random_scalars R (Suc n) g =
     (let (x, g) = random_scalar R g; (xs, g) = random_scalars R n g in (x # xs, g))"

definition scalar_from_u64 :: "('s, 'p) prims \<Rightarrow> u64 \<Rightarrow> 's" where
  "scalar_from_u64 R v = scalar_of_u64 R v"

definition hash_to_scalar :: "('s, 'p) prims \<Rightarrow> bytes \<Rightarrow> 's" where
  "hash_to_scalar R data =
     from_bytes_mod_order_wide R
       (shake256 R (ascii ''specter-hash-to-scalar:'' @ len_le data @ data) 64)"

lemma length_random_scalars [simp]: "random_scalars R n g = (xs, g') \<Longrightarrow> length xs = n"
  by (induction n arbitrary: g xs g') (auto simp: Let_def split: prod.splits)

section \<open>Splitting and reconstructing\<close>

record 's share =
  share_x :: 's
  share_y :: 's

datatype shamir_error =
    ZeroThreshold
  | ThresholdExceedsTotal nat nat
  | ZeroShares

fun show_shamir_error :: "shamir_error \<Rightarrow> string" where
  "show_shamir_error ZeroThreshold = ''threshold must be > 0''"
| "show_shamir_error (ThresholdExceedsTotal t n) =
     ''threshold ('' @ show_nat t @ '') must be <= total shares ('' @ show_nat n @ '')''"
| "show_shamir_error ZeroShares = ''total shares must be > 0''"

definition evaluate_polynomial :: "'s::field list \<Rightarrow> 's \<Rightarrow> 's" where
  "evaluate_polynomial coefficients x =
     fst (foldl (\<lambda>(result, x_power) coeff. (result + coeff * x_power, x_power * x)) (0, 1) coefficients)"

definition polynomial_shares :: "('s::field, 'p) prims \<Rightarrow> 's list \<Rightarrow> nat \<Rightarrow> 's share list" where
  "polynomial_shares R coefficients n =
     map (\<lambda>i. let x = scalar_of_u64 R (of_nat i)
              in \<lparr>share_x = x, share_y = evaluate_polynomial coefficients x\<rparr>) [1..<n + 1]"

definition split_secret ::
  "('s::field, 'p) prims \<Rightarrow> 's \<Rightarrow> nat \<Rightarrow> nat \<Rightarrow> rng \<Rightarrow> ('s share list, shamir_error) result \<times> rng" where
  "split_secret R secret t n g =
     (if t = 0 then (Err ZeroThreshold, g)
      else if n = 0 then (Err ZeroShares, g)
      else if n < t then (Err (ThresholdExceedsTotal t n), g)
      else let (rest, g) = random_scalars R (t - 1) g
           in (Ok (polynomial_shares R (secret # rest) n), g))"

definition has_duplicate_x :: "'s share list \<Rightarrow> bool" where
  "has_duplicate_x shares \<longleftrightarrow>
     list_ex (\<lambda>i. list_ex (\<lambda>j. share_x (shares ! i) = share_x (shares ! j)) [i + 1..<length shares])
       [0..<length shares]"

definition lagrange_basis :: "'s::field share list \<Rightarrow> nat \<Rightarrow> 's" where
  "lagrange_basis shares i =
     foldl (\<lambda>basis j.
         if i = j then basis
         else basis * (- share_x (shares ! j) * inverse (share_x (shares ! i) - share_x (shares ! j))))
       1 [0..<length shares]"

definition reconstruct_secret :: "'s::field share list \<Rightarrow> 's option" where
  "reconstruct_secret shares =
     (if shares = [] then None
      else if has_duplicate_x shares then None
      else Some (foldl (\<lambda>secret i. secret + share_y (shares ! i) * lagrange_basis shares i)
                   0 [0..<length shares]))"

section \<open>The loops as polynomials\<close>

lemma evaluate_polynomial_eq: "evaluate_polynomial cs x = poly_eval cs x"
proof -
  have "fst (foldl (\<lambda>(result, x_power) coeff. (result + coeff * x_power, x_power * x)) (r, p) cs)
        = r + p * poly_eval cs x" for r p
    by (induction cs arbitrary: r p) (auto simp: algebra_simps)
  from this [of 0 1] show ?thesis by (simp add: evaluate_polynomial_def)
qed

lemma has_duplicate_x_iff: "has_duplicate_x shares \<longleftrightarrow> \<not> distinct (map share_x shares)"
proof -
  have "has_duplicate_x shares \<longleftrightarrow> (\<exists>i j. i < j \<and> j < length shares \<and>
      map share_x shares ! i = map share_x shares ! j)"
  proof
    assume "has_duplicate_x shares"
    then obtain i j where "i < length shares" "i + 1 \<le> j" "j < length shares"
        "share_x (shares ! i) = share_x (shares ! j)"
      unfolding has_duplicate_x_def list_ex_iff by auto
    then show "\<exists>i j. i < j \<and> j < length shares \<and> map share_x shares ! i = map share_x shares ! j"
      by (intro exI [of _ i] exI [of _ j]) auto
  next
    assume "\<exists>i j. i < j \<and> j < length shares \<and> map share_x shares ! i = map share_x shares ! j"
    then obtain i j where "i < j" "j < length shares" "share_x (shares ! i) = share_x (shares ! j)"
      by auto
    then show "has_duplicate_x shares"
      unfolding has_duplicate_x_def list_ex_iff by (intro bexI [of _ i] bexI [of _ j]) auto
  qed
  then show ?thesis by (simp add: not_distinct_nth)
qed

lemma lagrange_basis_eq:
  assumes "distinct (map share_x shares)" and "i < length shares"
  shows "lagrange_basis shares i = lagrange (set (map share_x shares)) (share_x (shares ! i)) 0"
proof -
  let ?x = "\<lambda>j. share_x (shares ! j)"
  have inj: "inj_on ?x {0..<length shares}"
    using inj_on_nth [OF assms(1), of "{0..<length shares}"] by (simp add: inj_on_def)
  have img: "?x ` {0..<length shares} = set (map share_x shares)"
    using nth_image [of "length shares" shares] by (metis image_image order_refl set_map take_all)
  show ?thesis
    using lagrange_zero_image [OF inj, of i] assms(2)
    by (simp add: lagrange_basis_def foldl_mult_skip img)
qed

text \<open>Whatever distinct shares lie on a short enough polynomial, its constant term comes out.\<close>

lemma reconstruct_polynomial:
  assumes "distinct (map share_x shares)" and "shares \<noteq> []" and "length cs \<le> length shares"
    and on: "\<And>s. s \<in> set shares \<Longrightarrow> share_y s = poly_eval cs (share_x s)"
  shows "reconstruct_secret shares = Some (poly_eval cs 0)"
proof -
  let ?A = "set (map share_x shares)"
  let ?f = "\<lambda>a. poly_eval cs a * lagrange ?A a 0"
  have "foldl (\<lambda>secret i. secret + share_y (shares ! i) * lagrange_basis shares i) 0 [0..<length shares]
        = (\<Sum>i\<leftarrow>[0..<length shares]. share_y (shares ! i) * lagrange_basis shares i)"
    by (simp add: foldl_add_map)
  also have "\<dots> = (\<Sum>i\<leftarrow>[0..<length shares]. ?f (share_x (shares ! i)))"
    by (rule arg_cong [where f = sum_list], rule map_cong)
      (auto simp: lagrange_basis_eq assms(1) on)
  also have "\<dots> = (\<Sum>a\<leftarrow>map share_x shares. ?f a)"
    by (metis (no_types, lifting) map_map comp_apply map_nth map_cong)
  also have "\<dots> = (\<Sum>a\<in>?A. ?f a)"
    by (rule sum_list_distinct_conv_sum_set [OF assms(1)])
  also have "\<dots> = poly_eval cs 0"
    by (rule interpolation [of "length cs"]) (use assms distinct_card [OF assms(1)] in auto)
  finally show ?thesis
    using assms by (simp add: reconstruct_secret_def has_duplicate_x_iff)
qed

context ristretto_group
begin

lemma scalar_of_nat_inject:
  assumes "i < 2 ^ 64" and "j < 2 ^ 64"
  shows "scalar_of_u64 R (of_nat i) = scalar_of_u64 R (of_nat j) \<longleftrightarrow> i = j"
  using assms by (simp add: u64_of_nat_inject)

lemma scalar_of_nat_nonzero: "0 < i \<Longrightarrow> i < 2 ^ 64 \<Longrightarrow> scalar_of_u64 R (of_nat i) \<noteq> 0"
  using scalar_of_nat_inject [of i 0] by (simp add: scalar_of_u64_of_nat [of 0])

lemma polynomial_shares_distinct:
  assumes "n < 2 ^ 64" and "distinct chosen" and "set chosen \<subseteq> set (polynomial_shares R cs n)"
  shows "distinct (map share_x chosen)"
proof -
  have "inj_on share_x (set (polynomial_shares R cs n))"
    by (auto simp: inj_on_def polynomial_shares_def Let_def)
  with assms show ?thesis
    by (simp add: distinct_map inj_on_subset)
qed

end

lemma polynomial_shares_on:
  "s \<in> set (polynomial_shares R cs n) \<Longrightarrow> share_y s = poly_eval cs (share_x s)"
  by (auto simp: polynomial_shares_def Let_def evaluate_polynomial_eq)

lemma polynomial_shares_nth_eq:
  "i < n \<Longrightarrow> polynomial_shares R cs n ! i = polynomial_shares R ds n ! i \<longleftrightarrow>
    poly_eval cs (scalar_of_u64 R (of_nat (Suc i))) = poly_eval ds (scalar_of_u64 R (of_nat (Suc i)))"
  by (simp add: polynomial_shares_def Let_def evaluate_polynomial_eq del: upt_Suc of_nat_Suc)

context ristretto_group
begin

lemma same_shares_other_secret:
  assumes "n < 2 ^ 64" and "C \<subseteq> {..<n}" and "card C = length rest"
  shows "\<exists>!rest'. length rest' = length rest \<and>
    (\<forall>i\<in>C. polynomial_shares R (secret' # rest') n ! i = polynomial_shares R (secret # rest) n ! i)"
proof -
  let ?x = "\<lambda>i. scalar_of_u64 R (of_nat (Suc i)) :: 's"
  let ?same = "\<lambda>ds. \<forall>i\<in>C. poly_eval ds (?x i) = poly_eval (secret # rest) (?x i)"
  have same: "(\<forall>i\<in>C. polynomial_shares R ds n ! i = polynomial_shares R (secret # rest) n ! i) \<longleftrightarrow> ?same ds"
    for ds using assms(2) polynomial_shares_nth_eq by (metis lessThan_iff subsetD)
  let ?A = "insert 0 (?x ` C)"
  have fin: "finite C" using assms(2) finite_subset by blast
  have bound: "Suc i < 2 ^ 64" if "i \<in> C" for i
    using assms(1,2) that by (meson Suc_le_eq le_less_trans lessThan_iff subsetD)
  have "inj_on ?x C"
    by (rule inj_onI) (metis bound scalar_of_nat_inject old.nat.inject)
  moreover have "0 \<notin> ?x ` C"
    using bound scalar_of_nat_nonzero by fastforce
  ultimately have card: "card ?A = Suc (length rest)"
    using fin assms(3) by (simp add: card_image del: of_nat_Suc)
  obtain ds where ds: "length ds = card ?A"
      "\<forall>a\<in>?A. poly_eval ds a = (if a = 0 then secret' else poly_eval (secret # rest) a)"
    using interpolation_exists [of ?A "\<lambda>a. if a = 0 then secret' else poly_eval (secret # rest) a"] fin
    by blast
  then obtain c rest' where d: "ds = c # rest'" unfolding card by (cases ds) auto
  with ds have "c = secret'" by auto
  show ?thesis
    unfolding same
  proof (rule ex1I [of _ rest'])
    show 1: "length rest' = length rest \<and> ?same (secret' # rest')"
      using ds d \<open>c = secret'\<close> \<open>0 \<notin> ?x ` C\<close> unfolding card by (auto simp del: of_nat_Suc)
    fix other assume other: "length other = length rest \<and> ?same (secret' # other)"
    have "poly_eval (secret' # other) a = poly_eval (secret' # rest') a" if "a \<in> ?A" for a
    proof (cases "a = 0")
      case False
      with that obtain i where "i \<in> C" "a = ?x i" by blast
      with 1 other show ?thesis by metis
    qed simp
    then have "secret' # other = secret' # rest'"
      by (intro poly_eval_inject [of _ _ ?A]) (use 1 other fin card in \<open>auto simp del: of_nat_Suc\<close>)
    then show "other = rest'" by simp
  qed
qed

end

lemma reconstruct_refuses_iff:
  "reconstruct_secret xs = None \<longleftrightarrow> xs = [] \<or> \<not> distinct (map share_x xs)"
  by (simp add: reconstruct_secret_def has_duplicate_x_iff)

lemma reconstruct_single: "reconstruct_secret [sh] = Some (share_y sh)"
  by (simp add: reconstruct_secret_def has_duplicate_x_iff lagrange_basis_def)

section \<open>Properties\<close>

text \<open>C14: \<^verbatim>\<open>split_secret\<close> succeeds for every threshold between one and the number of shares, and
  \<^verbatim>\<open>reconstruct_secret\<close> applied to any distinct shares, at least as many as the threshold and in any
  order, returns the secret that was split. It refuses exactly the empty slice and repeated
  x-coordinates. The comment at \<^verbatim>\<open>shamir.rs:87\<close> says it also refuses a single share; the code does
  not: one share is taken for the constant polynomial and its y-coordinate is returned, which is
  the secret when the threshold is one, and an unreported
  wrong answer in general.\<close>

theorem shamir_reconstructs:
  fixes R :: "('s::field, 'p::ab_group_add) prims"
  assumes "ristretto_group R" and "0 < t" and "t \<le> n" and "n < 2 ^ 64"
  shows "(\<exists>shares. fst (split_secret R secret t n g) = Ok shares \<and> length shares = n \<and>
      (\<forall>chosen. distinct chosen \<and> set chosen \<subseteq> set shares \<and> t \<le> length chosen \<longrightarrow>
         reconstruct_secret chosen = Some secret)) \<and>
    (\<forall>xs :: 's share list. reconstruct_secret xs = None \<longleftrightarrow> xs = [] \<or> \<not> distinct (map share_x xs)) \<and>
    (\<forall>sh :: 's share. reconstruct_secret [sh] = Some (share_y sh))"
proof -
  obtain rest g' where rest: "random_scalars R (t - 1) g = (rest, g')" by fastforce
  let ?shares = "polynomial_shares R (secret # rest) n"
  have "reconstruct_secret chosen = Some secret"
    if "distinct chosen" "set chosen \<subseteq> set ?shares" "t \<le> length chosen" for chosen
  proof -
    have "reconstruct_secret chosen = Some (poly_eval (secret # rest) 0)"
    proof (rule reconstruct_polynomial)
      show "distinct (map share_x chosen)"
        using ristretto_group.polynomial_shares_distinct [OF assms(1,4)] that by blast
    qed (use that assms rest in \<open>auto simp: polynomial_shares_on subset_iff\<close>)
    then show ?thesis by simp
  qed
  moreover have "fst (split_secret R secret t n g) = Ok ?shares"
    using assms rest by (simp add: split_secret_def)
  ultimately show ?thesis
    by (auto simp: polynomial_shares_def reconstruct_refuses_iff reconstruct_single)
qed

theorem shamir_reconstructs_witness:
  "(\<exists>shares. fst (split_secret zp_prims 42 3 5 (\<lambda>_. 7)) = Ok shares \<and> length shares = 5 \<and>
      (\<forall>chosen. distinct chosen \<and> set chosen \<subseteq> set shares \<and> 3 \<le> length chosen \<longrightarrow>
         reconstruct_secret chosen = Some 42)) \<and>
    reconstruct_secret [\<lparr>share_x = 1, share_y = 5\<rparr>] = Some (5 :: zp) \<and>
    reconstruct_secret ([] :: zp share list) = None"
  using shamir_reconstructs [OF zp.ristretto_group_axioms, of 3 5 42 "\<lambda>_. 7"] by simp

text \<open>A coalition of one share fewer than the threshold learns nothing: for every other candidate
  secret there is exactly one choice of the random coefficients under which the coalition holds the
  same shares.\<close>

lemma shamir_secrecy:
  assumes "ristretto_group R" and "n < 2 ^ 64" and "C \<subseteq> {..<n}" and "card C = length rest"
  shows "\<exists>!rest'. length rest' = length rest \<and>
    (\<forall>i\<in>C. polynomial_shares R (secret' # rest') n ! i = polynomial_shares R (secret # rest) n ! i)"
  using assms by (rule ristretto_group.same_shares_other_secret)

lemma shamir_secrecy_witness:
  "\<exists>!rest'. length rest' = 2 \<and>
    (\<forall>i\<in>{0, 3}. polynomial_shares zp_prims (17 # rest') 5 ! i = polynomial_shares zp_prims [42, 5, 9] 5 ! i)"
  using shamir_secrecy [OF zp.ristretto_group_axioms, of 5 "{0, 3}" "[5, 9]" 17 42]
  by (simp flip: numeral_2_eq_2)

end
