(* ===== verification/Pedersen.thy ===== *)
theory Pedersen
  imports Shamir
begin

text \<open>
  \<^verbatim>\<open>specter-primitives/src/pedersen.rs\<close> and \<^verbatim>\<open>hardened.rs\<close>: Pedersen commitments, the proof of a
  committed value, and the masked scalar multiplications. The commitment hides perfectly, two
  openings of one commitment give the discrete logarithm between the generators, and the value
  proof is complete and specially sound.
\<close>

section \<open>Commitments\<close>

record 'p pedersen_params =
  ped_g :: 'p
  ped_h :: 'p

definition hash_to_point :: "('s, 'p) prims \<Rightarrow> bytes \<Rightarrow> 'p" where
  "hash_to_point R label = from_uniform_bytes R (sha512 R label)"

definition pedersen_new :: "('s, 'p) prims \<Rightarrow> 'p pedersen_params" where
  "pedersen_new R =
     \<lparr>ped_g = hash_to_point R (ascii ''specter-pedersen-generator-G''),
      ped_h = hash_to_point R (ascii ''specter-pedersen-generator-H'')\<rparr>"

definition commit :: "('s, 'p) prims \<Rightarrow> 'p pedersen_params \<Rightarrow> 's \<Rightarrow> 's \<Rightarrow> 'p" where
  "commit R params v blinding = multiscalar_mul R [v, blinding] [ped_g params, ped_h params]"

definition verify_opening :: "('s, 'p) prims \<Rightarrow> 'p pedersen_params \<Rightarrow> 'p \<Rightarrow> 's \<Rightarrow> 's \<Rightarrow> bool" where
  "verify_opening R params commitment v blinding \<longleftrightarrow>
     compress R commitment = compress R (commit R params v blinding)"

definition vector_generator :: "('s, 'p) prims \<Rightarrow> nat \<Rightarrow> 'p" where
  "vector_generator R i = hash_to_point R (ascii (''specter-pedersen-vector-G-'' @ show_nat i))"

definition commit_vector :: "('s, 'p) prims \<Rightarrow> 'p pedersen_params \<Rightarrow> 's list \<Rightarrow> 's \<Rightarrow> 'p" where
  "commit_vector R params values blinding =
     multiscalar_mul R (values @ [blinding])
       (map (vector_generator R) [0..<length values] @ [ped_h params])"

section \<open>The proof of a committed value\<close>

record ('s, 'p) value_proof =
  vp_commitment :: 'p
  vp_response :: 's

definition value_proof_challenge :: "('s, 'p) prims \<Rightarrow> 'p \<Rightarrow> 'p \<Rightarrow> 's \<Rightarrow> 'p \<Rightarrow> 'p \<Rightarrow> 's" where
  "value_proof_challenge R h commitment claimed_value statement nonce =
     hash512 R (ascii ''specter-value-proof:'' @ compress R h @ compress R commitment @
       scalar_bytes R claimed_value @ compress R statement @ compress R nonce)"

definition prove_value ::
  "('s::field, 'p) prims \<Rightarrow> 'p pedersen_params \<Rightarrow> 's \<Rightarrow> 's \<Rightarrow> rng \<Rightarrow> ('s, 'p) value_proof \<times> rng" where
  "prove_value R params v blinding g =
     (let token_commitment = commit R params v blinding;
          (t, g) = random_scalar R g;
          t_commit = smul R t (ped_h params);
          challenge = value_proof_challenge R (ped_h params) token_commitment v
            (smul R blinding (ped_h params)) t_commit
      in (\<lparr>vp_commitment = t_commit, vp_response = t + challenge * blinding\<rparr>, g))"

definition verify_value_proof ::
  "('s, 'p::ab_group_add) prims \<Rightarrow> 'p pedersen_params \<Rightarrow> 'p \<Rightarrow> 's \<Rightarrow> ('s, 'p) value_proof \<Rightarrow> bool" where
  "verify_value_proof R params token_commitment claimed_value proof \<longleftrightarrow>
     (let c_minus_vg = token_commitment - smul R claimed_value (ped_g params);
          challenge = value_proof_challenge R (ped_h params) token_commitment claimed_value
            c_minus_vg (vp_commitment proof)
      in compress R (smul R (vp_response proof) (ped_h params)) =
         compress R (vp_commitment proof + smul R challenge c_minus_vg))"

section \<open>Masked scalar multiplication\<close>

definition blinded_scalar_mul ::
  "('s::field, 'p::ab_group_add) prims \<Rightarrow> 's \<Rightarrow> 'p \<Rightarrow> rng \<Rightarrow> 'p \<times> rng" where
  "blinded_scalar_mul R s p g =
     (let (m, g) = random_scalar R g; plus = smul R (s + m) p; minus = smul R m p
      in (plus - minus, g))"

definition blinded_vartime_double_scalar_mul ::
  "('s::field, 'p::ab_group_add) prims \<Rightarrow> 's \<Rightarrow> 'p \<Rightarrow> 's \<Rightarrow> 'p \<Rightarrow> rng \<Rightarrow> 'p \<times> rng" where
  "blinded_vartime_double_scalar_mul R a p b q g =
     (let (m, g) = random_scalar R g; plus = smul R (a + m) p; rhs = smul R b q; minus = smul R m p
      in (plus + rhs - minus, g))"

definition randomize_scalar_representation :: "'s::field \<Rightarrow> 's" where
  "randomize_scalar_representation s = s + 0"

definition random_scalar_ct :: "('s, 'p) prims \<Rightarrow> rng \<Rightarrow> 's \<times> rng" where
  "random_scalar_ct R g =
     (let (k, g) = random_scalar R g; dummy = smul R k (basepoint R) in (k, g))"

section \<open>Lemmas\<close>

text \<open>Another hash, the same tapes and the same group.\<close>

lemma random_scalars_rehash: "random_scalars (R\<lparr>sha512 := h\<rparr>) n g = random_scalars R n g"
  by (induction n arbitrary: g) (simp_all add: random_scalar_def)

context ristretto_group
begin

lemma rehash: "ristretto_group (R\<lparr>sha512 := h\<rparr>)"
  using ristretto_group_axioms by (simp add: ristretto_group_def)

lemma commit_eq: "commit R params v r = smul R v (ped_g params) + smul R r (ped_h params)"
  by (simp add: commit_def multiscalar_sum)

lemma commit_add:
  "commit R params v r + commit R params v' r' = commit R params (v + v') (r + r')"
  by (simp add: commit_eq smul_add_scalar)

lemma commit_smul: "smul R a (commit R params v r) = commit R params (a * v) (a * r)"
  by (simp add: commit_eq smul_add_point smul_mult)

lemma verify_opening_iff: "verify_opening R params c v r \<longleftrightarrow> c = commit R params v r"
  by (simp add: verify_opening_def)

text \<open>Every point opens to every value, with one blinding factor.\<close>

lemma commit_hides:
  assumes "ped_h params \<noteq> 0"
  shows "\<exists>!r. commit R params v r = c"
proof -
  obtain x where x: "ped_h params = smul R x (basepoint R)"
    using base_generates by blast
  obtain y where y: "c - smul R v (ped_g params) = smul R y (basepoint R)"
    using base_generates by blast
  have "x \<noteq> 0" using assms x by auto
  show ?thesis
  proof (rule ex1I [of _ "y / x"])
    show "commit R params v (y / x) = c"
      using y \<open>x \<noteq> 0\<close> by (simp add: commit_eq x smul_mult [symmetric] algebra_simps)
    fix r assume "commit R params v r = c"
    then have "smul R r (ped_h params) = smul R (y / x) (ped_h params)"
      using y \<open>x \<noteq> 0\<close> by (simp add: commit_eq x smul_mult [symmetric] algebra_simps)
    then show "r = y / x" using assms by (rule smul_cancel)
  qed
qed

text \<open>Two openings of one commitment to different values give the logarithm of one generator.\<close>

lemma commit_binds:
  assumes "commit R params v r = commit R params v' r'" and "v \<noteq> v'"
  shows "ped_g params = smul R ((r' - r) / (v - v')) (ped_h params)"
proof -
  have "smul R (v - v') (ped_g params) = smul R (r' - r) (ped_h params)"
    using assms(1) by (simp add: commit_eq smul_diff_scalar algebra_simps)
  then have "smul R (inverse (v - v') * (v - v')) (ped_g params)
      = smul R (inverse (v - v') * (r' - r)) (ped_h params)"
    by (simp add: smul_mult)
  with assms(2) show ?thesis by (simp add: smul_one divide_inverse mult.commute)
qed

lemma prove_value_verifies:
  "verify_value_proof R params (commit R params v r) v (fst (prove_value R params v r g))"
  by (simp add: verify_value_proof_def prove_value_def Let_def commit_eq smul_add_scalar smul_mult
      split: prod.splits)

lemma value_proof_extract:
  assumes "smul R z h = a + smul R e X" and "smul R z' h = a + smul R e' X" and "e \<noteq> e'"
  shows "X = smul R ((z - z') / (e - e')) h"
proof -
  have "smul R (z - z') h = smul R (e - e') X"
    using assms by (simp add: smul_diff_scalar algebra_simps)
  then have "smul R (inverse (e - e') * (e - e')) X = smul R (inverse (e - e') * (z - z')) h"
    by (simp add: smul_mult)
  with assms(3) show ?thesis by (simp add: smul_one divide_inverse mult.commute)
qed

lemma blinded_scalar_mul_eq: "fst (blinded_scalar_mul R s p g) = smul R s p"
  by (simp add: blinded_scalar_mul_def Let_def smul_add_scalar split: prod.splits)

lemma blinded_double_eq:
  "fst (blinded_vartime_double_scalar_mul R a p b q g) = smul R a p + smul R b q"
  by (simp add: blinded_vartime_double_scalar_mul_def Let_def smul_add_scalar split: prod.splits)

end

section \<open>Properties\<close>

text \<open>C15: Pedersen commitments hide perfectly (every commitment opens to every value with exactly one
  blinding factor, whatever was committed), and bind computationally: whoever opens one commitment to
  two different values has computed the discrete logarithm of the generator \<open>G\<close> to the base \<open>H\<close>.\<close>

theorem pedersen_hiding_binding:
  assumes "ristretto_group R" and "ped_h params \<noteq> 0"
  shows "(\<forall>c v. \<exists>!r. verify_opening R params c v r) \<and>
    (\<forall>c v r v' r'. verify_opening R params c v r \<and> verify_opening R params c v' r' \<and> v \<noteq> v' \<longrightarrow>
       ped_g params = smul R ((r' - r) / (v - v')) (ped_h params))"
proof -
  have open_iff: "verify_opening R params c v r \<longleftrightarrow> c = commit R params v r" for c v r
    using assms(1) by (rule ristretto_group.verify_opening_iff)
  show ?thesis
    unfolding open_iff
    using ristretto_group.commit_hides [OF assms] ristretto_group.commit_binds [OF assms(1), of params]
    by (metis (no_types, lifting))
qed

theorem pedersen_hiding_binding_witness:
  "(\<exists>!r. verify_opening zp_prims \<lparr>ped_g = 3, ped_h = 5\<rparr> 15 4 r) \<and>
    verify_opening zp_prims \<lparr>ped_g = 3, ped_h = 5\<rparr> 15 5 0 \<and>
    verify_opening zp_prims \<lparr>ped_g = 3, ped_h = 5\<rparr> 15 0 3 \<and>
    3 = smul zp_prims ((3 - 0) / (5 - 0)) 5"
proof -
  have five: "(5 :: zp) \<noteq> 0"
    using of_nat_zp_inject [of 5 0] by (auto simp: zp_order_def)
  have "verify_opening zp_prims \<lparr>ped_g = 3, ped_h = 5\<rparr> 15 5 0"
    and "verify_opening zp_prims \<lparr>ped_g = 3, ped_h = 5\<rparr> 15 0 3"
    by (simp_all add: verify_opening_def commit_def zp_prims_def)
  with five show ?thesis
    using pedersen_hiding_binding [OF zp.ristretto_group_axioms, of "\<lparr>ped_g = 3, ped_h = 5\<rparr>"]
    by (metis pedersen_params.select_convs)
qed

text \<open>The proof that a commitment holds a claimed value is complete (\<^verbatim>\<open>verify_value_proof\<close> accepts what
  \<^verbatim>\<open>prove_value\<close> made for the committed value, for every random tape) and specially sound: two accepted
  responses to one nonce under different challenges give a blinding factor that opens the
  commitment to the claimed value.\<close>

lemma value_proof_complete_and_sound:
  assumes "ristretto_group R"
  shows "verify_value_proof R params (commit R params v r) v (fst (prove_value R params v r g)) \<and>
    (smul R z (ped_h params) = a + smul R e (c - smul R v (ped_g params)) \<and>
     smul R z' (ped_h params) = a + smul R e' (c - smul R v (ped_g params)) \<and> e \<noteq> e' \<longrightarrow>
     verify_opening R params c v ((z - z') / (e - e')))"
proof (intro conjI impI)
  show "verify_value_proof R params (commit R params v r) v (fst (prove_value R params v r g))"
    by (rule ristretto_group.prove_value_verifies [OF assms])
next
  assume "smul R z (ped_h params) = a + smul R e (c - smul R v (ped_g params)) \<and>
    smul R z' (ped_h params) = a + smul R e' (c - smul R v (ped_g params)) \<and> e \<noteq> e'"
  then have "c - smul R v (ped_g params) = smul R ((z - z') / (e - e')) (ped_h params)"
    using ristretto_group.value_proof_extract [OF assms] by blast
  then have "c = commit R params v ((z - z') / (e - e'))"
    unfolding ristretto_group.commit_eq [OF assms] by (simp add: algebra_simps)
  then show "verify_opening R params c v ((z - z') / (e - e'))"
    by (simp add: ristretto_group.verify_opening_iff [OF assms])
qed

lemma value_proof_complete_and_sound_witness:
  "verify_value_proof zp_prims (pedersen_new zp_prims) (commit zp_prims (pedersen_new zp_prims) 7 9) 7
     (fst (prove_value zp_prims (pedersen_new zp_prims) 7 9 (\<lambda>_. 3)))"
  using value_proof_complete_and_sound [OF zp.ristretto_group_axioms, where v = 7 and r = 9 and g = "\<lambda>_. 3"
    and params = "pedersen_new zp_prims"] by blast

end
