(* ===== verification/Blind_Sig.thy ===== *)
theory Blind_Sig
  imports Pedersen
begin

text \<open>
  \<^verbatim>\<open>specter-blind-sig/src/types.rs\<close>, \<^verbatim>\<open>schnorr_blind.rs\<close> and \<^verbatim>\<open>clause_blind.rs\<close>: blind Schnorr
  signatures and their clause variant. Both end in a signature \<open>(s, e)\<close> verified by recomputing the
  challenge of \<open>s * G - e * PK\<close>, and differ in the hash; the locale \<open>blind_scheme\<close> holds what they
  share: an unblinded response verifies, and the signer's view fits every signature.
\<close>

unbundle bit_operations_syntax

section \<open>Types\<close>

record ('s, 'p) signer_keypair =
  kp_secret :: 's
  kp_public :: 'p

record 's blind_signature =
  bsig_s :: 's
  bsig_e :: 's

record 's signer_session =
  ss_k :: 's

record ('s, 'p) rate_limited_signer =
  rls_keypair :: "('s, 'p) signer_keypair"
  session_active :: bool

text \<open>The guard borrows the signer mutably; here it carries the session and the commitment, and
  dropping it is an operation on the signer.\<close>

record ('s, 'p) session_guard =
  sg_session :: "'s signer_session"
  sg_commitment :: 'p

record 's blinding_factors =
  bf_alpha :: 's
  bf_beta :: 's

record 's clause_session =
  cs_k0 :: 's
  cs_k1 :: 's

record 's clause_blinding_factors =
  cbf_chosen :: u8
  cbf_alpha :: 's
  cbf_beta :: 's

section \<open>The signer\<close>

definition signer_generate :: "('s, 'p) prims \<Rightarrow> rng \<Rightarrow> ('s, 'p) signer_keypair \<times> rng" where
  "signer_generate R g =
     (let (secret, g) = random_scalar R g
      in (\<lparr>kp_secret = secret, kp_public = smul R secret (basepoint R)\<rparr>, g))"

definition rate_limited_new :: "('s, 'p) signer_keypair \<Rightarrow> ('s, 'p) rate_limited_signer" where
  "rate_limited_new keypair = \<lparr>rls_keypair = keypair, session_active = False\<rparr>"

definition rate_limited_new_session ::
  "('s, 'p) prims \<Rightarrow> ('s, 'p) rate_limited_signer \<Rightarrow> rng \<Rightarrow>
     ('s, 'p) session_guard option \<times> ('s, 'p) rate_limited_signer \<times> rng" where
  "rate_limited_new_session R signer g =
     (if session_active signer then (None, signer, g)
      else let (k, g) = random_scalar R g
           in (Some \<lparr>sg_session = \<lparr>ss_k = k\<rparr>, sg_commitment = smul R k (basepoint R)\<rparr>,
               signer\<lparr>session_active := True\<rparr>, g))"

definition rate_limited_end_session ::
  "('s, 'p) rate_limited_signer \<Rightarrow> ('s, 'p) rate_limited_signer" where
  "rate_limited_end_session signer = signer\<lparr>session_active := False\<rparr>"

definition session_guard_drop ::
  "('s, 'p) rate_limited_signer \<Rightarrow> ('s, 'p) rate_limited_signer" where
  "session_guard_drop signer = signer\<lparr>session_active := False\<rparr>"

definition signer_new_session :: "('s, 'p) prims \<Rightarrow> rng \<Rightarrow> 's signer_session \<times> 'p \<times> rng" where
  "signer_new_session R g =
     (let (k, g) = random_scalar R g in (\<lparr>ss_k = k\<rparr>, smul R k (basepoint R), g))"

definition respond :: "'s::field signer_session \<Rightarrow> 's \<Rightarrow> 's \<Rightarrow> 's" where
  "respond session challenge signer_secret = ss_k session + challenge * signer_secret"

section \<open>The requester\<close>

definition schnorr_hash_challenge :: "('s, 'p) prims \<Rightarrow> 'p \<Rightarrow> 'p \<Rightarrow> bytes \<Rightarrow> 's" where
  "schnorr_hash_challenge R r pk message =
     hash512 R (ascii ''specter-blind-sig-challenge:'' @ compress R r @ compress R pk @
       len_le message @ message)"

definition blind_challenge ::
  "('s::field, 'p::ab_group_add) prims \<Rightarrow> 'p \<Rightarrow> 'p \<Rightarrow> bytes \<Rightarrow> rng \<Rightarrow> 's blinding_factors \<times> 's \<times> rng" where
  "blind_challenge R signer_r signer_pk message g =
     (let (alpha, g) = random_scalar R g;
          (beta, g) = random_scalar R g;
          r_prime = signer_r + smul R alpha (basepoint R) + smul R beta signer_pk;
          e_prime = schnorr_hash_challenge R r_prime signer_pk message;
          e_blinded = e_prime + beta
      in (\<lparr>bf_alpha = alpha, bf_beta = beta\<rparr>, e_blinded, g))"

definition unblind_signature ::
  "('s::field, 'p::ab_group_add) prims \<Rightarrow> 's \<Rightarrow> 's blinding_factors \<Rightarrow> 'p \<Rightarrow> 'p \<Rightarrow> bytes \<Rightarrow>
     's blind_signature" where
  "unblind_signature R s_prime factors signer_r signer_pk message =
     (let s = s_prime + bf_alpha factors;
          r_prime = signer_r + smul R (bf_alpha factors) (basepoint R) + smul R (bf_beta factors) signer_pk;
          e = schnorr_hash_challenge R r_prime signer_pk message
      in \<lparr>bsig_s = s, bsig_e = e\<rparr>)"

definition schnorr_verify ::
  "('s, 'p::ab_group_add) prims \<Rightarrow> 'p \<Rightarrow> bytes \<Rightarrow> 's blind_signature \<Rightarrow> bool" where
  "schnorr_verify R pk message sig \<longleftrightarrow>
     (let r_prime = smul R (bsig_s sig) (basepoint R) - smul R (bsig_e sig) pk;
          expected_e = schnorr_hash_challenge R r_prime pk message
      in scalar_bytes R expected_e = scalar_bytes R (bsig_e sig))"

section \<open>The clause variant\<close>

definition new_clause_session :: "('s, 'p) prims \<Rightarrow> rng \<Rightarrow> 's clause_session \<times> 'p \<times> 'p \<times> rng" where
  "new_clause_session R g =
     (let (k0, g) = random_scalar R g;
          (k1, g) = random_scalar R g
      in (\<lparr>cs_k0 = k0, cs_k1 = k1\<rparr>, smul R k0 (basepoint R), smul R k1 (basepoint R), g))"

definition clause_respond :: "'s::field clause_session \<Rightarrow> 's \<Rightarrow> 's \<Rightarrow> 's \<Rightarrow> 's \<times> 's" where
  "clause_respond session e0 e1 signer_secret =
     (cs_k0 session + e0 * signer_secret, cs_k1 session + e1 * signer_secret)"

definition clause_hash_challenge :: "('s, 'p) prims \<Rightarrow> 'p \<Rightarrow> 'p \<Rightarrow> bytes \<Rightarrow> 's" where
  "clause_hash_challenge R r pk message =
     hash512 R (ascii ''specter-clause-blind-challenge:'' @ compress R r @ compress R pk @
       len_le message @ message)"

text \<open>\<^verbatim>\<open>conditional_select(a, b, choice)\<close> is \<open>a\<close> for choice 0 and \<open>b\<close> for choice 1.\<close>

definition conditional_select :: "'a \<Rightarrow> 'a \<Rightarrow> u8 \<Rightarrow> 'a" where
  "conditional_select a b choice = (if choice = 0 then a else b)"

definition clause_blind_challenge ::
  "('s::field, 'p::ab_group_add) prims \<Rightarrow> 'p \<Rightarrow> 'p \<Rightarrow> 'p \<Rightarrow> bytes \<Rightarrow> rng \<Rightarrow>
     's clause_blinding_factors \<times> 's \<times> 's \<times> rng" where
  "clause_blind_challenge R r0 r1 signer_pk message g =
     (let (buf, g) = fill_bytes 1 g;
          b_byte = buf ! 0 AND 1;
          (alpha, g) = random_scalar R g;
          (beta, g) = random_scalar R g;
          r_chosen = conditional_select r0 r1 b_byte;
          r_prime = r_chosen + smul R alpha (basepoint R) + smul R beta signer_pk;
          e_prime = clause_hash_challenge R r_prime signer_pk message;
          e_real = e_prime + beta;
          (e_decoy, g) = random_scalar R g;
          e0 = conditional_select e_real e_decoy b_byte;
          e1 = conditional_select e_decoy e_real b_byte
      in (\<lparr>cbf_chosen = b_byte, cbf_alpha = alpha, cbf_beta = beta\<rparr>, e0, e1, g))"

definition clause_unblind ::
  "('s::field, 'p::ab_group_add) prims \<Rightarrow> 's \<Rightarrow> 's \<Rightarrow> 's clause_blinding_factors \<Rightarrow> 'p \<Rightarrow> 'p \<Rightarrow> 'p \<Rightarrow>
     bytes \<Rightarrow> 's blind_signature" where
  "clause_unblind R s0 s1 factors r0 r1 signer_pk message =
     (let s_chosen = conditional_select s0 s1 (cbf_chosen factors);
          r_chosen = conditional_select r0 r1 (cbf_chosen factors);
          s = s_chosen + cbf_alpha factors;
          r_prime = r_chosen + smul R (cbf_alpha factors) (basepoint R) + smul R (cbf_beta factors) signer_pk;
          e = clause_hash_challenge R r_prime signer_pk message
      in \<lparr>bsig_s = s, bsig_e = e\<rparr>)"

definition clause_verify ::
  "('s, 'p::ab_group_add) prims \<Rightarrow> 'p \<Rightarrow> bytes \<Rightarrow> 's blind_signature \<Rightarrow> bool" where
  "clause_verify R pk message sig \<longleftrightarrow>
     (let r_prime = smul R (bsig_s sig) (basepoint R) - smul R (bsig_e sig) pk;
          expected_e = clause_hash_challenge R r_prime pk message
      in scalar_bytes R expected_e = scalar_bytes R (bsig_e sig))"

section \<open>What the two variants share\<close>

definition sig_accepts ::
  "('s, 'p::ab_group_add) prims \<Rightarrow> ('p \<Rightarrow> 'p \<Rightarrow> bytes \<Rightarrow> 's) \<Rightarrow> 'p \<Rightarrow> bytes \<Rightarrow> 's \<Rightarrow> 's \<Rightarrow> bool" where
  "sig_accepts R H pk m s e \<longleftrightarrow> H (smul R s (basepoint R) - smul R e pk) pk m = e"

locale blind_scheme = ristretto_group R
  for R :: "('s::field, 'p::ab_group_add) prims" +
  fixes H :: "'p \<Rightarrow> 'p \<Rightarrow> bytes \<Rightarrow> 's"
begin

text \<open>A response that satisfies the signer's equation unblinds to an accepted signature.\<close>

lemma unblinded_accepts:
  assumes "smul R s' (basepoint R) = r + smul R (H (r + smul R \<alpha> (basepoint R) + smul R \<beta> pk) pk m + \<beta>) pk"
  shows "sig_accepts R H pk m (s' + \<alpha>) (H (r + smul R \<alpha> (basepoint R) + smul R \<beta> pk) pk m)"
proof -
  let ?r = "r + smul R \<alpha> (basepoint R) + smul R \<beta> pk"
  have "smul R (s' + \<alpha>) (basepoint R) - smul R (H ?r pk m) pk = ?r"
    by (simp add: smul_add_scalar assms algebra_simps)
  then show ?thesis by (simp add: sig_accepts_def)
qed

text \<open>
  Perfect blindness: a view \<open>(r, c, s')\<close> of a completed session and an accepted signature \<open>(s, e)\<close>
  are related by exactly one pair of blinding factors.
\<close>

lemma view_fits_signature:
  assumes view: "smul R s' (basepoint R) = r + smul R c pk" and sig: "sig_accepts R H pk m s e"
  shows "\<exists>!(\<alpha>, \<beta>). H (r + smul R \<alpha> (basepoint R) + smul R \<beta> pk) pk m + \<beta> = c \<and>
    s' + \<alpha> = s \<and> H (r + smul R \<alpha> (basepoint R) + smul R \<beta> pk) pk m = e"
proof (rule ex1I [of _ "(s - s', c - e)"])
  have "r + smul R (s - s') (basepoint R) + smul R (c - e) pk = smul R s (basepoint R) - smul R e pk"
    by (simp add: smul_diff_scalar view algebra_simps)
  then have "H (r + smul R (s - s') (basepoint R) + smul R (c - e) pk) pk m = e"
    using sig by (simp add: sig_accepts_def)
  then show "case (s - s', c - e) of (\<alpha>, \<beta>) \<Rightarrow>
      H (r + smul R \<alpha> (basepoint R) + smul R \<beta> pk) pk m + \<beta> = c \<and>
      s' + \<alpha> = s \<and> H (r + smul R \<alpha> (basepoint R) + smul R \<beta> pk) pk m = e" by simp
qed (auto simp: algebra_simps)

end

sublocale ristretto_group \<subseteq> plain: blind_scheme R "schnorr_hash_challenge R"
  by unfold_locales

sublocale ristretto_group \<subseteq> clause: blind_scheme R "clause_hash_challenge R"
  by unfold_locales

context ristretto_group
begin

lemma schnorr_verify_iff:
  "schnorr_verify R pk m sig \<longleftrightarrow> sig_accepts R (schnorr_hash_challenge R) pk m (bsig_s sig) (bsig_e sig)"
  by (simp add: schnorr_verify_def sig_accepts_def Let_def)

lemma clause_verify_iff:
  "clause_verify R pk m sig \<longleftrightarrow> sig_accepts R (clause_hash_challenge R) pk m (bsig_s sig) (bsig_e sig)"
  by (simp add: clause_verify_def sig_accepts_def Let_def)

text \<open>One blinded challenge answered by the holder of the key, whoever that is.\<close>

lemma blind_then_unblind:
  assumes "blind_challenge R r pk m g = (factors, e, g')"
    and "smul R s' (basepoint R) = r + smul R e pk"
  shows "schnorr_verify R pk m (unblind_signature R s' factors r pk m)"
  using assms plain.unblinded_accepts
  by (auto simp: schnorr_verify_iff blind_challenge_def unblind_signature_def Let_def split: prod.splits)

lemma clause_blind_then_unblind:
  assumes "clause_blind_challenge R r0 r1 pk m g = (factors, e0, e1, g')"
    and "smul R s0 (basepoint R) = r0 + smul R e0 pk" and "smul R s1 (basepoint R) = r1 + smul R e1 pk"
  shows "clause_verify R pk m (clause_unblind R s0 s1 factors r0 r1 pk m)"
  using assms clause.unblinded_accepts
  by (auto simp: clause_verify_iff clause_blind_challenge_def clause_unblind_def conditional_select_def
      Let_def split: prod.splits)

lemma respond_equation:
  "smul R (k + e * sk) (basepoint R) = smul R k (basepoint R) + smul R e (smul R sk (basepoint R))"
  by (simp add: smul_add_scalar smul_mult)

end

section \<open>Properties\<close>

text \<open>The full blind signing protocol with one signer: the signer opens a session, the requester
  blinds, the signer responds without seeing the message, the requester unblinds, and the result
  verifies under the signer's key. This holds for the plain protocol behind the rate-limited signer
  and for the clause variant, for every message and every random tape.\<close>

lemma blind_protocol_correct:
  assumes "ristretto_group R" and "kp_public kp = smul R (kp_secret kp) (basepoint R)"
  shows "(case rate_limited_new_session R (rate_limited_new kp) g of (guard, signer, g1) \<Rightarrow>
      session_active signer \<and>
      (case guard of None \<Rightarrow> False | Some sg \<Rightarrow>
       (case blind_challenge R (sg_commitment sg) (kp_public kp) m g1 of (factors, e, g2) \<Rightarrow>
          schnorr_verify R (kp_public kp) m
            (unblind_signature R (respond (sg_session sg) e (kp_secret kp)) factors (sg_commitment sg)
               (kp_public kp) m)))) \<and>
    (case new_clause_session R g of (session, r0, r1, g1) \<Rightarrow>
      (case clause_blind_challenge R r0 r1 (kp_public kp) m g1 of (factors, e0, e1, g2) \<Rightarrow>
        (case clause_respond session e0 e1 (kp_secret kp) of (s0, s1) \<Rightarrow>
           clause_verify R (kp_public kp) m (clause_unblind R s0 s1 factors r0 r1 (kp_public kp) m))))"
proof -
  note eqn = ristretto_group.respond_equation [OF assms(1)]
  show ?thesis
    using ristretto_group.blind_then_unblind [OF assms(1)] ristretto_group.clause_blind_then_unblind [OF assms(1)]
    by (auto simp: rate_limited_new_session_def rate_limited_new_def respond_def new_clause_session_def
        clause_respond_def assms(2) eqn Let_def split: prod.splits)
qed

lemma blind_protocol_correct_witness:
  "clause_verify zp_prims 5 [1, 2]
     (case new_clause_session zp_prims (\<lambda>_. 3) of (session, r0, r1, g1) \<Rightarrow>
      case clause_blind_challenge zp_prims r0 r1 5 [1, 2] g1 of (factors, e0, e1, g2) \<Rightarrow>
      case clause_respond session e0 e1 5 of (s0, s1) \<Rightarrow> clause_unblind zp_prims s0 s1 factors r0 r1 5 [1, 2])"
  using blind_protocol_correct [OF zp.ristretto_group_axioms, of "\<lparr>kp_secret = 5, kp_public = 5\<rparr>" "[1, 2]" "\<lambda>_. 3"]
  by (simp add: zp_prims_def split: prod.splits)

text \<open>C17: Blindness: the challenge the signer sees is the final challenge plus the blinding factor
  \<open>beta\<close>, and whatever session a signer has answered and whatever valid signature appears later,
  exactly one pair of blinding factors turns that session into that signature. So the signer's view is
  independent of the signature, even for an unbounded signer.\<close>

theorem blind_signature_unlinkable:
  assumes "ristretto_group R" and "smul R s' (basepoint R) = r + smul R c pk"
    and "schnorr_verify R pk m sig"
  shows "(case blind_challenge R r pk m g of (factors, e, _) \<Rightarrow>
      e = bsig_e (unblind_signature R s' factors r pk m) + bf_beta factors) \<and>
    (\<exists>!factors. unblind_signature R s' factors r pk m = sig \<and>
       bsig_e (unblind_signature R s' factors r pk m) + bf_beta factors = c)"
proof
  show "case blind_challenge R r pk m g of (factors, e, _) \<Rightarrow>
      e = bsig_e (unblind_signature R s' factors r pk m) + bf_beta factors"
    by (simp add: blind_challenge_def unblind_signature_def Let_def split: prod.splits)
  let ?H = "schnorr_hash_challenge R" and ?s = "bsig_s sig" and ?e = "bsig_e sig"
  let ?P = "\<lambda>\<alpha> \<beta>. ?H (r + smul R \<alpha> (basepoint R) + smul R \<beta> pk) pk m + \<beta> = c \<and>
    s' + \<alpha> = ?s \<and> ?H (r + smul R \<alpha> (basepoint R) + smul R \<beta> pk) pk m = ?e"
  have "sig_accepts R ?H pk m ?s ?e"
    using ristretto_group.schnorr_verify_iff [OF assms(1)] assms(3) by blast
  then obtain \<alpha> \<beta> where ab: "?P \<alpha> \<beta>" and only: "\<And>a b. ?P a b \<Longrightarrow> a = \<alpha> \<and> b = \<beta>"
    using blind_scheme.view_fits_signature [of R s' r c pk ?H m ?s ?e] assms(1,2)
    by (auto simp: blind_scheme_def Ex1_def split: prod.splits)
  have sig_eq: "unblind_signature R s' f r pk m = sig \<and>
      bsig_e (unblind_signature R s' f r pk m) + bf_beta f = c \<longleftrightarrow> ?P (bf_alpha f) (bf_beta f)" for f
    by (cases sig) (auto simp: unblind_signature_def Let_def)
  show "\<exists>!factors. unblind_signature R s' factors r pk m = sig \<and>
       bsig_e (unblind_signature R s' factors r pk m) + bf_beta factors = c"
    unfolding sig_eq
  proof (rule ex1I [of _ "\<lparr>bf_alpha = \<alpha>, bf_beta = \<beta>\<rparr>"])
    show "?P (bf_alpha \<lparr>bf_alpha = \<alpha>, bf_beta = \<beta>\<rparr>) (bf_beta \<lparr>bf_alpha = \<alpha>, bf_beta = \<beta>\<rparr>)"
      unfolding blinding_factors.select_convs by (rule ab)
    fix f :: "'a blinding_factors" assume "?P (bf_alpha f) (bf_beta f)"
    from only [OF this] show "f = \<lparr>bf_alpha = \<alpha>, bf_beta = \<beta>\<rparr>" by (cases f) simp
  qed
qed

theorem blind_signature_unlinkable_witness:
  "\<exists>c s sig. schnorr_verify zp_prims 5 [1, 2] sig \<and>
    (\<exists>!factors. unblind_signature zp_prims s factors 7 5 [1, 2] = sig \<and>
       bsig_e (unblind_signature zp_prims s factors 7 5 [1, 2]) + bf_beta factors = c)"
proof -
  define e where "e = schnorr_hash_challenge zp_prims 7 5 [1, 2]"
  define sig where "sig = \<lparr>bsig_s = 7 + e * 5, bsig_e = e\<rparr>"
  have sig: "schnorr_verify zp_prims 5 [1, 2] sig"
    by (simp add: schnorr_verify_def sig_def e_def zp_prims_def)
  have "smul zp_prims 17 (basepoint zp_prims) = 7 + smul zp_prims 2 5"
    by (simp add: zp_prims_def)
  from blind_signature_unlinkable [OF zp.ristretto_group_axioms this sig] sig show ?thesis by blast
qed

end
