(* ===== verification/Threshold.thy ===== *)
theory Threshold
  imports Blind_Sig
begin

text \<open>
  \<^verbatim>\<open>specter-blind-sig/src/threshold.rs\<close>: threshold blind signatures over Shamir shares of the group
  key. A hash map is an association list, its order standing for the map's iteration order. The
  invariant \<open>keyset_ok\<close> says the shares lie on a polynomial of the threshold's length whose constant
  term is the group secret; the dealer establishes it, and under it every quorum signs.
\<close>

section \<open>Keysets and signing\<close>

type_synonym signer_id = u64

record ('s, 'p) threshold_keyset =
  ks_group_public :: 'p
  ks_threshold :: nat
  ks_total :: nat
  ks_shares :: "(signer_id \<times> 's share) list"
  ks_public_shares :: "(signer_id \<times> 'p) list"

record ('s, 'p) signer_session_state =
  sst_nonce :: 's
  sst_nonce_commitment :: 'p

datatype threshold_error =
    InsufficientSigners nat nat
  | UnknownSigner signer_id
  | DuplicateSigner signer_id

fun show_threshold_error :: "threshold_error \<Rightarrow> string" where
  "show_threshold_error (InsufficientSigners needed got) =
     ''insufficient signers: need '' @ show_nat needed @ '', got '' @ show_nat got"
| "show_threshold_error (UnknownSigner i) = ''unknown signer ID: '' @ show_nat (unat i)"
| "show_threshold_error (DuplicateSigner i) = ''duplicate signer ID: '' @ show_nat (unat i)"

text \<open>The loop over the shares numbers them from 1; \<^verbatim>\<open>expect\<close> panics on invalid parameters.\<close>

definition dealer_keygen ::
  "('s::field, 'p) prims \<Rightarrow> nat \<Rightarrow> nat \<Rightarrow> rng \<Rightarrow> (('s, 'p) threshold_keyset, unit) result \<times> rng" where
  "dealer_keygen R t n g =
     (let (group_secret, g) = random_scalar R g;
          group_public = smul R group_secret (basepoint R);
          (split, g) = split_secret R group_secret t n g
      in (case split of
            Ok shamir_shares \<Rightarrow>
              let step = (\<lambda>(shares, public_shares) (i, share).
                    let signer_id = of_nat (i + 1)
                    in (AList.update signer_id share shares,
                        AList.update signer_id (smul R (share_y share) (basepoint R)) public_shares));
                  (shares, public_shares) = foldl step ([], []) (enumerate 0 shamir_shares)
              in Ok \<lparr>ks_group_public = group_public, ks_threshold = t, ks_total = n,
                     ks_shares = shares, ks_public_shares = public_shares\<rparr>
          | Err _ \<Rightarrow> Panic
          | Panic \<Rightarrow> Panic, g))"

definition signer_start_session :: "('s, 'p) prims \<Rightarrow> rng \<Rightarrow> ('s, 'p) signer_session_state \<times> rng" where
  "signer_start_session R g =
     (let (nonce, g) = random_scalar R g
      in (\<lparr>sst_nonce = nonce, sst_nonce_commitment = smul R nonce (basepoint R)\<rparr>, g))"

definition signer_partial_response ::
  "('s::field, 'p) signer_session_state \<Rightarrow> 's \<Rightarrow> 's share \<Rightarrow> 's" where
  "signer_partial_response session blinded_challenge key_share =
     sst_nonce session + blinded_challenge * share_y key_share"

fun check_signers ::
  "(signer_id \<times> 's share) list \<Rightarrow> signer_id list \<Rightarrow> signer_id set \<Rightarrow> (unit, threshold_error) result" where
  "check_signers shares [] seen = Ok ()"
| "check_signers shares (i # is) seen =
     (if map_of shares i = None then Err (UnknownSigner i)
      else if i \<in> seen then Err (DuplicateSigner i)
      else check_signers shares is (insert i seen))"

text \<open>Indexing a hash map with a missing key panics; the callers have checked the identifiers.\<close>

definition share_of :: "(signer_id \<times> 's share) list \<Rightarrow> signer_id \<Rightarrow> 's share" where
  "share_of shares i = the (map_of shares i)"

definition lagrange_coefficient :: "(signer_id \<Rightarrow> 's::field) \<Rightarrow> signer_id list \<Rightarrow> signer_id \<Rightarrow> 's" where
  "lagrange_coefficient x ids i =
     foldl (\<lambda>lambda j. if i = j then lambda else lambda * (- x j * inverse (x i - x j))) 1 ids"

definition compute_lagrange_coefficients ::
  "signer_id list \<Rightarrow> (signer_id \<times> 's::field share) list \<Rightarrow> (signer_id \<times> 's) list" where
  "compute_lagrange_coefficients signer_ids shares =
     foldl (\<lambda>coeffs i. AList.update i
         (lagrange_coefficient (\<lambda>j. share_x (share_of shares j)) signer_ids i) coeffs) [] signer_ids"

fun start_sessions ::
  "('s, 'p) prims \<Rightarrow> signer_id list \<Rightarrow> rng \<Rightarrow> ('s, 'p) signer_session_state list \<times> rng" where
  "start_sessions R [] g = ([], g)"
| "start_sessions R (i # is) g =
     (let (s, g) = signer_start_session R g; (ss, g) = start_sessions R is g in (s # ss, g))"

definition threshold_blind_sign ::
  "('s::field, 'p::ab_group_add) prims \<Rightarrow> ('s, 'p) threshold_keyset \<Rightarrow> signer_id list \<Rightarrow> bytes \<Rightarrow> rng \<Rightarrow>
     ('s blind_signature, threshold_error) result \<times> rng" where
  "threshold_blind_sign R keyset signer_ids message g =
     (if length signer_ids < ks_threshold keyset
      then (Err (InsufficientSigners (ks_threshold keyset) (length signer_ids)), g)
      else case check_signers (ks_shares keyset) signer_ids {} of
        Err e \<Rightarrow> (Err e, g)
      | Panic \<Rightarrow> (Panic, g)
      | Ok _ \<Rightarrow>
        let (sessions, g) = start_sessions R signer_ids g;
            lagrange_coeffs = compute_lagrange_coefficients signer_ids (ks_shares keyset);
            coeff = (\<lambda>i. the (map_of lagrange_coeffs i));
            weighted_r = foldl (+) 0
              (map (\<lambda>(s, i). smul R (coeff i) (sst_nonce_commitment s)) (zip sessions signer_ids));
            (blinding_factors, blinded_challenge, g) =
              blind_challenge R weighted_r (ks_group_public keyset) message g;
            s_prime = foldl (+) 0
              (map (\<lambda>(i, session).
                  let share = share_of (ks_shares keyset) i;
                      partial = sst_nonce session + blinded_challenge * share_y share
                  in coeff i * partial) (zip signer_ids sessions))
        in (Ok (unblind_signature R s_prime blinding_factors weighted_r (ks_group_public keyset) message), g))"

fun start_clause_sessions ::
  "('s, 'p) prims \<Rightarrow> signer_id list \<Rightarrow> rng \<Rightarrow> ('s \<times> 's \<times> 'p \<times> 'p) list \<times> rng" where
  "start_clause_sessions R [] g = ([], g)"
| "start_clause_sessions R (i # is) g =
     (let (k0, g) = random_scalar R g;
          (k1, g) = random_scalar R g;
          (ss, g) = start_clause_sessions R is g
      in ((k0, k1, smul R k0 (basepoint R), smul R k1 (basepoint R)) # ss, g))"

definition threshold_clause_blind_sign ::
  "('s::field, 'p::ab_group_add) prims \<Rightarrow> ('s, 'p) threshold_keyset \<Rightarrow> signer_id list \<Rightarrow> bytes \<Rightarrow> rng \<Rightarrow>
     ('s blind_signature, threshold_error) result \<times> rng" where
  "threshold_clause_blind_sign R keyset signer_ids message g =
     (if length signer_ids < ks_threshold keyset
      then (Err (InsufficientSigners (ks_threshold keyset) (length signer_ids)), g)
      else case check_signers (ks_shares keyset) signer_ids {} of
        Err e \<Rightarrow> (Err e, g)
      | Panic \<Rightarrow> (Panic, g)
      | Ok _ \<Rightarrow>
        let (sessions, g) = start_clause_sessions R signer_ids g;
            lagrange_coeffs = compute_lagrange_coefficients signer_ids (ks_shares keyset);
            coeff = (\<lambda>i. the (map_of lagrange_coeffs i));
            r0 = foldl (+) 0 (map (\<lambda>((k0, k1, c0, c1), i). smul R (coeff i) c0) (zip sessions signer_ids));
            r1 = foldl (+) 0 (map (\<lambda>((k0, k1, c0, c1), i). smul R (coeff i) c1) (zip sessions signer_ids));
            (factors, e0, e1, g) = clause_blind_challenge R r0 r1 (ks_group_public keyset) message g;
            (s0_combined, s1_combined) =
              foldl (\<lambda>(a0, a1) (b0, b1). (a0 + b0, a1 + b1)) (0, 0)
                (map (\<lambda>(i, (k0, k1, c0, c1)).
                    let share = share_of (ks_shares keyset) i;
                        s0 = k0 + e0 * share_y share;
                        s1 = k1 + e1 * share_y share
                    in (coeff i * s0, coeff i * s1)) (zip signer_ids sessions))
        in (Ok (clause_unblind R s0_combined s1_combined factors r0 r1 (ks_group_public keyset) message), g))"

section \<open>The invariant of a keyset\<close>

definition keyset_on ::
  "('s::field, 'p) prims \<Rightarrow> 's list \<Rightarrow> ('s, 'p) threshold_keyset \<Rightarrow> bool" where
  "keyset_on R cs ks \<longleftrightarrow>
     length cs = ks_threshold ks \<and> 0 < ks_threshold ks \<and>
     ks_group_public ks = smul R (poly_eval cs 0) (basepoint R) \<and>
     distinct (map fst (ks_shares ks)) \<and> length (ks_shares ks) = ks_total ks \<and>
     (\<forall>(i, s) \<in> set (ks_shares ks). share_x s = scalar_of_u64 R i \<and> share_y s = poly_eval cs (share_x s)) \<and>
     (\<forall>i. map_of (ks_public_shares ks) i =
        map_option (\<lambda>s. smul R (share_y s) (basepoint R)) (map_of (ks_shares ks) i))"

definition keyset_ok :: "('s::field, 'p) prims \<Rightarrow> ('s, 'p) threshold_keyset \<Rightarrow> bool" where
  "keyset_ok R ks \<longleftrightarrow> (\<exists>cs. keyset_on R cs ks)"

text \<open>A quorum: enough distinct signers, all of them holding a share.\<close>

definition quorum_ids :: "('s, 'p) threshold_keyset \<Rightarrow> signer_id list \<Rightarrow> bool" where
  "quorum_ids ks ids \<longleftrightarrow>
     ks_threshold ks \<le> length ids \<and> distinct ids \<and> set ids \<subseteq> fst ` set (ks_shares ks)"

section \<open>Lemmas\<close>

lemma check_signers_Ok:
  "check_signers shares ids seen = Ok () \<longleftrightarrow> distinct ids \<and> set ids \<subseteq> fst ` set shares \<and> set ids \<inter> seen = {}"
  by (induction ids arbitrary: seen) (auto simp: map_of_eq_None_iff)

lemma check_signers_no_panic: "check_signers shares ids seen \<noteq> Panic"
  by (induction ids arbitrary: seen) auto

lemma compute_lagrange_coefficients_eq:
  "i \<in> set ids \<Longrightarrow> map_of (compute_lagrange_coefficients ids shares) i =
     Some (lagrange_coefficient (\<lambda>j. share_x (share_of shares j)) ids i)"
  by (simp add: compute_lagrange_coefficients_def map_of_foldl_update)

text \<open>Recombining the values of a polynomial at the signers' points gives its constant term.\<close>

lemma lagrange_coefficient_recombines:
  assumes "distinct ids" and "inj_on x (set ids)" and "length cs \<le> length ids"
  shows "(\<Sum>i\<leftarrow>ids. lagrange_coefficient x ids i * poly_eval cs (x i)) = poly_eval cs 0"
proof -
  have "lagrange_coefficient x ids i = lagrange (x ` set ids) (x i) 0" if "i \<in> set ids" for i
    using lagrange_zero_image [OF assms(2) that] by (simp add: lagrange_coefficient_def foldl_mult_skip assms(1))
  then have "(\<Sum>i\<leftarrow>ids. lagrange_coefficient x ids i * poly_eval cs (x i))
      = (\<Sum>i\<in>set ids. lagrange (x ` set ids) (x i) 0 * poly_eval cs (x i))"
    by (simp add: sum_list_distinct_conv_sum_set assms(1) cong: map_cong)
  also have "\<dots> = (\<Sum>a\<in>x ` set ids. poly_eval cs a * lagrange (x ` set ids) a 0)"
    by (simp add: sum.reindex assms(2) mult.commute)
  also have "\<dots> = poly_eval cs 0"
    by (rule interpolation [of "length cs"])
      (use assms in \<open>auto simp: card_image distinct_card\<close>)
  finally show ?thesis .
qed

context ristretto_group
begin

lemma u64_scalar_inj: "inj_on (scalar_of_u64 R) A"
  by (auto simp: inj_on_def)

lemma keyset_share:
  assumes "keyset_on R cs ks" and "i \<in> fst ` set (ks_shares ks)"
  shows "share_x (share_of (ks_shares ks) i) = scalar_of_u64 R i"
    and "share_y (share_of (ks_shares ks) i) = poly_eval cs (scalar_of_u64 R i)"
proof -
  obtain s where "map_of (ks_shares ks) i = Some s" "(i, s) \<in> set (ks_shares ks)"
    using assms by (auto simp: keyset_on_def)
  then show "share_x (share_of (ks_shares ks) i) = scalar_of_u64 R i"
    and "share_y (share_of (ks_shares ks) i) = poly_eval cs (scalar_of_u64 R i)"
    using assms(1) by (auto simp: keyset_on_def share_of_def)
qed

text \<open>The weighted partial responses of a quorum answer a challenge under the group key.\<close>

lemma quorum_response:
  assumes ks: "keyset_on R cs ks" and q: "quorum_ids ks ids" and len: "length ns = length ids"
  defines "coeff \<equiv> \<lambda>i. the (map_of (compute_lagrange_coefficients ids (ks_shares ks)) i)"
  shows "smul R (\<Sum>(i, k)\<leftarrow>zip ids ns. coeff i * (k + e * share_y (share_of (ks_shares ks) i))) (basepoint R)
    = (\<Sum>(k, i)\<leftarrow>zip ns ids. smul R (coeff i) (smul R k (basepoint R))) + smul R e (ks_group_public ks)"
proof -
  have ids: "distinct ids" "set ids \<subseteq> fst ` set (ks_shares ks)" "length cs \<le> length ids"
    using q ks by (auto simp: quorum_ids_def keyset_on_def)
  let ?x = "scalar_of_u64 R :: u64 \<Rightarrow> 's"
  have xs: "share_x (share_of (ks_shares ks) j) = ?x j" if "j \<in> set ids" for j
    using keyset_share(1) [OF ks] ids(2) that by blast
  have co: "coeff i = lagrange_coefficient ?x ids i" if "i \<in> set ids" for i
  proof -
    have "foldl (\<lambda>l j. if i = j then l else l * (- share_x (share_of (ks_shares ks) j) *
          inverse (share_x (share_of (ks_shares ks) i) - share_x (share_of (ks_shares ks) j)))) 1 ids
        = foldl (\<lambda>l j. if i = j then l else l * (- ?x j * inverse (?x i - ?x j))) 1 ids"
      using that by (intro foldl_cong) (auto simp: xs)
    then show ?thesis
      using compute_lagrange_coefficients_eq [OF that, of "ks_shares ks"]
      by (simp add: coeff_def lagrange_coefficient_def)
  qed
  have "(\<Sum>(i, k)\<leftarrow>zip ids ns. coeff i * (k + e * share_y (share_of (ks_shares ks) i)))
      = (\<Sum>(k, i)\<leftarrow>zip ns ids. coeff i * k) + e * (\<Sum>i\<leftarrow>ids. coeff i * share_y (share_of (ks_shares ks) i))"
    using len by (induction ids ns rule: list_induct2') (auto simp: algebra_simps)
  also have "(\<Sum>i\<leftarrow>ids. coeff i * share_y (share_of (ks_shares ks) i))
      = (\<Sum>i\<leftarrow>ids. lagrange_coefficient ?x ids i * poly_eval cs (?x i))"
    using co ids(2) keyset_share(2) [OF ks] by (intro arg_cong [where f = sum_list] map_cong) auto
  also have "\<dots> = poly_eval cs 0"
    using ids u64_scalar_inj by (intro lagrange_coefficient_recombines) auto
  finally have "smul R (\<Sum>(i, k)\<leftarrow>zip ids ns. coeff i * (k + e * share_y (share_of (ks_shares ks) i))) (basepoint R)
      = smul R (\<Sum>(k, i)\<leftarrow>zip ns ids. coeff i * k) (basepoint R) + smul R e (ks_group_public ks)"
    using ks by (simp add: smul_add_scalar smul_mult keyset_on_def)
  also have "smul R (\<Sum>(k, i)\<leftarrow>zip ns ids. coeff i * k) (basepoint R)
      = (\<Sum>(k, i)\<leftarrow>zip ns ids. smul R (coeff i) (smul R k (basepoint R)))"
    by (simp add: smul_sum_list_scalar smul_mult o_def case_prod_unfold)
  finally show ?thesis .
qed

lemma start_sessions_nonces:
  assumes "start_sessions R ids g = (ss, g')"
  shows "length ss = length ids \<and> map sst_nonce_commitment ss = map (\<lambda>k. smul R k (basepoint R)) (map sst_nonce ss)"
  using assms
  by (induction ids arbitrary: g ss g') (auto simp: signer_start_session_def Let_def split: prod.splits)

lemma start_clause_sessions_nonces:
  assumes "start_clause_sessions R ids g = (ss, g')"
  shows "length ss = length ids \<and> (\<forall>(k0, k1, c0, c1)\<in>set ss. c0 = smul R k0 (basepoint R) \<and> c1 = smul R k1 (basepoint R))"
  using assms
proof (induction ids arbitrary: g ss g')
  case (Cons i ids)
  then obtain k0 k1 g1 rest where "start_clause_sessions R ids g1 = (rest, g')"
      "ss = (k0, k1, smul R k0 (basepoint R), smul R k1 (basepoint R)) # rest"
    by (auto simp: Let_def split: prod.splits)
  with Cons.IH show ?case by fastforce
qed simp

lemma threshold_sign_verifies:
  assumes ks: "keyset_on R cs ks" and q: "quorum_ids ks ids"
  shows "\<exists>sig. fst (threshold_blind_sign R ks ids m g) = Ok sig \<and> schnorr_verify R (ks_group_public ks) m sig"
proof -
  let ?coeff = "\<lambda>i. the (map_of (compute_lagrange_coefficients ids (ks_shares ks)) i)"
  obtain ss g1 where ss: "start_sessions R ids g = (ss, g1)" by fastforce
  define r where "r = (\<Sum>(s, i)\<leftarrow>zip ss ids. smul R (?coeff i) (sst_nonce_commitment s))"
  obtain f e g2 where bl: "blind_challenge R r (ks_group_public ks) m g1 = (f, e, g2)" by (cases "blind_challenge R r (ks_group_public ks) m g1")
  define s' where "s' = (\<Sum>(i, s)\<leftarrow>zip ids ss. ?coeff i * (sst_nonce s + e * share_y (share_of (ks_shares ks) i)))"
  have r_eq: "r = (\<Sum>(k, i)\<leftarrow>zip (map sst_nonce ss) ids. smul R (?coeff i) (smul R k (basepoint R)))"
  proof -
    have "r = (\<Sum>(c, i)\<leftarrow>zip (map sst_nonce_commitment ss) ids. smul R (?coeff i) c)"
      by (simp add: r_def zip_map1 o_def case_prod_unfold)
    also have "map sst_nonce_commitment ss = map (\<lambda>k. smul R k (basepoint R)) (map sst_nonce ss)"
      using start_sessions_nonces [OF ss] by blast
    finally show ?thesis by (simp add: zip_map1 o_def case_prod_unfold)
  qed
  have s_eq: "s' = (\<Sum>(i, k)\<leftarrow>zip ids (map sst_nonce ss). ?coeff i * (k + e * share_y (share_of (ks_shares ks) i)))"
    by (simp add: s'_def zip_map2 o_def case_prod_unfold)
  have "smul R s' (basepoint R) = r + smul R e (ks_group_public ks)"
    unfolding r_eq s_eq using start_sessions_nonces [OF ss] by (intro quorum_response [OF ks q]) simp
  from blind_then_unblind [OF bl this]
  have "schnorr_verify R (ks_group_public ks) m (unblind_signature R s' f r (ks_group_public ks) m)" .
  moreover have "fst (threshold_blind_sign R ks ids m g) = Ok (unblind_signature R s' f r (ks_group_public ks) m)"
    using q bl check_signers_Ok [of "ks_shares ks" ids "{}"]
    by (simp add: threshold_blind_sign_def ss Let_def foldl_add_sum_list r_def s'_def quorum_ids_def)
  ultimately show ?thesis by blast
qed

lemma foldl_pair_sum:
  "foldl (\<lambda>(a0, a1) (b0, b1). (a0 + b0, a1 + b1)) (x, y) ps = (x + (\<Sum>p\<leftarrow>ps. fst p), y + (\<Sum>p\<leftarrow>ps. snd p))"
  for x y :: 's
  by (induction ps arbitrary: x y) (auto simp: algebra_simps)

lemma threshold_clause_sign_verifies:
  assumes ks: "keyset_on R cs ks" and q: "quorum_ids ks ids"
  shows "\<exists>sig. fst (threshold_clause_blind_sign R ks ids m g) = Ok sig \<and> clause_verify R (ks_group_public ks) m sig"
proof -
  let ?coeff = "\<lambda>i. the (map_of (compute_lagrange_coefficients ids (ks_shares ks)) i)"
  let ?y = "\<lambda>i. share_y (share_of (ks_shares ks) i)" and ?pk = "ks_group_public ks"
  obtain ss g1 where ss: "start_clause_sessions R ids g = (ss, g1)" by fastforce
  define r0 where "r0 = (\<Sum>(k, i)\<leftarrow>zip (map fst ss) ids. smul R (?coeff i) (smul R k (basepoint R)))"
  define r1 where "r1 = (\<Sum>(k, i)\<leftarrow>zip (map (fst \<circ> snd) ss) ids. smul R (?coeff i) (smul R k (basepoint R)))"
  obtain f e0 e1 g2 where bl: "clause_blind_challenge R r0 r1 ?pk m g1 = (f, e0, e1, g2)"
    by (cases "clause_blind_challenge R r0 r1 ?pk m g1")
  define s0 where "s0 = (\<Sum>(i, k)\<leftarrow>zip ids (map fst ss). ?coeff i * (k + e0 * ?y i))"
  define s1 where "s1 = (\<Sum>(i, k)\<leftarrow>zip ids (map (fst \<circ> snd) ss). ?coeff i * (k + e1 * ?y i))"
  note nonces = start_clause_sessions_nonces [OF ss]
  have "smul R s0 (basepoint R) = r0 + smul R e0 ?pk" "smul R s1 (basepoint R) = r1 + smul R e1 ?pk"
    unfolding r0_def r1_def s0_def s1_def using nonces by (intro quorum_response [OF ks q], simp)+
  from clause_blind_then_unblind [OF bl this]
  have "clause_verify R ?pk m (clause_unblind R s0 s1 f r0 r1 ?pk m)" .
  moreover have r0: "foldl (+) 0 (map (\<lambda>((k0, k1, c0, c1), i). smul R (?coeff i) c0) (zip ss ids)) = r0"
    and r1: "foldl (+) 0 (map (\<lambda>((k0, k1, c0, c1), i). smul R (?coeff i) c1) (zip ss ids)) = r1"
    unfolding foldl_add_sum_list r0_def r1_def add_0_left zip_map1 map_map
    using nonces by (intro arg_cong [where f = sum_list] map_cong refl; auto dest!: set_zip_leftD)+
  moreover have s: "foldl (\<lambda>(a0, a1) (b0, b1). (a0 + b0, a1 + b1)) (0, 0)
      (map (\<lambda>(i, (k0, k1, c0, c1)). (?coeff i * (k0 + e0 * ?y i), ?coeff i * (k1 + e1 * ?y i))) (zip ids ss)) = (s0, s1)"
    unfolding foldl_pair_sum by (simp add: s0_def s1_def zip_map2 o_def case_prod_unfold)
  ultimately have "fst (threshold_clause_blind_sign R ks ids m g) = Ok (clause_unblind R s0 s1 f r0 r1 ?pk m)"
    using q check_signers_Ok [of "ks_shares ks" ids "{}"]
    by (simp add: threshold_clause_blind_sign_def ss Let_def quorum_ids_def r0 r1 s bl)
  with \<open>clause_verify R ?pk m (clause_unblind R s0 s1 f r0 r1 ?pk m)\<close> show ?thesis by blast
qed

text \<open>The dealer's two maps: share \<open>i\<close> of the list under identifier \<open>i + 1\<close>.\<close>

lemma dealer_loop:
  fixes shs :: "'s share list"
  assumes "length shs < 2 ^ 64"
  shows "foldl (\<lambda>(shares, public_shares) (i, share).
      (AList.update (of_nat (i + 1) :: u64) share shares,
       AList.update (of_nat (i + 1) :: u64) (smul R (share_y share) (basepoint R)) public_shares))
     ([], []) (enumerate 0 shs) =
    (map (\<lambda>(i, s). (of_nat (i + 1), s)) (enumerate 0 shs),
     map (\<lambda>(i, s). (of_nat (i + 1), smul R (share_y s) (basepoint R))) (enumerate 0 shs))"
proof -
  have "inj_on (\<lambda>i. of_nat (i + 1) :: u64) {0..<length shs}"
    using assms by (rule inj_on_u64_ids)
  then have "distinct (map (\<lambda>i. of_nat (i + 1) :: u64) (map fst (enumerate 0 shs)))"
    by (simp add: distinct_map)
  then have "distinct (map (\<lambda>p. of_nat (fst p + 1) :: u64) (enumerate 0 shs))"
    by (simp only: map_map o_def)
  then show ?thesis
    using foldl_pair [where f = "\<lambda>m p. AList.update (of_nat (fst p + 1) :: u64) (snd p) m"
        and h = "\<lambda>m p. AList.update (of_nat (fst p + 1) :: u64) (smul R (share_y (snd p)) (basepoint R)) m"
        and a = "[]" and b = "[]" and xs = "enumerate 0 shs"]
      foldl_update_distinct [where m = "[]" and key = "\<lambda>p. of_nat (fst p + 1) :: u64" and val = snd and xs = "enumerate 0 shs"]
      foldl_update_distinct [where m = "[]" and key = "\<lambda>p. of_nat (fst p + 1) :: u64"
        and val = "\<lambda>p. smul R (share_y (snd p)) (basepoint R)" and xs = "enumerate 0 shs"]
    by (simp add: case_prod_unfold del: of_nat_add)
qed

lemma dealer_keyset:
  assumes "0 < t" and "t \<le> n" and "n < 2 ^ 64"
  shows "\<exists>ks. fst (dealer_keygen R t n g) = Ok ks \<and> keyset_ok R ks \<and> ks_threshold ks = t \<and> ks_total ks = n
    \<and> fst ` set (ks_shares ks) = of_nat ` {1..n}"
proof -
  obtain secret g1 where secret: "random_scalar R g = (secret, g1)" by fastforce
  obtain rest g2 where rest: "random_scalars R (t - 1) g1 = (rest, g2)" by fastforce
  let ?shs = "polynomial_shares R (secret # rest) n"
  let ?id = "\<lambda>i. of_nat (i + 1) :: u64"
  let ?sh = "\<lambda>i. \<lparr>share_x = scalar_of_u64 R (?id i), share_y = poly_eval (secret # rest) (scalar_of_u64 R (?id i))\<rparr>"
  have split: "split_secret R secret t n g1 = (Ok ?shs, g2)"
    using assms rest by (simp add: split_secret_def)
  have len: "length ?shs = n" by (simp add: polynomial_shares_def)
  have enum: "enumerate 0 ?shs = map (\<lambda>i. (i, ?sh i)) [0..<n]"
    by (rule nth_equalityI)
      (auto simp: len nth_enumerate_eq polynomial_shares_def evaluate_polynomial_eq Let_def simp del: upt_Suc of_nat_add of_nat_Suc poly_eval.simps)
  define ks where "ks = \<lparr>ks_group_public = smul R secret (basepoint R), ks_threshold = t, ks_total = n,
    ks_shares = map (\<lambda>i. (?id i, ?sh i)) [0..<n],
    ks_public_shares = map (\<lambda>i. (?id i, smul R (share_y (?sh i)) (basepoint R))) [0..<n]\<rparr>"
  have "fst (dealer_keygen R t n g) = Ok ks"
    using dealer_loop [of ?shs] len assms(3)
    by (simp add: dealer_keygen_def secret split ks_def enum o_def Let_def del: of_nat_Suc of_nat_add poly_eval.simps)
  moreover have "keyset_on R (secret # rest) ks"
  proof -
    have "inj_on ?id {0..<n}"
      using assms(3) by (rule inj_on_u64_ids)
    then have "distinct (map ?id [0..<n])"
      by (simp add: distinct_map del: of_nat_add of_nat_Suc)
    moreover have "map_of (ks_public_shares ks) i = map_option (\<lambda>s. smul R (share_y s) (basepoint R)) (map_of (ks_shares ks) i)" for i
    proof -
      have "ks_public_shares ks = map (\<lambda>(k, s). (k, smul R (share_y s) (basepoint R))) (ks_shares ks)"
        by (simp add: ks_def)
      then show ?thesis by (simp only: map_of_map o_apply)
    qed
    ultimately show ?thesis
      using rest assms(1,2) by (auto simp: keyset_on_def ks_def o_def simp del: of_nat_add of_nat_Suc)
  qed
  moreover have "fst ` set (ks_shares ks) = of_nat ` {1..n}"
  proof -
    have "{1..n} = (\<lambda>i. i + 1) ` {0..<n}" by (simp add: atLeastLessThanSuc_atLeastAtMost)
    then have "of_nat ` {1..n} = ?id ` {0..<n}" by (simp only: image_image)
    then show ?thesis by (simp add: ks_def image_image del: of_nat_add of_nat_Suc)
  qed
  ultimately show ?thesis unfolding keyset_ok_def by (intro exI [of _ ks]) (auto simp: ks_def)
qed

end

section \<open>Properties\<close>

text \<open>\<^verbatim>\<open>dealer_keygen\<close> with a threshold between one and the number of signers does not panic and
  returns a keyset whose shares, under the identifiers 1 to \<open>n\<close>, lie on one polynomial of the threshold's
  length with the group key as constant term.\<close>

lemma dealer_keygen_keyset_ok:
  assumes "ristretto_group R" and "0 < t" and "t \<le> n" and "n < 2 ^ 64"
  shows "\<exists>ks. fst (dealer_keygen R t n g) = Ok ks \<and> keyset_ok R ks \<and> ks_threshold ks = t \<and> ks_total ks = n
    \<and> fst ` set (ks_shares ks) = of_nat ` {1..n}"
  using assms by (rule ristretto_group.dealer_keyset)

lemma dealer_keygen_keyset_ok_witness:
  "\<exists>ks. fst (dealer_keygen zp_prims 2 3 (\<lambda>_. 9)) = Ok ks \<and> keyset_ok zp_prims ks \<and> ks_threshold ks = 2 \<and>
     ks_total ks = 3 \<and> fst ` set (ks_shares ks) = of_nat ` {1..3}"
  by (rule dealer_keygen_keyset_ok [OF zp.ristretto_group_axioms]) simp_all

text \<open>C6: Threshold signing: for a well-formed keyset both \<^verbatim>\<open>threshold_blind_sign\<close> and
  \<^verbatim>\<open>threshold_clause_blind_sign\<close> succeed exactly for a quorum (at least the threshold of distinct, known
  signers) and the signature they return verifies under the group key, whichever quorum signs.\<close>

theorem threshold_signing_correct:
  assumes "ristretto_group R" and "keyset_ok R ks"
  shows "(is_ok (fst (threshold_blind_sign R ks ids m g)) \<longleftrightarrow> quorum_ids ks ids) \<and>
    (is_ok (fst (threshold_clause_blind_sign R ks ids m g)) \<longleftrightarrow> quorum_ids ks ids) \<and>
    (\<forall>sig. fst (threshold_blind_sign R ks ids m g) = Ok sig \<longrightarrow> schnorr_verify R (ks_group_public ks) m sig) \<and>
    (\<forall>sig. fst (threshold_clause_blind_sign R ks ids m g) = Ok sig \<longrightarrow> clause_verify R (ks_group_public ks) m sig)"
proof (cases "quorum_ids ks ids")
  case True
  from assms(2) obtain cs where "keyset_on R cs ks" by (auto simp: keyset_ok_def)
  from ristretto_group.threshold_sign_verifies [OF assms(1) this True]
    ristretto_group.threshold_clause_sign_verifies [OF assms(1) this True]
  show ?thesis using True by (metis is_ok.simps(1) result.inject(1))
next
  case False
  then have "\<not> is_ok (check_signers (ks_shares ks) ids {})" if "ks_threshold ks \<le> length ids"
    using that check_signers_Ok [of "ks_shares ks" ids "{}"] by (auto simp: quorum_ids_def is_ok_iff)
  then have "\<not> is_ok (fst (threshold_blind_sign R ks ids m g))"
    and "\<not> is_ok (fst (threshold_clause_blind_sign R ks ids m g))"
    by (auto simp: threshold_blind_sign_def threshold_clause_blind_sign_def not_less split: result.splits)
  with False show ?thesis by (auto simp: is_ok_iff)
qed

theorem threshold_signing_correct_witness:
  "\<exists>ks. keyset_ok zp_prims ks \<and> is_ok (fst (threshold_blind_sign zp_prims ks [3, 1] [7] (\<lambda>_. 4))) \<and>
     is_ok (fst (threshold_clause_blind_sign zp_prims ks [2, 3] [7] (\<lambda>_. 4))) \<and>
     \<not> is_ok (fst (threshold_blind_sign zp_prims ks [1, 1] [7] (\<lambda>_. 4)))"
proof -
  obtain ks where ks: "keyset_ok zp_prims ks" "ks_threshold ks = 2" "fst ` set (ks_shares ks) = of_nat ` {1..3}"
    using zp.dealer_keyset [of 2 3 "\<lambda>_. 9"] by auto
  have "{1..3 :: nat} = {1, 2, 3}" by auto
  with ks(3) have "fst ` set (ks_shares ks) = {1, 2, 3}" by simp
  then have "quorum_ids ks [3, 1]" "quorum_ids ks [2, 3]" "\<not> quorum_ids ks [1, 1]"
    using ks(2) by (auto simp: quorum_ids_def)
  with ks(1) show ?thesis
    using threshold_signing_correct [OF zp.ristretto_group_axioms ks(1)] by blast
qed

end
