(* ===== verification/Accumulator.thy ===== *)
theory Accumulator
  imports Pedersen
begin

text \<open>
  \<^verbatim>\<open>specter-fold/src/accumulator.rs\<close> and \<^verbatim>\<open>transcript.rs\<close>: the chain of signed transfer steps that
  records a token's history. Verification accepts a chain exactly when every step is signed by the owner
  the step before named, folding appends one such step, and nobody but the holder of the chain tip's
  key can fold.
\<close>

section \<open>The transcript\<close>

text \<open>A SHAKE-256 state is the byte string absorbed so far.\<close>

record transcript =
  tr_absorbed :: bytes

definition transcript_new :: "bytes \<Rightarrow> transcript" where
  "transcript_new domain = \<lparr>tr_absorbed = ascii ''specter-transcript:'' @ len_le domain @ domain\<rparr>"

definition transcript_absorb :: "bytes \<Rightarrow> bytes \<Rightarrow> transcript \<Rightarrow> transcript" where
  "transcript_absorb label data tr =
     tr\<lparr>tr_absorbed := tr_absorbed tr @ len_le label @ label @ len_le data @ data\<rparr>"

definition transcript_challenge :: "('s, 'p) prims \<Rightarrow> bytes \<Rightarrow> transcript \<Rightarrow> 's \<times> transcript" where
  "transcript_challenge R label tr =
     (let absorbed = tr_absorbed tr @ ascii ''challenge:'' @ len_le label @ label;
          wide = shake256 R absorbed 64
      in (from_bytes_mod_order_wide R wide, tr\<lparr>tr_absorbed := absorbed @ wide\<rparr>))"

definition transcript_squeeze_bytes :: "('s, 'p) prims \<Rightarrow> bytes \<Rightarrow> nat \<Rightarrow> transcript \<Rightarrow> bytes \<times> transcript" where
  "transcript_squeeze_bytes R label n tr =
     (let absorbed = tr_absorbed tr @ ascii ''squeeze:'' @ len_le label @ label;
          out = shake256 R absorbed n
      in (out, tr\<lparr>tr_absorbed := absorbed @ out\<rparr>))"

section \<open>Steps and proofs\<close>

record ('s, 'p) transfer_step =
  new_owner_pk :: 'p
  sig_r :: 'p
  sig_s :: 's

record ('s, 'p) accumulated_proof =
  genesis_owner_pk :: 'p
  steps_chain :: "('s, 'p) transfer_step list"
  ap_steps :: u32

definition current_owner_pk :: "('s, 'p) accumulated_proof \<Rightarrow> 'p" where
  "current_owner_pk proof =
     (if steps_chain proof = [] then genesis_owner_pk proof else new_owner_pk (last (steps_chain proof)))"

definition owner_pk_hash :: "('s, 'p) prims \<Rightarrow> 'p \<Rightarrow> bytes" where
  "owner_pk_hash R pk = shake256 R (ascii ''specter-owner-pk-hash:'' @ compress R pk) 32"

definition genesis_owner_pk_hash :: "('s, 'p) prims \<Rightarrow> ('s, 'p) accumulated_proof \<Rightarrow> bytes" where
  "genesis_owner_pk_hash R proof = owner_pk_hash R (genesis_owner_pk proof)"

record transfer_state =
  ts_token_id :: bytes
  ts_owner_hash :: bytes
  ts_step :: u32

definition transfer_state_to_bytes :: "transfer_state \<Rightarrow> bytes" where
  "transfer_state_to_bytes st = ts_token_id st @ ts_owner_hash st @ u32_le (ts_step st)"

datatype fold_error =
    BoundExceeded u32 u32
  | PrevOwnerMismatch
  | DeprecatedUnsignedFold

fun show_fold_error :: "fold_error \<Rightarrow> string" where
  "show_fold_error (BoundExceeded steps bound) =
     ''recursion bound exceeded: '' @ show_nat (unat steps) @ ''/'' @ show_nat (unat bound)"
| "show_fold_error PrevOwnerMismatch = ''previous owner pk does not match chain tip''"
| "show_fold_error DeprecatedUnsignedFold =
     ''unsigned fold entry point is deprecated '' @ [CHR 0xE2, CHR 0x80, CHR 0x94] @ '' use fold_transfer_signed''"

definition derive_owner_signing_key :: "('s, 'p) prims \<Rightarrow> bytes \<Rightarrow> 's" where
  "derive_owner_signing_key R owner_secret =
     from_bytes_mod_order_wide R (shake256 R (ascii ''specter-owner-signing:'' @ owner_secret) 64)"

definition derive_owner_signing_pk :: "('s, 'p) prims \<Rightarrow> bytes \<Rightarrow> 'p" where
  "derive_owner_signing_pk R owner_secret = smul R (derive_owner_signing_key R owner_secret) (basepoint R)"

definition genesis_state_owner_pk_or_identity :: "('s, 'p::zero) prims \<Rightarrow> transfer_state \<Rightarrow> 'p" where
  "genesis_state_owner_pk_or_identity R state =
     (case decompress R (ts_owner_hash state) of None \<Rightarrow> 0 | Some P \<Rightarrow> P)"

definition create_initial_proof :: "('s, 'p::zero) prims \<Rightarrow> transfer_state \<Rightarrow> ('s, 'p) accumulated_proof" where
  "create_initial_proof R genesis_state =
     \<lparr>genesis_owner_pk = genesis_state_owner_pk_or_identity R genesis_state, steps_chain = [], ap_steps = 0\<rparr>"

definition create_initial_proof_with_pk :: "transfer_state \<Rightarrow> 'p \<Rightarrow> ('s, 'p) accumulated_proof" where
  "create_initial_proof_with_pk genesis_state pk = \<lparr>genesis_owner_pk = pk, steps_chain = [], ap_steps = 0\<rparr>"

definition transfer_message :: "('s, 'p) prims \<Rightarrow> bytes \<Rightarrow> u32 \<Rightarrow> 'p \<Rightarrow> bytes" where
  "transfer_message R token_id step pk =
     shake256 R (ascii ''specter-transfer-step:'' @ token_id @ u32_le step @ compress R pk) 32"

definition transfer_challenge :: "('s, 'p) prims \<Rightarrow> 'p \<Rightarrow> 'p \<Rightarrow> bytes \<Rightarrow> 's" where
  "transfer_challenge R r pk msg =
     hash512 R (ascii ''specter-transfer-challenge:'' @ compress R r @ compress R pk @ msg)"

definition fold_transfer_signed ::
  "('s::field, 'p) prims \<Rightarrow> ('s, 'p) accumulated_proof \<Rightarrow> 's \<Rightarrow> 'p \<Rightarrow> bytes \<Rightarrow> u32 \<Rightarrow> rng \<Rightarrow>
     (('s, 'p) accumulated_proof, fold_error) result \<times> rng" where
  "fold_transfer_signed R current_proof prev_owner_signing_sk new_pk token_id recursion_bound g =
     (if recursion_bound \<le> ap_steps current_proof
      then (Err (BoundExceeded (ap_steps current_proof) recursion_bound), g)
      else case checked_add (ap_steps current_proof) 1 of
        None \<Rightarrow> (Err (BoundExceeded (ap_steps current_proof) recursion_bound), g)
      | Some new_step_number \<Rightarrow>
          let prev_owner_pk = smul R prev_owner_signing_sk (basepoint R);
              expected_prev = current_owner_pk current_proof
          in if compress R prev_owner_pk \<noteq> compress R expected_prev then (Err PrevOwnerMismatch, g)
             else
               let msg = transfer_message R token_id new_step_number new_pk;
                   (k, g) = random_scalar R g;
                   r = smul R k (basepoint R);
                   e = transfer_challenge R r prev_owner_pk msg;
                   s = k + e * prev_owner_signing_sk;
                   new_chain = steps_chain current_proof @ [\<lparr>new_owner_pk = new_pk, sig_r = r, sig_s = s\<rparr>]
               in (Ok \<lparr>genesis_owner_pk = genesis_owner_pk current_proof, steps_chain = new_chain,
                       ap_steps = new_step_number\<rparr>, g))"

definition fold_transfer ::
  "('s, 'p) accumulated_proof \<Rightarrow> transfer_state \<Rightarrow> u32 \<Rightarrow> (('s, 'p) accumulated_proof, fold_error) result" where
  "fold_transfer current_proof new_state recursion_bound =
     (if recursion_bound \<le> ap_steps current_proof
      then Err (BoundExceeded (ap_steps current_proof) recursion_bound)
      else Err DeprecatedUnsignedFold)"

text \<open>Every step is checked, without an early return.\<close>

definition walk_chain ::
  "('s::field, 'p::ab_group_add) prims \<Rightarrow> bytes \<Rightarrow> bool \<times> 'p \<Rightarrow> nat \<Rightarrow> ('s, 'p) transfer_step list \<Rightarrow> bool \<times> 'p" where
  "walk_chain R token_id start i chain =
     foldl (\<lambda>(valid, current_pk) (i, step).
         let step_number = of_nat i + 1;
             msg = transfer_message R token_id step_number (new_owner_pk step);
             e = transfer_challenge R (sig_r step) current_pk msg;
             lhs = smul R (sig_s step) (basepoint R);
             rhs = sig_r step + smul R e current_pk
         in (valid \<and> compress R lhs = compress R rhs, new_owner_pk step)) start (enumerate i chain)"

definition verify_accumulated_proof ::
  "('s::field, 'p::ab_group_add) prims \<Rightarrow> ('s, 'p) accumulated_proof \<Rightarrow> transfer_state \<Rightarrow> bool" where
  "verify_accumulated_proof R proof genesis_state \<longleftrightarrow>
     (let valid = (owner_pk_hash R (genesis_owner_pk proof) = ts_owner_hash genesis_state);
          valid = (valid \<and> unat (ap_steps proof) = length (steps_chain proof))
      in fst (walk_chain R (ts_token_id genesis_state) (valid, genesis_owner_pk proof) 0 (steps_chain proof)))"

section \<open>What a chain proves\<close>

text \<open>
  The specification: step number \<open>i + 1\<close> is a signature by the owner before it on the token, the number
  and the next owner.
\<close>

definition chain_owner :: "'p \<Rightarrow> ('s, 'p) transfer_step list \<Rightarrow> nat \<Rightarrow> 'p" where
  "chain_owner pk chain i = (if i = 0 then pk else new_owner_pk (chain ! (i - 1)))"

definition step_signed ::
  "('s::field, 'p::ab_group_add) prims \<Rightarrow> bytes \<Rightarrow> 'p \<Rightarrow> u32 \<Rightarrow> ('s, 'p) transfer_step \<Rightarrow> bool" where
  "step_signed R token_id pk n step \<longleftrightarrow>
     schnorr_accepts R (transfer_challenge R (sig_r step) pk (transfer_message R token_id n (new_owner_pk step)))
       pk (sig_r step) (sig_s step)"

sublocale ristretto_group \<subseteq> step_sig: schnorr R "transfer_challenge R"
  by unfold_locales

lemma walk_chain_Nil [simp]: "walk_chain R tid s i [] = s"
  by (simp add: walk_chain_def)

lemma walk_chain_Cons [simp]:
  "walk_chain R tid (v, pk) i (step # chain) =
     walk_chain R tid (v \<and> step_signed R tid pk (of_nat i + 1) step, new_owner_pk step) (Suc i) chain"
  by (simp add: walk_chain_def step_signed_def schnorr_accepts_def Let_def)

lemma walk_chain_append [simp]:
  "walk_chain R tid s i (chain @ chain') = walk_chain R tid (walk_chain R tid s i chain) (i + length chain) chain'"
  by (induction chain arbitrary: s i) (auto split: prod.splits)

lemma walk_chain_owner:
  "snd (walk_chain R tid (v, pk) i chain) = (if chain = [] then pk else new_owner_pk (last chain))"
  by (induction chain arbitrary: v pk i) auto

lemma walk_chain_valid:
  "fst (walk_chain R tid (v, pk) i chain) \<longleftrightarrow>
     v \<and> (\<forall>k<length chain. step_signed R tid (chain_owner pk chain k) (of_nat (i + k) + 1) (chain ! k))"
proof (induction chain arbitrary: v pk i)
  case (Cons step chain)
  have "chain_owner (new_owner_pk step) chain k = chain_owner pk (step # chain) (Suc k)" for k
    by (cases k) (auto simp: chain_owner_def)
  moreover have "chain_owner pk (step # chain) 0 = pk" by (simp add: chain_owner_def)
  ultimately show ?case
    by (simp add: Cons.IH All_less_Suc2 algebra_simps)
qed simp

lemma verify_accumulated_proof_iff:
  "verify_accumulated_proof R proof st \<longleftrightarrow>
     owner_pk_hash R (genesis_owner_pk proof) = ts_owner_hash st \<and>
     unat (ap_steps proof) = length (steps_chain proof) \<and>
     (\<forall>k<length (steps_chain proof).
        step_signed R (ts_token_id st) (chain_owner (genesis_owner_pk proof) (steps_chain proof) k)
          (of_nat k + 1) (steps_chain proof ! k))"
  by (auto simp: verify_accumulated_proof_def walk_chain_valid Let_def)

lemma current_owner_chain_owner:
  "current_owner_pk proof = chain_owner (genesis_owner_pk proof) (steps_chain proof) (length (steps_chain proof))"
  by (auto simp: current_owner_pk_def chain_owner_def last_conv_nth)

lemma chain_owner_append:
  "k \<le> length chain \<Longrightarrow> chain_owner pk (chain @ [s]) k = chain_owner pk chain k"
  by (cases k) (auto simp: chain_owner_def nth_append)

text \<open>Verification of a chain extended by one step.\<close>

lemma verify_extend:
  assumes "verify_accumulated_proof R proof st" and "checked_add (ap_steps proof) 1 = Some n"
  shows "verify_accumulated_proof R \<lparr>genesis_owner_pk = genesis_owner_pk proof,
      steps_chain = steps_chain proof @ [s], ap_steps = n\<rparr> st \<longleftrightarrow>
    step_signed R (ts_token_id st) (current_owner_pk proof) n s"
proof -
  have len: "unat (ap_steps proof) = length (steps_chain proof)"
    using assms(1) by (simp add: verify_accumulated_proof_iff)
  have "unat n = Suc (length (steps_chain proof))"
    using checked_add_unat [OF assms(2)] len by simp
  moreover have "n = of_nat (length (steps_chain proof)) + 1"
    using assms(2) by (simp add: checked_add_Some flip: len)
  ultimately show ?thesis
    using assms(1)
    by (simp add: verify_accumulated_proof_iff All_less_Suc chain_owner_append nth_append
        current_owner_chain_owner)
qed

lemma fold_transfer_signed_eq:
  "fst (fold_transfer_signed R proof sk pk tid bound g) =
    (if bound \<le> ap_steps proof then Err (BoundExceeded (ap_steps proof) bound)
     else if compress R (smul R sk (basepoint R)) \<noteq> compress R (current_owner_pk proof) then Err PrevOwnerMismatch
     else let n = ap_steps proof + 1; k = fst (random_scalar R g); r = smul R k (basepoint R);
              e = transfer_challenge R r (smul R sk (basepoint R)) (transfer_message R tid n pk)
          in Ok \<lparr>genesis_owner_pk = genesis_owner_pk proof,
                steps_chain = steps_chain proof @ [\<lparr>new_owner_pk = pk, sig_r = r, sig_s = k + e * sk\<rparr>],
                ap_steps = n\<rparr>)"
proof -
  have "checked_add (ap_steps proof) 1 = Some (ap_steps proof + 1)" if "\<not> bound \<le> ap_steps proof"
    using that unsigned_less [of bound, where ?'a = nat] by (simp add: checked_add_def word_le_nat_alt)
  then show ?thesis
    by (auto simp: fold_transfer_signed_def Let_def split: prod.splits)
qed

context ristretto_group
begin

lemma fold_keeps_valid:
  assumes "verify_accumulated_proof R proof st"
    and "fst (fold_transfer_signed R proof sk pk (ts_token_id st) bound g) = Ok proof'"
  shows "verify_accumulated_proof R proof' st" and "current_owner_pk proof' = pk"
    and "genesis_owner_pk proof' = genesis_owner_pk proof" and "unat (ap_steps proof') = unat (ap_steps proof) + 1"
    and "\<exists>s. steps_chain proof' = steps_chain proof @ [s]" and "ap_steps proof' \<le> bound"
proof -
  let ?n = "ap_steps proof + 1" and ?r = "smul R (fst (random_scalar R g)) (basepoint R)"
  have bound: "ap_steps proof < bound" and tip: "smul R sk (basepoint R) = current_owner_pk proof"
    and proof': "proof' = \<lparr>genesis_owner_pk = genesis_owner_pk proof,
      steps_chain = steps_chain proof @ [\<lparr>new_owner_pk = pk, sig_r = ?r, sig_s = fst (random_scalar R g) +
        transfer_challenge R ?r (current_owner_pk proof) (transfer_message R (ts_token_id st) ?n pk) * sk\<rparr>], ap_steps = ?n\<rparr>"
    using assms(2) by (auto simp: fold_transfer_signed_eq Let_def split: if_splits)
  have n: "checked_add (ap_steps proof) 1 = Some ?n"
    using bound unsigned_less [of bound, where ?'a = nat] by (simp add: checked_add_def word_less_nat_alt)
  show "verify_accumulated_proof R proof' st"
    unfolding proof' verify_extend [OF assms(1) n] step_signed_def
    using step_sig.signed_accepts [OF tip [symmetric] refl] by simp
  show "current_owner_pk proof' = pk" "genesis_owner_pk proof' = genesis_owner_pk proof"
      "\<exists>s. steps_chain proof' = steps_chain proof @ [s]"
    by (simp_all add: proof' current_owner_pk_def)
  show u: "unat (ap_steps proof') = unat (ap_steps proof) + 1"
    using checked_add_unat [OF n] by (simp add: proof')
  show "ap_steps proof' \<le> bound"
    using u bound by (simp add: word_le_nat_alt word_less_nat_alt)
qed

end

section \<open>Properties\<close>

text \<open>C20: \<^verbatim>\<open>verify_accumulated_proof\<close>, which checks every step without early return, accepts exactly the
  chains that are anchored at the genesis key, have the recorded number of steps, and in which each step is a
  signature of the token, the step's number and the next owner under the key of the owner before it.\<close>

theorem chain_verification_spec:
  "verify_accumulated_proof R proof st \<longleftrightarrow>
     owner_pk_hash R (genesis_owner_pk proof) = ts_owner_hash st \<and>
     unat (ap_steps proof) = length (steps_chain proof) \<and>
     (\<forall>k<length (steps_chain proof). \<exists>pk step. step = steps_chain proof ! k \<and>
        pk = (if k = 0 then genesis_owner_pk proof else new_owner_pk (steps_chain proof ! (k - 1))) \<and>
        schnorr_accepts R (transfer_challenge R (sig_r step) pk
           (transfer_message R (ts_token_id st) (of_nat k + 1) (new_owner_pk step))) pk (sig_r step) (sig_s step))"
  unfolding verify_accumulated_proof_iff step_signed_def chain_owner_def by blast

text \<open>Folding: \<^verbatim>\<open>fold_transfer_signed\<close> on a valid chain succeeds exactly when the bound is not reached and
  the signer's key is the chain tip's; then the new chain is valid, extends the old one by one step, stays
  within the bound, keeps the genesis owner and names the new owner as its tip.\<close>

lemma fold_transfer_extends:
  assumes "ristretto_group R" and "verify_accumulated_proof R proof st"
  shows "(is_ok (fst (fold_transfer_signed R proof sk pk (ts_token_id st) bound g)) \<longleftrightarrow>
      ap_steps proof < bound \<and> smul R sk (basepoint R) = current_owner_pk proof) \<and>
    (\<forall>proof'. fst (fold_transfer_signed R proof sk pk (ts_token_id st) bound g) = Ok proof' \<longrightarrow>
      verify_accumulated_proof R proof' st \<and> current_owner_pk proof' = pk \<and>
      genesis_owner_pk proof' = genesis_owner_pk proof \<and> unat (ap_steps proof') = unat (ap_steps proof) + 1 \<and>
      ap_steps proof' \<le> bound \<and> (\<exists>s. steps_chain proof' = steps_chain proof @ [s]))"
proof -
  have "is_ok (fst (fold_transfer_signed R proof sk pk (ts_token_id st) bound g)) \<longleftrightarrow>
      ap_steps proof < bound \<and> smul R sk (basepoint R) = current_owner_pk proof"
    using ristretto_group.compress_inject [OF assms(1)] by (auto simp: fold_transfer_signed_eq Let_def)
  then show ?thesis
    using ristretto_group.fold_keeps_valid [OF assms] by metis
qed

lemma fold_transfer_extends_witness:
  "\<exists>proof'. fst (fold_transfer_signed zp_prims \<lparr>genesis_owner_pk = 7, steps_chain = [], ap_steps = 0\<rparr> 7 9 [1] 5 (\<lambda>_. 3)) = Ok proof' \<and>
     verify_accumulated_proof zp_prims proof' \<lparr>ts_token_id = [1], ts_owner_hash = owner_pk_hash zp_prims 7, ts_step = 0\<rparr> \<and>
     current_owner_pk proof' = 9"
proof -
  let ?p = "\<lparr>genesis_owner_pk = 7, steps_chain = [], ap_steps = 0\<rparr> :: (zp, zp) accumulated_proof"
  let ?st = "\<lparr>ts_token_id = [1], ts_owner_hash = owner_pk_hash zp_prims 7, ts_step = 0\<rparr>"
  have v: "verify_accumulated_proof zp_prims ?p ?st"
    by (simp add: verify_accumulated_proof_iff)
  have "smul zp_prims 7 (basepoint zp_prims) = current_owner_pk ?p"
    by (simp add: zp_prims_def current_owner_pk_def)
  then show ?thesis
    using fold_transfer_extends [OF zp.ristretto_group_axioms v, of 7 9 5 "\<lambda>_. 3"] by (auto simp: is_ok_iff)
qed

text \<open>The specification at a chain of one step: the step is a signature of the genesis owner.\<close>

theorem chain_verification_spec_witness:
  "\<exists>p. verify_accumulated_proof zp_prims p \<lparr>ts_token_id = [1], ts_owner_hash = owner_pk_hash zp_prims 7, ts_step = 0\<rparr> \<and>
     (\<exists>step. steps_chain p = [step] \<and> schnorr_accepts zp_prims (transfer_challenge zp_prims (sig_r step) 7
        (transfer_message zp_prims [1] 1 (new_owner_pk step))) 7 (sig_r step) (sig_s step))"
proof -
  let ?p = "\<lparr>genesis_owner_pk = 7, steps_chain = [], ap_steps = 0\<rparr> :: (zp, zp) accumulated_proof"
  let ?st = "\<lparr>ts_token_id = [1], ts_owner_hash = owner_pk_hash zp_prims 7, ts_step = 0\<rparr>"
  have v: "verify_accumulated_proof zp_prims ?p ?st" by (simp add: verify_accumulated_proof_iff)
  have "smul zp_prims 7 (basepoint zp_prims) = current_owner_pk ?p" by (simp add: zp_prims_def current_owner_pk_def)
  then obtain p step where p: "verify_accumulated_proof zp_prims p ?st" "genesis_owner_pk p = 7" "steps_chain p = [step]"
    using fold_transfer_extends [OF zp.ristretto_group_axioms v, of 7 9 5 "\<lambda>_. 3"] by (auto simp: is_ok_iff)
  from p(1) [unfolded chain_verification_spec] p(2,3) have "schnorr_accepts zp_prims (transfer_challenge zp_prims (sig_r step) 7
      (transfer_message zp_prims [1] 1 (new_owner_pk step))) 7 (sig_r step) (sig_s step)" by simp
  with p show ?thesis by blast
qed

end
