(* ===== verification/Credentials.thy ===== *)
theory Credentials
  imports Pedersen
begin

text \<open>
  \<^verbatim>\<open>specter-credential\<close>: attributes, the issuer, selective-disclosure presentations and revocation. The
  presentation of any distinct choice of attributes of an issued credential verifies; two
  answers to one announcement give an opening of the credential's commitment that agrees with the
  disclosed values; a presentation with too few responses panics the verifier.
\<close>

section \<open>Attributes and credentials\<close>

record attributes =
  kyc_passed :: bool
  not_sanctioned :: bool
  jurisdiction :: string
  age_over_18 :: bool
  expires_at :: u64

definition jurisdiction_code :: "attributes \<Rightarrow> u64" where
  "jurisdiction_code a =
     (if jurisdiction a = ''EU'' then 1 else if jurisdiction a = ''US'' then 2
      else if jurisdiction a = ''BR'' then 3 else if jurisdiction a = ''UK'' then 4
      else if jurisdiction a = ''CH'' then 5 else if jurisdiction a = ''JP'' then 6 else 99)"

definition to_scalars :: "('s, 'p) prims \<Rightarrow> attributes \<Rightarrow> 's list" where
  "to_scalars R a =
     [scalar_of_u64 R (of_bool (kyc_passed a)), scalar_of_u64 R (of_bool (not_sanctioned a)),
      scalar_of_u64 R (jurisdiction_code a), scalar_of_u64 R (of_bool (age_over_18 a)),
      scalar_of_u64 R (expires_at a)]"

definition attribute_count :: nat where
  "attribute_count = 5"

record ('s, 'p) credential =
  cred_commitment :: 'p
  cred_blinding :: 's
  cred_attributes :: attributes
  cred_signature_s :: 's
  cred_signature_e :: 's
  cred_issuer_pk :: 'p

section \<open>The issuer\<close>

record ('s, 'p) issuer =
  iss_secret :: 's
  iss_public :: 'p
  iss_pedersen :: "'p pedersen_params"

definition issuer_new :: "('s, 'p) prims \<Rightarrow> rng \<Rightarrow> ('s, 'p) issuer \<times> rng" where
  "issuer_new R g =
     (let (secret, g) = random_scalar R g
      in (\<lparr>iss_secret = secret, iss_public = smul R secret (basepoint R), iss_pedersen = pedersen_new R\<rparr>, g))"

definition hash_credential_challenge :: "('s, 'p) prims \<Rightarrow> 'p \<Rightarrow> 'p \<Rightarrow> 'p \<Rightarrow> 's" where
  "hash_credential_challenge R r commitment issuer_pk =
     hash512 R (ascii ''specter-credential-sig:'' @ compress R r @ compress R commitment @ compress R issuer_pk)"

definition issue_credential ::
  "('s::field, 'p) prims \<Rightarrow> ('s, 'p) issuer \<Rightarrow> attributes \<Rightarrow> rng \<Rightarrow> ('s, 'p) credential \<times> rng" where
  "issue_credential R iss attrs g =
     (let (blinding, g) = random_scalar R g;
          commitment = commit_vector R (iss_pedersen iss) (to_scalars R attrs) blinding;
          (k, g) = random_scalar R g;
          r = smul R k (basepoint R);
          e = hash_credential_challenge R r commitment (iss_public iss);
          s = k + e * iss_secret iss
      in (\<lparr>cred_commitment = commitment, cred_blinding = blinding, cred_attributes = attrs,
           cred_signature_s = s, cred_signature_e = e, cred_issuer_pk = iss_public iss\<rparr>, g))"

definition verify_credential_signature :: "('s, 'p::ab_group_add) prims \<Rightarrow> ('s, 'p) credential \<Rightarrow> bool" where
  "verify_credential_signature R c \<longleftrightarrow>
     (let r_prime = smul R (cred_signature_s c) (basepoint R) - smul R (cred_signature_e c) (cred_issuer_pk c);
          expected_e = hash_credential_challenge R r_prime (cred_commitment c) (cred_issuer_pk c)
      in scalar_bytes R expected_e = scalar_bytes R (cred_signature_e c))"

definition verify_credential ::
  "('s, 'p::ab_group_add) prims \<Rightarrow> ('s, 'p) issuer \<Rightarrow> ('s, 'p) credential \<Rightarrow> bool" where
  "verify_credential R iss c = verify_credential_signature R c"

section \<open>Presentations\<close>

record ('s, 'p) presentation =
  pres_commitment :: 'p
  pres_issuer_pk :: 'p
  pres_cred_signature_s :: 's
  pres_cred_signature_e :: 's
  disclosed :: "(nat \<times> 's) list"
  proof_commitment :: 'p
  proof_response :: "'s list"
  proof_challenge :: 's

definition ATTR_KYC_PASSED :: nat where "ATTR_KYC_PASSED = 0"
definition ATTR_NOT_SANCTIONED :: nat where "ATTR_NOT_SANCTIONED = 1"
definition ATTR_JURISDICTION :: nat where "ATTR_JURISDICTION = 2"
definition ATTR_AGE_OVER_18 :: nat where "ATTR_AGE_OVER_18 = 3"
definition ATTR_EXPIRES_AT :: nat where "ATTR_EXPIRES_AT = 4"

definition hash_presentation_challenge ::
  "('s, 'p) prims \<Rightarrow> 'p \<Rightarrow> 'p \<Rightarrow> (nat \<times> 's) list \<Rightarrow> 'p \<Rightarrow> 's" where
  "hash_presentation_challenge R commitment announcement disclosed_attrs issuer_pk =
     hash512 R (ascii ''specter-presentation-challenge:'' @ compress R commitment @ compress R announcement @
       compress R issuer_pk @ concat (map (\<lambda>(i, v). u64_le (of_nat i) @ scalar_bytes R v) disclosed_attrs))"

definition hidden_indices :: "nat list \<Rightarrow> nat list" where
  "hidden_indices shown = filter (\<lambda>i. i \<notin> set shown) [0..<attribute_count]"

definition create_presentation ::
  "('s::field, 'p::ab_group_add) prims \<Rightarrow> ('s, 'p) credential \<Rightarrow> nat list \<Rightarrow> 'p pedersen_params \<Rightarrow> rng \<Rightarrow>
     ('s, 'p) presentation \<times> rng" where
  "create_presentation R c disclose_indices pedersen g =
     (let all_scalars = to_scalars R (cred_attributes c);
          n = attribute_count;
          generators = map (vector_generator R) [0..<n];
          valid_disclose = filter (\<lambda>i. i < n) disclose_indices;
          disclosed_attrs = map (\<lambda>i. (i, all_scalars ! i)) valid_disclose;
          hidden = hidden_indices valid_disclose;
          (randoms, g) = random_scalars R (length hidden + 1) g;
          t_points = map (\<lambda>(j, i). smul R (randoms ! j) (generators ! i)) (enumerate 0 hidden) @
            [smul R (randoms ! length hidden) (ped_h pedersen)];
          announcement = foldl (+) 0 t_points;
          challenge = hash_presentation_challenge R (cred_commitment c) announcement disclosed_attrs (cred_issuer_pk c);
          responses = map (\<lambda>(j, i). randoms ! j + challenge * all_scalars ! i) (enumerate 0 hidden) @
            [randoms ! length hidden + challenge * cred_blinding c]
      in (\<lparr>pres_commitment = cred_commitment c, pres_issuer_pk = cred_issuer_pk c,
           pres_cred_signature_s = cred_signature_s c, pres_cred_signature_e = cred_signature_e c,
           disclosed = disclosed_attrs, proof_commitment = announcement, proof_response = responses,
           proof_challenge = challenge\<rparr>, g))"

text \<open>The announcement recomputed from the responses; indexing past the responses panics.\<close>

definition recomputed_t ::
  "('s::field, 'p::ab_group_add) prims \<Rightarrow> 'p pedersen_params \<Rightarrow> ('s, 'p) presentation \<Rightarrow> 'p" where
  "recomputed_t R pedersen pres =
     (let generators = map (vector_generator R) [0..<attribute_count];
          hidden = hidden_indices (map fst (disclosed pres));
          disclosed_part = foldl (+) 0 (map (\<lambda>(i, v). smul R v (generators ! i)) (disclosed pres));
          c_hidden = pres_commitment pres - disclosed_part;
          t = foldl (\<lambda>t (j, _). t + smul R (proof_response pres ! j) (generators ! (hidden ! j))) 0 (enumerate 0 hidden);
          t = t + smul R (proof_response pres ! length hidden) (ped_h pedersen)
      in t - smul R (proof_challenge pres) c_hidden)"

definition verify_presentation ::
  "('s::field, 'p::ab_group_add) prims \<Rightarrow> ('s, 'p) presentation \<Rightarrow> 'p pedersen_params \<Rightarrow> (bool, unit) result" where
  "verify_presentation R pres pedersen =
     (let r_prime = smul R (pres_cred_signature_s pres) (basepoint R)
            - smul R (pres_cred_signature_e pres) (pres_issuer_pk pres);
          expected_e = hash512 R (ascii ''specter-credential-sig:'' @ compress R r_prime @
            compress R (pres_commitment pres) @ compress R (pres_issuer_pk pres))
      in if scalar_bytes R expected_e \<noteq> scalar_bytes R (pres_cred_signature_e pres) then Ok False
         else
           let disclosed_indices = map fst (disclosed pres) in
           if list_ex (\<lambda>i. attribute_count \<le> i) disclosed_indices then Ok False
           else if length (proof_response pres) \<le> length (hidden_indices disclosed_indices) then Panic
           else
             let expected_challenge = hash_presentation_challenge R (pres_commitment pres)
                   (recomputed_t R pedersen pres) (disclosed pres) (pres_issuer_pk pres)
             in Ok (scalar_bytes R expected_challenge = scalar_bytes R (proof_challenge pres)))"

section \<open>Revocation\<close>

record revocation_list =
  revoked_commitments :: "bytes set"
  revoked_holders :: "bytes set"

definition revocation_new :: revocation_list where
  "revocation_new = \<lparr>revoked_commitments = {}, revoked_holders = {}\<rparr>"

definition commitment_hash :: "('s, 'p) prims \<Rightarrow> 'p \<Rightarrow> bytes" where
  "commitment_hash R commitment = compress R commitment"

definition revoke :: "('s, 'p) prims \<Rightarrow> ('s, 'p) credential \<Rightarrow> revocation_list \<Rightarrow> revocation_list" where
  "revoke R c rl = rl\<lparr>revoked_commitments := insert (commitment_hash R (cred_commitment c)) (revoked_commitments rl)\<rparr>"

definition revoke_holder :: "bytes \<Rightarrow> revocation_list \<Rightarrow> revocation_list" where
  "revoke_holder holder_id rl = rl\<lparr>revoked_holders := insert holder_id (revoked_holders rl)\<rparr>"

definition is_revoked :: "('s, 'p) prims \<Rightarrow> revocation_list \<Rightarrow> ('s, 'p) credential \<Rightarrow> bool" where
  "is_revoked R rl c \<longleftrightarrow> commitment_hash R (cred_commitment c) \<in> revoked_commitments rl"

definition is_holder_revoked :: "revocation_list \<Rightarrow> bytes \<Rightarrow> bool" where
  "is_holder_revoked rl holder_id \<longleftrightarrow> holder_id \<in> revoked_holders rl"

definition revocation_count :: "revocation_list \<Rightarrow> nat" where
  "revocation_count rl = card (revoked_commitments rl) + card (revoked_holders rl)"

definition is_expired :: "('s, 'p) credential \<Rightarrow> u64 \<Rightarrow> bool" where
  "is_expired c current_time \<longleftrightarrow>
     0 < expires_at (cred_attributes c) \<and> expires_at (cred_attributes c) < current_time"

section \<open>What a verifier learns\<close>

text \<open>The specification side of the presentation. A list of disclosed pairs may name an index twice; the
  verifier adds the values up. \<open>present_as\<close> is the holder's procedure for any list of disclosed pairs;
  \<^verbatim>\<open>create_presentation\<close> is its use on the attributes of the credential. From two presentations
  with one announcement and different challenges the extractor computes the attributes and the
  blinding.\<close>

definition disclosed_value :: "(nat \<times> 's::field) list \<Rightarrow> nat \<Rightarrow> 's" where
  "disclosed_value ds i = (\<Sum>(j, v)\<leftarrow>ds. if j = i then v else 0)"

definition present_as ::
  "('s::field, 'p::ab_group_add) prims \<Rightarrow> ('s, 'p) credential \<Rightarrow> (nat \<times> 's) list \<Rightarrow> 'p pedersen_params \<Rightarrow> rng \<Rightarrow>
     ('s, 'p) presentation \<times> rng" where
  "present_as R c ds pedersen g =
     (let a = to_scalars R (cred_attributes c);
          hidden = hidden_indices (map fst ds);
          (rs, g) = random_scalars R (length hidden + 1) g;
          T = (\<Sum>j<length hidden. smul R (rs ! j) (vector_generator R (hidden ! j))) + smul R (rs ! length hidden) (ped_h pedersen);
          ch = hash_presentation_challenge R (cred_commitment c) T ds (cred_issuer_pk c)
      in (\<lparr>pres_commitment = cred_commitment c, pres_issuer_pk = cred_issuer_pk c,
           pres_cred_signature_s = cred_signature_s c, pres_cred_signature_e = cred_signature_e c,
           disclosed = ds, proof_commitment = T,
           proof_response = map (\<lambda>j. rs ! j + ch * a ! (hidden ! j)) [0..<length hidden] @ [rs ! length hidden + ch * cred_blinding c],
           proof_challenge = ch\<rparr>, g))"

definition extracted_response :: "('s::field, 'p) presentation \<Rightarrow> ('s, 'p) presentation \<Rightarrow> nat \<Rightarrow> 's" where
  "extracted_response pres pres' j =
     (proof_response pres ! j - proof_response pres' ! j) / (proof_challenge pres - proof_challenge pres')"

definition extracted_attributes :: "('s::field, 'p) presentation \<Rightarrow> ('s, 'p) presentation \<Rightarrow> 's list" where
  "extracted_attributes pres pres' =
     (let hidden = hidden_indices (map fst (disclosed pres))
      in map (\<lambda>i. case map_of (zip hidden [0..<length hidden]) i of
                    Some j \<Rightarrow> extracted_response pres pres' j
                  | None \<Rightarrow> disclosed_value (disclosed pres) i) [0..<attribute_count])"

definition extracted_blinding :: "('s::field, 'p) presentation \<Rightarrow> ('s, 'p) presentation \<Rightarrow> 's" where
  "extracted_blinding pres pres' = extracted_response pres pres' (length (hidden_indices (map fst (disclosed pres))))"

text \<open>A second hash for the fork: it differs from the first on presentation challenges only, so that the
  generators and the credential signature stay what they are.\<close>

definition presentation_domain :: bytes where
  "presentation_domain = ascii ''specter-presentation-challenge:''"

definition rehashes_challenges :: "('s, 'p) prims \<Rightarrow> (bytes \<Rightarrow> bytes) \<Rightarrow> bool" where
  "rehashes_challenges R h \<longleftrightarrow> (\<forall>bs. take (length presentation_domain) bs \<noteq> presentation_domain \<longrightarrow> h bs = sha512 R bs)"

section \<open>Lemmas\<close>

lemma length_to_scalars [simp]: "length (to_scalars R a) = attribute_count"
  by (simp add: to_scalars_def attribute_count_def)

lemma disclosed_value_simps [simp]:
  "disclosed_value [] i = 0"
  "disclosed_value ((j, v) # ds) i = (if j = i then v else 0) + disclosed_value ds i"
  by (simp_all add: disclosed_value_def)

lemma disclosed_value_absent: "i \<notin> fst ` set ds \<Longrightarrow> disclosed_value ds i = 0"
  by (induction ds) auto

lemma disclosed_value_once: "distinct (map fst ds) \<Longrightarrow> (i, v) \<in> set ds \<Longrightarrow> disclosed_value ds i = v"
  by (induction ds) (auto simp: disclosed_value_absent image_iff)

lemma disclosed_value_map: "distinct is \<Longrightarrow> i \<in> set is \<Longrightarrow> disclosed_value (map (\<lambda>i. (i, f i)) is) i = f i"
  by (rule disclosed_value_once) (auto simp: o_def)

lemma sum_list_enumerate: "(\<Sum>(j, i)\<leftarrow>enumerate n xs. f j i) = (\<Sum>j<length xs. f (n + j) (xs ! j))"
  by (induction xs arbitrary: n) (auto simp: sum.lessThan_Suc_shift simp del: sum.lessThan_Suc)

lemma hidden_indices_less: "j < length (hidden_indices shown) \<Longrightarrow> hidden_indices shown ! j < attribute_count"
  using nth_mem [of j "hidden_indices shown"] by (auto simp: hidden_indices_def)

lemma foldl_enumerate_fst: "foldl (\<lambda>t (j, _). t + f j) t (enumerate n xs) = t + (\<Sum>j<length xs. f (n + j))"
  for t :: "'a::comm_monoid_add"
  by (induction xs arbitrary: n t) (auto simp: sum.lessThan_Suc_shift algebra_simps simp del: sum.lessThan_Suc)

text \<open>The announcement in terms of the responses, without the loops.\<close>

lemma recomputed_t_eq:
  assumes "\<forall>i\<in>fst ` set (disclosed pres). i < attribute_count"
  defines "hidden \<equiv> hidden_indices (map fst (disclosed pres))"
  shows "recomputed_t R pedersen pres =
    (\<Sum>j<length hidden. smul R (proof_response pres ! j) (vector_generator R (hidden ! j)))
    + smul R (proof_response pres ! length hidden) (ped_h pedersen)
    - smul R (proof_challenge pres) (pres_commitment pres - (\<Sum>(i, v)\<leftarrow>disclosed pres. smul R v (vector_generator R i)))"
proof -
  have "(\<Sum>(i, v)\<leftarrow>disclosed pres. smul R v (map (vector_generator R) [0..<attribute_count] ! i))
      = (\<Sum>(i, v)\<leftarrow>disclosed pres. smul R v (vector_generator R i))"
    using assms(1) by (intro arg_cong [where f = sum_list] map_cong) auto
  moreover have "(\<Sum>j<length hidden. smul R (proof_response pres ! j) (map (vector_generator R) [0..<attribute_count] ! (hidden ! j)))
      = (\<Sum>j<length hidden. smul R (proof_response pres ! j) (vector_generator R (hidden ! j)))"
    using hidden_indices_less by (intro sum.cong) (auto simp: hidden_def)
  ultimately show ?thesis
    by (simp add: recomputed_t_def Let_def foldl_add_sum_list foldl_enumerate_fst hidden_def)
qed

lemma smul_sum:
  assumes "ristretto_group R"
  shows "smul R a (\<Sum>i\<in>A. f i) = (\<Sum>i\<in>A. smul R a (f i))"
  by (induction A rule: infinite_finite_induct)
    (simp_all add: ristretto_group.smul_zero_point [OF assms] ristretto_group.smul_add_point [OF assms])

context ristretto_group
begin

lemma commit_vector_eq:
  "commit_vector R params vs b = (\<Sum>i<length vs. smul R (vs ! i) (vector_generator R i)) + smul R b (ped_h params)"
proof -
  have "(\<Sum>(v, P)\<leftarrow>zip vs (map (vector_generator R) [0..<length vs]). smul R v P)
      = (\<Sum>i<length vs. smul R (vs ! i) (vector_generator R i))"
    by (simp add: sum_list_sum_nth atLeast0LessThan)
  then show ?thesis
    by (simp add: commit_vector_def multiscalar_sum)
qed

lemma issued_signature: 
  assumes "iss_public iss = smul R (iss_secret iss) (basepoint R)"
  shows "verify_credential_signature R (fst (issue_credential R iss attrs g))"
  by (simp add: issue_credential_def verify_credential_signature_def Let_def assms smul_add_scalar smul_mult
      split: prod.splits)

lemma disclosed_part:
  assumes "\<forall>i\<in>fst ` set ds. i < n"
  shows "(\<Sum>(i, v)\<leftarrow>ds. smul R v (P i)) = (\<Sum>i<n. smul R (disclosed_value ds i) (P i))"
  using assms
proof (induction ds)
  case (Cons d ds)
  obtain j v where d: "d = (j, v)" by fastforce
  have "(\<Sum>i<n. smul R (if j = i then v else 0) (P i)) = (\<Sum>i<n. if j = i then smul R v (P i) else 0)"
    by (intro sum.cong) auto
  also have "\<dots> = smul R v (P j)" using Cons.prems d by (simp add: sum.delta)
  finally show ?case using Cons d by (simp add: smul_add_scalar sum.distrib)
qed simp

text \<open>A commitment split into hidden and disclosed attributes, the way the verifier splits it.\<close>

lemma commit_vector_partition:
  assumes "length vs = attribute_count" and "\<forall>i\<in>fst ` set ds. i < attribute_count"
    and "\<forall>i\<in>fst ` set ds. vs ! i = disclosed_value ds i"
  defines "h \<equiv> hidden_indices (map fst ds)"
  shows "commit_vector R params vs b = (\<Sum>j<length h. smul R (vs ! (h ! j)) (vector_generator R (h ! j)))
    + (\<Sum>(i, v)\<leftarrow>ds. smul R v (vector_generator R i)) + smul R b (ped_h params)"
proof -
  let ?V = "vector_generator R" and ?u = "\<lambda>i. if i \<in> fst ` set ds then 0 else vs ! i"
  have "(\<Sum>j<length h. smul R (vs ! (h ! j)) (?V (h ! j))) = (\<Sum>i\<leftarrow>h. smul R (vs ! i) (?V i))"
    by (simp add: sum_list_sum_nth atLeast0LessThan)
  also have "\<dots> = (\<Sum>i\<in>{i\<in>{..<attribute_count}. i \<notin> fst ` set ds}. smul R (vs ! i) (?V i))"
    by (simp add: h_def hidden_indices_def sum_list_distinct_conv_sum_set lessThan_atLeast0)
  also have "\<dots> = (\<Sum>i<attribute_count. smul R (?u i) (?V i))"
    by (subst sum.inter_filter) (auto intro!: sum.cong)
  finally have hid: "(\<Sum>j<length h. smul R (vs ! (h ! j)) (?V (h ! j))) = (\<Sum>i<attribute_count. smul R (?u i) (?V i))" .
  have "vs ! i = ?u i + disclosed_value ds i" for i
    using assms(3) disclosed_value_absent [of i ds] by (cases "i \<in> fst ` set ds") auto
  then have "(\<Sum>i<attribute_count. smul R (vs ! i) (?V i)) =
      (\<Sum>i<attribute_count. smul R (?u i + disclosed_value ds i) (?V i))"
    by (intro sum.cong arg_cong2 [where f = "smul R"]) auto
  also have "\<dots> = (\<Sum>i<attribute_count. smul R (?u i) (?V i)) + (\<Sum>(i, v)\<leftarrow>ds. smul R v (?V i))"
    by (simp only: smul_add_scalar sum.distrib disclosed_part [OF assms(2)])
  finally show ?thesis
    using assms(1) by (simp only: commit_vector_eq hid)
qed

lemma create_presentation_present:
  "create_presentation R c idxs params g = present_as R c
     (map (\<lambda>i. (i, to_scalars R (cred_attributes c) ! i)) (filter (\<lambda>i. i < attribute_count) idxs)) params g"
proof -
  let ?h = "hidden_indices (filter (\<lambda>i. i < attribute_count) idxs)"
  have "map (\<lambda>(j, i). f j i) (enumerate 0 ?h) = map (\<lambda>j. f j (?h ! j)) [0..<length ?h]" for f :: "nat \<Rightarrow> nat \<Rightarrow> 's"
    by (rule nth_equalityI) (simp_all add: nth_enumerate_eq)
  then show ?thesis
    by (simp add: create_presentation_def present_as_def Let_def foldl_add_sum_list sum_list_enumerate hidden_indices_less o_def
        split: prod.splits del: random_scalars.simps)
qed

text \<open>The announcement the verifier recomputes from an honest prover's responses, whatever way the
  disclosed values are split into pairs.\<close>

lemma present_as_announcement:
  assumes com: "cred_commitment c = commit_vector R params (to_scalars R (cred_attributes c)) (cred_blinding c)"
    and inb: "\<forall>i\<in>fst ` set ds. i < attribute_count"
    and val: "\<forall>i\<in>fst ` set ds. to_scalars R (cred_attributes c) ! i = disclosed_value ds i"
  shows "recomputed_t R params (fst (present_as R c ds params g)) = proof_commitment (fst (present_as R c ds params g))"
proof -
  let ?a = "to_scalars R (cred_attributes c)" and ?h = "hidden_indices (map fst ds)" and ?V = "vector_generator R"
  obtain rs g1 where rs: "random_scalars R (Suc (length ?h)) g = (rs, g1)" by (meson surj_pair)
  define pres where "pres = fst (present_as R c ds params g)"
  define ch where "ch = proof_challenge pres"
  have ds: "disclosed pres = ds" and pub: "pres_commitment pres = cred_commitment c"
    and T: "proof_commitment pres = (\<Sum>j<length ?h. smul R (rs ! j) (?V (?h ! j))) + smul R (rs ! length ?h) (ped_h params)"
    and resp: "proof_response pres = map (\<lambda>j. rs ! j + ch * ?a ! (?h ! j)) [0..<length ?h] @ [rs ! length ?h + ch * cred_blinding c]"
    unfolding pres_def ch_def by (simp_all add: present_as_def rs Let_def del: random_scalars.simps)
  have last: "proof_response pres ! length ?h = rs ! length ?h + ch * cred_blinding c"
    using nth_append_length [of "map (\<lambda>j. rs ! j + ch * ?a ! (?h ! j)) [0..<length ?h]"] by (simp add: resp)
  have "(\<Sum>j<length ?h. smul R (proof_response pres ! j) (?V (?h ! j)))
      = (\<Sum>j<length ?h. smul R (rs ! j) (?V (?h ! j))) + smul R ch (\<Sum>j<length ?h. smul R (?a ! (?h ! j)) (?V (?h ! j)))"
    by (simp add: resp nth_append smul_add_scalar smul_mult sum.distrib smul_sum [OF ristretto_group_axioms])
  moreover have "cred_commitment c = (\<Sum>j<length ?h. smul R (?a ! (?h ! j)) (?V (?h ! j)))
      + (\<Sum>(i, v)\<leftarrow>ds. smul R v (?V i)) + smul R (cred_blinding c) (ped_h params)"
    unfolding com by (rule commit_vector_partition) (use inb val in simp_all)
  ultimately have "recomputed_t R params pres = proof_commitment pres"
    using recomputed_t_eq [of pres R params] inb unfolding ds
    by (simp add: pub T last smul_add_scalar smul_mult smul_add_point smul_diff_point algebra_simps flip: ch_def)
  then show ?thesis by (simp only: pres_def)
qed

lemma present_as_verifies:
  assumes com: "cred_commitment c = commit_vector R params (to_scalars R (cred_attributes c)) (cred_blinding c)"
    and sig: "verify_credential_signature R c"
    and inb: "\<forall>i\<in>fst ` set ds. i < attribute_count"
    and val: "\<forall>i\<in>fst ` set ds. to_scalars R (cred_attributes c) ! i = disclosed_value ds i"
  shows "verify_presentation R (fst (present_as R c ds params g)) params = Ok True"
proof -
  let ?pres = "fst (present_as R c ds params g)"
  have "\<not> list_ex (\<lambda>i. attribute_count \<le> i) (map fst ds)" using inb by (auto simp: list_ex_iff)
  with sig present_as_announcement [OF com inb val, of g] show ?thesis
    unfolding verify_presentation_def Let_def
    by (simp add: verify_credential_signature_def hash_credential_challenge_def present_as_def Let_def case_prod_beta
        del: random_scalars.simps)
qed

lemma presentation_verifies:
  assumes com: "cred_commitment c = commit_vector R params (to_scalars R (cred_attributes c)) (cred_blinding c)"
    and sig: "verify_credential_signature R c"
    and dist: "distinct (filter (\<lambda>i. i < attribute_count) idxs)"
  shows "verify_presentation R (fst (create_presentation R c idxs params g)) params = Ok True"
  unfolding create_presentation_present
  by (rule present_as_verifies [OF com sig])
    (auto simp: disclosed_value_map [OF dist])

lemma extracted_attributes_nth:
  fixes pres :: "('s, 'p) presentation"
  defines "h \<equiv> hidden_indices (map fst (disclosed pres))"
  shows "length (extracted_attributes pres pres') = attribute_count"
    and "j < length h \<Longrightarrow> extracted_attributes pres pres' ! (h ! j) = extracted_response pres pres' j"
    and "i < attribute_count \<Longrightarrow> i \<in> fst ` set (disclosed pres) \<Longrightarrow>
      extracted_attributes pres pres' ! i = disclosed_value (disclosed pres) i"
proof -
  show "length (extracted_attributes pres pres') = attribute_count"
    by (simp add: extracted_attributes_def Let_def)
  have dist: "distinct h" by (simp add: h_def hidden_indices_def)
  show "extracted_attributes pres pres' ! (h ! j) = extracted_response pres pres' j" if j: "j < length h"
    using map_of_zip_nth [OF _ dist, of "[0..<length h]" j] hidden_indices_less [of j "map fst (disclosed pres)"] j
    by (simp add: extracted_attributes_def Let_def h_def)
  show "extracted_attributes pres pres' ! i = disclosed_value (disclosed pres) i"
    if "i < attribute_count" "i \<in> fst ` set (disclosed pres)"
  proof -
    have "map_of (zip h [0..<length h]) i = None"
      unfolding map_of_eq_None_iff using that(2) by (force simp: h_def hidden_indices_def dest: set_zip_leftD)
    with that(1) show ?thesis by (simp add: extracted_attributes_def Let_def del: map_of_zip_is_None flip: h_def)
  qed
qed

lemma presentation_extract:
  assumes inb: "\<forall>i\<in>fst ` set (disclosed pres). i < attribute_count"
    and other: "pres' = pres\<lparr>proof_response := z', proof_challenge := c'\<rparr>" and ne: "proof_challenge pres \<noteq> c'"
    and same: "recomputed_t R params pres' = recomputed_t R params pres"
  shows "pres_commitment pres = commit_vector R params (extracted_attributes pres pres') (extracted_blinding pres pres')"
proof -
  let ?ds = "disclosed pres" and ?h = "hidden_indices (map fst (disclosed pres))" and ?V = "vector_generator R"
  let ?w = "extracted_response pres pres'" and ?z = "proof_response pres" and ?c = "proof_challenge pres"
  let ?C = "pres_commitment pres - (\<Sum>(i, v)\<leftarrow>?ds. smul R v (?V i))"
  have scale: "smul R (?z ! j - z' ! j) P = smul R (?c - c') (smul R (?w j) P)" for j P
    using ne by (simp add: extracted_response_def other flip: smul_mult)
  have "(\<Sum>j<length ?h. smul R (?z ! j) (?V (?h ! j))) + smul R (?z ! length ?h) (ped_h params) - smul R ?c ?C
      = (\<Sum>j<length ?h. smul R (z' ! j) (?V (?h ! j))) + smul R (z' ! length ?h) (ped_h params) - smul R c' ?C"
    using same inb by (simp add: recomputed_t_eq other)
  then have "smul R (?c - c') ?C = (\<Sum>j<length ?h. smul R (?z ! j - z' ! j) (?V (?h ! j))) + smul R (?z ! length ?h - z' ! length ?h) (ped_h params)"
    by (simp add: smul_diff_scalar sum_subtractf algebra_simps)
  also have "\<dots> = smul R (?c - c') ((\<Sum>j<length ?h. smul R (?w j) (?V (?h ! j))) + smul R (?w (length ?h)) (ped_h params))"
    by (simp only: scale smul_add_point smul_sum [OF ristretto_group_axioms])
  finally have "smul R (inverse (?c - c')) (smul R (?c - c') ?C) = smul R (inverse (?c - c'))
      (smul R (?c - c') ((\<Sum>j<length ?h. smul R (?w j) (?V (?h ! j))) + smul R (?w (length ?h)) (ped_h params)))"
    by simp
  then have "?C = (\<Sum>j<length ?h. smul R (?w j) (?V (?h ! j))) + smul R (?w (length ?h)) (ped_h params)"
    using ne by (simp only: smul_mult [symmetric]) (simp add: smul_one)
  moreover have "commit_vector R params (extracted_attributes pres pres') (extracted_blinding pres pres') =
      (\<Sum>j<length ?h. smul R (?w j) (?V (?h ! j))) + (\<Sum>(i, v)\<leftarrow>?ds. smul R v (?V i)) + smul R (?w (length ?h)) (ped_h params)"
    using inb commit_vector_partition [OF extracted_attributes_nth(1) inb, of pres pres' params "extracted_blinding pres pres'"]
    by (simp add: extracted_attributes_nth extracted_blinding_def)
  ultimately show ?thesis by (simp add: algebra_simps)
qed

lemma commit_vector_relation:
  assumes "commit_vector R params vs b = commit_vector R params vs' b'" and "length vs' = length vs"
  shows "(\<Sum>i<length vs. smul R (vs ! i - vs' ! i) (vector_generator R i)) + smul R (b - b') (ped_h params) = 0"
  using assms by (simp add: commit_vector_eq smul_diff_scalar sum_subtractf algebra_simps)

text \<open>The second hash of a fork leaves the generators alone.\<close>

lemma rehashed_generators:
  assumes "rehashes_challenges R h"
  shows "vector_generator (R\<lparr>sha512 := h\<rparr>) i = vector_generator R i"
    and "hash_credential_challenge (R\<lparr>sha512 := h\<rparr>) r m pk = hash_credential_challenge R r m pk"
    and "recomputed_t (R\<lparr>sha512 := h\<rparr>) params pres = recomputed_t R params pres"
proof -
  have off: "h (ascii (''specter-pedersen-vector-G-'' @ show_nat i)) = sha512 R (ascii (''specter-pedersen-vector-G-'' @ show_nat i))" for i
    using assms by (simp add: rehashes_challenges_def presentation_domain_def ascii_def)
  show V: "vector_generator (R\<lparr>sha512 := h\<rparr>) i = vector_generator R i" for i
    using off by (simp add: vector_generator_def hash_to_point_def)
  show "hash_credential_challenge (R\<lparr>sha512 := h\<rparr>) r m pk = hash_credential_challenge R r m pk"
    using assms by (simp add: hash_credential_challenge_def hash512_def rehashes_challenges_def presentation_domain_def ascii_def)
  show "recomputed_t (R\<lparr>sha512 := h\<rparr>) params pres = recomputed_t R params pres"
    by (simp add: recomputed_t_def V cong: map_cong)
qed

lemma present_as_fork:
  assumes "rehashes_challenges R h"
  shows "fst (present_as (R\<lparr>sha512 := h\<rparr>) c ds params g) = (fst (present_as R c ds params g))
    \<lparr>proof_response := proof_response (fst (present_as (R\<lparr>sha512 := h\<rparr>) c ds params g)),
     proof_challenge := proof_challenge (fst (present_as (R\<lparr>sha512 := h\<rparr>) c ds params g))\<rparr>"
  by (simp add: present_as_def Let_def case_prod_beta random_scalars_rehash rehashed_generators [OF assms]
      del: random_scalars.simps)

text \<open>An index disclosed twice: the verifier accepts any split of the committed value into two, so
  that the first of the two disclosed values is the holder's choice.\<close>

lemma duplicate_disclosure:
  assumes "cred_commitment c = commit_vector R params (to_scalars R (cred_attributes c)) (cred_blinding c)"
    and "verify_credential_signature R c" and "i < attribute_count"
  shows "verify_presentation R (fst (present_as R c
    [(i, claimed), (i, to_scalars R (cred_attributes c) ! i - claimed)] params g)) params = Ok True"
  by (rule present_as_verifies [OF assms(1,2)]) (use assms(3) in simp_all)

end

section \<open>Properties\<close>

text \<open>A holder of an issued credential can present any choice of attributes (indices out of range are
  ignored, no index twice): the presentation discloses exactly the chosen attributes' values
  and \<^verbatim>\<open>verify_presentation\<close> accepts it, for every random tape of issuer and holder.\<close>

lemma presentation_complete:
  assumes "ristretto_group R" and "iss_public iss = smul R (iss_secret iss) (basepoint R)"
    and "distinct (filter (\<lambda>i. i < attribute_count) idxs)"
    and c_def: "c = fst (issue_credential R iss attrs g)"
  shows "verify_presentation R (fst (create_presentation R c idxs (iss_pedersen iss) g')) (iss_pedersen iss) = Ok True \<and>
    disclosed (fst (create_presentation R c idxs (iss_pedersen iss) g')) =
      map (\<lambda>i. (i, to_scalars R attrs ! i)) (filter (\<lambda>i. i < attribute_count) idxs)"
proof
  show "verify_presentation R (fst (create_presentation R c idxs (iss_pedersen iss) g')) (iss_pedersen iss) = Ok True"
  proof (rule ristretto_group.presentation_verifies [OF assms(1) _ _ assms(3)])
    show "cred_commitment c = commit_vector R (iss_pedersen iss) (to_scalars R (cred_attributes c)) (cred_blinding c)"
      by (simp add: c_def issue_credential_def Let_def split: prod.splits)
    show "verify_credential_signature R c"
      unfolding c_def by (rule ristretto_group.issued_signature [OF assms(1,2)])
  qed
  show "disclosed (fst (create_presentation R c idxs (iss_pedersen iss) g')) =
      map (\<lambda>i. (i, to_scalars R attrs ! i)) (filter (\<lambda>i. i < attribute_count) idxs)"
    by (simp add: c_def create_presentation_def issue_credential_def Let_def split: prod.splits)
qed

lemma presentation_complete_witness:
  "verify_presentation zp_prims (fst (create_presentation zp_prims
     (fst (issue_credential zp_prims \<lparr>iss_secret = 3, iss_public = 3, iss_pedersen = pedersen_new zp_prims\<rparr>
        \<lparr>kyc_passed = True, not_sanctioned = True, jurisdiction = ''EU'', age_over_18 = True, expires_at = 77\<rparr> (\<lambda>_. 1)))
     [0, 3, 9] (pedersen_new zp_prims) (\<lambda>_. 2))) (pedersen_new zp_prims) = Ok True"
proof -
  let ?i = "\<lparr>iss_secret = 3, iss_public = 3, iss_pedersen = pedersen_new zp_prims\<rparr>"
  have "iss_public ?i = smul zp_prims (iss_secret ?i) (basepoint zp_prims)" by (simp add: zp_prims_def)
  from presentation_complete [OF zp.ristretto_group_axioms this, of "[0, 3, 9]", OF _ refl] show ?thesis
    by (simp add: attribute_count_def)
qed

text \<open>C21: Soundness of a presentation by extraction. Take an accepted presentation and a second accepted
  one with the same announcement and disclosed values, under a hash that gives the announcement another challenge.
  Then the attributes and the blinding computed from the two (at hidden positions from the two responses, at
  disclosed positions from the disclosed values) open the credential's commitment, and any opening of
  the commitment to other attributes gives an explicit non-trivial linear relation between the
  generators. The value a disclosed index stands for is the sum of all values disclosed under that index: it is the
  disclosed value when no index is named twice, which \<^verbatim>\<open>verify_presentation\<close> does not check.\<close>

theorem presentation_sound:
  fixes R :: "('s::field, 'p::ab_group_add) prims"
  assumes group: "ristretto_group R"
    and ok: "verify_presentation R pres params = Ok True"
    and ok': "verify_presentation (R\<lparr>sha512 := h\<rparr>) pres' params = Ok True"
    and hash: "rehashes_challenges R h"
      "hash_presentation_challenge (R\<lparr>sha512 := h\<rparr>) (pres_commitment pres) (recomputed_t R params pres) (disclosed pres) (pres_issuer_pk pres)
       \<noteq> hash_presentation_challenge R (pres_commitment pres) (recomputed_t R params pres) (disclosed pres) (pres_issuer_pk pres)"
    and fork: "pres' = pres\<lparr>proof_response := z', proof_challenge := c'\<rparr>"
      "recomputed_t R params pres' = recomputed_t R params pres"
    and vs: "vs = extracted_attributes pres pres'" and b: "b = extracted_blinding pres pres'"
  shows "pres_commitment pres = commit_vector R params vs b \<and> length vs = attribute_count \<and>
    (\<forall>i\<in>fst ` set (disclosed pres). vs ! i = disclosed_value (disclosed pres) i) \<and>
    (distinct (map fst (disclosed pres)) \<longrightarrow> (\<forall>(i, v)\<in>set (disclosed pres). vs ! i = v)) \<and>
    (\<forall>ws s. length ws = attribute_count \<and> pres_commitment pres = commit_vector R params ws s \<and> ws \<noteq> vs \<longrightarrow>
       (\<exists>i<attribute_count. vs ! i - ws ! i \<noteq> 0) \<and>
       (\<Sum>i<attribute_count. smul R (vs ! i - ws ! i) (vector_generator R i)) + smul R (b - s) (ped_h params) = 0)"
proof (intro conjI allI impI)
  have inb: "\<forall>i\<in>fst ` set (disclosed pres). i < attribute_count"
    using ok by (auto simp: verify_presentation_def Let_def list_ex_iff not_le split: if_splits)
  have "proof_challenge pres = hash_presentation_challenge R (pres_commitment pres) (recomputed_t R params pres) (disclosed pres) (pres_issuer_pk pres)"
    using ok by (auto simp: verify_presentation_def Let_def ristretto_group.scalar_bytes_inject [OF group] split: if_splits)
  moreover have "c' = hash_presentation_challenge (R\<lparr>sha512 := h\<rparr>) (pres_commitment pres) (recomputed_t R params pres) (disclosed pres) (pres_issuer_pk pres)"
    using ok' fork
    by (auto simp: verify_presentation_def Let_def ristretto_group.scalar_bytes_inject [OF group]
        ristretto_group.rehashed_generators(3) [OF group hash(1)] split: if_splits)
  ultimately have ne: "proof_challenge pres \<noteq> c'" using hash(2) by simp
  show com: "pres_commitment pres = commit_vector R params vs b"
    unfolding vs b by (rule ristretto_group.presentation_extract [OF group inb fork(1) ne fork(2)])
  show len: "length vs = attribute_count"
    unfolding vs by (rule ristretto_group.extracted_attributes_nth(1) [OF group])
  show dv: "\<forall>i\<in>fst ` set (disclosed pres). vs ! i = disclosed_value (disclosed pres) i"
    using inb ristretto_group.extracted_attributes_nth(3) [OF group] by (auto simp: vs)
  show "\<forall>(i, v)\<in>set (disclosed pres). vs ! i = v" if "distinct (map fst (disclosed pres))"
    using dv disclosed_value_once [OF that] by force
  fix ws s assume ws: "length ws = attribute_count \<and> pres_commitment pres = commit_vector R params ws s \<and> ws \<noteq> vs"
  then show "\<exists>i<attribute_count. vs ! i - ws ! i \<noteq> 0"
    using len nth_equalityI [of ws vs] by force
  show "(\<Sum>i<attribute_count. smul R (vs ! i - ws ! i) (vector_generator R i)) + smul R (b - s) (ped_h params) = 0"
    using ristretto_group.commit_vector_relation [OF group, of params vs b ws s] com ws len by simp
qed

definition demo_credential :: "(zp, zp) credential" where
  "demo_credential = fst (issue_credential zp_prims \<lparr>iss_secret = 3, iss_public = 3, iss_pedersen = pedersen_new zp_prims\<rparr>
     \<lparr>kyc_passed = True, not_sanctioned = False, jurisdiction = ''EU'', age_over_18 = True, expires_at = 77\<rparr> (\<lambda>_. 1))"

definition demo_presentation :: "(bytes \<Rightarrow> bytes) \<Rightarrow> (zp, zp) presentation" where
  "demo_presentation h = fst (create_presentation (zp_prims\<lparr>sha512 := h\<rparr>) demo_credential [0, 2] (pedersen_new zp_prims) (\<lambda>_. 2))"

text \<open>An issued credential, presented twice: with the hash, and with a hash that changes every challenge.\<close>

theorem presentation_sound_witness:
  "\<exists>h. let pres = demo_presentation (sha512 zp_prims); pres' = demo_presentation h;
      vs = extracted_attributes pres pres' in
    disclosed pres = [(0, 1), (2, 1)] \<and> pres_commitment pres = cred_commitment demo_credential \<and>
    cred_commitment demo_credential = commit_vector zp_prims (pedersen_new zp_prims) vs (extracted_blinding pres pres') \<and>
    vs ! 0 = 1 \<and> vs ! 2 = 1"
proof -
  define h :: "bytes \<Rightarrow> bytes" where "h = (\<lambda>bs. if take (length presentation_domain) bs = presentation_domain
      then nat_to_le 64 (if hash512 zp_prims bs = 0 then 1 else 0) else sha512 zp_prims bs)"
  let ?R' = "zp_prims\<lparr>sha512 := h\<rparr>" and ?pp = "pedersen_new zp_prims" and ?c = demo_credential
  let ?ds = "map (\<lambda>i. (i, to_scalars zp_prims (cred_attributes ?c) ! i)) [0, 2]"
  define pres where "pres = fst (present_as zp_prims ?c ?ds ?pp (\<lambda>_. 2))"
  define pres' where "pres' = fst (present_as ?R' ?c ?ds ?pp (\<lambda>_. 2))"
  have hash: "rehashes_challenges zp_prims h" by (simp add: rehashes_challenges_def h_def)
  have ne: "hash_presentation_challenge ?R' m T ds pk \<noteq> hash_presentation_challenge zp_prims m T ds pk" for m T ds pk
    by (simp add: hash_presentation_challenge_def hash512_def h_def presentation_domain_def zp_prims_def zp_of_bytes_def zp_of_int_eq)
  have com: "cred_commitment ?c = commit_vector zp_prims ?pp (to_scalars zp_prims (cred_attributes ?c)) (cred_blinding ?c)"
    by (simp add: demo_credential_def issue_credential_def Let_def split: prod.splits)
  have sig: "verify_credential_signature zp_prims ?c"
    unfolding demo_credential_def by (rule zp.issued_signature) (simp add: zp_prims_def)
  have attrs: "cred_attributes ?c = \<lparr>kyc_passed = True, not_sanctioned = False, jurisdiction = ''EU'', age_over_18 = True, expires_at = 77\<rparr>"
    by (simp add: demo_credential_def issue_credential_def Let_def split: prod.splits)
  note zp' = zp.rehash [of h]
  have ok: "verify_presentation zp_prims pres ?pp = Ok True"
    unfolding pres_def by (rule zp.present_as_verifies [OF com sig]) (simp_all add: attribute_count_def)
  have com': "cred_commitment ?c = commit_vector ?R' ?pp (to_scalars ?R' (cred_attributes ?c)) (cred_blinding ?c)"
    using com by (simp add: commit_vector_def to_scalars_def zp.rehashed_generators [OF hash] cong: map_cong)
  have sig': "verify_credential_signature ?R' ?c"
    using sig by (simp add: verify_credential_signature_def zp.rehashed_generators [OF hash])
  have scal: "to_scalars ?R' = to_scalars zp_prims" by (simp add: to_scalars_def fun_eq_iff)
  have ok': "verify_presentation ?R' pres' ?pp = Ok True"
    unfolding pres'_def by (rule ristretto_group.present_as_verifies [OF zp' com' sig']) (simp_all add: attribute_count_def scal)
  have eq: "pres' = pres\<lparr>proof_response := proof_response pres', proof_challenge := proof_challenge pres'\<rparr>"
    unfolding pres_def pres'_def by (rule zp.present_as_fork [OF hash])
  have "recomputed_t ?R' ?pp pres' = proof_commitment pres'"
    unfolding pres'_def
    by (rule ristretto_group.present_as_announcement [OF zp' com']) (simp_all add: attribute_count_def scal)
  moreover have "recomputed_t zp_prims ?pp pres = proof_commitment pres"
    unfolding pres_def by (rule zp.present_as_announcement [OF com]) (simp_all add: attribute_count_def)
  moreover have "proof_commitment pres' = proof_commitment pres" by (subst eq) simp
  ultimately have same: "recomputed_t zp_prims ?pp pres' = recomputed_t zp_prims ?pp pres"
    by (simp add: zp.rehashed_generators [OF hash])
  have disc: "disclosed pres = [(0, 1), (2, 1)]" "pres_commitment pres = cred_commitment ?c"
    by (simp_all add: pres_def present_as_def Let_def case_prod_beta attrs to_scalars_def jurisdiction_code_def
        zp.scalar_of_u64_of_nat del: random_scalars.simps)
  have demo: "demo_presentation (sha512 zp_prims) = pres" "demo_presentation h = pres'"
    using zp.create_presentation_present [of ?c "[0, 2]" ?pp "\<lambda>_. 2"]
      ristretto_group.create_presentation_present [OF zp', of ?c "[0, 2]" ?pp "\<lambda>_. 2"]
    by (simp_all add: demo_presentation_def pres_def pres'_def scal attribute_count_def)
  from presentation_sound [OF zp.ristretto_group_axioms ok ok' hash ne eq same refl refl]
  show ?thesis by (intro exI [of _ h]) (simp add: Let_def demo disc)
qed

text \<open>The verifier of a presentation panics exactly on presentations with a valid credential signature and
  in-range indices whose response vector is not longer than the number of hidden attributes.\<close>

lemma verify_presentation_panics:
  "verify_presentation R pres params = Panic \<longleftrightarrow>
     scalar_bytes R (hash_credential_challenge R
        (smul R (pres_cred_signature_s pres) (basepoint R) - smul R (pres_cred_signature_e pres) (pres_issuer_pk pres))
        (pres_commitment pres) (pres_issuer_pk pres)) = scalar_bytes R (pres_cred_signature_e pres) \<and>
     list_all (\<lambda>i. i < attribute_count) (map fst (disclosed pres)) \<and>
     length (proof_response pres) \<le> length (hidden_indices (map fst (disclosed pres)))"
  by (simp add: verify_presentation_def Let_def hash_credential_challenge_def list_ex_iff list_all_iff not_le)
    (auto simp: not_less)

end
