(* ===== verification/Number_Facts.thy ===== *)
theory Number_Facts
  imports Prelude
begin

text \<open>
  The number theory under the prime search of the RSA delay function: primes above every bound,
  Fermat's little theorem, and the two square roots of one modulo a prime. Modular powers are computed
  by repeated squaring.
\<close>

definition is_prime :: "nat \<Rightarrow> bool" where
  "is_prime p \<longleftrightarrow> 1 < p \<and> (\<forall>d. d dvd p \<longrightarrow> d = 1 \<or> d = p)"

lemma prime_divisor_exists: "1 < m \<Longrightarrow> \<exists>p. is_prime p \<and> p dvd m"
proof (induction m rule: less_induct)
  case (less m)
  show ?case
  proof (cases "is_prime m")
    case False
    with less.prems obtain d where d: "d dvd m" "d \<noteq> 1" "d \<noteq> m" by (auto simp: is_prime_def)
    then have "1 < d" "d < m" using less.prems by (auto dest: dvd_imp_le intro!: Suc_lessI Nat.gr0I)
    from less.IH [OF this(2,1)] d(1) show ?thesis using dvd_trans by blast
  qed auto
qed

lemma prime_above: "\<exists>p. is_prime p \<and> n < p"
proof -
  have "1 < fact n + (1 :: nat)" by simp
  from prime_divisor_exists [OF this] obtain p where p: "is_prime p" "p dvd fact n + 1" by blast
  have "\<not> p \<le> n"
  proof
    assume "p \<le> n"
    then have "p dvd fact n" using p(1) by (intro dvd_fact) (auto simp: is_prime_def)
    with p(2) have "p dvd 1" by (metis dvd_add_right_iff)
    with p(1) show False by (simp add: is_prime_def)
  qed
  with p(1) show ?thesis by (auto simp: not_le)
qed

lemma prime_odd: "is_prime p \<Longrightarrow> 2 < p \<Longrightarrow> odd p"
  unfolding is_prime_def by fastforce

lemma prime_coprime: "is_prime p \<Longrightarrow> \<not> p dvd a \<Longrightarrow> coprime p a"
  by (metis coprime_iff_gcd_eq_1 gcd_dvd1 gcd_dvd2 is_prime_def)

lemma prime_dvd_mult: "is_prime p \<Longrightarrow> p dvd a * b \<Longrightarrow> p dvd a \<or> p dvd b"
  using prime_coprime coprime_dvd_mult_right_iff by blast

lemma prime_not_dvd_prod:
  assumes "is_prime p" and "finite S" and "\<And>x. x \<in> S \<Longrightarrow> \<not> p dvd f x"
  shows "\<not> p dvd (\<Prod>x\<in>S. f x)"
  using assms(2,3)
proof (induction S rule: finite_induct)
  case empty
  show ?case using assms(1) by (simp add: is_prime_def)
next
  case (insert x S)
  then have "\<not> p dvd f x" "\<not> p dvd (\<Prod>x\<in>S. f x)" by auto
  with prime_dvd_mult [OF assms(1)] insert show ?case by auto
qed

lemma mod_eq_dvd: "a \<le> b \<Longrightarrow> a mod p = b mod p \<longleftrightarrow> p dvd b - a" for a b p :: nat
  by (metis mod_eq_dvd_iff_nat)

lemma prime_mult_inject:
  assumes "is_prime p" and "\<not> p dvd a" and "x < p" "y < p" and "a * x mod p = a * y mod p"
  shows "x = y"
proof -
  have *: "u = v" if "u \<le> v" "v < p" "a * u mod p = a * v mod p" for u v
  proof -
    have "p dvd a * (v - u)"
      using that mod_eq_dvd [of "a * u" "a * v" p] by (simp add: diff_mult_distrib2)
    with assms(1,2) have "p dvd v - u" using prime_dvd_mult by blast
    with that show "u = v" by (metis diff_less_mono2 diff_is_0_eq dvd_imp_le le_antisym less_imp_diff_less
          linorder_not_le zero_less_diff)
  qed
  show ?thesis
    using *[of x y] *[of y x] assms by (cases "x \<le> y") auto
qed

theorem fermat:
  assumes p: "is_prime p" and a: "\<not> p dvd a"
  shows "a ^ (p - 1) mod p = 1"
proof -
  let ?S = "{1..<p}" and ?f = "\<lambda>x. a * x mod p"
  have nd: "\<not> p dvd x" if "x \<in> ?S" for x using that by (auto dest: dvd_imp_le)
  have inj: "inj_on ?f ?S"
  proof (rule inj_onI)
    fix x y assume "x \<in> ?S" "y \<in> ?S" "a * x mod p = a * y mod p"
    then show "x = y" using prime_mult_inject [OF p a, of x y] by simp
  qed
  have "?f ` ?S \<subseteq> ?S"
  proof
    fix y assume "y \<in> ?f ` ?S"
    then obtain x where x: "x \<in> ?S" "y = a * x mod p" by auto
    have "\<not> p dvd a * x" using prime_dvd_mult [OF p] a nd [OF x(1)] by blast
    then show "y \<in> ?S" using x(2) p by (auto simp: is_prime_def dvd_eq_mod_eq_0 Suc_le_eq)
  qed
  with inj have "?f ` ?S = ?S" by (intro card_subset_eq) (auto simp: card_image)
  then have "(\<Prod>x\<in>?S. ?f x) = \<Prod>?S" using prod.reindex [OF inj, of "\<lambda>x. x"] by simp
  then have "(\<Prod>x\<in>?S. a * x) mod p = \<Prod>?S mod p" by (metis mod_prod_eq)
  then have "(a ^ (p - 1) * \<Prod>?S) mod p = \<Prod>?S mod p" by (simp add: prod.distrib)
  moreover have "0 < a" using a by (intro Nat.gr0I) auto
  ultimately have "p dvd (a ^ (p - 1) - 1) * \<Prod>?S"
    using mod_eq_dvd [of "\<Prod>?S" "a ^ (p - 1) * \<Prod>?S" p] by (simp add: diff_mult_distrib)
  moreover have "\<not> p dvd \<Prod>?S" using p nd by (intro prime_not_dvd_prod) auto
  ultimately have "p dvd a ^ (p - 1) - 1" using p prime_dvd_mult by blast
  then have "a ^ (p - 1) mod p = 1 mod p"
    using mod_eq_dvd [of 1 "a ^ (p - 1)" p] \<open>0 < a\<close> by simp
  then show ?thesis using p by (simp add: is_prime_def)
qed

lemma prime_square_root_one:
  assumes "is_prime p" and "x < p" and "x * x mod p = 1"
  shows "x = 1 \<or> x = p - 1"
proof -
  have "0 < x" using assms by (intro Nat.gr0I) auto
  then have one: "(x - 1) * (x + 1) = x * x - 1" by (cases x) (auto simp: algebra_simps)
  have "1 \<le> x * x" using \<open>0 < x\<close> by simp
  moreover have "1 mod p = x * x mod p" using assms by (auto simp: is_prime_def)
  ultimately have "p dvd (x - 1) * (x + 1)" using mod_eq_dvd [of 1 "x * x" p] one by simp
  then have "p dvd x - 1 \<or> p dvd x + 1" using assms(1) prime_dvd_mult by blast
  then show ?thesis using assms(2) \<open>0 < x\<close>
    by (auto dest!: dvd_imp_le)
qed

section \<open>Modular powers\<close>

fun modpow :: "nat \<Rightarrow> nat \<Rightarrow> nat \<Rightarrow> nat" where
  "modpow b e m =
     (if e = 0 then 1 mod m
      else let h = modpow (b * b mod m) (e div 2) m in if even e then h else b * h mod m)"

declare modpow.simps [simp del]

lemma modpow_eq: "modpow b e m = b ^ e mod m"
proof (induction b e m rule: modpow.induct)
  case (1 b e m)
  show ?case
  proof (cases "e = 0")
    case False
    have "modpow (b * b mod m) (e div 2) m = (b * b) ^ (e div 2) mod m"
      using 1 False by (simp add: power_mod)
    also have "(b * b) ^ (e div 2) = b ^ (2 * (e div 2))"
      by (simp add: power_mult power2_eq_square)
    finally have h: "modpow (b * b mod m) (e div 2) m = b ^ (2 * (e div 2)) mod m" .
    show ?thesis
    proof (cases "even e")
      case True
      with h False show ?thesis by (simp add: modpow.simps [of b e])
    next
      case odd: False
      then have "b ^ e = b * b ^ (2 * (e div 2))"
        by (metis odd_two_times_div_two_succ power_Suc add.commute plus_1_eq_Suc)
      with h False odd show ?thesis by (simp add: modpow.simps [of b e] mod_mult_right_eq)
    qed
  qed (simp add: modpow.simps)
qed

end
