(* ===== verification/Vdf.thy ===== *)
theory Vdf
  imports Prime_Field Number_Facts
begin

text \<open>
  \<^verbatim>\<open>specter-offline/src/vdf.rs\<close>, \<^verbatim>\<open>vdf_rsa.rs\<close> and \<^verbatim>\<open>vdf_unified.rs\<close>: the hash-chain delay
  function and the repeated-squaring one with Wesolowski proofs. \<^verbatim>\<open>BigUint\<close> is \<open>nat\<close>. The search for the
  challenge prime may in principle run forever and is an option-valued partial function; it is shown to
  return. An evaluation always verifies, and what verification checks is the equation
  \<open>pi ^ l * x ^ (2 ^ T mod l) = y\<close>.
\<close>

unbundle bit_operations_syntax

section \<open>The hash chain\<close>

record vdf_proof =
  vdf_seed :: bytes
  vdf_iterations :: u64
  vdf_output :: bytes

record vdf_params =
  vp_iterations :: u64

definition vdf_params_new :: "u64 \<Rightarrow> vdf_params" where
  "vdf_params_new iterations = \<lparr>vp_iterations = iterations\<rparr>"

definition vdf_evaluate :: "('s, 'p) prims \<Rightarrow> bytes \<Rightarrow> u64 \<Rightarrow> vdf_proof" where
  "vdf_evaluate R seed iterations =
     \<lparr>vdf_seed = seed, vdf_iterations = iterations, vdf_output = (sha256 R ^^ unat iterations) seed\<rparr>"

definition MAX_VDF_ITERATIONS :: u64 where
  "MAX_VDF_ITERATIONS = 10000000"

definition vdf_verify :: "('s, 'p) prims \<Rightarrow> vdf_proof \<Rightarrow> bool" where
  "vdf_verify R proof \<longleftrightarrow>
     (if MAX_VDF_ITERATIONS < vdf_iterations proof then False
      else if vdf_iterations proof = 0 then False
      else vdf_output (vdf_evaluate R (vdf_seed proof) (vdf_iterations proof)) = vdf_output proof)"

definition vdf_is_expired :: "vdf_proof \<Rightarrow> u64 \<Rightarrow> bool" where
  "vdf_is_expired proof required_iterations \<longleftrightarrow> vdf_iterations proof < required_iterations"

definition vdf_create_seed :: "('s, 'p) prims \<Rightarrow> bytes \<Rightarrow> u64 \<Rightarrow> bytes" where
  "vdf_create_seed R token_id timestamp_secs =
     sha256 R (ascii ''specter-vdf-seed:'' @ token_id @ u64_le timestamp_secs)"

section \<open>Repeated squaring\<close>

record rsa_vdf_params =
  rsa_modulus :: nat
  rsa_bits :: u32

record rsa_vdf_proof =
  rsa_input :: nat
  rsa_output :: nat
  rsa_iterations :: u64
  rsa_proof_pi :: nat
  rsa_challenge_l :: nat

datatype vdf_rsa_error =
    IterationsExceeded u64 u64
  | ZeroIterations
  | DegenerateInput

definition default_2048 :: rsa_vdf_params where
  "default_2048 = \<lparr>rsa_modulus =
     25195908475657893494027183240048398571429282126204032027777137836043662020707595556264018525880784406918290641249515082189298559149176184502808489120072844992687392807287767735971418347270261896375014971824691165077613379859095700097330459748808428401797429100642458691817195118746121515172654632282216869987549182422433637259085141865462043576798423387184774479207399342365848238242811981638150106748104516603773060562016196762561338441436038339044149526344321901146575444541784240209246165157233507787077498171257724679629263863563732899121548314381678998850404453640235273819513786365643912120103971228221207203578,
     rsa_bits = 2048\<rparr>"

definition small_test :: rsa_vdf_params where
  "small_test = \<lparr>rsa_modulus = 104729 * 104723, rsa_bits = 34\<rparr>"

definition MAX_RSA_VDF_ITERATIONS :: u64 where
  "MAX_RSA_VDF_ITERATIONS = 10000000"

fun le_digits :: "nat \<Rightarrow> bytes" where
  "le_digits n = (if n = 0 then [] else of_nat (n mod 256) # le_digits (n div 256))"

declare le_digits.simps [simp del]

text \<open>\<^verbatim>\<open>to_bytes_be\<close> writes no leading zero, and one zero byte for zero.\<close>

definition to_bytes_be :: "nat \<Rightarrow> bytes" where
  "to_bytes_be n = (if n = 0 then [0] else rev (le_digits n))"

definition from_bytes_be :: "bytes \<Rightarrow> nat" where
  "from_bytes_be bs = le_to_nat (rev bs)"

fun strip_twos :: "nat \<Rightarrow> nat \<Rightarrow> nat \<times> nat" where
  "strip_twos d r = (if even d \<and> 0 < d then strip_twos (d div 2) (r + 1) else (d, r))"

declare strip_twos.simps [simp del]

definition mr_witnesses :: "nat list" where
  "mr_witnesses = [2, 3, 5, 7, 11, 13, 17, 19, 23, 29, 31, 37, 41, 43, 47, 53, 59, 61, 67, 71, 73, 79, 83, 89]"

text \<open>The inner loop squares up to \<open>r - 1\<close> times, looking for \<open>n - 1\<close>.\<close>

fun mr_squares :: "nat \<Rightarrow> nat \<Rightarrow> nat \<Rightarrow> bool" where
  "mr_squares n 0 x = False"
| "mr_squares n (Suc k) x = (let x = modpow x 2 n in if x = n - 1 then True else mr_squares n k x)"

definition mr_passes :: "nat \<Rightarrow> nat \<Rightarrow> nat \<Rightarrow> nat \<Rightarrow> bool" where
  "mr_passes n d r w \<longleftrightarrow>
     (if n \<le> w then True
      else let x = modpow w d n in if x = 1 \<or> x = n - 1 then True else mr_squares n (r - 1) x)"

definition is_probably_prime_miller_rabin :: "nat \<Rightarrow> nat \<Rightarrow> bool" where
  "is_probably_prime_miller_rabin n rounds \<longleftrightarrow>
     (if n < 2 then False
      else if n = 2 \<or> n = 3 then True
      else if even n then False
      else let (d, r) = strip_twos (n - 1) 0 in list_all (mr_passes n d r) (take rounds mr_witnesses))"

partial_function (option) next_prime_loop :: "nat \<Rightarrow> nat option" where
  "next_prime_loop candidate =
     (if is_probably_prime_miller_rabin candidate 20 then Some candidate else next_prime_loop (candidate + 2))"

definition next_prime :: "nat \<Rightarrow> nat option" where
  "next_prime n = next_prime_loop (if even n then n + 1 else n)"

definition derive_challenge :: "('s, 'p) prims \<Rightarrow> nat \<Rightarrow> nat \<Rightarrow> u64 \<Rightarrow> nat option" where
  "derive_challenge R input_x output_y iterations =
     (let hash = sha256 R (ascii ''specter-vdf-challenge:'' @ to_bytes_be input_x @ to_bytes_be output_y @
            u64_le iterations);
          bs = take 16 hash;
          bs = bs[15 := bs ! 15 OR 1];
          candidate = from_bytes_be bs
      in next_prime candidate)"

fun wesolowski_loop :: "nat \<Rightarrow> nat \<Rightarrow> nat \<Rightarrow> nat \<Rightarrow> nat \<times> nat \<Rightarrow> nat \<times> nat" where
  "wesolowski_loop n x l 0 (pi, r) = (pi, r)"
| "wesolowski_loop n x l (Suc k) (pi, r) =
     (let two_r = r * 2;
          b = two_r div l;
          pi = pi * pi mod n;
          pi = (if b = 1 then pi * x mod n else pi)
      in wesolowski_loop n x l k (pi, two_r mod l))"

definition compute_wesolowski_proof :: "rsa_vdf_params \<Rightarrow> nat \<Rightarrow> u64 \<Rightarrow> nat \<Rightarrow> nat" where
  "compute_wesolowski_proof params x iterations l =
     fst (wesolowski_loop (rsa_modulus params) x l (unat iterations) (1, 1))"

definition modpow_bigint :: "nat \<Rightarrow> u64 \<Rightarrow> nat \<Rightarrow> nat" where
  "modpow_bigint base exponent modulus = modpow base (unat exponent) modulus"

text \<open>The outer option is the prime search not returning.\<close>

definition rsa_evaluate ::
  "('s, 'p) prims \<Rightarrow> rsa_vdf_params \<Rightarrow> nat \<Rightarrow> u64 \<Rightarrow> (rsa_vdf_proof, vdf_rsa_error) result option" where
  "rsa_evaluate R params input_x iterations =
     (if iterations = 0 then Some (Err ZeroIterations)
      else if MAX_RSA_VDF_ITERATIONS < iterations
      then Some (Err (IterationsExceeded iterations MAX_RSA_VDF_ITERATIONS))
      else if input_x \<le> 1 then Some (Err DegenerateInput)
      else
        let n = rsa_modulus params;
            y = ((\<lambda>y. y * y mod n) ^^ unat iterations) input_x
        in case derive_challenge R input_x y iterations of
             None \<Rightarrow> None
           | Some challenge_l \<Rightarrow>
               let pi = compute_wesolowski_proof params input_x iterations challenge_l
               in Some (Ok \<lparr>rsa_input = input_x, rsa_output = y, rsa_iterations = iterations,
                            rsa_proof_pi = pi, rsa_challenge_l = challenge_l\<rparr>))"

definition rsa_verify :: "('s, 'p) prims \<Rightarrow> rsa_vdf_params \<Rightarrow> rsa_vdf_proof \<Rightarrow> bool option" where
  "rsa_verify R params proof =
     (let n = rsa_modulus params in
      if rsa_iterations proof = 0 then Some False
      else if MAX_RSA_VDF_ITERATIONS < rsa_iterations proof then Some False
      else if rsa_input proof \<le> 1 then Some False
      else case derive_challenge R (rsa_input proof) (rsa_output proof) (rsa_iterations proof) of
             None \<Rightarrow> None
           | Some l \<Rightarrow>
               if l \<noteq> rsa_challenge_l proof then Some False
               else let r = modpow_bigint 2 (rsa_iterations proof) l;
                        pi_l = modpow (rsa_proof_pi proof) l n;
                        x_r = modpow (rsa_input proof) r n
                    in Some (pi_l * x_r mod n = rsa_output proof))"

section \<open>Either of the two\<close>

datatype unified_vdf_proof = HashChain vdf_proof | Rsa rsa_vdf_proof

definition evaluate_unified ::
  "('s, 'p) prims \<Rightarrow> rsa_vdf_params \<Rightarrow> nat \<Rightarrow> u64 \<Rightarrow> (unified_vdf_proof, vdf_rsa_error) result option" where
  "evaluate_unified R params x iterations =
     map_option (\<lambda>r. bindR r (\<lambda>proof. Ok (Rsa proof))) (rsa_evaluate R params x iterations)"

fun verify_unified :: "('s, 'p) prims \<Rightarrow> unified_vdf_proof \<Rightarrow> rsa_vdf_params \<Rightarrow> bool option" where
  "verify_unified R (HashChain p) rsa_params = Some (vdf_verify R p)"
| "verify_unified R (Rsa p) rsa_params = rsa_verify R rsa_params p"

fun is_expired_unified :: "unified_vdf_proof \<Rightarrow> u64 \<Rightarrow> bool" where
  "is_expired_unified (HashChain p) required_iterations \<longleftrightarrow> vdf_iterations p < required_iterations"
| "is_expired_unified (Rsa p) required_iterations \<longleftrightarrow> rsa_iterations p < required_iterations"

section \<open>Primes pass the test\<close>

lemma strip_twos_eq:
  "strip_twos d r = (d', r') \<Longrightarrow> 0 < d \<Longrightarrow> r \<le> r' \<and> d = d' * 2 ^ (r' - r) \<and> odd d'"
proof (induction d r rule: strip_twos.induct)
  case (1 d r)
  show ?case
  proof (cases "even d")
    case True
    then obtain k where k: "d = 2 * k" by (elim evenE)
    with 1 have "Suc r \<le> r' \<and> k = d' * 2 ^ (r' - Suc r) \<and> odd d'"
      by (simp add: strip_twos.simps [of "2 * k"])
    moreover from this have "r' - r = Suc (r' - Suc r)" by linarith
    ultimately show ?thesis by (simp add: k)
  next
    case False
    with 1 show ?thesis by (simp add: strip_twos.simps [of d])
  qed
qed

lemma mr_squares_prime:
  assumes "is_prime n" and "x < n" and "x \<noteq> 1" "x \<noteq> n - 1" and "x ^ 2 ^ Suc k mod n = 1"
  shows "mr_squares n k x"
  using assms(2-5)
proof (induction k arbitrary: x)
  case 0
  then have "x * x mod n = 1" by (simp add: power2_eq_square)
  with prime_square_root_one [OF assms(1) 0(1)] 0 show ?case by auto
next
  case (Suc k)
  define y where "y = x ^ 2 mod n"
  have "y ^ 2 ^ Suc k mod n = (x ^ 2) ^ 2 ^ Suc k mod n" by (simp only: y_def power_mod)
  also have "(x ^ 2) ^ 2 ^ Suc k = x ^ 2 ^ Suc (Suc k)" by (simp add: power_mult [symmetric])
  finally have y: "y ^ 2 ^ Suc k mod n = 1" using Suc.prems(4) by simp
  have "y < n" using assms(1) by (simp add: y_def is_prime_def)
  moreover have "y \<noteq> 1"
    using prime_square_root_one [OF assms(1) Suc.prems(1)] Suc.prems(2,3) by (auto simp: y_def power2_eq_square)
  ultimately have "y = n - 1 \<or> mr_squares n k y" using Suc.IH y by blast
  then show ?case by (auto simp: modpow_eq y_def Let_def)
qed

lemma mr_accepts_prime:
  assumes p: "is_prime p"
  shows "is_probably_prime_miller_rabin p rounds"
proof (cases "p \<le> 3")
  case True
  then have "p = 2 \<or> p = 3" using p by (auto simp: is_prime_def)
  then show ?thesis by (auto simp: is_probably_prime_miller_rabin_def)
next
  case False
  then have "odd p" using prime_odd [OF p] by simp
  obtain d r where dr: "strip_twos (p - 1) 0 = (d, r)" by fastforce
  have pm: "p - 1 = d * 2 ^ r" "odd d" using strip_twos_eq [OF dr] False by auto
  have "r \<noteq> 0" using pm \<open>odd p\<close> by (intro notI) (auto simp: even_diff_nat)
  have "mr_passes p d r w" if "0 < w" for w
  proof (cases "w < p")
    case True
    define x where "x = w ^ d mod p"
    have "x ^ 2 ^ r mod p = w ^ (d * 2 ^ r) mod p" by (simp add: x_def power_mod power_mult)
    also have "\<dots> = 1" unfolding pm(1) [symmetric] using p that True by (intro fermat) (auto dest: dvd_imp_le)
    finally have "x ^ 2 ^ Suc (r - 1) mod p = 1" using \<open>r \<noteq> 0\<close> by simp
    moreover have "x < p" using p by (simp add: x_def is_prime_def)
    ultimately have "x = 1 \<or> x = p - 1 \<or> mr_squares p (r - 1) x" using mr_squares_prime [OF p] by blast
    then show ?thesis using True by (auto simp: mr_passes_def modpow_eq x_def Let_def)
  qed (simp add: mr_passes_def)
  moreover have "0 < w" if "w \<in> set (take rounds mr_witnesses)" for w
    using in_set_takeD [OF that] by (auto simp: mr_witnesses_def)
  ultimately show ?thesis
    using False \<open>odd p\<close> dr by (auto simp: is_probably_prime_miller_rabin_def list_all_iff)
qed

lemma next_prime_loop_returns:
  assumes "odd c" and "c \<le> p" and "is_prime p" and "odd p"
  shows "\<exists>q. next_prime_loop c = Some q \<and> c \<le> q \<and> q \<le> p \<and> is_probably_prime_miller_rabin q 20"
  using assms(1,2)
proof (induction "p - c" arbitrary: c rule: less_induct)
  case less
  show ?case
  proof (cases "is_probably_prime_miller_rabin c 20")
    case True
    then show ?thesis using less.prems by (simp add: next_prime_loop.simps [of c])
  next
    case False
    then have "c \<noteq> p" using mr_accepts_prime [OF assms(3)] by auto
    then have "c + 2 \<le> p" using less.prems assms(4) by (cases "c + 1 = p") auto
    moreover from this have "p - (c + 2) < p - c" by linarith
    ultimately obtain q where "next_prime_loop (c + 2) = Some q" "c + 2 \<le> q" "q \<le> p" "is_probably_prime_miller_rabin q 20"
      using less.hyps [of "c + 2"] less.prems by auto
    with False show ?thesis by (intro exI [of _ q]) (simp add: next_prime_loop.simps [of c])
  qed
qed

lemma next_prime_returns: "\<exists>q. next_prime n = Some q \<and> n \<le> q \<and> 1 < q"
proof -
  obtain p where p: "is_prime p" "max n 2 + 1 < p" using prime_above by blast
  then have "odd p" "n + 1 \<le> p" using prime_odd by auto
  then obtain q where "next_prime_loop (if even n then n + 1 else n) = Some q"
      "(if even n then n + 1 else n) \<le> q" "is_probably_prime_miller_rabin q 20"
    using next_prime_loop_returns [of "if even n then n + 1 else n" p] p by (cases "even n") auto
  then show ?thesis
    by (auto simp: next_prime_def is_probably_prime_miller_rabin_def split: if_splits)
qed

lemma derive_challenge_returns: "\<exists>l. derive_challenge R x y T = Some l \<and> 1 < l"
  using next_prime_returns by (auto simp: derive_challenge_def Let_def)

section \<open>Completeness\<close>

lemma wesolowski_loop_eq:
  assumes "1 < l" and "pi = x ^ (2 ^ i div l) mod n" and "r = 2 ^ i mod l"
  shows "wesolowski_loop n x l k (pi, r) = (x ^ (2 ^ (i + k) div l) mod n, 2 ^ (i + k) mod l)"
  using assms(2,3)
proof (induction k arbitrary: i pi r)
  case (Suc k)
  let ?q = "2 ^ i div l :: nat" and ?b = "r * 2 div l"
  have r: "r < l" using Suc.prems(2) assms(1) by simp
  have pow: "2 ^ Suc i = l * (2 * ?q) + r * 2"
  proof -
    have "2 ^ Suc i = 2 * (l * ?q + 2 ^ i mod l)" by (simp only: power_Suc mult_div_mod_eq)
    also have "\<dots> = l * (2 * ?q) + r * 2" unfolding Suc.prems(2) by (simp only: distrib_left mult.left_commute mult.commute)
    finally show ?thesis .
  qed
  have quot: "2 ^ Suc i div l = 2 * ?q + ?b"
    unfolding pow using assms(1) by (simp add: div_add1_eq div_mult_self_is_m)
  have "r * 2 mod l = 2 ^ Suc i mod l" unfolding pow by simp
  moreover have "(if ?b = 1 then pi * pi mod n * x mod n else pi * pi mod n) = x ^ (2 ^ Suc i div l) mod n"
  proof -
    have sq: "pi * pi mod n = x ^ (2 * ?q) mod n"
      by (simp add: Suc.prems(1) mod_mult_eq mult_2 power_add)
    have "?b < 2" using r assms(1) by (simp add: less_mult_imp_div_less mult.commute)
    then consider "?b = 0" | "?b = 1" by linarith
    then show ?thesis
    proof cases
      case 1
      then show ?thesis using sq unfolding quot by simp
    next
      case 2
      then show ?thesis using sq unfolding quot by (simp add: mod_mult_right_eq mult.commute)
    qed
  qed
  ultimately show ?case
    using Suc.IH [of _ "Suc i" "r * 2 mod l"] by (simp add: Let_def)
qed simp

lemma repeated_squaring: "0 < k \<Longrightarrow> ((\<lambda>y. y * y mod n) ^^ k) x = x ^ 2 ^ k mod n" for n x :: nat
proof (induction k)
  case (Suc k)
  show ?case
  proof (cases "k = 0")
    case False
    with Suc have "((\<lambda>y. y * y mod n) ^^ Suc k) x = (x ^ 2 ^ k mod n) * (x ^ 2 ^ k mod n) mod n" by simp
    then show ?thesis by (simp add: mod_mult_eq mult_2 power_add)
  qed (simp add: power2_eq_square)
qed simp

lemma multiple_of_six: "m = 6 * k \<Longrightarrow> 2 dvd m \<and> 3 dvd m" for m k :: nat
  by (auto intro: dvd_mult2)

section \<open>Properties\<close>

text \<open>The hash-chain delay function: a proof made by \<^verbatim>\<open>evaluate\<close> verifies exactly for one to ten million
  iterations, an accepted proof's output is the hash iterated that often on its seed (so the output is determined by
  seed and count), and chains compose.\<close>

lemma hash_vdf_correct:
  "(vdf_verify R (vdf_evaluate R seed n) \<longleftrightarrow> 0 < n \<and> n \<le> 10000000) \<and>
   (vdf_verify R proof \<longrightarrow> vdf_output proof = (sha256 R ^^ unat (vdf_iterations proof)) (vdf_seed proof)) \<and>
   (checked_add a b = Some c \<longrightarrow>
      vdf_output (vdf_evaluate R (vdf_output (vdf_evaluate R seed a)) b) = vdf_output (vdf_evaluate R seed c))"
proof (intro conjI impI)
  show "vdf_verify R (vdf_evaluate R seed n) \<longleftrightarrow> 0 < n \<and> n \<le> 10000000"
    by (auto simp: vdf_verify_def vdf_evaluate_def MAX_VDF_ITERATIONS_def not_less word_gt_0)
  show "vdf_verify R proof \<Longrightarrow> vdf_output proof = (sha256 R ^^ unat (vdf_iterations proof)) (vdf_seed proof)"
    by (auto simp: vdf_verify_def vdf_evaluate_def split: if_splits)
  assume "checked_add a b = Some c"
  then show "vdf_output (vdf_evaluate R (vdf_output (vdf_evaluate R seed a)) b) = vdf_output (vdf_evaluate R seed c)"
    using checked_add_unat [of a b c] funpow_add [of "unat b" "unat a" "sha256 R"]
    by (simp add: vdf_evaluate_def add.commute)
qed

lemma hash_vdf_correct_witness:
  "vdf_verify zp_prims (vdf_evaluate zp_prims [1] 5) \<and>
   vdf_output (vdf_evaluate zp_prims (vdf_output (vdf_evaluate zp_prims [1] 2)) 3) = vdf_output (vdf_evaluate zp_prims [1] 5)"
  using hash_vdf_correct [of zp_prims "[1]" 5 _ 2 3 5] by (simp add: checked_add_def)

text \<open>C23: The search for the challenge prime returns: Miller-Rabin with the fixed witnesses accepts every
  prime, and there are primes above every candidate, so \<^verbatim>\<open>next_prime\<close> and with it \<^verbatim>\<open>derive_challenge\<close>
  terminate on every input, with a result not below the candidate and above one.\<close>

theorem next_prime_terminates:
  "(\<exists>q. next_prime n = Some q \<and> n \<le> q \<and> 1 < q \<and> is_probably_prime_miller_rabin q 20) \<and>
   (\<exists>l. derive_challenge R x y T = Some l \<and> 1 < l)"
proof
  obtain q where q: "next_prime n = Some q" "n \<le> q" "1 < q" using next_prime_returns by blast
  moreover have "is_probably_prime_miller_rabin q 20"
  proof -
    obtain p where p: "is_prime p" "max n 2 + 1 < p" using prime_above by blast
    then have "odd p" "n + 1 \<le> p" using prime_odd by auto
    with next_prime_loop_returns [of "if even n then n + 1 else n" p] p(1) q(1) show ?thesis
      by (cases "even n") (auto simp: next_prime_def)
  qed
  ultimately show "\<exists>q. next_prime n = Some q \<and> n \<le> q \<and> 1 < q \<and> is_probably_prime_miller_rabin q 20" by blast
qed (rule derive_challenge_returns)

text \<open>C22: The RSA delay function is total and complete: for an input above one, one to ten million iterations and any
  positive modulus, \<^verbatim>\<open>evaluate\<close> returns a proof whose output is \<open>x ^ (2 ^ T)\<close> modulo \<open>N\<close> and which \<^verbatim>\<open>verify\<close>
  accepts. The incrementally computed Wesolowski proof is \<open>x ^ (2 ^ T div l)\<close> modulo \<open>N\<close>.\<close>

theorem rsa_vdf_complete:
  assumes "1 < x" and "0 < T" and "T \<le> 10000000" and "0 < rsa_modulus params"
  shows "\<exists>proof. rsa_evaluate R params x T = Some (Ok proof) \<and> rsa_output proof = x ^ 2 ^ unat T mod rsa_modulus params \<and>
    rsa_proof_pi proof = x ^ (2 ^ unat T div rsa_challenge_l proof) mod rsa_modulus params \<and>
    rsa_verify R params proof = Some True"
proof -
  let ?n = "rsa_modulus params" and ?k = "unat T"
  have "0 < ?k" using assms(2) by (simp add: word_less_nat_alt)
  then have y: "((\<lambda>y. y * y mod ?n) ^^ ?k) x = x ^ 2 ^ ?k mod ?n" by (rule repeated_squaring)
  obtain l where l: "derive_challenge R x (x ^ 2 ^ ?k mod ?n) T = Some l" "1 < l"
    using derive_challenge_returns by blast
  define pi where "pi = compute_wesolowski_proof params x T l"
  have pi: "pi = x ^ (2 ^ ?k div l) mod ?n"
  proof (cases "?n = 1")
    case True
    have "fst (wesolowski_loop 1 x l k (0, b)) = 0" for k b
      by (induction k arbitrary: b) (auto simp: Let_def)
    moreover obtain k' where "?k = Suc k'" using \<open>0 < ?k\<close> gr0_conv_Suc by blast
    ultimately show ?thesis by (simp add: pi_def compute_wesolowski_proof_def True Let_def)
  next
    case False
    then show ?thesis
      using wesolowski_loop_eq [of l 1 x 0 ?n 1 ?k] l(2) assms(4) by (simp add: pi_def compute_wesolowski_proof_def)
  qed
  have "(pi ^ l mod ?n) * (x ^ (2 ^ ?k mod l) mod ?n) mod ?n = (x ^ (2 ^ ?k div l)) ^ l * x ^ (2 ^ ?k mod l) mod ?n"
    by (simp only: pi mod_mult_eq power_mod)
  also have "(x ^ (2 ^ ?k div l)) ^ l * x ^ (2 ^ ?k mod l) = x ^ (2 ^ ?k div l * l + 2 ^ ?k mod l)"
    by (simp only: power_mult [symmetric] power_add)
  also have "2 ^ ?k div l * l + 2 ^ ?k mod l = 2 ^ ?k" by (rule div_mult_mod_eq)
  finally have eqn: "(pi ^ l mod ?n) * (x ^ (2 ^ ?k mod l) mod ?n) mod ?n = x ^ 2 ^ ?k mod ?n" .
  define wp where "wp = \<lparr>rsa_input = x, rsa_output = x ^ 2 ^ ?k mod ?n, rsa_iterations = T,
    rsa_proof_pi = pi, rsa_challenge_l = l\<rparr>"
  have "\<not> MAX_RSA_VDF_ITERATIONS < T" "T \<noteq> 0" "\<not> x \<le> 1"
    using assms by (auto simp: MAX_RSA_VDF_ITERATIONS_def)
  then have "rsa_evaluate R params x T = Some (Ok wp)" and "rsa_verify R params wp = Some True"
    using l(1) eqn
    by (simp_all add: rsa_evaluate_def rsa_verify_def y wp_def pi_def modpow_bigint_def modpow_eq Let_def)
  then show ?thesis using pi by (intro exI [of _ wp]) (simp add: wp_def)
qed

theorem rsa_vdf_complete_witness:
  "\<exists>proof. rsa_evaluate zp_prims small_test 5 3 = Some (Ok proof) \<and> rsa_output proof = 5 ^ 2 ^ 3 mod rsa_modulus small_test \<and>
    rsa_verify zp_prims small_test proof = Some True"
  using rsa_vdf_complete [of 5 3 small_test zp_prims] by (auto simp: small_test_def)

text \<open>The modulus that \<^verbatim>\<open>default_2048\<close> parses, which the comment calls the RSA-2048 challenge number of unknown
  factorization, is divisible by 2 and by 3.\<close>

lemma default_2048_has_small_factors:
  "2 dvd rsa_modulus default_2048 \<and> 3 dvd rsa_modulus default_2048"
proof -
  have "rsa_modulus default_2048 = 6 *
    4199318079276315582337863873341399761904880354367338671296189639340610336784599259377336420980130734486381773541585847031549759858196030750468081520012140832114565467881294622661903057878376982729169161970781860846268896643182616682888409958134738066966238183440409781969532519791020252528775772047036144997924863737072272876514190310910340596133070564530795746534566557060974706373801996939691684458017419433962176760336032793760223073572673056507358254390720316857762574090297373368207694192872251297846249695209620779938210643927288816520258052396946499808400742273372545636585631060940652020017328538036867867263"
    unfolding default_2048_def by simp
  then show ?thesis by (rule multiple_of_six)
qed

end
