(* ===== verification/Nullifier.thy ===== *)
theory Nullifier
  imports Prime_Field
begin

text \<open>
  \<^verbatim>\<open>specter-core/src/nullifier.rs\<close>: the set of spent nullifiers, its append-only file and its shared
  handle. Files are a map from paths to contents, so that the lock file and the data file are what their paths say, and what
  the disk does is an argument: a write succeeds, or fails after some of the bytes. The locale
  \<open>spend_set\<close> is the contract the transfer, split and renewal operations rely on; its lemmas say that
  over any sequence of insertions a nullifier is accepted at most once.
\<close>

section \<open>Nullifiers and the set\<close>

definition compute_nullifier :: "('s, 'p) prims \<Rightarrow> bytes \<Rightarrow> bytes \<Rightarrow> bytes" where
  "compute_nullifier R secret token_id = shake256 R (ascii ''specter-nullifier:'' @ secret @ token_id) 32"

text \<open>A path is the list of its components. An open file is its contents, \<open>ns_file\<close>, and where it is, \<open>ns_file_path\<close>.\<close>

type_synonym path = "string list"

record nullifier_set =
  ns_nullifiers :: "bytes set"
  ns_file :: "bytes option"
  ns_file_path :: "path option"
  ns_lock_path :: "path option"

definition nullifier_set_new :: nullifier_set where
  "nullifier_set_new = \<lparr>ns_nullifiers = {}, ns_file = None, ns_file_path = None, ns_lock_path = None\<rparr>"

text \<open>
  The outcome of \<^verbatim>\<open>write_all\<close>, \<^verbatim>\<open>flush\<close> and \<^verbatim>\<open>sync_all\<close>: \<open>None\<close> when all succeed, \<open>Some k\<close> when one
  fails after \<open>k\<close> bytes have reached the file.
\<close>

type_synonym write_outcome = "nat option"

definition nullifier_insert :: "write_outcome \<Rightarrow> bytes \<Rightarrow> nullifier_set \<Rightarrow> bool \<times> nullifier_set" where
  "nullifier_insert w nullifier st =
     (if nullifier \<in> ns_nullifiers st then (False, st)
      else case ns_file st of
        None \<Rightarrow> (True, st\<lparr>ns_nullifiers := insert nullifier (ns_nullifiers st)\<rparr>)
      | Some data \<Rightarrow>
          (case w of
             Some k \<Rightarrow> (False, st\<lparr>ns_file := Some (data @ take k nullifier)\<rparr>)
           | None \<Rightarrow> (True, st\<lparr>ns_file := Some (data @ nullifier),
                            ns_nullifiers := insert nullifier (ns_nullifiers st)\<rparr>)))"

definition nullifier_contains :: "bytes \<Rightarrow> nullifier_set \<Rightarrow> bool" where
  "nullifier_contains nullifier st \<longleftrightarrow> nullifier \<in> ns_nullifiers st"

definition nullifier_len :: "nullifier_set \<Rightarrow> nat" where
  "nullifier_len st = card (ns_nullifiers st)"

definition nullifier_is_empty :: "nullifier_set \<Rightarrow> bool" where
  "nullifier_is_empty st \<longleftrightarrow> ns_nullifiers st = {}"

section \<open>The file\<close>

text \<open>The files, by path, and what the operating system answers beyond them.\<close>

type_synonym file_system = "path \<Rightarrow> bytes option"

record os_answers =
  lock_open_ok :: bool
  data_open_ok :: bool
  metadata_ok :: bool
  read_ok :: bool

datatype nullifier_io_error =
    PathTraversal
  | LockedByAnotherProcess
  | FileTooLarge nat
  | InvalidFileSize nat
  | OtherIoError

definition MAX_NULLIFIER_FILE_SIZE :: nat where
  "MAX_NULLIFIER_FILE_SIZE = 32 * 10000000"

fun chunks_exact_32 :: "bytes \<Rightarrow> bytes list" where
  "chunks_exact_32 bs = (if length bs < 32 then [] else take 32 bs # chunks_exact_32 (drop 32 bs))"

declare chunks_exact_32.simps [simp del]

text \<open>
  \<^verbatim>\<open>Path::with_extension\<close>: the last component, if it is a file name, with what follows its last dot replaced; a
  dot at the start of the name does not count. A path that ends in no file name is returned as it is.
\<close>

definition file_stem :: "string \<Rightarrow> string" where
  "file_stem name =
     (case dropWhile (\<lambda>c. c \<noteq> CHR ''.'') (rev name) of
        [] \<Rightarrow> name
      | _ # before \<Rightarrow> if before = [] then name else rev before)"

definition with_extension :: "string \<Rightarrow> path \<Rightarrow> path" where
  "with_extension ext path =
     (if path = [] \<or> last path \<in> {''/'', ''.'', ''..''} then path
      else butlast path @ [file_stem (last path) @ ''.'' @ ext])"

definition nullifier_with_file ::
  "path \<Rightarrow> os_answers \<Rightarrow> file_system \<Rightarrow> (nullifier_set, nullifier_io_error) result \<times> file_system" where
  "nullifier_with_file path os fs =
     (if list_ex (\<lambda>c. c = ''..'') path then (Err PathTraversal, fs)
      else
        let lock_path = with_extension ''lock'' path in
        if fs lock_path \<noteq> None then (Err LockedByAnotherProcess, fs)
        else if \<not> lock_open_ok os then (Err OtherIoError, fs)
        else
          let fs = fs(lock_path \<mapsto> []) in
          if \<not> data_open_ok os then (Err OtherIoError, fs)
          else
            let buf = (case fs path of None \<Rightarrow> [] | Some d \<Rightarrow> d);
                fs = fs(path \<mapsto> buf) in
            if \<not> metadata_ok os then (Err OtherIoError, fs)
            else if MAX_NULLIFIER_FILE_SIZE < length buf then (Err (FileTooLarge (length buf)), fs)
            else if \<not> read_ok os then (Err OtherIoError, fs)
            else if length buf mod 32 \<noteq> 0 then (Err (InvalidFileSize (length buf)), fs)
            else (Ok \<lparr>ns_nullifiers = set (chunks_exact_32 buf), ns_file = Some buf, ns_file_path = Some path,
                      ns_lock_path = Some lock_path\<rparr>, fs))"

text \<open>
  What was written through the handle is in the file; dropping the set then removes the file at the lock path, which
  for a path that ends in \<^verbatim>\<open>.lock\<close> is the data file.
\<close>

definition written :: "nullifier_set \<Rightarrow> file_system \<Rightarrow> file_system" where
  "written st fs =
     (case (ns_file_path st, ns_file st) of (Some path, Some d) \<Rightarrow> fs(path \<mapsto> d) | _ \<Rightarrow> fs)"

definition nullifier_set_drop :: "nullifier_set \<Rightarrow> file_system \<Rightarrow> file_system" where
  "nullifier_set_drop st fs =
     (let fs = written st fs
      in case ns_lock_path st of None \<Rightarrow> fs | Some lock_path \<Rightarrow> fs(lock_path := None))"

section \<open>The shared handle\<close>

text \<open>
  A handle locks the mutex around every call, and recovers the data of a poisoned one; so an
  execution of several threads is a sequence of whole calls, in the order they get the lock.
\<close>

definition concurrent_new :: "nullifier_set \<Rightarrow> nullifier_set" where
  "concurrent_new ns = ns"

definition concurrent_empty :: nullifier_set where
  "concurrent_empty = concurrent_new nullifier_set_new"

definition concurrent_with_file where
  "concurrent_with_file path os fs =
     (case nullifier_with_file path os fs of
        (Ok ns, fs) \<Rightarrow> (Ok (concurrent_new ns), fs)
      | (Err e, fs) \<Rightarrow> (Err e, fs)
      | (Panic, fs) \<Rightarrow> (Panic, fs))"

definition concurrent_insert :: "write_outcome \<Rightarrow> bytes \<Rightarrow> nullifier_set \<Rightarrow> bool \<times> nullifier_set" where
  "concurrent_insert w nullifier inner = nullifier_insert w nullifier inner"

definition concurrent_contains :: "bytes \<Rightarrow> nullifier_set \<Rightarrow> bool" where
  "concurrent_contains nullifier inner = nullifier_contains nullifier inner"

definition concurrent_len :: "nullifier_set \<Rightarrow> nat" where
  "concurrent_len inner = nullifier_len inner"

definition concurrent_is_empty :: "nullifier_set \<Rightarrow> bool" where
  "concurrent_is_empty inner \<longleftrightarrow> concurrent_len inner = 0"

record conc_state =
  cs_programs :: "nat \<Rightarrow> (write_outcome \<times> bytes) list"
  cs_set :: nullifier_set
  cs_log :: "(nat \<times> bytes \<times> bool) list"

inductive conc_step :: "conc_state \<Rightarrow> conc_state \<Rightarrow> bool" where
  insert_step:
    "cs_programs s t = (w, n) # rest \<Longrightarrow> concurrent_insert w n (cs_set s) = (b, set') \<Longrightarrow>
     conc_step s \<lparr>cs_programs = (cs_programs s)(t := rest), cs_set = set', cs_log = cs_log s @ [(t, n, b)]\<rparr>"

inductive_cases conc_stepE [elim]: "conc_step s s'"

section \<open>The contract of a spend set\<close>

locale spend_set =
  fixes ins :: "'io \<Rightarrow> bytes \<Rightarrow> 'st \<Rightarrow> bool \<times> 'st" and mem :: "bytes \<Rightarrow> 'st \<Rightarrow> bool"
  assumes accept_fresh: "ins io n st = (True, st') \<Longrightarrow> \<not> mem n st"
    and accept_mem: "ins io n st = (True, st') \<Longrightarrow> mem n st'"
    and keeps_mem: "ins io n st = (b, st') \<Longrightarrow> mem m st \<Longrightarrow> mem m st'"
    and adds_only: "ins io n st = (b, st') \<Longrightarrow> mem m st' \<Longrightarrow> (b \<and> m = n) \<or> mem m st"

text \<open>A sequence of insertions, and the nullifiers it accepts, in order.\<close>

fun accepted :: "('io \<Rightarrow> bytes \<Rightarrow> 'st \<Rightarrow> bool \<times> 'st) \<Rightarrow> ('io \<times> bytes) list \<Rightarrow> 'st \<Rightarrow> bytes list \<times> 'st" where
  "accepted ins [] st = ([], st)"
| "accepted ins ((io, n) # ops) st =
     (let (b, st) = ins io n st; (ns, st) = accepted ins ops st in (if b then n # ns else ns, st))"

context spend_set
begin

lemma reject_known: "mem n st \<Longrightarrow> fst (ins io n st) = False"
  using accept_fresh by (cases "ins io n st") auto

lemma accepted_mem:
  "accepted ins ops st = (ns, st') \<Longrightarrow> (mem m st \<longrightarrow> mem m st' \<and> m \<notin> set ns) \<and> (m \<in> set ns \<longrightarrow> mem m st')
    \<and> (mem m st' \<longrightarrow> mem m st \<or> m \<in> set ns)"
proof (induction ops arbitrary: st ns)
  case (Cons op ops)
  obtain io n where op: "op = (io, n)" by fastforce
  obtain b st1 where i: "ins io n st = (b, st1)" by fastforce
  obtain ns1 where a: "accepted ins ops st1 = (ns1, st')" "ns = (if b then n # ns1 else ns1)"
    using Cons.prems by (auto simp: op i split: prod.splits)
  note IH = Cons.IH [OF a(1)]
  have "b \<Longrightarrow> mem n st1" and "b \<Longrightarrow> \<not> mem n st" using accept_mem accept_fresh i by auto
  then show ?case
    using IH a(2) keeps_mem [OF i, of m] adds_only [OF i, of m] by (auto simp: op)
qed auto

text \<open>No nullifier is accepted twice, whatever the other operations do.\<close>

lemma accepted_distinct: "accepted ins ops st = (ns, st') \<Longrightarrow> distinct ns"
proof (induction ops arbitrary: st ns)
  case (Cons op ops)
  obtain io n where op: "op = (io, n)" by fastforce
  obtain b st1 where i: "ins io n st = (b, st1)" by fastforce
  obtain ns1 where a: "accepted ins ops st1 = (ns1, st')" "ns = (if b then n # ns1 else ns1)"
    using Cons.prems by (auto simp: op i split: prod.splits)
  have "n \<notin> set ns1" if b
    using accepted_mem [OF a(1), of n] accept_mem [of io n st st1] i that by simp
  with Cons.IH [OF a(1)] a(2) show ?case by simp
qed auto

end

interpretation nullifiers: spend_set nullifier_insert nullifier_contains
  by unfold_locales
    (auto simp: nullifier_insert_def nullifier_contains_def split: if_splits option.splits)

interpretation shared: spend_set concurrent_insert concurrent_contains
  unfolding concurrent_insert_def [abs_def] concurrent_contains_def [abs_def] by (rule nullifiers.spend_set_axioms)

section \<open>Concurrency\<close>

definition wins :: "(nat \<times> bytes \<times> bool) list \<Rightarrow> bytes list" where
  "wins log = map (\<lambda>(t, n, b). n) (filter (\<lambda>(t, n, b). b) log)"

lemma conc_invariant:
  assumes "conc_step\<^sup>*\<^sup>* s0 s" and "cs_log s0 = []"
  shows "distinct (wins (cs_log s)) \<and> (\<forall>n\<in>set (wins (cs_log s)). concurrent_contains n (cs_set s) \<and> \<not> concurrent_contains n (cs_set s0)) \<and>
    (\<forall>n. concurrent_contains n (cs_set s0) \<longrightarrow> concurrent_contains n (cs_set s))"
  using assms
proof (induction rule: rtranclp_induct)
  case base
  then show ?case by (simp add: wins_def)
next
  case (step s s')
  from step.hyps(2) obtain t w n rest b set' where
    i: "concurrent_insert w n (cs_set s) = (b, set')" and s': "cs_set s' = set'" "cs_log s' = cs_log s @ [(t, n, b)]"
    by auto
  have new: "wins (cs_log s') = wins (cs_log s) @ (if b then [n] else [])" by (simp add: wins_def s')
  have fresh: "b \<Longrightarrow> \<not> concurrent_contains n (cs_set s)" and added: "b \<Longrightarrow> concurrent_contains n set'"
    using shared.accept_fresh shared.accept_mem i by auto
  with step.IH step.prems show ?case
    unfolding new s'(1) using shared.keeps_mem [OF i] by (auto split: if_splits)
qed

section \<open>Persistence\<close>

lemma chunks_append:
  "length c = 32 \<Longrightarrow> chunks_exact_32 (c @ bs) = c # chunks_exact_32 bs"
  by (subst chunks_exact_32.simps) simp

lemma chunks_concat: "(\<And>c. c \<in> set cs \<Longrightarrow> length c = 32) \<Longrightarrow> chunks_exact_32 (concat cs) = cs"
  by (induction cs) (auto simp: chunks_append chunks_exact_32.simps [of "[]"])

lemma length_concat_32: "(\<And>c. c \<in> set cs \<Longrightarrow> length c = 32) \<Longrightarrow> length (concat cs) = 32 * length cs"
  by (induction cs) auto

lemma concat_chunks: "length bs mod 32 = 0 \<Longrightarrow> concat (chunks_exact_32 bs) = bs"
proof (induction bs rule: chunks_exact_32.induct)
  case (1 bs)
  then show ?case
    by (subst chunks_exact_32.simps) (auto simp: le_mod_geq not_less)
qed

lemma chunks_length: "c \<in> set (chunks_exact_32 bs) \<Longrightarrow> length c = 32"
proof (induction bs rule: chunks_exact_32.induct)
  case (1 bs)
  from 1(2) show ?case
    using 1(1) by (subst (asm) chunks_exact_32.simps) (auto split: if_splits)
qed

lemma paths_accepted:
  "accepted nullifier_insert ops st = (ns, st') \<Longrightarrow> ns_lock_path st' = ns_lock_path st \<and> ns_file_path st' = ns_file_path st"
proof (induction ops arbitrary: st ns)
  case (Cons op ops)
  then show ?case
    by (cases op) (force simp: nullifier_insert_def split: prod.splits if_splits option.splits)
qed simp

text \<open>
  The invariant of a file-backed set: the file is a sequence of whole entries that has every member of
  the set.
\<close>

definition file_ok :: "nullifier_set \<Rightarrow> bool" where
  "file_ok st \<longleftrightarrow> (\<exists>cs. ns_file st = Some (concat cs) \<and> (\<forall>c\<in>set cs. length c = 32) \<and> ns_nullifiers st \<subseteq> set cs)"

lemma file_ok_insert:
  assumes "file_ok st" and "length n = 32" and "case w of None \<Rightarrow> True | Some k \<Rightarrow> k = 0 \<or> 32 \<le> k"
    and "nullifier_insert w n st = (b, st')"
  shows "file_ok st'"
proof -
  obtain cs where cs: "ns_file st = Some (concat cs)" "\<forall>c\<in>set cs. length c = 32" "ns_nullifiers st \<subseteq> set cs"
    using assms(1) by (auto simp: file_ok_def)
  have "st' = st \<or> (ns_file st' = Some (concat (cs @ [n])) \<and> ns_nullifiers st' \<subseteq> set (cs @ [n]))"
    using assms(2,3,4) cs by (auto simp: nullifier_insert_def split: if_splits option.splits)
  then show ?thesis
  proof
    assume "ns_file st' = Some (concat (cs @ [n])) \<and> ns_nullifiers st' \<subseteq> set (cs @ [n])"
    with cs(2) assms(2) show ?thesis unfolding file_ok_def by (intro exI [of _ "cs @ [n]"]) auto
  qed (use assms(1) in simp)
qed

lemma file_ok_accepted:
  assumes "file_ok st" and "\<forall>(w, n)\<in>set ops. length n = 32 \<and> (case w of None \<Rightarrow> True | Some k \<Rightarrow> k = 0 \<or> 32 \<le> k)"
    and "accepted nullifier_insert ops st = (ns, st')"
  shows "file_ok st'"
  using assms
proof (induction ops arbitrary: st ns)
  case (Cons op ops)
  obtain w n where op: "op = (w, n)" by fastforce
  obtain b st1 where i: "nullifier_insert w n st = (b, st1)" by fastforce
  have "file_ok st1" using file_ok_insert [OF Cons.prems(1) _ _ i] Cons.prems(2) by (auto simp: op)
  with Cons.IH Cons.prems(2,3) show ?case by (auto simp: op i split: prod.splits)
qed simp

text \<open>The handle of a set opened at a path.\<close>

definition opened_at :: "path \<Rightarrow> nullifier_set \<Rightarrow> bool" where
  "opened_at path st \<longleftrightarrow> ns_file_path st = Some path \<and> ns_lock_path st = Some (with_extension ''lock'' path)"

definition os_fine :: "os_answers \<Rightarrow> bool" where
  "os_fine os \<longleftrightarrow> lock_open_ok os \<and> data_open_ok os \<and> metadata_ok os \<and> read_ok os"

lemma reload_ok:
  assumes "file_ok st" and "opened_at path st" and "length (the (ns_file st)) \<le> MAX_NULLIFIER_FILE_SIZE"
    and "os_fine os" and "\<not> list_ex (\<lambda>c. c = ''..'') path" and "with_extension ''lock'' path \<noteq> path"
  shows "\<exists>st'. fst (nullifier_with_file path os (nullifier_set_drop st fs)) = Ok st' \<and>
    ns_nullifiers st \<subseteq> ns_nullifiers st'"
proof -
  obtain cs where cs: "ns_file st = Some (concat cs)" "\<forall>c\<in>set cs. length c = 32" "ns_nullifiers st \<subseteq> set cs"
    using assms(1) by (auto simp: file_ok_def)
  have "chunks_exact_32 (concat cs) = cs" "length (concat cs) mod 32 = 0"
    using cs(2) chunks_concat [of cs] length_concat_32 [of cs] by auto
  then show ?thesis
    using assms cs
    by (auto simp: nullifier_with_file_def nullifier_set_drop_def written_def opened_at_def os_fine_def Let_def)
qed

text \<open>When the lock path is the path itself, the drop removes the data.\<close>

lemma reload_loses:
  assumes "opened_at path st" and "os_fine os" and "\<not> list_ex (\<lambda>c. c = ''..'') path" and "with_extension ''lock'' path = path"
  shows "nullifier_set_drop st fs path = None \<and>
    (\<exists>st'. fst (nullifier_with_file path os (nullifier_set_drop st fs)) = Ok st' \<and> ns_nullifiers st' = {})"
  using assms
  by (auto simp: nullifier_with_file_def nullifier_set_drop_def written_def opened_at_def os_fine_def Let_def
      MAX_NULLIFIER_FILE_SIZE_def chunks_exact_32.simps [of "[]"])

lemma with_file_ok: "fst (nullifier_with_file path os fs) = Ok st \<Longrightarrow> file_ok st \<and> opened_at path st"
proof -
  assume a: "fst (nullifier_with_file path os fs) = Ok st"
  let ?fs = "fs(with_extension ''lock'' path \<mapsto> [])"
  define buf where "buf = (case ?fs path of None \<Rightarrow> [] | Some d \<Rightarrow> d)"
  have st: "st = \<lparr>ns_nullifiers = set (chunks_exact_32 buf), ns_file = Some buf, ns_file_path = Some path,
      ns_lock_path = Some (with_extension ''lock'' path)\<rparr>" "length buf mod 32 = 0"
    using a by (auto simp: nullifier_with_file_def Let_def buf_def split: if_splits)
  have "concat (chunks_exact_32 buf) = buf" by (rule concat_chunks [OF st(2)])
  then show ?thesis unfolding file_ok_def opened_at_def st(1) using chunks_length
    by (auto intro!: exI [of _ "chunks_exact_32 buf"])
qed

section \<open>What the set promises\<close>

text \<open>Over any sequence of insertions, whatever the disk answers to each, every nullifier is accepted
  at most once, none that was already spent is accepted, and the set at the end is exactly the set at the
  start with the accepted ones added: nothing is forgotten and nothing enters that was not accepted.\<close>

lemma nullifier_accepted_once:
  "case accepted nullifier_insert ops st of (ns, st') \<Rightarrow>
     distinct ns \<and> set ns \<inter> ns_nullifiers st = {} \<and> ns_nullifiers st' = ns_nullifiers st \<union> set ns"
proof (cases "accepted nullifier_insert ops st")
  case (Pair ns st')
  note mem = nullifiers.accepted_mem [OF Pair, unfolded nullifier_contains_def]
  then have "set ns \<inter> ns_nullifiers st = {}" "ns_nullifiers st' = ns_nullifiers st \<union> set ns" by blast+
  then show ?thesis using nullifiers.accepted_distinct [OF Pair] by (simp add: Pair)
qed

text \<open>C2: in every execution of any number of threads over the shared handle, of all the threads that try to
  spend one nullifier at most one is told it succeeded, its nullifier is then in the set, and one that was
  in the set before the threads started is granted to nobody.\<close>

theorem concurrent_single_winner:
  assumes "conc_step\<^sup>*\<^sup>* s0 s" and "cs_log s0 = []"
  shows "distinct (wins (cs_log s)) \<and>
    set (wins (cs_log s)) \<subseteq> ns_nullifiers (cs_set s) - ns_nullifiers (cs_set s0)"
  using conc_invariant [OF assms] by (auto simp: concurrent_contains_def nullifier_contains_def)

definition two_threads :: conc_state where
  "two_threads = \<lparr>cs_programs = (\<lambda>t. if t < 2 then [(None, [7])] else []), cs_set = nullifier_set_new, cs_log = []\<rparr>"

theorem concurrent_single_winner_witness:
  "\<exists>s. conc_step\<^sup>*\<^sup>* two_threads s \<and> cs_log s = [(1, [7], True), (0, [7], False)] \<and>
     distinct (wins (cs_log s)) \<and> set (wins (cs_log s)) \<subseteq> ns_nullifiers (cs_set s) - ns_nullifiers (cs_set two_threads)"
proof -
  define s1 where "s1 = \<lparr>cs_programs = (cs_programs two_threads)(1 := []),
    cs_set = snd (concurrent_insert None [7] nullifier_set_new), cs_log = [(1, [7], True)]\<rparr>"
  define s2 where "s2 = \<lparr>cs_programs = (cs_programs s1)(0 := []), cs_set = cs_set s1,
    cs_log = [(1, [7], True), (0, [7], False)]\<rparr>"
  have "conc_step two_threads s1"
    using insert_step [of two_threads 1 None "[7]" "[]"]
    by (simp add: two_threads_def s1_def concurrent_insert_def nullifier_insert_def nullifier_set_new_def)
  moreover have "conc_step s1 s2"
    using insert_step [of s1 0 None "[7]" "[]" False]
    by (simp add: two_threads_def s1_def s2_def concurrent_insert_def nullifier_insert_def nullifier_set_new_def)
  ultimately have r: "conc_step\<^sup>*\<^sup>* two_threads s2" by (meson converse_rtranclp_into_rtranclp rtranclp.rtrancl_refl)
  show ?thesis
    using concurrent_single_winner [OF r] r by (intro exI [of _ s2]) (simp add: two_threads_def s2_def)
qed

text \<open>C24: spent nullifiers and restarts. A set opened on a file takes any sequence of insertions of
  32-byte nullifiers whose writes complete or fail with no byte or with all bytes of the entry
  written (none fails in the middle of an entry), stays below the size limit, is dropped, and the same path is opened again by
  a system that answers: the second open succeeds. If the lock path \<^verbatim>\<open>path.with_extension("lock")\<close> is another path, every nullifier spent
  before is spent still, and inserting one is refused whatever the disk then answers. If it is the path itself, as for a file
  called \<^verbatim>\<open>spent.lock\<close>, the drop removes the data file and the reopened set is empty.\<close>

theorem restart_keeps_spent:
  assumes "fst (nullifier_with_file path os fs) = Ok st"
    and "\<forall>(w, n)\<in>set ops. length n = 32 \<and> (case w of None \<Rightarrow> True | Some k \<Rightarrow> k = 0 \<or> 32 \<le> k)"
    and "accepted nullifier_insert ops st = (ns, st')"
    and "length (the (ns_file st')) \<le> MAX_NULLIFIER_FILE_SIZE" and "os_fine os'"
  shows "\<exists>st''. fst (nullifier_with_file path os' (nullifier_set_drop st' (snd (nullifier_with_file path os fs)))) = Ok st'' \<and>
    (if with_extension ''lock'' path = path then ns_nullifiers st'' = {}
     else ns_nullifiers st \<union> set ns \<subseteq> ns_nullifiers st'' \<and>
       (\<forall>n\<in>ns_nullifiers st \<union> set ns. \<forall>w. nullifier_insert w n st'' = (False, st'')))"
proof -
  have ok: "file_ok st" "opened_at path st" using with_file_ok [OF assms(1)] by auto
  have nodots: "\<not> list_ex (\<lambda>c. c = ''..'') path" using assms(1) by (auto simp: nullifier_with_file_def)
  have f: "file_ok st'" by (rule file_ok_accepted [OF ok(1) assms(2,3)])
  have o: "opened_at path st'" using paths_accepted [OF assms(3)] ok(2) by (simp add: opened_at_def)
  show ?thesis
  proof (cases "with_extension ''lock'' path = path")
    case False
    then obtain st'' where st'': "fst (nullifier_with_file path os' (nullifier_set_drop st' (snd (nullifier_with_file path os fs)))) = Ok st''"
      and sub: "ns_nullifiers st' \<subseteq> ns_nullifiers st''"
      using reload_ok [OF f o assms(4,5) nodots] by blast
    have "ns_nullifiers st \<union> set ns \<subseteq> ns_nullifiers st''"
      using nullifiers.accepted_mem [OF assms(3)] sub by (auto simp: nullifier_contains_def)
    with False st'' show ?thesis by (auto simp: nullifier_insert_def)
  qed (use reload_loses [OF o assms(5) nodots] in auto)
qed

text \<open>The same insertions on a file called \<^verbatim>\<open>spent.db\<close> and on one called \<^verbatim>\<open>spent.lock\<close>.\<close>

theorem restart_keeps_spent_witness:
  "\<exists>os n. length n = 32 \<and> (\<forall>path\<in>{[''spent.db''], [''spent.lock'']}. \<exists>st st' st''.
     fst (nullifier_with_file path os Map.empty) = Ok st \<and>
     accepted nullifier_insert [(Some 0, n), (None, n)] st = ([n], st') \<and>
     fst (nullifier_with_file path os (nullifier_set_drop st' (snd (nullifier_with_file path os Map.empty)))) = Ok st'' \<and>
     (if path = [''spent.lock''] then ns_nullifiers st'' = {} else n \<in> ns_nullifiers st''))"
proof -
  define n :: bytes where "n = replicate 32 7"
  define os where "os = \<lparr>lock_open_ok = True, data_open_ok = True, metadata_ok = True, read_ok = True\<rparr>"
  have ext: "with_extension ''lock'' [''spent.db''] = [''spent.lock'']" "with_extension ''lock'' [''spent.lock''] = [''spent.lock'']"
    by (simp_all add: with_extension_def file_stem_def)
  have len: "length n = 32" by (simp add: n_def)
  have run: "\<exists>st st' st''. fst (nullifier_with_file path os Map.empty) = Ok st \<and>
     accepted nullifier_insert [(Some 0, n), (None, n)] st = ([n], st') \<and>
     fst (nullifier_with_file path os (nullifier_set_drop st' (snd (nullifier_with_file path os Map.empty)))) = Ok st'' \<and>
     (if with_extension ''lock'' path = path then ns_nullifiers st'' = {} else n \<in> ns_nullifiers st'')"
    if path: "path \<in> {[''spent.db''], [''spent.lock'']}" for path
  proof -
    let ?st = "\<lparr>ns_nullifiers = {}, ns_file = Some [], ns_file_path = Some path, ns_lock_path = Some [''spent.lock'']\<rparr>"
    let ?st' = "?st\<lparr>ns_nullifiers := {n}, ns_file := Some n\<rparr>"
    have lock: "with_extension ''lock'' path = [''spent.lock'']" using path ext by auto
    have o: "fst (nullifier_with_file path os Map.empty) = Ok ?st"
      using path by (auto simp: nullifier_with_file_def lock os_def Let_def MAX_NULLIFIER_FILE_SIZE_def chunks_exact_32.simps)
    have a: "accepted nullifier_insert [(Some 0, n), (None, n)] ?st = ([n], ?st')"
      by (simp add: nullifier_insert_def)
    have lim: "length (the (ns_file ?st')) \<le> MAX_NULLIFIER_FILE_SIZE"
      by (simp add: len MAX_NULLIFIER_FILE_SIZE_def)
    from restart_keeps_spent [OF o _ a lim, of os] len obtain st'' where
      "fst (nullifier_with_file path os (nullifier_set_drop ?st' (snd (nullifier_with_file path os Map.empty)))) = Ok st''"
      "if with_extension ''lock'' path = path then ns_nullifiers st'' = {} else n \<in> ns_nullifiers st''"
      by (auto simp: os_def os_fine_def split: if_splits)
    with o a show ?thesis by blast
  qed
  have "\<forall>path\<in>{[''spent.db''], [''spent.lock'']}. \<exists>st st' st''.
     fst (nullifier_with_file path os Map.empty) = Ok st \<and>
     accepted nullifier_insert [(Some 0, n), (None, n)] st = ([n], st') \<and>
     fst (nullifier_with_file path os (nullifier_set_drop st' (snd (nullifier_with_file path os Map.empty)))) = Ok st'' \<and>
     (if path = [''spent.lock''] then ns_nullifiers st'' = {} else n \<in> ns_nullifiers st'')"
    using run [of "[''spent.db'']"] run [of "[''spent.lock'']"] by (simp add: ext)
  with len show ?thesis by blast
qed

text \<open>A write that fails in the middle of an entry is not undone. The set goes on, but if nothing else is written the file
  is no whole number of entries, and the next open refuses it.\<close>

lemma torn_write_blocks_reopen:
  assumes "file_ok st" and "opened_at path st" and "n \<notin> ns_nullifiers st" "length n = 32" "0 < k" "k < 32"
    and "nullifier_insert (Some k) n st = (b, st')" and "os_fine os" and "\<not> list_ex (\<lambda>c. c = ''..'') path"
    and "with_extension ''lock'' path \<noteq> path" and "length (the (ns_file st')) \<le> MAX_NULLIFIER_FILE_SIZE"
  shows "fst (nullifier_with_file path os (nullifier_set_drop st' fs)) = Err (InvalidFileSize (length (the (ns_file st'))))"
proof -
  obtain cs where cs: "ns_file st = Some (concat cs)" "\<forall>c\<in>set cs. length c = 32"
    using assms(1) by (auto simp: file_ok_def)
  then have st': "st' = st\<lparr>ns_file := Some (concat cs @ take k n)\<rparr>"
    using assms(3,7) by (simp add: nullifier_insert_def)
  have "length (concat cs @ take k n) = 32 * length cs + k"
    using cs(2) length_concat_32 [of cs] assms(4,6) by simp
  then have "length (concat cs @ take k n) mod 32 = k" using assms(6) by simp
  then show ?thesis
    using assms(2,5,8-11) unfolding st'
    by (simp add: nullifier_with_file_def nullifier_set_drop_def written_def opened_at_def os_fine_def Let_def)
qed

text \<open>An open that fails after the lock file was created (the data file cannot be opened or read, is too
  large, or is not a whole number of entries) leaves the lock file behind, so every later open of the same
  path fails with the lock error, whatever the disk answers.\<close>

lemma failed_open_leaves_lock:
  assumes "nullifier_with_file path os fs = (Err e, fs')"
    and "e \<noteq> PathTraversal" "e \<noteq> LockedByAnotherProcess" and "lock_open_ok os"
  shows "fst (nullifier_with_file path os' fs') = Err LockedByAnotherProcess"
  using assms by (auto simp: nullifier_with_file_def Let_def split: if_splits)

lemma failed_open_leaves_lock_witness:
  "\<exists>os fs'. nullifier_with_file [''spent''] os [[''spent''] \<mapsto> [1, 2, 3]] = (Err (InvalidFileSize 3), fs') \<and>
     fst (nullifier_with_file [''spent''] os fs') = Err LockedByAnotherProcess"
proof -
  define os where "os = \<lparr>lock_open_ok = True, data_open_ok = True, metadata_ok = True, read_ok = True\<rparr>"
  have "with_extension ''lock'' [''spent''] = [''spent.lock'']" by (simp add: with_extension_def file_stem_def)
  then obtain fs' where o: "nullifier_with_file [''spent''] os [[''spent''] \<mapsto> [1, 2, 3]] = (Err (InvalidFileSize 3), fs')"
    by (simp add: nullifier_with_file_def os_def MAX_NULLIFIER_FILE_SIZE_def Let_def)
  show ?thesis using failed_open_leaves_lock [OF o] o by (auto simp: os_def)
qed

end
