(* ===== verification/Token.thy ===== *)
theory Token
  imports Threshold Accumulator Credentials Vdf Nullifier
begin

text \<open>
  \<^verbatim>\<open>specter-core/src/token.rs\<close> and \<^verbatim>\<open>verify.rs\<close>: the proof-carrying token and its verification.
  \<^verbatim>\<open>build_signed_message\<close> of \<^verbatim>\<open>mint.rs\<close> is here because the token and the verifier use it. The
  invariant \<open>token_ok\<close> is what the mint establishes and the transfer keeps: the token passes every
  check and its transfer counter is the length of its signed chain.
\<close>

section \<open>Tokens\<close>

record ('s, 'p) proof_carrying_token =
  tok_id :: bytes
  tok_value :: u64
  tok_value_commitment :: 'p
  tok_value_proof :: "('s, 'p) value_proof"
  tok_mint_signature :: "'s blind_signature"
  tok_owner_secret :: bytes
  tok_hash_chain_head :: bytes
  tok_transfer_count :: u32
  tok_recursion_bound :: u32
  tok_fold_proof :: "('s, 'p) accumulated_proof"
  tok_genesis_owner_hash :: bytes
  tok_credential :: "('s, 'p) credential option"
  tok_presentation :: "('s, 'p) presentation option"
  tok_vdf_proof :: "vdf_proof option"
  tok_bond_owner_id :: "bytes option"
  tok_credential_pool :: "(('s, 'p) credential \<times> ('s, 'p) presentation) list"

definition needs_renewal :: "('s, 'p) proof_carrying_token \<Rightarrow> bool" where
  "needs_renewal tok \<longleftrightarrow> tok_recursion_bound tok \<le> tok_transfer_count tok"

definition estimated_size :: "('s, 'p) proof_carrying_token \<Rightarrow> nat" where
  "estimated_size tok =
     (let base = 32 + 8 + 32 + 32 + 64 + 32 + 32 + 4 + 4;
          fold = 32 + 32 + 32 + 32 + 4;
          cred = (if tok_credential tok \<noteq> None then 256 else 0);
          pres = (if tok_presentation tok \<noteq> None then 512 else 0);
          vdf = (if tok_vdf_proof tok \<noteq> None then 32 + 8 + 32 else 0);
          bond = (if tok_bond_owner_id tok \<noteq> None then 32 else 0);
          pool = 2 + length (tok_credential_pool tok) * (256 + 512)
      in base + fold + cred + pres + vdf + bond + pool)"

definition is_vdf_expired :: "('s, 'p) proof_carrying_token \<Rightarrow> u64 \<Rightarrow> bool" where
  "is_vdf_expired tok required_iterations =
     (case tok_vdf_proof tok of Some proof \<Rightarrow> vdf_is_expired proof required_iterations | None \<Rightarrow> True)"

definition has_bond :: "('s, 'p) proof_carrying_token \<Rightarrow> bool" where
  "has_bond tok \<longleftrightarrow> tok_bond_owner_id tok \<noteq> None"

definition token_nullifier :: "('s, 'p) prims \<Rightarrow> ('s, 'p) proof_carrying_token \<Rightarrow> bytes" where
  "token_nullifier R tok = compute_nullifier R (tok_owner_secret tok) (tok_id tok)"

definition build_signed_message :: "('s, 'p) prims \<Rightarrow> bytes \<Rightarrow> 'p \<Rightarrow> bytes \<Rightarrow> bytes" where
  "build_signed_message R token_id value_commitment genesis_pk_hash =
     token_id @ compress R value_commitment @ genesis_pk_hash"

definition signed_message :: "('s, 'p) prims \<Rightarrow> ('s, 'p) proof_carrying_token \<Rightarrow> bytes" where
  "signed_message R tok = build_signed_message R (tok_id tok) (tok_value_commitment tok) (tok_genesis_owner_hash tok)"

definition has_credential :: "('s, 'p) proof_carrying_token \<Rightarrow> bool" where
  "has_credential tok \<longleftrightarrow> tok_credential tok \<noteq> None"

definition has_offline_credentials :: "('s, 'p) proof_carrying_token \<Rightarrow> bool" where
  "has_offline_credentials tok \<longleftrightarrow> tok_credential_pool tok \<noteq> []"

definition advance_hash_chain :: "('s, 'p) prims \<Rightarrow> bytes \<Rightarrow> bytes \<Rightarrow> bytes" where
  "advance_hash_chain R current_head new_data =
     shake256 R (ascii ''specter-hash-chain:'' @ current_head @ new_data) 32"

section \<open>Verification\<close>

record verification_result =
  signature_valid :: bool
  value_valid :: bool
  within_bound :: bool
  fold_valid :: bool
  credential_valid :: "bool option"
  vdf_valid :: "bool option"

definition unwrap_or :: "'a option \<Rightarrow> 'a \<Rightarrow> 'a" where
  "unwrap_or x d = (case x of None \<Rightarrow> d | Some y \<Rightarrow> y)"

definition all_valid :: "verification_result \<Rightarrow> bool" where
  "all_valid vr \<longleftrightarrow> signature_valid vr \<and> value_valid vr \<and> within_bound vr \<and> fold_valid vr \<and>
     unwrap_or (credential_valid vr) True \<and> unwrap_or (vdf_valid vr) True"

definition all_valid_with_policy :: "verification_result \<Rightarrow> bool \<Rightarrow> bool \<Rightarrow> bool" where
  "all_valid_with_policy vr require_credential require_vdf \<longleftrightarrow>
     signature_valid vr \<and> value_valid vr \<and> within_bound vr \<and> fold_valid vr \<and>
     (if require_credential then credential_valid vr = Some True else unwrap_or (credential_valid vr) True) \<and>
     (if require_vdf then vdf_valid vr = Some True else unwrap_or (vdf_valid vr) True)"

text \<open>The presentation check may panic (see \<^verbatim>\<open>presentation.rs\<close>), and with it the verification.\<close>

definition credential_check ::
  "('s::field, 'p::ab_group_add) prims \<Rightarrow> ('s, 'p) proof_carrying_token \<Rightarrow> 'p pedersen_params \<Rightarrow> u64 \<Rightarrow>
     (bool option, unit) result" where
  "credential_check R tok credential_pedersen current_time =
     (case tok_presentation tok of
        None \<Rightarrow> Ok None
      | Some pres \<Rightarrow> bindR (verify_presentation R pres credential_pedersen) (\<lambda>sig_valid.
          let not_expired = (case tok_credential tok of
                None \<Rightarrow> True
              | Some cred \<Rightarrow> expires_at (cred_attributes cred) = 0 \<or> current_time = 0 \<or>
                  current_time \<le> expires_at (cred_attributes cred))
          in Ok (Some (sig_valid \<and> not_expired))))"

definition verify_token ::
  "('s::field, 'p::ab_group_add) prims \<Rightarrow> ('s, 'p) proof_carrying_token \<Rightarrow> 'p \<Rightarrow> 'p pedersen_params \<Rightarrow>
     'p pedersen_params \<Rightarrow> u64 \<Rightarrow> (verification_result, unit) result" where
  "verify_token R tok group_public_key pedersen credential_pedersen current_time =
     (if tok_value tok = 0 then Ok \<lparr>signature_valid = False, value_valid = False, within_bound = False,
        fold_valid = False, credential_valid = None, vdf_valid = None\<rparr>
      else
        let genesis_pk_hash = owner_pk_hash R (genesis_owner_pk (tok_fold_proof tok));
            signed_msg = build_signed_message R (tok_id tok) (tok_value_commitment tok) genesis_pk_hash;
            sig_valid = schnorr_verify R group_public_key signed_msg (tok_mint_signature tok);
            value_scalar = scalar_from_u64 R (tok_value tok);
            val_valid = verify_value_proof R pedersen (tok_value_commitment tok) value_scalar (tok_value_proof tok);
            in_bound = (tok_transfer_count tok \<le> tok_recursion_bound tok);
            current_pk = derive_owner_signing_pk R (tok_owner_secret tok);
            owner_binding_valid = (current_pk = current_owner_pk (tok_fold_proof tok));
            genesis_state = \<lparr>ts_token_id = tok_id tok, ts_owner_hash = genesis_pk_hash, ts_step = 0\<rparr>;
            accum_valid = verify_accumulated_proof R (tok_fold_proof tok) genesis_state
        in bindR (credential_check R tok credential_pedersen current_time) (\<lambda>cred_valid.
             Ok \<lparr>signature_valid = sig_valid, value_valid = val_valid, within_bound = in_bound,
                 fold_valid = (owner_binding_valid \<and> accum_valid), credential_valid = cred_valid,
                 vdf_valid = map_option (vdf_verify R) (tok_vdf_proof tok)\<rparr>))"

section \<open>What verification means\<close>

text \<open>The checks on a token that its transfer does not touch, and the checks on its chain and owner.\<close>

definition issued_by ::
  "('s::field, 'p::ab_group_add) prims \<Rightarrow> 'p \<Rightarrow> 'p pedersen_params \<Rightarrow> ('s, 'p) proof_carrying_token \<Rightarrow> bool" where
  "issued_by R pk pedersen tok \<longleftrightarrow> tok_value tok \<noteq> 0 \<and>
     schnorr_verify R pk (build_signed_message R (tok_id tok) (tok_value_commitment tok)
       (owner_pk_hash R (genesis_owner_pk (tok_fold_proof tok)))) (tok_mint_signature tok) \<and>
     verify_value_proof R pedersen (tok_value_commitment tok) (scalar_of_u64 R (tok_value tok)) (tok_value_proof tok)"

definition owned_chain :: "('s::field, 'p::ab_group_add) prims \<Rightarrow> ('s, 'p) proof_carrying_token \<Rightarrow> bool" where
  "owned_chain R tok \<longleftrightarrow>
     derive_owner_signing_pk R (tok_owner_secret tok) = current_owner_pk (tok_fold_proof tok) \<and>
     verify_accumulated_proof R (tok_fold_proof tok)
       \<lparr>ts_token_id = tok_id tok, ts_owner_hash = owner_pk_hash R (genesis_owner_pk (tok_fold_proof tok)), ts_step = 0\<rparr>"

text \<open>Every presentation a token carries, in use or in its pool, is accepted, and no credential has expired.\<close>

definition cred_ok ::
  "('s::field, 'p::ab_group_add) prims \<Rightarrow> 'p pedersen_params \<Rightarrow> u64 \<Rightarrow> ('s, 'p) credential \<Rightarrow> ('s, 'p) presentation \<Rightarrow> bool" where
  "cred_ok R cp now cred pres \<longleftrightarrow> verify_presentation R pres cp = Ok True \<and>
     (expires_at (cred_attributes cred) = 0 \<or> now = 0 \<or> now \<le> expires_at (cred_attributes cred))"

definition creds_ok ::
  "('s::field, 'p::ab_group_add) prims \<Rightarrow> 'p pedersen_params \<Rightarrow> u64 \<Rightarrow> ('s, 'p) proof_carrying_token \<Rightarrow> bool" where
  "creds_ok R cp now tok \<longleftrightarrow>
     ((tok_credential tok = None \<and> tok_presentation tok = None) \<or>
      (\<exists>cred pres. tok_credential tok = Some cred \<and> tok_presentation tok = Some pres \<and> cred_ok R cp now cred pres)) \<and>
     (\<forall>(cred, pres)\<in>set (tok_credential_pool tok). cred_ok R cp now cred pres)"

definition token_ok ::
  "('s::field, 'p::ab_group_add) prims \<Rightarrow> 'p \<Rightarrow> 'p pedersen_params \<Rightarrow> 'p pedersen_params \<Rightarrow> u64 \<Rightarrow>
     ('s, 'p) proof_carrying_token \<Rightarrow> bool" where
  "token_ok R pk pedersen cp now tok \<longleftrightarrow> issued_by R pk pedersen tok \<and> owned_chain R tok \<and>
     tok_transfer_count tok = ap_steps (tok_fold_proof tok) \<and> tok_transfer_count tok \<le> tok_recursion_bound tok \<and>
     creds_ok R cp now tok \<and> (\<forall>proof. tok_vdf_proof tok = Some proof \<longrightarrow> vdf_verify R proof)"

lemma verify_token_eq:
  assumes "tok_value tok \<noteq> 0"
  shows "verify_token R tok pk pedersen cp now = bindR (credential_check R tok cp now) (\<lambda>cv. Ok
    \<lparr>signature_valid = schnorr_verify R pk (build_signed_message R (tok_id tok) (tok_value_commitment tok)
       (owner_pk_hash R (genesis_owner_pk (tok_fold_proof tok)))) (tok_mint_signature tok),
     value_valid = verify_value_proof R pedersen (tok_value_commitment tok) (scalar_of_u64 R (tok_value tok)) (tok_value_proof tok),
     within_bound = (tok_transfer_count tok \<le> tok_recursion_bound tok), fold_valid = owned_chain R tok, credential_valid = cv,
     vdf_valid = map_option (vdf_verify R) (tok_vdf_proof tok)\<rparr>)"
  using assms by (simp add: verify_token_def owned_chain_def scalar_from_u64_def Let_def)

lemma verify_token_zero:
  "tok_value tok = 0 \<Longrightarrow> verify_token R tok pk pedersen cp now = Ok \<lparr>signature_valid = False, value_valid = False,
    within_bound = False, fold_valid = False, credential_valid = None, vdf_valid = None\<rparr>"
  by (simp add: verify_token_def)

lemma credential_check_ok:
  "creds_ok R cp now tok \<Longrightarrow> credential_check R tok cp now = Ok (map_option (\<lambda>_. True) (tok_presentation tok))"
  by (auto simp: creds_ok_def cred_ok_def credential_check_def Let_def)

lemma verify_token_issued:
  assumes "verify_token R tok pk pedersen cp now = Ok vr"
  shows "signature_valid vr \<and> value_valid vr \<longleftrightarrow> issued_by R pk pedersen tok"
    and "fold_valid vr \<longleftrightarrow> tok_value tok \<noteq> 0 \<and> owned_chain R tok"
    and "within_bound vr \<longleftrightarrow> tok_value tok \<noteq> 0 \<and> tok_transfer_count tok \<le> tok_recursion_bound tok"
proof -
  show "signature_valid vr \<and> value_valid vr \<longleftrightarrow> issued_by R pk pedersen tok"
    using assms by (cases "tok_value tok = 0") (auto simp: verify_token_eq issued_by_def verify_token_zero)
  show "fold_valid vr \<longleftrightarrow> tok_value tok \<noteq> 0 \<and> owned_chain R tok"
    using assms by (cases "tok_value tok = 0") (auto simp: verify_token_eq verify_token_zero)
  show "within_bound vr \<longleftrightarrow> tok_value tok \<noteq> 0 \<and> tok_transfer_count tok \<le> tok_recursion_bound tok"
    using assms by (cases "tok_value tok = 0") (auto simp: verify_token_eq verify_token_zero)
qed

lemma token_ok_verifies:
  assumes "token_ok R pk pedersen cp now tok"
  shows "verify_token R tok pk pedersen cp now = Ok \<lparr>signature_valid = True, value_valid = True, within_bound = True,
    fold_valid = True, credential_valid = map_option (\<lambda>_. True) (tok_presentation tok),
    vdf_valid = map_option (\<lambda>_. True) (tok_vdf_proof tok)\<rparr>"
proof -
  have "map_option (vdf_verify R) (tok_vdf_proof tok) = map_option (\<lambda>_. True) (tok_vdf_proof tok)"
    using assms by (auto simp: token_ok_def map_option_case split: option.split)
  moreover have "tok_value tok \<noteq> 0" using assms by (simp add: token_ok_def issued_by_def)
  moreover have "issued_by R pk pedersen tok" "owned_chain R tok" "tok_transfer_count tok \<le> tok_recursion_bound tok"
      "creds_ok R cp now tok"
    using assms unfolding token_ok_def by blast+
  ultimately show ?thesis
    by (simp add: verify_token_eq credential_check_ok issued_by_def)
qed

lemma token_ok_all_valid:
  "token_ok R pk pedersen cp now tok \<Longrightarrow> \<exists>vr. verify_token R tok pk pedersen cp now = Ok vr \<and> all_valid vr"
  by (auto simp: token_ok_verifies all_valid_def unwrap_or_def split: option.split)

section \<open>Properties\<close>

text \<open>The counter and the bound of a token are covered by no signature. Whatever a token's transfer counter and
  recursion bound are overwritten with, verification answers as before in every field except
  \<^verbatim>\<open>within_bound\<close>, which compares the two overwritten numbers; so a holder resets a worn-out token by
  editing them, and it verifies again.\<close>

lemma wear_out_not_bound:
  "verify_token R (tok\<lparr>tok_transfer_count := c, tok_recursion_bound := b\<rparr>) pk pedersen cp now =
     bindR (verify_token R tok pk pedersen cp now) (\<lambda>vr. Ok (vr\<lparr>within_bound := tok_value tok \<noteq> 0 \<and> c \<le> b\<rparr>))"
proof (cases "tok_value tok = 0")
  case False
  let ?t = "tok\<lparr>tok_transfer_count := c, tok_recursion_bound := b\<rparr>"
  have "credential_check R ?t cp now = credential_check R tok cp now" and "owned_chain R ?t = owned_chain R tok"
    by (simp_all add: credential_check_def owned_chain_def cong: option.case_cong)
  moreover have "tok_value ?t \<noteq> 0" using False by simp
  ultimately show ?thesis
    using False by (cases "credential_check R tok cp now") (simp_all add: verify_token_eq)
qed (simp add: verify_token_zero)

end
