(* ===== verification/Dkg.thy ===== *)
theory Dkg
  imports Threshold
begin

text \<open>
  \<^verbatim>\<open>specter-blind-sig/src/dkg.rs\<close>: distributed key generation with Feldman commitments and proofs of
  knowledge, and proactive resharing. An honest run gives every participant a share of one joint
  polynomial and the same group key; a participant that accepts round 3 holds a share consistent with
  the published commitments, whatever the others sent; resharing changes the polynomial but not the key.
\<close>

section \<open>The protocol\<close>

record ('s, 'p) dkg_participant =
  dp_id :: signer_id
  dp_threshold :: nat
  dp_secret_poly :: "'s list"
  dp_commitments :: "'p list"

record ('s, 'p) proof_of_knowledge =
  pok_r :: 'p
  pok_s :: 's

datatype dkg_error =
    MissingCommitments signer_id
  | InvalidShare signer_id signer_id
  | InvalidParams nat nat
  | MissingProofOfKnowledge signer_id
  | InvalidProofOfKnowledge signer_id
  | InvalidCommitmentLength signer_id nat nat
  | InvalidShareReshare

definition hash_dkg_pok :: "('s, 'p) prims \<Rightarrow> signer_id \<Rightarrow> 'p \<Rightarrow> 'p \<Rightarrow> 's" where
  "hash_dkg_pok R pid commitment r =
     hash512 R (ascii ''specter-dkg-pok:'' @ u64_le pid @ compress R commitment @ compress R r)"

definition evaluate_poly :: "'s::field list \<Rightarrow> 's \<Rightarrow> 's" where
  "evaluate_poly coeffs x =
     fst (foldl (\<lambda>(result, x_power) coeff. (result + coeff * x_power, x_power * x)) (0, 1) coeffs)"

definition evaluate_poly_points :: "('s::field, 'p::ab_group_add) prims \<Rightarrow> 'p list \<Rightarrow> 's \<Rightarrow> 'p" where
  "evaluate_poly_points R points x =
     fst (foldl (\<lambda>(result, x_power) point. (result + smul R x_power point, x_power * x)) (0, 1) points)"

text \<open>\<^verbatim>\<open>commitments[0]\<close> panics for a threshold of zero.\<close>

definition dkg_round1 ::
  "('s::field, 'p) prims \<Rightarrow> signer_id \<Rightarrow> nat \<Rightarrow> rng \<Rightarrow>
     (('s, 'p) dkg_participant \<times> ('s, 'p) proof_of_knowledge, dkg_error) result \<times> rng" where
  "dkg_round1 R pid threshold g =
     (let (secret_poly, g) = random_scalars R threshold g;
          commitments = map (\<lambda>a. smul R a (basepoint R)) secret_poly;
          (k, g) = random_scalar R g;
          r_pt = smul R k (basepoint R)
      in (if commitments = [] then Panic
          else let pok_e = hash_dkg_pok R pid (commitments ! 0) r_pt;
                   s_resp = k + pok_e * secret_poly ! 0
               in Ok (\<lparr>dp_id = pid, dp_threshold = threshold, dp_secret_poly = secret_poly,
                       dp_commitments = commitments\<rparr>, \<lparr>pok_r = r_pt, pok_s = s_resp\<rparr>), g))"

definition verify_pok ::
  "('s::field, 'p::ab_group_add) prims \<Rightarrow> signer_id \<Rightarrow> 'p \<Rightarrow> ('s, 'p) proof_of_knowledge \<Rightarrow> bool" where
  "verify_pok R pid commitment_0 pok \<longleftrightarrow>
     (let e = hash_dkg_pok R pid commitment_0 (pok_r pok)
      in compress R (smul R (pok_s pok) (basepoint R)) = compress R (pok_r pok + smul R e commitment_0))"

definition dkg_round2 ::
  "('s::field, 'p) prims \<Rightarrow> ('s, 'p) dkg_participant \<Rightarrow> signer_id list \<Rightarrow> (signer_id \<times> 's) list" where
  "dkg_round2 R participant all_ids =
     foldl (\<lambda>shares target_id.
         if target_id = dp_id participant then shares
         else let x = scalar_of_u64 R target_id
              in AList.update target_id (evaluate_poly (dp_secret_poly participant) x) shares)
       [] all_ids"

fun verify_all_poks ::
  "('s::field, 'p::ab_group_add) prims \<Rightarrow> (signer_id \<times> ('s, 'p) proof_of_knowledge) list \<Rightarrow>
     (signer_id \<times> 'p list) list \<Rightarrow> (unit, dkg_error) result" where
  "verify_all_poks R all_poks [] = Ok ()"
| "verify_all_poks R all_poks ((pid, commitments) # rest) =
     (case map_of all_poks pid of
        None \<Rightarrow> Err (MissingProofOfKnowledge pid)
      | Some pok \<Rightarrow>
          if commitments = [] then Panic
          else if \<not> verify_pok R pid (commitments ! 0) pok then Err (InvalidProofOfKnowledge pid)
          else verify_all_poks R all_poks rest)"

fun verify_received_shares ::
  "('s::field, 'p::ab_group_add) prims \<Rightarrow> ('s, 'p) dkg_participant \<Rightarrow> (signer_id \<times> 'p list) list \<Rightarrow>
     (signer_id \<times> 's) list \<Rightarrow> (unit, dkg_error) result" where
  "verify_received_shares R participant all_commitments [] = Ok ()"
| "verify_received_shares R participant all_commitments ((sender_id, share) # rest) =
     (case map_of all_commitments sender_id of
        None \<Rightarrow> Err (MissingCommitments sender_id)
      | Some sender_commitments \<Rightarrow>
          if length sender_commitments \<noteq> dp_threshold participant
          then Err (InvalidCommitmentLength sender_id (dp_threshold participant) (length sender_commitments))
          else
            let expected = evaluate_poly_points R sender_commitments (scalar_of_u64 R (dp_id participant));
                actual = smul R share (basepoint R)
            in if compress R actual \<noteq> compress R expected
               then Err (InvalidShare sender_id (dp_id participant))
               else verify_received_shares R participant all_commitments rest)"

definition dkg_round3 ::
  "('s::field, 'p::ab_group_add) prims \<Rightarrow> ('s, 'p) dkg_participant \<Rightarrow> (signer_id \<times> 's) list \<Rightarrow>
     (signer_id \<times> 'p list) list \<Rightarrow> (signer_id \<times> ('s, 'p) proof_of_knowledge) list \<Rightarrow>
     (('s, 'p) threshold_keyset, dkg_error) result" where
  "dkg_round3 R participant received_shares all_commitments all_poks =
     bindR (verify_all_poks R all_poks all_commitments) (\<lambda>_.
     bindR (verify_received_shares R participant all_commitments received_shares) (\<lambda>_.
       let x_i = scalar_of_u64 R (dp_id participant);
           self_share = evaluate_poly (dp_secret_poly participant) x_i;
           total_share = foldl (+) self_share (map snd received_shares);
           group_public = foldl (+) 0 (map (\<lambda>(_, commits). commits ! 0) all_commitments);
           all_ids = map fst all_commitments;
           share = \<lparr>share_x = x_i, share_y = total_share\<rparr>;
           public_shares0 = AList.update (dp_id participant) (smul R total_share (basepoint R)) [];
           shares = AList.update (dp_id participant) share [];
           public_shares = foldl (\<lambda>ps other_id.
               if other_id = dp_id participant then ps
               else let x_j = scalar_of_u64 R other_id;
                        pk_j = foldl (+) 0 (map (\<lambda>(_, commits). evaluate_poly_points R commits x_j) all_commitments)
                    in AList.update other_id pk_j ps) public_shares0 all_ids
       in Ok \<lparr>ks_group_public = group_public, ks_threshold = dp_threshold participant,
              ks_total = length all_ids, ks_shares = shares, ks_public_shares = public_shares\<rparr>))"

fun run_round1 ::
  "('s::field, 'p) prims \<Rightarrow> nat \<Rightarrow> signer_id list \<Rightarrow>
     (signer_id \<times> ('s, 'p) dkg_participant) list \<Rightarrow> (signer_id \<times> ('s, 'p) proof_of_knowledge) list \<Rightarrow> rng \<Rightarrow>
     ((signer_id \<times> ('s, 'p) dkg_participant) list \<times> (signer_id \<times> ('s, 'p) proof_of_knowledge) list, dkg_error) result \<times> rng" where
  "run_round1 R threshold [] participants all_poks g = (Ok (participants, all_poks), g)"
| "run_round1 R threshold (i # is) participants all_poks g =
     (case dkg_round1 R i threshold g of
        (Ok (participant, pok), g) \<Rightarrow>
          run_round1 R threshold is (AList.update i participant participants) (AList.update i pok all_poks) g
      | (Err e, g) \<Rightarrow> (Err e, g)
      | (Panic, g) \<Rightarrow> (Panic, g))"

fun check_commitment_lengths :: "nat \<Rightarrow> (signer_id \<times> 'p list) list \<Rightarrow> (unit, dkg_error) result" where
  "check_commitment_lengths threshold [] = Ok ()"
| "check_commitment_lengths threshold ((i, commits) # rest) =
     (if length commits \<noteq> threshold then Err (InvalidCommitmentLength i threshold (length commits))
      else check_commitment_lengths threshold rest)"

text \<open>The shares sent to one participant; indexing a missing entry would panic.\<close>

definition shares_for ::
  "(signer_id \<times> (signer_id \<times> 's) list) list \<Rightarrow> signer_id list \<Rightarrow> signer_id \<Rightarrow> ((signer_id \<times> 's) list, dkg_error) result" where
  "shares_for all_shares participant_ids target_id =
     foldl (\<lambda>acc sender_id. bindR acc (\<lambda>m.
         if sender_id = target_id then Ok m
         else case map_of all_shares sender_id of
                None \<Rightarrow> Panic
              | Some sent \<Rightarrow> (case map_of sent target_id of
                    None \<Rightarrow> Panic
                  | Some share \<Rightarrow> Ok (AList.update sender_id share m))))
       (Ok []) participant_ids"

definition run_dkg ::
  "('s::field, 'p::ab_group_add) prims \<Rightarrow> nat \<Rightarrow> signer_id list \<Rightarrow> rng \<Rightarrow>
     ((signer_id \<times> ('s, 'p) threshold_keyset) list, dkg_error) result \<times> rng" where
  "run_dkg R threshold participant_ids g =
     (let total = length participant_ids in
      if threshold > total \<or> threshold = 0 \<or> total = 0 then (Err (InvalidParams threshold total), g)
      else let (round1, g) = run_round1 R threshold participant_ids [] [] g in
       (bindR round1 (\<lambda>(participants, all_poks).
          let all_commitments = map (\<lambda>(i, p). (i, dp_commitments p)) participants in
          bindR (check_commitment_lengths threshold all_commitments) (\<lambda>_.
          bindR (verify_all_poks R all_poks all_commitments) (\<lambda>_.
            let all_shares = map (\<lambda>(i, p). (i, dkg_round2 R p participant_ids)) participants in
            bindR (foldl (\<lambda>acc target_id. bindR acc (\<lambda>received.
                     bindR (shares_for all_shares participant_ids target_id) (\<lambda>shares_for_target.
                       Ok (AList.update target_id shares_for_target received)))) (Ok []) participant_ids)
              (\<lambda>received.
                 foldl (\<lambda>acc (i, participant). bindR acc (\<lambda>keysets.
                   case map_of received i of
                     None \<Rightarrow> Panic
                   | Some shares \<Rightarrow>
                       bindR (dkg_round3 R participant shares all_commitments all_poks) (\<lambda>keyset.
                         Ok (AList.update i keyset keysets)))) (Ok []) participants)))), g))"

section \<open>Proactive resharing\<close>

fun draw_update_polys ::
  "('s, 'p) prims \<Rightarrow> nat \<Rightarrow> signer_id list \<Rightarrow> (signer_id \<times> 's list) list \<Rightarrow> rng \<Rightarrow> (signer_id \<times> 's list) list \<times> rng" where
  "draw_update_polys R t [] polys g = (polys, g)"
| "draw_update_polys R t (i # is) polys g =
     (let (coeffs, g) = random_scalars R (t - 1) g
      in draw_update_polys R t is (AList.update i coeffs polys) g)"

definition updated_share_y :: "(signer_id \<times> 's::field list) list \<Rightarrow> 's \<Rightarrow> 's \<Rightarrow> 's" where
  "updated_share_y update_polys xj current_y =
     foldl (\<lambda>new_y (_, coeffs).
         fst (foldl (\<lambda>(new_y, x_power) coeff. (new_y + coeff * x_power, x_power * xj)) (new_y, xj) coeffs))
       current_y update_polys"

definition proactive_reshare ::
  "('s::field, 'p::ab_group_add) prims \<Rightarrow> ('s, 'p) threshold_keyset \<Rightarrow> rng \<Rightarrow>
     (('s, 'p) threshold_keyset, dkg_error) result \<times> rng" where
  "proactive_reshare R old g =
     (let t = ks_threshold old;
          ids = map fst (ks_shares old);
          (update_polys, g) = draw_update_polys R t ids [] g;
          new_shares = foldl (\<lambda>m j. AList.update j
              (let xj = scalar_of_u64 R j
               in \<lparr>share_x = xj, share_y = updated_share_y update_polys xj (share_y (share_of (ks_shares old) j))\<rparr>) m)
            [] ids;
          new_public_shares = foldl (\<lambda>m (i, share). AList.update i (smul R (share_y share) (basepoint R)) m) [] new_shares;
          subset = take t ids;
          reconstructed = foldl (\<lambda>acc i. acc +
              smul R (lagrange_coefficient (scalar_of_u64 R) subset i) (the (map_of new_public_shares i))) 0 subset
      in (if reconstructed \<noteq> ks_group_public old then Err InvalidShareReshare
          else Ok \<lparr>ks_group_public = ks_group_public old, ks_threshold = t, ks_total = ks_total old,
                   ks_shares = new_shares, ks_public_shares = new_public_shares\<rparr>, g))"

section \<open>Feldman verification\<close>

lemma evaluate_poly_eq: "evaluate_poly cs x = poly_eval cs x"
  using evaluate_polynomial_eq [of cs x] by (simp add: evaluate_poly_def evaluate_polynomial_def)

lemma verify_received_shares_Ok:
  assumes "verify_received_shares R p all_commitments received = Ok ()" and "(j, s) \<in> set received"
  shows "\<exists>cs. map_of all_commitments j = Some cs \<and> length cs = dp_threshold p \<and>
    compress R (smul R s (basepoint R)) = compress R (evaluate_poly_points R cs (scalar_of_u64 R (dp_id p)))"
  using assms
  by (induction R p all_commitments received rule: verify_received_shares.induct)
    (auto simp: Let_def split: option.splits if_splits)

lemma dkg_round3_Ok:
  assumes "dkg_round3 R p received all_commitments all_poks = Ok ks"
  shows "verify_received_shares R p all_commitments received = Ok ()"
    and "ks_shares ks = [(dp_id p, \<lparr>share_x = scalar_of_u64 R (dp_id p),
      share_y = evaluate_poly (dp_secret_poly p) (scalar_of_u64 R (dp_id p)) + sum_list (map snd received)\<rparr>)]"
    and "ks_group_public ks = (\<Sum>(j, cs)\<leftarrow>all_commitments. cs ! 0)"
    and "map_of (ks_public_shares ks) j =
      (if j = dp_id p then Some (smul R (share_y (snd (hd (ks_shares ks)))) (basepoint R))
       else if j \<in> fst ` set all_commitments
       then Some (\<Sum>(i, cs)\<leftarrow>all_commitments. evaluate_poly_points R cs (scalar_of_u64 R j))
       else None)"
    and "ks_threshold ks = dp_threshold p" and "ks_total ks = length all_commitments"
  using assms
  by (auto simp: dkg_round3_def Let_def foldl_add_sum_list foldl_skip map_of_foldl_update) force

context ristretto_group
begin

lemma evaluate_poly_points_commitments:
  "evaluate_poly_points R (map (\<lambda>a. smul R a (basepoint R)) cs) x = smul R (poly_eval cs x) (basepoint R)"
proof -
  have "fst (foldl (\<lambda>(result, x_power) point. (result + smul R x_power point, x_power * x)) (r, p)
      (map (\<lambda>a. smul R a (basepoint R)) cs)) = r + smul R (p * poly_eval cs x) (basepoint R)" for r p
    by (induction cs arbitrary: r p) (auto simp: smul_add_scalar smul_mult [symmetric] algebra_simps)
  from this [of 0 1] show ?thesis by (simp add: evaluate_poly_points_def)
qed

text \<open>A share that round 3 accepts is the one the published commitments determine.\<close>

lemma round3_consistent:
  assumes ok: "dkg_round3 R p received all_commitments all_poks = Ok ks"
    and own: "dp_commitments p = map (\<lambda>a. smul R a (basepoint R)) (dp_secret_poly p)"
      "map_of all_commitments (dp_id p) = Some (dp_commitments p)"
    and keys: "distinct (map fst all_commitments)" "distinct (map fst received)"
      "set (map fst received) = set (map fst all_commitments) - {dp_id p}"
    and j: "j \<in> set (map fst all_commitments)"
  shows "map_of (ks_public_shares ks) j =
    Some (\<Sum>(i, cs)\<leftarrow>all_commitments. evaluate_poly_points R cs (scalar_of_u64 R j))"
proof (cases "j = dp_id p")
  case True
  let ?x = "scalar_of_u64 R (dp_id p)" and ?G = "basepoint R"
  let ?F = "\<lambda>i. evaluate_poly_points R (the (map_of all_commitments i)) ?x"
  note r3 = dkg_round3_Ok [OF ok]
  have recv: "smul R s ?G = ?F i" if "(i, s) \<in> set received" for i s
    using verify_received_shares_Ok [OF r3(1) that] by auto
  have "(\<Sum>s\<leftarrow>map snd received. smul R s ?G) = (\<Sum>(i, s)\<leftarrow>received. ?F i)"
    unfolding map_map using recv by (intro arg_cong [where f = sum_list] map_cong) auto
  also have "\<dots> = (\<Sum>i\<in>fst ` set all_commitments - {dp_id p}. ?F i)"
    using sum_list_alist [OF keys(2), of "\<lambda>i _. ?F i"] keys(3) by simp
  finally have "smul R (share_y (snd (hd (ks_shares ks)))) ?G = ?F (dp_id p) + (\<Sum>i\<in>fst ` set all_commitments - {dp_id p}. ?F i)"
    using own by (simp add: r3(2) smul_add_scalar smul_sum_list_scalar evaluate_poly_eq
        evaluate_poly_points_commitments o_def)
  also have "\<dots> = (\<Sum>i\<in>fst ` set all_commitments. ?F i)"
    using j True by (subst sum.remove [of "fst ` set all_commitments" "dp_id p"]) auto
  also have "\<dots> = (\<Sum>(i, cs)\<leftarrow>all_commitments. evaluate_poly_points R cs ?x)"
    using sum_list_alist [OF keys(1), of "\<lambda>i cs. evaluate_poly_points R cs ?x"] by simp
  finally show ?thesis
    using True by (simp add: r3(4))
next
  case False
  with j show ?thesis by (simp add: dkg_round3_Ok(4) [OF ok])
qed

end

section \<open>The honest run\<close>

definition honest ::
  "('s::field, 'p::ab_group_add) prims \<Rightarrow> nat \<Rightarrow> (signer_id \<times> ('s, 'p) dkg_participant) list \<Rightarrow>
     (signer_id \<times> ('s, 'p) proof_of_knowledge) list \<Rightarrow> bool" where
  "honest R t participants poks \<longleftrightarrow>
     (\<forall>(i, p) \<in> set participants. dp_id p = i \<and> dp_threshold p = t \<and> length (dp_secret_poly p) = t \<and>
        dp_commitments p = map (\<lambda>a. smul R a (basepoint R)) (dp_secret_poly p) \<and>
        (\<exists>k. map_of poks i = Some k \<and> verify_pok R i (dp_commitments p ! 0) k))"

definition joint_poly :: "(signer_id \<times> ('s::field, 'p) dkg_participant) list \<Rightarrow> 's \<Rightarrow> 's" where
  "joint_poly P x = (\<Sum>(i, p)\<leftarrow>P. poly_eval (dp_secret_poly p) x)"

lemma verify_all_poks_Ok:
  "(\<And>i cs. (i, cs) \<in> set coms \<Longrightarrow> cs \<noteq> [] \<and> (\<exists>k. map_of poks i = Some k \<and> verify_pok R i (cs ! 0) k)) \<Longrightarrow>
    verify_all_poks R poks coms = Ok ()"
proof (induction coms)
  case (Cons c coms)
  obtain i cs where c: "c = (i, cs)" by fastforce
  with Cons.prems [of i cs] obtain k where "cs \<noteq> []" "map_of poks i = Some k" "verify_pok R i (cs ! 0) k" by auto
  moreover have "verify_all_poks R poks coms = Ok ()"
    by (rule Cons.IH) (rule Cons.prems, simp)
  ultimately show ?case by (simp add: c)
qed simp

lemma check_commitment_lengths_Ok:
  "(\<And>i cs. (i, cs) \<in> set coms \<Longrightarrow> length cs = t) \<Longrightarrow> check_commitment_lengths t coms = Ok ()"
  by (induction t coms rule: check_commitment_lengths.induct) auto

lemma verify_received_shares_intro:
  "(\<And>j s. (j, s) \<in> set received \<Longrightarrow> \<exists>cs. map_of coms j = Some cs \<and> length cs = dp_threshold p \<and>
      smul R s (basepoint R) = evaluate_poly_points R cs (scalar_of_u64 R (dp_id p))) \<Longrightarrow>
    verify_received_shares R p coms received = Ok ()"
proof (induction received)
  case (Cons r received)
  obtain j s where r: "r = (j, s)" by fastforce
  with Cons.prems [of j s] obtain cs where "map_of coms j = Some cs" "length cs = dp_threshold p"
      "smul R s (basepoint R) = evaluate_poly_points R cs (scalar_of_u64 R (dp_id p))" by auto
  moreover have "verify_received_shares R p coms received = Ok ()"
    by (rule Cons.IH) (rule Cons.prems, simp)
  ultimately show ?case by (simp add: r Let_def)
qed simp

lemma dkg_round2_eq:
  assumes "distinct ids"
  shows "dkg_round2 R p ids = map (\<lambda>j. (j, poly_eval (dp_secret_poly p) (scalar_of_u64 R j))) (filter (\<lambda>j. j \<noteq> dp_id p) ids)"
proof -
  have "dkg_round2 R p ids = foldl (\<lambda>m j. AList.update j (poly_eval (dp_secret_poly p) (scalar_of_u64 R j)) m) []
      (filter (\<lambda>j. j \<noteq> dp_id p) ids)"
    by (simp add: dkg_round2_def Let_def foldl_skip evaluate_poly_eq)
  then show ?thesis
    using foldl_update_distinct [of "[]" "\<lambda>j. j" "filter (\<lambda>j. j \<noteq> dp_id p) ids"] assms by simp
qed

context ristretto_group
begin

lemma round1_honest:
  assumes "0 < t"
  shows "\<exists>p k g'. dkg_round1 R i t g = (Ok (p, k), g') \<and> dp_id p = i \<and> dp_threshold p = t \<and>
    length (dp_secret_poly p) = t \<and> dp_commitments p = map (\<lambda>a. smul R a (basepoint R)) (dp_secret_poly p) \<and>
    verify_pok R i (dp_commitments p ! 0) k"
proof -
  obtain sp g1 where sp: "random_scalars R t g = (sp, g1)" by fastforce
  then have len: "length sp = t" by simp
  with assms have "sp \<noteq> []" by auto
  then show ?thesis
    using len by (auto simp: dkg_round1_def sp Let_def verify_pok_def smul_add_scalar smul_mult split: prod.splits)
qed

lemma run_round1_honest:
  assumes "0 < t" and "distinct (map fst P @ ids)" and "map fst K = map fst P" and "honest R t P K"
  shows "\<exists>P' K' g'. run_round1 R t ids P K g = (Ok (P', K'), g') \<and> map fst P' = map fst P @ ids \<and> honest R t P' K'"
  using assms
proof (induction ids arbitrary: P K g)
  case (Cons i ids)
  obtain p k g1 where p: "dkg_round1 R i t g = (Ok (p, k), g1)" "dp_id p = i" "dp_threshold p = t"
      "length (dp_secret_poly p) = t" "dp_commitments p = map (\<lambda>a. smul R a (basepoint R)) (dp_secret_poly p)"
      "verify_pok R i (dp_commitments p ! 0) k"
    using round1_honest [OF Cons.prems(1)] by metis
  have fresh: "i \<notin> fst ` set P" "i \<notin> fst ` set K"
    using Cons.prems(2) by (simp, metis Cons.prems(2,3) distinct_append disjoint_iff list.set_intros(1) list.set_map)
  have old: "map_of (K @ [(i, k)]) j = map_of K j" if "(j, q) \<in> set P" for j q
  proof -
    have "j \<noteq> i" using that fresh(1) by (metis fst_conv image_eqI)
    then show ?thesis by (simp add: map_add_def split: option.splits)
  qed
  have new: "map_of (K @ [(i, k)]) i = Some k"
    using fresh(2) map_of_eq_None_iff [of K i] by (simp add: map_add_def)
  have "honest R t (P @ [(i, p)]) (K @ [(i, k)])"
    unfolding honest_def set_append ball_Un
  proof
    show "\<forall>(j, q)\<in>set P. dp_id q = j \<and> dp_threshold q = t \<and> length (dp_secret_poly q) = t \<and>
        dp_commitments q = map (\<lambda>a. smul R a (basepoint R)) (dp_secret_poly q) \<and>
        (\<exists>k'. map_of (K @ [(i, k)]) j = Some k' \<and> verify_pok R j (dp_commitments q ! 0) k')"
      using Cons.prems(4) old by (fastforce simp: honest_def)
  qed (use p(2-6) new in simp)
  with Cons.IH [of "P @ [(i, p)]" "K @ [(i, k)]" g1] Cons.prems
  show ?case
    by (auto simp: p(1) update_fresh [OF fresh(1)] update_fresh [OF fresh(2)])
qed auto

lemma shares_for_honest:
  assumes h: "honest R t P K" and ids: "map fst P = ids" "distinct ids" and tt: "tt \<in> set ids"
  shows "shares_for (map (\<lambda>(i, p). (i, dkg_round2 R p ids)) P) ids tt =
    Ok (map (\<lambda>s. (s, poly_eval (dp_secret_poly (the (map_of P s))) (scalar_of_u64 R tt))) (filter (\<lambda>s. s \<noteq> tt) ids))"
proof -
  let ?f = "\<lambda>s. poly_eval (dp_secret_poly (the (map_of P s))) (scalar_of_u64 R tt)"
  let ?A = "map (\<lambda>(i, p). (i, dkg_round2 R p ids)) P"
  have look: "\<exists>m. map_of ?A s = Some m \<and> map_of m tt = Some (?f s)" if "s \<in> set ids" "s \<noteq> tt" for s
  proof -
    from that(1) ids(1) have "s \<in> fst ` set P" by (metis list.set_map)
    then obtain p where p2: "(s, p) \<in> set P" by auto
    with ids have p: "map_of P s = Some p" "(s, p) \<in> set P" by (auto intro: map_of_is_SomeI)
    then have "dp_id p = s" using h by (auto simp: honest_def)
    with that tt ids(2) have "map_of (dkg_round2 R p ids) tt = Some (?f s)"
      by (simp add: dkg_round2_eq map_of_zip_map p(1))
    with p(1) show ?thesis by (simp add: map_of_map)
  qed
  have "shares_for ?A ids tt = Ok (foldl (\<lambda>m s. if s = tt then m else AList.update s (?f s) m) [] ids)"
    unfolding shares_for_def
  proof (rule foldl_bind_Ok)
    fix m s assume "s \<in> set ids"
    with look [of s] show "(if s = tt then Ok m else case map_of ?A s of None \<Rightarrow> Panic
        | Some sent \<Rightarrow> (case map_of sent tt of None \<Rightarrow> Panic | Some share \<Rightarrow> Ok (AList.update s share m)))
        = Ok (if s = tt then m else AList.update s (?f s) m)" by auto
  qed
  also have "foldl (\<lambda>m s. if s = tt then m else AList.update s (?f s) m) [] ids
      = map (\<lambda>s. (s, ?f s)) (filter (\<lambda>s. s \<noteq> tt) ids)"
    using foldl_update_distinct [of "[]" "\<lambda>s. s" "filter (\<lambda>s. s \<noteq> tt) ids" ?f] ids(2) by (simp add: foldl_skip)
  finally show ?thesis .
qed

lemma round3_honest:
  assumes h: "honest R t P K" and ids: "map fst P = ids" "distinct ids" and t: "0 < t" and i: "(i, p) \<in> set P"
  defines "recv \<equiv> map (\<lambda>s. (s, poly_eval (dp_secret_poly (the (map_of P s))) (scalar_of_u64 R i))) (filter (\<lambda>s. s \<noteq> i) ids)"
    and "coms \<equiv> map (\<lambda>(i, p). (i, dp_commitments p)) P"
  shows "\<exists>ks. dkg_round3 R p recv coms K = Ok ks \<and> ks_threshold ks = t \<and> ks_total ks = length ids \<and>
    ks_group_public ks = smul R (joint_poly P 0) (basepoint R) \<and>
    ks_shares ks = [(i, \<lparr>share_x = scalar_of_u64 R i, share_y = joint_poly P (scalar_of_u64 R i)\<rparr>)] \<and>
    (\<forall>j\<in>set ids. map_of (ks_public_shares ks) j = Some (smul R (joint_poly P (scalar_of_u64 R j)) (basepoint R)))"
proof -
  have p: "dp_id q = j" "dp_threshold q = t" "length (dp_secret_poly q) = t"
      "dp_commitments q = map (\<lambda>a. smul R a (basepoint R)) (dp_secret_poly q)"
      "\<exists>k. map_of K j = Some k \<and> verify_pok R j (dp_commitments q ! 0) k" "map_of P j = Some q"
    if "(j, q) \<in> set P" for j q
    using h that ids by (auto simp: honest_def)
  have keys: "map fst coms = ids" by (simp add: coms_def ids(1) [symmetric] case_prod_unfold o_def)
  have coms_of: "map_of coms j = map_option dp_commitments (map_of P j)" for j
    by (simp add: coms_def map_of_map)
  have ev: "(\<Sum>(j, cs)\<leftarrow>coms. evaluate_poly_points R cs x) = smul R (joint_poly P x) (basepoint R)" for x
  proof -
    have "(\<Sum>(j, cs)\<leftarrow>coms. evaluate_poly_points R cs x) = (\<Sum>(j, q)\<leftarrow>P. smul R (poly_eval (dp_secret_poly q) x) (basepoint R))"
      unfolding coms_def map_map using p(4)
      by (intro arg_cong [where f = sum_list] map_cong) (auto simp: evaluate_poly_points_commitments)
    then show ?thesis by (simp add: joint_poly_def smul_sum_list_scalar o_def case_prod_unfold)
  qed
  have "verify_all_poks R K coms = Ok ()"
  proof (rule verify_all_poks_Ok)
    fix j cs assume "(j, cs) \<in> set coms"
    then obtain q where q: "(j, q) \<in> set P" "cs = dp_commitments q" by (auto simp: coms_def)
    with p(3,4) [OF q(1)] t have "cs \<noteq> []" by auto
    with p(5) [OF q(1)] q(2) show "cs \<noteq> [] \<and> (\<exists>k. map_of K j = Some k \<and> verify_pok R j (cs ! 0) k)" by simp
  qed
  moreover have "verify_received_shares R p coms recv = Ok ()"
  proof (rule verify_received_shares_intro)
    fix j s assume "(j, s) \<in> set recv"
    then have j: "j \<in> set ids" and s: "s = poly_eval (dp_secret_poly (the (map_of P j))) (scalar_of_u64 R i)"
      by (auto simp: recv_def)
    then obtain q where "(j, q) \<in> set P" using ids(1) by auto
    then show "\<exists>cs. map_of coms j = Some cs \<and> length cs = dp_threshold p \<and>
        smul R s (basepoint R) = evaluate_poly_points R cs (scalar_of_u64 R (dp_id p))"
      using p i by (auto simp: coms_of s evaluate_poly_points_commitments)
  qed
  ultimately obtain ks where ks: "dkg_round3 R p recv coms K = Ok ks"
    by (auto simp: dkg_round3_def Let_def)
  note r3 = dkg_round3_Ok [OF ks]
  have group: "ks_group_public ks = smul R (joint_poly P 0) (basepoint R)"
  proof -
    have "cs ! 0 = evaluate_poly_points R cs 0" if "(j, cs) \<in> set coms" for j cs
    proof -
      from that obtain q where q: "(j, q) \<in> set P" "cs = dp_commitments q" by (auto simp: coms_def)
      with p(3) t obtain a as where "dp_secret_poly q = a # as" by (cases "dp_secret_poly q") fastforce+
      with p(4) [OF q(1)] q(2) show ?thesis by (simp only: evaluate_poly_points_commitments) simp
    qed
    then have "(\<Sum>(j, cs)\<leftarrow>coms. cs ! 0) = (\<Sum>(j, cs)\<leftarrow>coms. evaluate_poly_points R cs 0)"
      by (intro arg_cong [where f = sum_list] map_cong) auto
    then show ?thesis by (simp add: r3(3) ev)
  qed
  have "sum_list (map snd recv) = (\<Sum>s\<in>set ids - {i}. poly_eval (dp_secret_poly (the (map_of P s))) (scalar_of_u64 R i))"
    using ids(2) by (simp add: recv_def o_def sum_list_distinct_conv_sum_set set_diff_eq)
  moreover have "joint_poly P x = (\<Sum>s\<in>set ids. poly_eval (dp_secret_poly (the (map_of P s))) x)" for x
  proof -
    have "set ids = fst ` set P" using ids(1) by (metis list.set_map)
    moreover have "distinct (map fst P)" using ids by simp
    ultimately show ?thesis
      using sum_list_alist [of P "\<lambda>_ q. poly_eval (dp_secret_poly q) x"] by (simp only: joint_poly_def)
  qed
  moreover have "i \<in> set ids" using i ids(1) by force
  ultimately have own: "evaluate_poly (dp_secret_poly p) (scalar_of_u64 R i) + sum_list (map snd recv) = joint_poly P (scalar_of_u64 R i)"
    using p(6) [OF i] sum.remove [of "set ids" i "\<lambda>s. poly_eval (dp_secret_poly (the (map_of P s))) (scalar_of_u64 R i)"]
    by (simp only: evaluate_poly_eq option.sel finite_set)
  have "map_of (ks_public_shares ks) j = Some (smul R (joint_poly P (scalar_of_u64 R j)) (basepoint R))" if "j \<in> set ids" for j
  proof -
    have "j \<in> fst ` set coms" using that keys by (metis list.set_map)
    with own p(1) [OF i] show ?thesis by (simp add: r3(2) r3(4) ev)
  qed
  moreover have "ks_total ks = length ids" using r3(6) keys by (metis length_map)
  moreover have "ks_shares ks = [(i, \<lparr>share_x = scalar_of_u64 R i, share_y = joint_poly P (scalar_of_u64 R i)\<rparr>)]"
    using r3(2) own p(1) [OF i] by simp
  ultimately show ?thesis
    using ks r3(5) group p(2) [OF i] by (intro exI [of _ ks]) simp
qed

lemma joint_polynomial:
  assumes "honest R t P K"
  shows "\<exists>cs. length cs = t \<and> (\<forall>x. poly_eval cs x = joint_poly P x)"
proof -
  have "polyfun t (joint_poly P)" using assms
  proof (induction P)
    case Nil
    then show ?case by (simp add: joint_poly_def polyfun_zero)
  next
    case (Cons a P)
    obtain i p where a: "a = (i, p)" by fastforce
    with Cons have "polyfun t (joint_poly P)" "length (dp_secret_poly p) = t" by (auto simp: honest_def)
    then have "polyfun t (\<lambda>x. poly_eval (dp_secret_poly p) x + joint_poly P x)"
      by (intro polyfun_add) auto
    then show ?case by (simp add: a joint_poly_def [abs_def])
  qed
  then show ?thesis unfolding polyfun_def by metis
qed

lemma run_dkg_honest:
  assumes ids: "distinct ids" and t: "0 < t" "t \<le> length ids"
  shows "\<exists>keysets cs. fst (run_dkg R t ids g) = Ok keysets \<and> map fst keysets = ids \<and> length cs = t \<and>
    (\<forall>(i, ks)\<in>set keysets. ks_threshold ks = t \<and> ks_total ks = length ids \<and>
      ks_group_public ks = smul R (poly_eval cs 0) (basepoint R) \<and>
      ks_shares ks = [(i, \<lparr>share_x = scalar_of_u64 R i, share_y = poly_eval cs (scalar_of_u64 R i)\<rparr>)] \<and>
      (\<forall>j\<in>set ids. map_of (ks_public_shares ks) j = Some (smul R (poly_eval cs (scalar_of_u64 R j)) (basepoint R))))"
proof -
  obtain P K g1 where r1: "run_round1 R t ids [] [] g = (Ok (P, K), g1)" and P: "map fst P = ids" and h: "honest R t P K"
    using run_round1_honest [OF t(1), of "[]" ids "[]" g] ids by (auto simp: honest_def)
  obtain cs where cs: "length cs = t" "\<And>x. poly_eval cs x = joint_poly P x"
    using joint_polynomial [OF h] by blast
  define coms where "coms = map (\<lambda>(i, p). (i, dp_commitments p)) P"
  define recv where "recv i = map (\<lambda>s. (s, poly_eval (dp_secret_poly (the (map_of P s))) (scalar_of_u64 R i)))
    (filter (\<lambda>s. s \<noteq> i) ids)" for i
  let ?shares = "map (\<lambda>(i, p). (i, dkg_round2 R p ids)) P"
  let ?good = "\<lambda>i ks. ks_threshold ks = t \<and> ks_total ks = length ids \<and>
      ks_group_public ks = smul R (poly_eval cs 0) (basepoint R) \<and>
      ks_shares ks = [(i, \<lparr>share_x = scalar_of_u64 R i, share_y = poly_eval cs (scalar_of_u64 R i)\<rparr>)] \<and>
      (\<forall>j\<in>set ids. map_of (ks_public_shares ks) j = Some (smul R (poly_eval cs (scalar_of_u64 R j)) (basepoint R)))"
  have "\<forall>x\<in>set P. \<exists>ks. dkg_round3 R (snd x) (recv (fst x)) coms K = Ok ks \<and> ?good (fst x) ks"
  proof
    fix x assume "x \<in> set P"
    then have "(fst x, snd x) \<in> set P" by simp
    from round3_honest [OF h P ids t(1) this] show "\<exists>ks. dkg_round3 R (snd x) (recv (fst x)) coms K = Ok ks \<and> ?good (fst x) ks"
      unfolding recv_def coms_def cs(2) .
  qed
  from bchoice [OF this] obtain f
    where f: "\<forall>x\<in>set P. dkg_round3 R (snd x) (recv (fst x)) coms K = Ok (f x) \<and> ?good (fst x) (f x)" ..
  define ksf where "ksf i p = f (i, p)" for i p
  have ksf: "dkg_round3 R p (recv i) coms K = Ok (ksf i p) \<and> ?good i (ksf i p)" if "(i, p) \<in> set P" for i p
    using bspec [OF f that] by (simp add: ksf_def)
  have "check_commitment_lengths t coms = Ok ()"
    using h by (intro check_commitment_lengths_Ok) (auto simp: coms_def honest_def)
  moreover have "verify_all_poks R K coms = Ok ()"
  proof (rule verify_all_poks_Ok)
    fix j c assume "(j, c) \<in> set coms"
    then obtain q where "(j, q) \<in> set P" "c = dp_commitments q" by (auto simp: coms_def)
    with h t(1) show "c \<noteq> [] \<and> (\<exists>k. map_of K j = Some k \<and> verify_pok R j (c ! 0) k)"
      by (fastforce simp: honest_def)
  qed
  moreover have "foldl (\<lambda>acc tt. bindR acc (\<lambda>m. bindR (shares_for ?shares ids tt) (\<lambda>sh. Ok (AList.update tt sh m)))) (Ok []) ids
      = Ok (map (\<lambda>tt. (tt, recv tt)) ids)"
  proof -
    have "foldl (\<lambda>acc tt. bindR acc (\<lambda>m. bindR (shares_for ?shares ids tt) (\<lambda>sh. Ok (AList.update tt sh m)))) (Ok []) ids
        = Ok (foldl (\<lambda>m tt. AList.update tt (recv tt) m) [] ids)"
      using shares_for_honest [OF h P ids] by (intro foldl_bind_Ok) (simp add: recv_def)
    then show ?thesis using foldl_update_distinct [of "[]" "\<lambda>i. i" ids recv] ids by simp
  qed
  moreover have "foldl (\<lambda>acc (i, p). bindR acc (\<lambda>m. case map_of (map (\<lambda>tt. (tt, recv tt)) ids) i of None \<Rightarrow> Panic
        | Some sh \<Rightarrow> bindR (dkg_round3 R p sh coms K) (\<lambda>ks. Ok (AList.update i ks m)))) (Ok []) P
      = Ok (map (\<lambda>(i, p). (i, ksf i p)) P)"
  proof -
    have "foldl (\<lambda>acc x. bindR acc (\<lambda>m. case map_of (map (\<lambda>tt. (tt, recv tt)) ids) (fst x) of None \<Rightarrow> Panic
        | Some sh \<Rightarrow> bindR (dkg_round3 R (snd x) sh coms K) (\<lambda>ks. Ok (AList.update (fst x) ks m)))) (Ok []) P
      = Ok (foldl (\<lambda>m x. AList.update (fst x) (ksf (fst x) (snd x)) m) [] P)"
    proof (rule foldl_bind_Ok)
      fix m x assume x: "x \<in> set P"
      then have "fst x \<in> set ids" using P by (metis image_eqI list.set_map)
      with ksf [of "fst x" "snd x"] x
      show "(case map_of (map (\<lambda>tt. (tt, recv tt)) ids) (fst x) of None \<Rightarrow> Panic
        | Some sh \<Rightarrow> bindR (dkg_round3 R (snd x) sh coms K) (\<lambda>ks. Ok (AList.update (fst x) ks m)))
        = Ok (AList.update (fst x) (ksf (fst x) (snd x)) m)" by (simp add: map_of_zip_map)
    qed
    then show ?thesis
      using foldl_update_distinct [of "[]" fst P "\<lambda>x. ksf (fst x) (snd x)"] ids P by (simp add: case_prod_unfold)
  qed
  ultimately have "fst (run_dkg R t ids g) = Ok (map (\<lambda>(i, p). (i, ksf i p)) P)"
    using t unfolding coms_def by (cases "ids = []") (simp_all add: run_dkg_def r1 Let_def)
  moreover have "map fst (map (\<lambda>(i, p). (i, ksf i p)) P) = ids"
    using P by (simp add: o_def case_prod_unfold)
  ultimately show ?thesis
    using ksf cs(1) by (intro exI [of _ "map (\<lambda>(i, p). (i, ksf i p)) P"] exI [of _ cs]) auto
qed

end

section \<open>Resharing keeps the key\<close>

lemma draw_update_polys_eq:
  assumes "distinct (map fst polys @ ids)"
  shows "\<exists>cf g'. draw_update_polys R t ids polys g = (polys @ map (\<lambda>i. (i, cf i)) ids, g') \<and> (\<forall>i. length (cf i) = t - 1)"
  using assms
proof (induction ids arbitrary: polys g)
  case Nil
  show ?case by (auto intro!: exI [of _ "\<lambda>_. replicate (t - 1) undefined"])
next
  case (Cons i ids)
  obtain c g1 where c: "random_scalars R (t - 1) g = (c, g1)" by fastforce
  have "i \<notin> fst ` set polys" using Cons.prems by auto
  then have upd: "AList.update i c polys = polys @ [(i, c)]" by (rule update_fresh)
  have "distinct (map fst (polys @ [(i, c)]) @ ids)" using Cons.prems by auto
  from Cons.IH [OF this, of g1] obtain cf g' where
    "draw_update_polys R t ids (polys @ [(i, c)]) g1 = ((polys @ [(i, c)]) @ map (\<lambda>i. (i, cf i)) ids, g')"
    "\<forall>i. length (cf i) = t - 1" by blast
  moreover have "i \<notin> set ids" using Cons.prems by auto
  ultimately show ?case
    using c by (intro exI [of _ "cf(i := c)"] exI [of _ g']) (auto simp: upd)
qed

lemma updated_share_y_eq:
  "updated_share_y polys x y = y + (\<Sum>(i, cs)\<leftarrow>polys. poly_eval (0 # cs) x)"
proof -
  have inner: "fst (foldl (\<lambda>(new_y, x_power) coeff. (new_y + coeff * x_power, x_power * x)) (y, p) cs) = y + p * poly_eval cs x"
    for y p cs by (induction cs arbitrary: y p) (auto simp: algebra_simps)
  show ?thesis
    unfolding updated_share_y_def
    by (induction polys arbitrary: y) (auto simp: inner add.assoc)
qed

context ristretto_group
begin

lemma reshare_keeps_key:
  assumes ks: "keyset_on R cs ks" and enough: "ks_threshold ks \<le> ks_total ks"
  shows "\<exists>ks' cs'. fst (proactive_reshare R ks g) = Ok ks' \<and> keyset_on R cs' ks' \<and>
    ks_group_public ks' = ks_group_public ks \<and> ks_threshold ks' = ks_threshold ks \<and>
    map fst (ks_shares ks') = map fst (ks_shares ks)"
proof -
  let ?t = "ks_threshold ks" and ?ids = "map fst (ks_shares ks)" and ?G = "basepoint R"
  have t: "0 < ?t" "length cs = ?t" and ids: "distinct ?ids" "length ?ids = ks_total ks"
    using ks by (auto simp: keyset_on_def)
  obtain cf g' where draw: "draw_update_polys R ?t ?ids [] g = (map (\<lambda>i. (i, cf i)) ?ids, g')"
      and cf: "\<forall>i. length (cf i) = ?t - 1"
    using draw_update_polys_eq [of "[]" ?ids R ?t g] ids by auto
  define F where "F x = poly_eval cs x + (\<Sum>(i, c)\<leftarrow>map (\<lambda>i. (i, cf i)) ?ids. poly_eval (0 # c) x)" for x
  have "polyfun ?t F"
  proof -
    have "polyfun ?t (\<lambda>x. \<Sum>i\<leftarrow>is. poly_eval (0 # cf i) x)" for "is"
    proof (induction "is")
      case (Cons i "is")
      have "polyfun ?t (poly_eval (0 # cf i))" using cf t(1) by (intro polyfun_poly_eval) auto
      from polyfun_add [OF this Cons] show ?case by simp
    qed (simp add: polyfun_zero)
    from polyfun_add [OF polyfun_poly_eval [OF t(2)] this [of ?ids]] show ?thesis
      by (simp add: F_def [abs_def] o_def)
  qed
  then obtain cs' where cs': "length cs' = ?t" "\<And>x. poly_eval cs' x = F x"
    unfolding polyfun_def by metis
  have zero: "poly_eval cs' 0 = poly_eval cs 0"
    by (simp add: cs'(2) F_def o_def)
  define sh where "sh j = \<lparr>share_x = scalar_of_u64 R j, share_y = poly_eval cs' (scalar_of_u64 R j)\<rparr>" for j
  define shs where "shs = map (\<lambda>j. (j, sh j)) ?ids"
  define pubs where "pubs = map (\<lambda>j. (j, smul R (share_y (sh j)) ?G)) ?ids"
  let ?upd = "\<lambda>j. updated_share_y (map (\<lambda>i. (i, cf i)) ?ids) (scalar_of_u64 R j) (share_y (share_of (ks_shares ks) j))"
  have "?upd j = share_y (sh j)" if "j \<in> set ?ids" for j
    using keyset_share(2) [OF ks, of j] that by (simp add: updated_share_y_eq sh_def cs'(2) F_def)
  then have "foldl (\<lambda>m j. AList.update j (let xj = scalar_of_u64 R j in \<lparr>share_x = xj, share_y =
        updated_share_y (map (\<lambda>i. (i, cf i)) ?ids) xj (share_y (share_of (ks_shares ks) j))\<rparr>) m) [] ?ids
      = foldl (\<lambda>m j. AList.update j (sh j) m) [] ?ids"
    by (intro foldl_cong) (simp_all add: sh_def Let_def)
  then have new_shares: "foldl (\<lambda>m j. AList.update j (let xj = scalar_of_u64 R j in \<lparr>share_x = xj, share_y =
        updated_share_y (map (\<lambda>i. (i, cf i)) ?ids) xj (share_y (share_of (ks_shares ks) j))\<rparr>) m) [] ?ids = shs"
    using foldl_update_distinct [of "[]" "\<lambda>j. j" ?ids sh] ids by (simp add: shs_def)
  have new_pubs: "foldl (\<lambda>m (i, share). AList.update i (smul R (share_y share) ?G) m) [] shs = pubs"
    using foldl_update_distinct [of "[]" fst shs "\<lambda>x. smul R (share_y (snd x)) ?G"] ids
    by (simp add: case_prod_unfold shs_def pubs_def o_def)
  have pub_of: "map_of pubs i = (if i \<in> set ?ids then Some (smul R (share_y (sh i)) ?G) else None)"
    and sh_of: "map_of shs i = (if i \<in> set ?ids then Some (sh i) else None)" for i
    unfolding pubs_def shs_def by (rule map_of_zip_map)+
  let ?sub = "take ?t ?ids" and ?x = "scalar_of_u64 R :: u64 \<Rightarrow> 's"
  have sub: "distinct ?sub" "length ?sub = ?t" "set ?sub \<subseteq> set ?ids"
    using ids enough by (auto dest: in_set_takeD)
  have "(\<Sum>i\<leftarrow>?sub. smul R (lagrange_coefficient ?x ?sub i) (the (map_of pubs i)))
      = (\<Sum>i\<leftarrow>?sub. smul R (lagrange_coefficient ?x ?sub i * poly_eval cs' (?x i)) ?G)"
    using sub(3) by (intro arg_cong [where f = sum_list] map_cong)
      (auto simp: pub_of sh_def smul_mult subset_iff simp del: set_map)
  also have "\<dots> = smul R (poly_eval cs' 0) ?G"
  proof -
    have "(\<Sum>i\<leftarrow>?sub. lagrange_coefficient ?x ?sub i * poly_eval cs' (?x i)) = poly_eval cs' 0"
      using lagrange_coefficient_recombines [OF sub(1) u64_scalar_inj, of cs'] sub(2) cs'(1) by simp
    then have "smul R (poly_eval cs' 0) ?G = smul R (\<Sum>i\<leftarrow>?sub. lagrange_coefficient ?x ?sub i * poly_eval cs' (?x i)) ?G"
      by simp
    then show ?thesis by (simp only: smul_sum_list_scalar map_map o_def)
  qed
  finally have recon: "foldl (\<lambda>acc i. acc + smul R (lagrange_coefficient ?x ?sub i) (the (map_of pubs i))) 0 ?sub = ks_group_public ks"
    using ks zero by (simp add: foldl_add_map keyset_on_def)
  define ks' where "ks' = \<lparr>ks_group_public = ks_group_public ks, ks_threshold = ?t, ks_total = ks_total ks,
    ks_shares = shs, ks_public_shares = pubs\<rparr>"
  have "fst (proactive_reshare R ks g) = Ok ks'"
    using new_shares unfolding Let_def
    by (simp add: proactive_reshare_def draw new_pubs recon Let_def ks'_def del: map_map)
  moreover have "keyset_on R cs' ks'"
  proof -
    have "map_of pubs i = map_option (\<lambda>s. smul R (share_y s) ?G) (map_of shs i)" for i
      by (simp add: pub_of sh_of)
    then show ?thesis
      using ks t ids cs'(1) zero by (auto simp: keyset_on_def ks'_def shs_def sh_def o_def)
  qed
  ultimately show ?thesis
    by (intro exI [of _ ks'] exI [of _ cs']) (simp add: ks'_def shs_def o_def)
qed

end

section \<open>Properties\<close>

text \<open>The keyset the participants would have by pooling what they hold after a run.\<close>

definition pooled :: "(signer_id \<times> ('s, 'p) threshold_keyset) list \<Rightarrow> ('s, 'p) threshold_keyset" where
  "pooled keysets = (snd (hd keysets))\<lparr>ks_shares := concat (map (ks_shares \<circ> snd) keysets)\<rparr>"

text \<open>C18: An honest run of the distributed key generation succeeds for distinct identifiers and a threshold
  between one and their number; all participants get the same group key and threshold, and the shares they
  hold lie together on one polynomial whose constant term is the group secret. So any quorum of
  them can sign under the group key although nobody ever held the secret.\<close>

theorem dkg_honest_run:
  assumes "ristretto_group R" and "distinct ids" and "0 < t" and "t \<le> length ids"
  shows "\<exists>keysets. fst (run_dkg R t ids g) = Ok keysets \<and> map fst keysets = ids \<and>
    (\<forall>(i, ks)\<in>set keysets. ks_group_public ks = ks_group_public (pooled keysets) \<and> ks_threshold ks = t \<and>
       map fst (ks_shares ks) = [i] \<and>
       (\<forall>j\<in>set ids. map_of (ks_public_shares ks) j =
          Some (smul R (share_y (share_of (ks_shares (pooled keysets)) j)) (basepoint R)))) \<and>
    (\<forall>q m g'. distinct q \<and> set q \<subseteq> set ids \<and> t \<le> length q \<longrightarrow>
       (\<exists>sig. fst (threshold_blind_sign R (pooled keysets) q m g') = Ok sig \<and>
          schnorr_verify R (ks_group_public (pooled keysets)) m sig))"
proof -
  obtain keysets cs where ok: "fst (run_dkg R t ids g) = Ok keysets" and keys: "map fst keysets = ids"
    and good: "\<And>i ks. (i, ks) \<in> set keysets \<Longrightarrow> ks_threshold ks = t \<and> ks_total ks = length ids \<and>
      ks_group_public ks = smul R (poly_eval cs 0) (basepoint R) \<and>
      ks_shares ks = [(i, \<lparr>share_x = scalar_of_u64 R i, share_y = poly_eval cs (scalar_of_u64 R i)\<rparr>)] \<and>
      (\<forall>j\<in>set ids. map_of (ks_public_shares ks) j = Some (smul R (poly_eval cs (scalar_of_u64 R j)) (basepoint R)))"
    and cs: "length cs = t"
    using ristretto_group.run_dkg_honest [OF assms, of g] by fast
  obtain i0 k0 rest where k0: "keysets = (i0, k0) # rest"
    using keys assms(3,4) by (cases keysets) auto
  let ?sh = "\<lambda>i. \<lparr>share_x = scalar_of_u64 R i, share_y = poly_eval cs (scalar_of_u64 R i)\<rparr>"
  have "concat (map (ks_shares \<circ> snd) keysets) = map (\<lambda>i. (i, ?sh i)) (map fst keysets)"
  proof -
    have "map (ks_shares \<circ> snd) keysets = map (\<lambda>x. [(fst x, ?sh (fst x))]) keysets"
      using good by (intro map_cong) auto
    then show ?thesis by (simp only: concat_map_singleton map_map o_def)
  qed
  then have shs: "ks_shares (pooled keysets) = map (\<lambda>i. (i, ?sh i)) ids"
    by (simp add: pooled_def keys)
  have pool: "ks_group_public (pooled keysets) = smul R (poly_eval cs 0) (basepoint R)" "ks_threshold (pooled keysets) = t"
    using good [of i0 k0] by (simp_all add: pooled_def k0)
  have share: "share_of (ks_shares (pooled keysets)) j = ?sh j" if "j \<in> set ids" for j
    using that by (simp add: share_of_def shs map_of_zip_map)
  have on: "keyset_on R cs ((pooled keysets)\<lparr>ks_total := length ids,
      ks_public_shares := map (\<lambda>i. (i, smul R (poly_eval cs (scalar_of_u64 R i)) (basepoint R))) ids\<rparr>)"
    using pool cs assms(2,3) by (auto simp: keyset_on_def shs o_def map_of_zip_map)
  have same: "threshold_blind_sign R (ks\<lparr>ks_total := a, ks_public_shares := b\<rparr>) = threshold_blind_sign R ks" for ks a b
    by (simp add: threshold_blind_sign_def fun_eq_iff Let_def split: result.split prod.split)
  have "\<exists>sig. fst (threshold_blind_sign R (pooled keysets) q m g') = Ok sig \<and>
      schnorr_verify R (ks_group_public (pooled keysets)) m sig"
    if "distinct q \<and> set q \<subseteq> set ids \<and> t \<le> length q" for q m g'
    using ristretto_group.threshold_sign_verifies [OF assms(1) on, of q m g'] that
    by (simp add: same quorum_ids_def pool shs image_image)
  then show ?thesis
    using ok keys good share pool by (intro exI [of _ keysets]) fastforce
qed

theorem dkg_honest_run_witness:
  "\<exists>keysets sig. fst (run_dkg zp_prims 2 [5, 1, 9] (\<lambda>_. 6)) = Ok keysets \<and> map fst keysets = [5, 1, 9] \<and>
     fst (threshold_blind_sign zp_prims (pooled keysets) [9, 5] [1, 2] (\<lambda>_. 8)) = Ok sig \<and>
     schnorr_verify zp_prims (ks_group_public (pooled keysets)) [1, 2] sig"
proof -
  have "distinct [9, 5 :: signer_id] \<and> set [9, 5] \<subseteq> set [5, 1, 9 :: signer_id] \<and> 2 \<le> length [9, 5 :: signer_id]"
    by simp
  then show ?thesis
    using dkg_honest_run [OF zp.ristretto_group_axioms, of "[5, 1, 9]" 2 "\<lambda>_. 6"] by fastforce
qed

text \<open>Verification of round 3 against cheating participants: when a participant accepts, having a
  share from every other participant that published commitments, the public share of every participant in
  its keyset, its own included, is the value the published commitments determine. So all
  participants that accept agree on all public shares whatever the others sent.\<close>

lemma dkg_round3_consistent:
  assumes "ristretto_group R" and "dkg_round3 R p received all_commitments all_poks = Ok ks"
    and "dp_commitments p = map (\<lambda>a. smul R a (basepoint R)) (dp_secret_poly p)"
    and "map_of all_commitments (dp_id p) = Some (dp_commitments p)"
    and "distinct (map fst all_commitments)" and "distinct (map fst received)"
    and "set (map fst received) = set (map fst all_commitments) - {dp_id p}"
    and "j \<in> set (map fst all_commitments)"
  shows "map_of (ks_public_shares ks) j =
    Some (\<Sum>(i, cs)\<leftarrow>all_commitments. evaluate_poly_points R cs (scalar_of_u64 R j))"
  using assms by (rule ristretto_group.round3_consistent)

lemma dkg_round3_consistent_witness:
  "\<exists>p ks. dkg_round3 zp_prims p [] [(4, [3, 8])] [(4, \<lparr>pok_r = 2, pok_s = 2 + hash_dkg_pok zp_prims 4 3 2 * 3\<rparr>)] = Ok ks \<and>
     map_of (ks_public_shares ks) 4 = Some (\<Sum>(i, cs)\<leftarrow>[(4 :: signer_id, [3, 8])]. evaluate_poly_points zp_prims cs (scalar_of_u64 zp_prims 4))"
proof -
  define p where "p = \<lparr>dp_id = 4, dp_threshold = 2, dp_secret_poly = [3, 8 :: zp], dp_commitments = [3, 8 :: zp]\<rparr>"
  let ?pok = "\<lparr>pok_r = 2, pok_s = 2 + hash_dkg_pok zp_prims 4 3 2 * 3\<rparr>"
  have "verify_pok zp_prims 4 3 ?pok"
    by (simp add: verify_pok_def zp_prims_def)
  then obtain ks where ks: "dkg_round3 zp_prims p [] [(4, [3, 8])] [(4, ?pok)] = Ok ks"
    by (auto simp: dkg_round3_def p_def Let_def)
  have "map_of (ks_public_shares ks) 4 = Some (\<Sum>(i, cs)\<leftarrow>[(4 :: signer_id, [3, 8])]. evaluate_poly_points zp_prims cs (scalar_of_u64 zp_prims 4))"
    by (rule dkg_round3_consistent [OF zp.ristretto_group_axioms ks]) (simp_all add: p_def zp_prims_def)
  with ks show ?thesis by blast
qed

text \<open>C19: Proactive resharing of a well-formed keyset with at least as many shares as the threshold always
  succeeds (its internal consistency check never fires), keeps the group key, the threshold and the signers,
  and returns a well-formed keyset again.\<close>

theorem reshare_preserves_keyset:
  assumes "ristretto_group R" and "keyset_ok R ks" and "ks_threshold ks \<le> ks_total ks"
  shows "\<exists>ks'. fst (proactive_reshare R ks g) = Ok ks' \<and> keyset_ok R ks' \<and>
    ks_group_public ks' = ks_group_public ks \<and> ks_threshold ks' = ks_threshold ks \<and>
    map fst (ks_shares ks') = map fst (ks_shares ks)"
  using assms ristretto_group.reshare_keeps_key [OF assms(1)] unfolding keyset_ok_def by blast

theorem reshare_preserves_keyset_witness:
  "\<exists>ks ks'. fst (dealer_keygen zp_prims 2 3 (\<lambda>_. 9)) = Ok ks \<and> fst (proactive_reshare zp_prims ks (\<lambda>_. 5)) = Ok ks' \<and>
     ks_group_public ks' = ks_group_public ks \<and> keyset_ok zp_prims ks'"
proof -
  obtain ks where ks: "fst (dealer_keygen zp_prims 2 3 (\<lambda>_. 9)) = Ok ks" "keyset_ok zp_prims ks" "ks_threshold ks = 2" "ks_total ks = 3"
    using zp.dealer_keyset [of 2 3 "\<lambda>_. 9"] by auto
  from reshare_preserves_keyset [OF zp.ristretto_group_axioms ks(2), of "\<lambda>_. 5"] ks show ?thesis by auto
qed

end
