(* ===== verification/Mint.thy ===== *)
theory Mint
  imports Token Dkg
begin

text \<open>
  \<^verbatim>\<open>specter-core/src/mint.rs\<close>: setting up the mint, issuing tokens and splitting one. The invariant of a
  mint, \<open>mint_ok\<close>, says that every quorum of its signers produces a signature that verifies under its
  group key, and that the credential issuer's keys match; both ways of setting it up establish it.
\<close>

section \<open>Users and the mint\<close>

record ('s, 'p) user_token_secrets =
  uts_token_id :: bytes
  uts_owner_secret :: bytes
  uts_value_blinding :: 's
  uts_value_commitment :: 'p

definition generate_secrets ::
  "('s, 'p) prims \<Rightarrow> u64 \<Rightarrow> 'p pedersen_params \<Rightarrow> rng \<Rightarrow> ('s, 'p) user_token_secrets \<times> rng" where
  "generate_secrets R v pedersen g =
     (let (token_id, g) = fill_bytes 32 g;
          (owner_secret, g) = fill_bytes 32 g;
          value_scalar = scalar_from_u64 R v;
          (value_blinding, g) = random_scalar R g;
          value_commitment = commit R pedersen value_scalar value_blinding
      in (\<lparr>uts_token_id = token_id, uts_owner_secret = owner_secret, uts_value_blinding = value_blinding,
           uts_value_commitment = value_commitment\<rparr>, g))"

record mint_config =
  cfg_threshold :: nat
  cfg_total_signers :: nat
  cfg_recursion_bound :: u32

record ('s, 'p) mint =
  mint_keyset :: "('s, 'p) threshold_keyset"
  mint_pedersen :: "'p pedersen_params"
  mint_issuer :: "('s, 'p) issuer"
  mint_recursion_bound :: u32

datatype mint_error =
    SigningFailed string
  | InvalidValue
  | ValueMismatch u64 u64

fun show_mint_error :: "mint_error \<Rightarrow> string" where
  "show_mint_error (SigningFailed e) = ''signing failed: '' @ e"
| "show_mint_error InvalidValue = ''invalid value: token value must be > 0''"
| "show_mint_error (ValueMismatch i out) =
     ''value mismatch: input '' @ show_nat (unat i) @ '' != output '' @ show_nat (unat out)"

definition mint_setup :: "('s::field, 'p) prims \<Rightarrow> mint_config \<Rightarrow> rng \<Rightarrow> (('s, 'p) mint, unit) result \<times> rng" where
  "mint_setup R config g =
     (let (keyset, g) = dealer_keygen R (cfg_threshold config) (cfg_total_signers config) g;
          pedersen = pedersen_new R;
          (credential_issuer, g) = issuer_new R g
      in (bindR keyset (\<lambda>keyset. Ok \<lparr>mint_keyset = keyset, mint_pedersen = pedersen, mint_issuer = credential_issuer,
            mint_recursion_bound = cfg_recursion_bound config\<rparr>), g))"

text \<open>The shares of all participants merged into the first one's keyset, for local simulation.\<close>

definition merge_keysets :: "(signer_id \<times> ('s, 'p) threshold_keyset) list \<Rightarrow> (('s, 'p) threshold_keyset, unit) result" where
  "merge_keysets keysets =
     (case map_of keysets 1 of
        None \<Rightarrow> Panic
      | Some first \<Rightarrow>
          Ok (foldl (\<lambda>combined (i, ks).
              case map_of (ks_shares ks) i of
                Some share \<Rightarrow> combined\<lparr>ks_shares := AList.update i share (ks_shares combined)\<rparr>
              | None \<Rightarrow> combined) first keysets))"

definition mint_setup_with_dkg ::
  "('s::field, 'p::ab_group_add) prims \<Rightarrow> mint_config \<Rightarrow> rng \<Rightarrow> (('s, 'p) mint, unit) result \<times> rng" where
  "mint_setup_with_dkg R config g =
     (let ids = map of_nat [1..<cfg_total_signers config + 1];
          (keysets, g) = run_dkg R (cfg_threshold config) ids g
      in case keysets of
           Err _ \<Rightarrow> (Panic, g)
         | Panic \<Rightarrow> (Panic, g)
         | Ok keysets \<Rightarrow>
             (case merge_keysets keysets of
                Err _ \<Rightarrow> (Panic, g)
              | Panic \<Rightarrow> (Panic, g)
              | Ok combined \<Rightarrow>
                  let (credential_issuer, g) = issuer_new R g
                  in (Ok \<lparr>mint_keyset = combined, mint_pedersen = pedersen_new R, mint_issuer = credential_issuer,
                          mint_recursion_bound = cfg_recursion_bound config\<rparr>, g)))"

section \<open>Issuing\<close>

definition standard_disclosure :: "nat list" where
  "standard_disclosure = [ATTR_KYC_PASSED, ATTR_NOT_SANCTIONED]"

definition fresh_credential ::
  "('s::field, 'p::ab_group_add) prims \<Rightarrow> ('s, 'p) issuer \<Rightarrow> attributes \<Rightarrow> rng \<Rightarrow>
     (('s, 'p) credential \<times> ('s, 'p) presentation) \<times> rng" where
  "fresh_credential R iss attrs g =
     (let (cred, g) = issue_credential R iss attrs g;
          (pres, g) = create_presentation R cred standard_disclosure (iss_pedersen iss) g
      in ((cred, pres), g))"

fun generate_pool ::
  "('s::field, 'p::ab_group_add) prims \<Rightarrow> ('s, 'p) issuer \<Rightarrow> attributes \<Rightarrow> nat \<Rightarrow> rng \<Rightarrow>
     (('s, 'p) credential \<times> ('s, 'p) presentation) list \<times> rng" where
  "generate_pool R iss attrs 0 g = ([], g)"
| "generate_pool R iss attrs (Suc n) g =
     (let (entry, g) = fresh_credential R iss attrs g; (pool, g) = generate_pool R iss attrs n g in (entry # pool, g))"

text \<open>The credential with its presentation, and the pool, of a token issued with or without attributes.\<close>

definition issue_compliance ::
  "('s::field, 'p::ab_group_add) prims \<Rightarrow> ('s, 'p) issuer \<Rightarrow> attributes option \<Rightarrow> rng \<Rightarrow>
     ('s, 'p) credential option \<times> ('s, 'p) presentation option \<times> rng" where
  "issue_compliance R iss attrs g =
     (case attrs of
        None \<Rightarrow> (None, None, g)
      | Some attrs \<Rightarrow> (let ((cred, pres), g) = fresh_credential R iss attrs g in (Some cred, Some pres, g)))"

definition issue_pool ::
  "('s::field, 'p::ab_group_add) prims \<Rightarrow> ('s, 'p) issuer \<Rightarrow> attributes option \<Rightarrow> nat \<Rightarrow> rng \<Rightarrow>
     (('s, 'p) credential \<times> ('s, 'p) presentation) list \<times> rng" where
  "issue_pool R iss attrs bound g =
     (case attrs of None \<Rightarrow> ([], g) | Some attrs \<Rightarrow> generate_pool R iss attrs bound g)"

definition issue_full ::
  "('s::field, 'p::ab_group_add) prims \<Rightarrow> ('s, 'p) mint \<Rightarrow> u64 \<Rightarrow> signer_id list \<Rightarrow> attributes option \<Rightarrow>
     u64 option \<Rightarrow> bytes option \<Rightarrow> rng \<Rightarrow> (('s, 'p) proof_carrying_token, mint_error) result \<times> rng" where
  "issue_full R mint v signers attrs iterations bond_owner_id g =
     (if v = 0 then (Err InvalidValue, g)
      else
        let (user_secrets, g) = generate_secrets R v (mint_pedersen mint) g;
            token_id = uts_token_id user_secrets;
            owner_secret = uts_owner_secret user_secrets;
            blinding = uts_value_blinding user_secrets;
            value_commitment = uts_value_commitment user_secrets;
            genesis_pk = derive_owner_signing_pk R owner_secret;
            genesis_pk_hash = owner_pk_hash R genesis_pk;
            signed_msg = build_signed_message R token_id value_commitment genesis_pk_hash;
            (signature, g) = threshold_blind_sign R (mint_keyset mint) signers signed_msg g
        in case signature of
             Err e \<Rightarrow> (Err (SigningFailed (show_threshold_error e)), g)
           | Panic \<Rightarrow> (Panic, g)
           | Ok signature \<Rightarrow>
               let genesis_state = \<lparr>ts_token_id = token_id, ts_owner_hash = genesis_pk_hash, ts_step = 0\<rparr>;
                   fold_proof = create_initial_proof_with_pk genesis_state genesis_pk;
                   (cred, pres, g) = issue_compliance R (mint_issuer mint) attrs g;
                   hash_chain_head = advance_hash_chain R (replicate 32 0) token_id;
                   vdf = map_option (vdf_evaluate R (vdf_create_seed R token_id 0)) iterations;
                   (proof_of_value, g) = prove_value R (mint_pedersen mint) (scalar_from_u64 R v) blinding g;
                   (pool, g) = issue_pool R (mint_issuer mint) attrs (unat (mint_recursion_bound mint)) g
               in (Ok \<lparr>tok_id = token_id, tok_value = v, tok_value_commitment = value_commitment,
                       tok_value_proof = proof_of_value, tok_mint_signature = signature, tok_owner_secret = owner_secret,
                       tok_hash_chain_head = hash_chain_head, tok_transfer_count = 0,
                       tok_recursion_bound = mint_recursion_bound mint, tok_fold_proof = fold_proof,
                       tok_genesis_owner_hash = genesis_pk_hash, tok_credential = cred,
                       tok_presentation = pres, tok_vdf_proof = vdf, tok_bond_owner_id = bond_owner_id,
                       tok_credential_pool = pool\<rparr>, g))"

definition issue ::
  "('s::field, 'p::ab_group_add) prims \<Rightarrow> ('s, 'p) mint \<Rightarrow> u64 \<Rightarrow> signer_id list \<Rightarrow> attributes option \<Rightarrow> rng \<Rightarrow>
     (('s, 'p) proof_carrying_token, mint_error) result \<times> rng" where
  "issue R mint v signers attrs g = issue_full R mint v signers attrs None None g"

definition group_public_key :: "('s, 'p) mint \<Rightarrow> 'p" where
  "group_public_key mint = ks_group_public (mint_keyset mint)"

section \<open>Splitting\<close>

text \<open>The checked sum of the outputs, and their issuance one after the other up to the first error.\<close>

fun try_sum :: "u64 \<Rightarrow> u64 list \<Rightarrow> u64 option" where
  "try_sum acc [] = Some acc"
| "try_sum acc (v # vs) = Option.bind (checked_add acc v) (\<lambda>acc. try_sum acc vs)"

fun issue_all ::
  "('s::field, 'p::ab_group_add) prims \<Rightarrow> ('s, 'p) mint \<Rightarrow> u64 list \<Rightarrow> signer_id list \<Rightarrow> rng \<Rightarrow>
     (('s, 'p) proof_carrying_token list, mint_error) result \<times> rng" where
  "issue_all R mint [] signers g = (Ok [], g)"
| "issue_all R mint (v # vs) signers g =
     (case issue R mint v signers None g of
        (Ok tok, g) \<Rightarrow> (case issue_all R mint vs signers g of
            (Ok toks, g) \<Rightarrow> (Ok (tok # toks), g)
          | (r, g) \<Rightarrow> (r, g))
      | (Err e, g) \<Rightarrow> (Err e, g)
      | (Panic, g) \<Rightarrow> (Panic, g))"

definition split_checks ::
  "('s::field, 'p::ab_group_add) prims \<Rightarrow> ('s, 'p) mint \<Rightarrow> ('s, 'p) proof_carrying_token \<Rightarrow> u64 list \<Rightarrow> (unit, mint_error) result" where
  "split_checks R mint old_token output_values =
     bindR (infallible (verify_token R old_token (ks_group_public (mint_keyset mint)) (mint_pedersen mint)
         (iss_pedersen (mint_issuer mint)) 0)) (\<lambda>vr.
       if \<not> signature_valid vr then Err (SigningFailed ''input token mint signature invalid'')
       else if \<not> value_valid vr then Err (SigningFailed ''input token value commitment invalid'')
       else if \<not> within_bound vr then Err (SigningFailed ''input token exceeds recursion bound'')
       else if \<not> fold_valid vr then Err (SigningFailed ''input token fold proof invalid'')
       else if list_ex (\<lambda>v. v = 0) output_values then Err InvalidValue
       else bindR (ok_or (try_sum 0 output_values) (ValueMismatch (tok_value old_token) (- 1))) (\<lambda>total_out.
         if total_out \<noteq> tok_value old_token then Err (ValueMismatch (tok_value old_token) total_out) else Ok ()))"

definition split_token ::
  "('s::field, 'p::ab_group_add) prims \<Rightarrow> ('s, 'p) mint \<Rightarrow> ('s, 'p) proof_carrying_token \<Rightarrow> u64 list \<Rightarrow> signer_id list \<Rightarrow>
     write_outcome \<Rightarrow> nullifier_set \<Rightarrow> rng \<Rightarrow>
     (('s, 'p) proof_carrying_token list, mint_error) result \<times> nullifier_set \<times> rng" where
  "split_token R mint old_token output_values signers w nullifiers g =
     (case split_checks R mint old_token output_values of
        Err e \<Rightarrow> (Err e, nullifiers, g)
      | Panic \<Rightarrow> (Panic, nullifiers, g)
      | Ok _ \<Rightarrow>
          (case issue_all R mint output_values signers g of
             (Err e, g) \<Rightarrow> (Err e, nullifiers, g)
           | (Panic, g) \<Rightarrow> (Panic, nullifiers, g)
           | (Ok new_tokens, g) \<Rightarrow>
               if list_ex (\<lambda>tok. \<not> verify_value_proof R (mint_pedersen mint) (tok_value_commitment tok)
                    (scalar_from_u64 R (tok_value tok)) (tok_value_proof tok)) new_tokens
               then (Err (SigningFailed ''output value proof invalid''), nullifiers, g)
               else
                 let nullifier = token_nullifier R old_token;
                     (inserted, nullifiers) = nullifier_insert w nullifier nullifiers
                 in if \<not> inserted then (Err (SigningFailed ''token already spent''), nullifiers, g)
                    else (Ok new_tokens, nullifiers, g)))"

section \<open>The invariant of a mint\<close>

definition mint_ok :: "('s::field, 'p::ab_group_add) prims \<Rightarrow> ('s, 'p) mint \<Rightarrow> bool" where
  "mint_ok R mint \<longleftrightarrow>
     (\<forall>ids m g. quorum_ids (mint_keyset mint) ids \<longrightarrow>
        (\<exists>sig. fst (threshold_blind_sign R (mint_keyset mint) ids m g) = Ok sig \<and>
           schnorr_verify R (group_public_key mint) m sig)) \<and>
     iss_public (mint_issuer mint) = smul R (iss_secret (mint_issuer mint)) (basepoint R)"

text \<open>A token this mint issued or that descends from one it issued, intact.\<close>

abbreviation token_of ::
  "('s::field, 'p::ab_group_add) prims \<Rightarrow> ('s, 'p) mint \<Rightarrow> u64 \<Rightarrow> ('s, 'p) proof_carrying_token \<Rightarrow> bool" where
  "token_of R mint now \<equiv> token_ok R (group_public_key mint) (mint_pedersen mint) (iss_pedersen (mint_issuer mint)) now"

lemma sign_not_quorum:
  assumes "\<not> quorum_ids ks ids"
  shows "\<exists>e. threshold_blind_sign R ks ids m g = (Err e, g)"
proof (cases "length ids < ks_threshold ks")
  case False
  then have "check_signers (ks_shares ks) ids {} \<noteq> Ok ()"
    using assms check_signers_Ok [of "ks_shares ks" ids "{}"] by (auto simp: quorum_ids_def)
  then show ?thesis
    using False check_signers_no_panic [of "ks_shares ks" ids "{}"]
    by (cases "check_signers (ks_shares ks) ids {}") (auto simp: threshold_blind_sign_def)
qed (simp add: threshold_blind_sign_def)

lemma issue_refused:
  assumes "\<not> quorum_ids ks ids" and "mint_keyset mint = ks" and "v \<noteq> 0"
  shows "\<exists>e. fst (issue_full R mint v ids attrs iterations bond g) = Err (SigningFailed (show_threshold_error e))"
proof -
  obtain us g1 where us: "generate_secrets R v (mint_pedersen mint) g = (us, g1)" by fastforce
  let ?m = "build_signed_message R (uts_token_id us) (uts_value_commitment us)
    (owner_pk_hash R (derive_owner_signing_pk R (uts_owner_secret us)))"
  obtain e where "threshold_blind_sign R ks ids ?m g1 = (Err e, g1)" using sign_not_quorum [OF assms(1)] by blast
  then show ?thesis using assms(2,3) by (auto simp: issue_full_def us Let_def)
qed

lemma try_sum_eq:
  "try_sum acc vs = Some s \<longleftrightarrow> unat acc + (\<Sum>v\<leftarrow>vs. unat v) < 2 ^ 64 \<and> unat s = unat acc + (\<Sum>v\<leftarrow>vs. unat v)"
proof (induction vs arbitrary: acc)
  case Nil
  show ?case using unsigned_less [of acc, where ?'a = nat] by (auto simp: unat_word_inject)
next
  case (Cons v vs)
  show ?case
  proof (cases "checked_add acc v")
    case None
    then have "2 ^ 64 \<le> unat acc + unat v" by (simp add: checked_add_None)
    with None show ?thesis by simp
  next
    case (Some a)
    then show ?thesis using Cons.IH [of a] checked_add_unat [OF Some] by (simp add: add.assoc)
  qed
qed

lemma issue_all_values:
  assumes "fst (issue_all R mint vs signers g) = Ok toks"
  shows "map tok_value toks = vs"
  using assms
proof (induction vs arbitrary: g toks)
  case (Cons v vs)
  obtain tok g1 where i: "issue R mint v signers None g = (Ok tok, g1)"
    using Cons.prems by (auto split: prod.splits result.splits)
  moreover obtain toks1 where "fst (issue_all R mint vs signers g1) = Ok toks1" "toks = tok # toks1"
    using Cons.prems by (auto simp: i split: prod.splits result.splits)
  moreover have "tok_value tok = v"
    using i by (auto simp: issue_def issue_full_def Let_def split: if_splits prod.splits result.splits)
  ultimately show ?case using Cons.IH by simp
qed simp

section \<open>Issued tokens are valid\<close>

definition not_expired :: "u64 \<Rightarrow> attributes \<Rightarrow> bool" where
  "not_expired now a \<longleftrightarrow> expires_at a = 0 \<or> now = 0 \<or> now \<le> expires_at a"

context ristretto_group
begin

lemma fresh_credential_ok:
  assumes "iss_public iss = smul R (iss_secret iss) (basepoint R)" and "not_expired now attrs"
    and "fresh_credential R iss attrs g = ((cred, pres), g')"
  shows "cred_ok R (iss_pedersen iss) now cred pres" and "cred_attributes cred = attrs"
proof -
  obtain g1 where i: "issue_credential R iss attrs g = (cred, g1)"
    and p: "pres = fst (create_presentation R cred standard_disclosure (iss_pedersen iss) g1)"
    using assms(3) by (auto simp: fresh_credential_def Let_def split: prod.splits)
  have "cred = fst (issue_credential R iss attrs g)" using i by simp
  then have c: "cred_commitment cred = commit_vector R (iss_pedersen iss) (to_scalars R (cred_attributes cred)) (cred_blinding cred)"
      "cred_attributes cred = attrs"
    by (simp_all add: issue_credential_def Let_def split: prod.splits)
  have "verify_credential_signature R cred" using issued_signature [OF assms(1), of attrs g] i by simp
  then have "verify_presentation R pres (iss_pedersen iss) = Ok True"
    unfolding p by (intro presentation_verifies [OF c(1)])
      (simp_all add: standard_disclosure_def ATTR_KYC_PASSED_def ATTR_NOT_SANCTIONED_def attribute_count_def)
  with assms(2) show "cred_ok R (iss_pedersen iss) now cred pres" "cred_attributes cred = attrs"
    by (simp_all add: cred_ok_def c(2) not_expired_def)
qed

lemma generate_pool_ok:
  assumes "iss_public iss = smul R (iss_secret iss) (basepoint R)" and "not_expired now attrs"
    and "generate_pool R iss attrs n g = (pool, g')"
  shows "length pool = n \<and> (\<forall>(cred, pres)\<in>set pool. cred_ok R (iss_pedersen iss) now cred pres)"
  using assms(3)
proof (induction n arbitrary: g pool)
  case (Suc n)
  obtain cred pres g1 where f: "fresh_credential R iss attrs g = ((cred, pres), g1)" by (metis surj_pair)
  obtain rest where "generate_pool R iss attrs n g1 = (rest, g')" "pool = (cred, pres) # rest"
    using Suc.prems by (auto simp: f split: prod.splits)
  then show ?case using Suc.IH fresh_credential_ok [OF assms(1,2) f] by auto
qed simp

lemma issue_compliance_ok:
  assumes "iss_public iss = smul R (iss_secret iss) (basepoint R)" and "\<And>a. attrs = Some a \<Longrightarrow> not_expired now a"
    and "issue_compliance R iss attrs g = (cred, pres, g')"
  shows "(attrs = None \<and> cred = None \<and> pres = None) \<or>
    (\<exists>c p. attrs \<noteq> None \<and> cred = Some c \<and> pres = Some p \<and> cred_ok R (iss_pedersen iss) now c p)"
proof (cases attrs)
  case (Some a)
  obtain c p g1 where f: "fresh_credential R iss a g = ((c, p), g1)" by (metis surj_pair)
  then show ?thesis
    using assms(3) fresh_credential_ok(1) [OF assms(1) assms(2) [OF Some] f] by (auto simp: issue_compliance_def Some)
qed (use assms(3) in \<open>simp add: issue_compliance_def\<close>)

lemma issue_pool_ok:
  assumes "iss_public iss = smul R (iss_secret iss) (basepoint R)" and "\<And>a. attrs = Some a \<Longrightarrow> not_expired now a"
    and "issue_pool R iss attrs n g = (pool, g')"
  shows "length pool = (if attrs = None then 0 else n) \<and> (\<forall>(cred, pres)\<in>set pool. cred_ok R (iss_pedersen iss) now cred pres)"
proof (cases attrs)
  case (Some a)
  with assms(3) have "generate_pool R iss a n g = (pool, g')" by (simp add: issue_pool_def)
  from generate_pool_ok [OF assms(1) assms(2) [OF Some] this] show ?thesis by (simp add: Some)
qed (use assms(3) in \<open>simp add: issue_pool_def\<close>)

lemma generate_secrets_eq:
  "generate_secrets R v params g = (us, g') \<Longrightarrow> length (uts_token_id us) = 32 \<and> length (uts_owner_secret us) = 32 \<and>
    uts_value_commitment us = commit R params (scalar_of_u64 R v) (uts_value_blinding us)"
  by (auto simp: generate_secrets_def scalar_from_u64_def fill_bytes_def Let_def split: prod.splits)

lemma issue_full_ok:
  assumes m: "mint_ok R mint" and q: "quorum_ids (mint_keyset mint) signers" and v: "v \<noteq> 0"
    and attrs: "\<And>a. attrs = Some a \<Longrightarrow> not_expired now a"
    and vdf: "\<And>n. iterations = Some n \<Longrightarrow> 0 < n \<and> n \<le> MAX_VDF_ITERATIONS"
  shows "\<exists>tok. fst (issue_full R mint v signers attrs iterations bond g) = Ok tok \<and> token_of R mint now tok \<and>
    tok_value tok = v \<and> tok_transfer_count tok = 0 \<and> tok_recursion_bound tok = mint_recursion_bound mint \<and>
    (tok_presentation tok = None \<longleftrightarrow> attrs = None) \<and> (tok_vdf_proof tok = None \<longleftrightarrow> iterations = None) \<and>
    length (tok_credential_pool tok) = (if attrs = None then 0 else unat (mint_recursion_bound mint)) \<and>
    length (tok_id tok) = 32 \<and> length (tok_owner_secret tok) = 32 \<and> tok_bond_owner_id tok = bond"
proof -
  obtain us g1 where us: "generate_secrets R v (mint_pedersen mint) g = (us, g1)" by fastforce
  let ?pk = "derive_owner_signing_pk R (uts_owner_secret us)"
  define msg where "msg = build_signed_message R (uts_token_id us) (uts_value_commitment us) (owner_pk_hash R ?pk)"
  obtain sig g2 where sig: "threshold_blind_sign R (mint_keyset mint) signers msg g1 = (Ok sig, g2)"
    and sv: "schnorr_verify R (group_public_key mint) msg sig"
    using m q unfolding mint_ok_def by (metis fst_conv surj_pair)
  obtain cred pres g3 where cp: "issue_compliance R (mint_issuer mint) attrs g2 = (cred, pres, g3)" by (metis surj_pair)
  obtain vp g4 where vp: "prove_value R (mint_pedersen mint) (scalar_from_u64 R v) (uts_value_blinding us) g3 = (vp, g4)" by fastforce
  obtain pool g5 where pool: "issue_pool R (mint_issuer mint) attrs (unat (mint_recursion_bound mint)) g4 = (pool, g5)" by fastforce
  define tok where "tok = \<lparr>tok_id = uts_token_id us, tok_value = v, tok_value_commitment = uts_value_commitment us,
    tok_value_proof = vp, tok_mint_signature = sig, tok_owner_secret = uts_owner_secret us,
    tok_hash_chain_head = advance_hash_chain R (replicate 32 0) (uts_token_id us), tok_transfer_count = 0,
    tok_recursion_bound = mint_recursion_bound mint, tok_fold_proof = \<lparr>genesis_owner_pk = ?pk, steps_chain = [], ap_steps = 0\<rparr>,
    tok_genesis_owner_hash = owner_pk_hash R ?pk, tok_credential = cred, tok_presentation = pres,
    tok_vdf_proof = map_option (vdf_evaluate R (vdf_create_seed R (uts_token_id us) 0)) iterations, tok_bond_owner_id = bond,
    tok_credential_pool = pool\<rparr>"
  have ok: "fst (issue_full R mint v signers attrs iterations bond g) = Ok tok"
    using v by (simp add: issue_full_def us sig [unfolded msg_def] cp vp pool Let_def create_initial_proof_with_pk_def
        tok_def)
  have "verify_value_proof R (mint_pedersen mint) (uts_value_commitment us) (scalar_of_u64 R v) vp"
    using prove_value_verifies [of "mint_pedersen mint" "scalar_of_u64 R v" "uts_value_blinding us" g3]
      generate_secrets_eq [OF us] vp by (simp add: scalar_from_u64_def)
  then have "issued_by R (group_public_key mint) (mint_pedersen mint) tok"
    using sv v by (simp add: issued_by_def tok_def msg_def)
  moreover have "owned_chain R tok"
    by (simp add: owned_chain_def tok_def current_owner_pk_def verify_accumulated_proof_def)
  moreover have "tok_transfer_count tok = ap_steps (tok_fold_proof tok)" "tok_transfer_count tok \<le> tok_recursion_bound tok"
    by (simp_all add: tok_def)
  moreover have iss: "iss_public (mint_issuer mint) = smul R (iss_secret (mint_issuer mint)) (basepoint R)"
    using m by (simp add: mint_ok_def)
  have cr: "creds_ok R (iss_pedersen (mint_issuer mint)) now tok" "(tok_presentation tok = None) = (attrs = None)"
      "length pool = (if attrs = None then 0 else unat (mint_recursion_bound mint))"
    using issue_compliance_ok [OF iss attrs cp] issue_pool_ok [OF iss attrs pool] by (auto simp: creds_ok_def tok_def)
  moreover have "vdf_verify R vp" if "tok_vdf_proof tok = Some vp" for vp
    using that vdf by (auto simp: tok_def vdf_verify_def vdf_evaluate_def not_less)
  ultimately have "token_of R mint now tok" using cr(1) unfolding token_ok_def by blast
  moreover have "tok_value tok = v \<and> tok_transfer_count tok = 0 \<and> tok_recursion_bound tok = mint_recursion_bound mint \<and>
      (tok_vdf_proof tok = None \<longleftrightarrow> iterations = None) \<and> tok_credential_pool tok = pool \<and>
      length (tok_id tok) = 32 \<and> length (tok_owner_secret tok) = 32 \<and> tok_bond_owner_id tok = bond"
    using generate_secrets_eq [OF us] by (simp add: tok_def)
  ultimately show ?thesis using ok cr(2,3) by (intro exI [of _ tok]) simp
qed

lemma issue_all_ok:
  assumes "mint_ok R mint" and "quorum_ids (mint_keyset mint) signers" and "0 \<notin> set vs"
  shows "\<exists>toks. fst (issue_all R mint vs signers g) = Ok toks \<and> (\<forall>tok\<in>set toks. token_of R mint now tok)"
  using assms(3)
proof (induction vs arbitrary: g)
  case (Cons v vs)
  obtain tok g1 where i: "issue R mint v signers None g = (Ok tok, g1)" "token_of R mint now tok"
    using issue_full_ok [OF assms(1,2), of v None now None None g] Cons.prems
    unfolding issue_def by (metis fst_conv list.set_intros(1) not_None_eq option.distinct(1) surj_pair)
  obtain toks g2 where "issue_all R mint vs signers g1 = (Ok toks, g2)" "\<forall>tok\<in>set toks. token_of R mint now tok"
    using Cons.IH [of g1] Cons.prems by (metis fst_conv list.set_intros(2) surj_pair)
  with i show ?case by simp
qed simp

section \<open>Setting up a mint\<close>

lemma keyset_signs:
  assumes "keyset_ok R ks"
  shows "quorum_ids ks ids \<Longrightarrow> \<exists>sig. fst (threshold_blind_sign R ks ids m g) = Ok sig \<and> schnorr_verify R (ks_group_public ks) m sig"
  using assms threshold_sign_verifies unfolding keyset_ok_def by blast

lemma issuer_new_key: "iss_public (fst (issuer_new R g)) = smul R (iss_secret (fst (issuer_new R g))) (basepoint R)"
  by (simp add: issuer_new_def Let_def split: prod.splits)

lemma setup_ok:
  assumes "0 < cfg_threshold c" "cfg_threshold c \<le> cfg_total_signers c" "cfg_total_signers c < 2 ^ 64"
  shows "\<exists>mint. fst (mint_setup R c g) = Ok mint \<and> mint_ok R mint \<and> mint_recursion_bound mint = cfg_recursion_bound c \<and>
    ks_threshold (mint_keyset mint) = cfg_threshold c \<and> fst ` set (ks_shares (mint_keyset mint)) = of_nat ` {1..cfg_total_signers c}"
proof -
  obtain ks g1 where d: "dealer_keygen R (cfg_threshold c) (cfg_total_signers c) g = (Ok ks, g1)" and "keyset_ok R ks"
    and "ks_threshold ks = cfg_threshold c" "fst ` set (ks_shares ks) = of_nat ` {1..cfg_total_signers c}"
    using dealer_keyset [OF assms, of g] by (metis fst_conv surj_pair)
  moreover obtain iss g2 where "issuer_new R g1 = (iss, g2)" "iss_public iss = smul R (iss_secret iss) (basepoint R)"
    using issuer_new_key by (metis fst_conv surj_pair)
  ultimately show ?thesis
    using keyset_signs by (auto simp: mint_setup_def mint_ok_def group_public_key_def)
qed

lemma merge_fold:
  assumes "\<And>i ks. (i, ks) \<in> set keysets \<Longrightarrow> ks_shares ks = [(i, sh i)]"
  shows "foldl (\<lambda>combined (i, ks). case map_of (ks_shares ks) i of
        Some share \<Rightarrow> combined\<lparr>ks_shares := AList.update i share (ks_shares combined)\<rparr> | None \<Rightarrow> combined) c keysets
    = c\<lparr>ks_shares := foldl (\<lambda>m i. AList.update i (sh i) m) (ks_shares c) (map fst keysets)\<rparr>"
  using assms
proof (induction keysets arbitrary: c)
  case (Cons k keysets)
  obtain i ks where k: "k = (i, ks)" by fastforce
  have "ks_shares ks = [(i, sh i)]" using Cons.prems [of i ks] k by simp
  moreover note Cons.IH [of "c\<lparr>ks_shares := AList.update i (sh i) (ks_shares c)\<rparr>"]
  ultimately show ?case using Cons.prems [OF list.set_intros(2)] by (simp add: k)
qed simp

lemma sign_irrelevant:
  "threshold_blind_sign R (ks\<lparr>ks_total := a, ks_public_shares := b\<rparr>) = threshold_blind_sign R ks"
  by (simp add: threshold_blind_sign_def fun_eq_iff Let_def split: result.split prod.split)

lemma setup_with_dkg_ok:
  assumes t: "0 < cfg_threshold c" "cfg_threshold c \<le> cfg_total_signers c" and n: "cfg_total_signers c < 2 ^ 64"
  shows "\<exists>mint. fst (mint_setup_with_dkg R c g) = Ok mint \<and> mint_ok R mint \<and> mint_recursion_bound mint = cfg_recursion_bound c \<and>
    ks_threshold (mint_keyset mint) = cfg_threshold c \<and> fst ` set (ks_shares (mint_keyset mint)) = of_nat ` {1..cfg_total_signers c}"
proof -
  define ids :: "signer_id list" where "ids = map of_nat [1..<cfg_total_signers c + 1]"
  have ids: "ids = 1 # map of_nat [2..<cfg_total_signers c + 1]" "distinct ids" "length ids = cfg_total_signers c"
      "set ids = of_nat ` {1..cfg_total_signers c}"
  proof -
    have "[1..<cfg_total_signers c + 1] = 1 # [2..<cfg_total_signers c + 1]"
      using t by (simp add: upt_conv_Cons numeral_2_eq_2 del: upt_Suc)
    then show "ids = 1 # map of_nat [2..<cfg_total_signers c + 1]" by (simp add: ids_def del: upt_Suc)
    have "inj_on (of_nat :: nat \<Rightarrow> u64) {1..<cfg_total_signers c + 1}"
    proof (rule inj_onI)
      fix i j assume "i \<in> {1..<cfg_total_signers c + 1}" "j \<in> {1..<cfg_total_signers c + 1}" and eq: "(of_nat i :: u64) = of_nat j"
      then have "i < 2 ^ 64" "j < 2 ^ 64" using n by auto
      from u64_of_nat_inject [OF this] eq show "i = j" by blast
    qed
    then show "distinct ids" by (simp add: ids_def distinct_map del: upt_Suc)
  qed (simp_all add: ids_def atLeastLessThanSuc_atLeastAtMost del: upt_Suc)
  have le: "cfg_threshold c \<le> length ids" using t(2) ids(3) by simp
  obtain keysets cs where run: "fst (run_dkg R (cfg_threshold c) ids g) = Ok keysets" "map fst keysets = ids" and cs: "length cs = cfg_threshold c"
    and good: "\<And>i ks. (i, ks) \<in> set keysets \<Longrightarrow> ks_threshold ks = cfg_threshold c \<and>
      ks_group_public ks = smul R (poly_eval cs 0) (basepoint R) \<and>
      ks_shares ks = [(i, \<lparr>share_x = scalar_of_u64 R i, share_y = poly_eval cs (scalar_of_u64 R i)\<rparr>)]"
    using run_dkg_honest [OF ids(2) t(1) le, of g] by fast
  let ?sh = "\<lambda>i. \<lparr>share_x = scalar_of_u64 R i, share_y = poly_eval cs (scalar_of_u64 R i)\<rparr>"
  obtain first rest where k: "keysets = (1, first) # rest" using run(2) ids(1) by (cases keysets) auto
  define ks where "ks = first\<lparr>ks_shares := map (\<lambda>i. (i, ?sh i)) ids\<rparr>"
  have f: "ks_shares first = [(1, ?sh 1)]" "ks_threshold first = cfg_threshold c"
      "ks_group_public first = smul R (poly_eval cs 0) (basepoint R)" using good [of 1 first] k by simp_all
  have "foldl (\<lambda>m i. AList.update i (?sh i) m) [(1, ?sh 1)] ids = map (\<lambda>i. (i, ?sh i)) ids"
    using foldl_update_distinct [of "[(1, ?sh 1)]" id "map of_nat [2..<cfg_total_signers c + 1]" ?sh] ids(1,2) by simp
  moreover have map1: "map_of keysets 1 = Some first" by (simp add: k)
  have good_share: "ks_shares x = [(i, ?sh i)]" if "(i, x) \<in> set keysets" for i x using good [OF that] by blast
  ultimately have merge: "merge_keysets keysets = Ok ks"
    unfolding merge_keysets_def using merge_fold [of keysets ?sh first, OF good_share] f(1) run(2) map1
    by (simp only: option.case ks_def)
  have "keyset_on R cs (ks\<lparr>ks_total := length ids, ks_public_shares := map (\<lambda>i. (i, smul R (poly_eval cs (scalar_of_u64 R i)) (basepoint R))) ids\<rparr>)"
    using f cs t(1) ids(2) by (auto simp: keyset_on_def ks_def o_def map_of_zip_map)
  from threshold_sign_verifies [OF this, unfolded sign_irrelevant]
  have sign: "\<exists>sig. fst (threshold_blind_sign R ks q m g') = Ok sig \<and> schnorr_verify R (ks_group_public ks) m sig"
    if "quorum_ids ks q" for q m g' using that by (simp add: quorum_ids_def)
  obtain g1 where r: "run_dkg R (cfg_threshold c) ids g = (Ok keysets, g1)" using run(1) by (metis fst_conv surj_pair)
  obtain iss g2 where "issuer_new R g1 = (iss, g2)" "iss_public iss = smul R (iss_secret iss) (basepoint R)"
    using issuer_new_key by (metis fst_conv surj_pair)
  moreover define mint where "mint = \<lparr>mint_keyset = ks, mint_pedersen = pedersen_new R, mint_issuer = iss,
    mint_recursion_bound = cfg_recursion_bound c\<rparr>"
  ultimately have "fst (mint_setup_with_dkg R c g) = Ok mint" and "mint_ok R mint"
    using r merge sign unfolding mint_setup_with_dkg_def ids_def [symmetric] Let_def
    by (simp_all add: mint_ok_def group_public_key_def mint_def)
  moreover have "ks_threshold ks = cfg_threshold c" "fst ` set (ks_shares ks) = set ids"
    using f(2) by (simp_all add: ks_def image_image)
  ultimately show ?thesis using ids(4) by (intro exI [of _ mint]) (simp add: mint_def)
qed

section \<open>Splitting\<close>

lemma split_checks_Ok:
  "split_checks R mint old outs = Ok () \<longleftrightarrow>
    (\<exists>vr. verify_token R old (group_public_key mint) (mint_pedersen mint) (iss_pedersen (mint_issuer mint)) 0 = Ok vr) \<and>
    issued_by R (group_public_key mint) (mint_pedersen mint) old \<and> owned_chain R old \<and>
    tok_transfer_count old \<le> tok_recursion_bound old \<and> 0 \<notin> set outs \<and> (\<Sum>v\<leftarrow>outs. unat v) = unat (tok_value old)"
  (is "?l \<longleftrightarrow> (\<exists>vr. ?v vr) \<and> ?r")
proof -
  have sum: "(\<exists>s. try_sum 0 outs = Some s \<and> s = tok_value old) \<longleftrightarrow> (\<Sum>v\<leftarrow>outs. unat v) = unat (tok_value old)"
    using unsigned_less [of "tok_value old", where ?'a = nat] by (auto simp: try_sum_eq)
  have "?l \<longleftrightarrow> ?r" if v: "?v vr" for vr
    using verify_token_issued [OF v] sum v
    by (auto simp: split_checks_def group_public_key_def issued_by_def list_ex_iff split: if_splits)
  moreover have "\<exists>vr. ?v vr" if ?l using that by (auto simp: split_checks_def group_public_key_def)
  ultimately show ?thesis by blast
qed

lemma issued_values_valid:
  assumes "\<forall>tok\<in>set toks. token_of R mint now tok"
  shows "\<not> list_ex (\<lambda>tok. \<not> verify_value_proof R (mint_pedersen mint) (tok_value_commitment tok)
    (scalar_from_u64 R (tok_value tok)) (tok_value_proof tok)) toks"
  using assms by (auto simp: list_ex_iff token_ok_def issued_by_def scalar_from_u64_def)

text \<open>The outcome of a split by a working mint, in one equation.\<close>

lemma split_outcome:
  assumes "mint_ok R mint" and "quorum_ids (mint_keyset mint) signers" and "split_checks R mint old outs = Ok ()"
  obtains toks g' where "fst (issue_all R mint outs signers g) = Ok toks" and "\<forall>tok\<in>set toks. token_of R mint now tok"
    and "map tok_value toks = outs"
    and "split_token R mint old outs signers w ns g =
      (case nullifier_insert w (token_nullifier R old) ns of (b, ns') \<Rightarrow>
         (if b then Ok toks else Err (SigningFailed ''token already spent''), ns', g'))"
proof -
  have "0 \<notin> set outs" using assms(3) split_checks_Ok by blast
  then obtain toks g' where t: "issue_all R mint outs signers g = (Ok toks, g')" "\<forall>tok\<in>set toks. token_of R mint now tok"
    using issue_all_ok [OF assms(1,2), of outs g now] by (metis fst_conv surj_pair)
  show thesis
    by (rule that [of toks g'])
      (use t issue_all_values [of R mint outs signers g toks] issued_values_valid [OF t(2)] assms(3) in
        \<open>simp_all add: split_token_def split: prod.split\<close>)
qed

end

lemma split_failed_keeps:
  assumes "split_token R mint old outs signers w ns g = (r, ns', g')" and "\<not> is_ok r"
  shows "ns_nullifiers ns' = ns_nullifiers ns"
proof -
  have "ns_nullifiers ns1 = ns_nullifiers ns" if "nullifier_insert w n ns = (False, ns1)" for n ns1
    using that by (auto simp: nullifier_insert_def split: if_splits option.splits)
  with assms show ?thesis
    by (auto simp: split_token_def Let_def split: result.splits prod.splits if_splits)
qed

section \<open>Properties\<close>

text \<open>Both ways of setting up a mint, by a trusted dealer and by distributed key generation, succeed without panic for a
  threshold between one and the number of signers, and the mint they return is able to issue: every quorum of
  its signers, numbered from 1, produces signatures that verify under its group key, and the keys of its credential issuer match.\<close>

lemma mint_setup_invariant:
  assumes "ristretto_group R" and "0 < cfg_threshold c" and "cfg_threshold c \<le> cfg_total_signers c" and "cfg_total_signers c < 2 ^ 64"
    and "run = fst (mint_setup R c g) \<or> run = fst (mint_setup_with_dkg R c g)"
  shows "\<exists>mint. run = Ok mint \<and> mint_ok R mint \<and> mint_recursion_bound mint = cfg_recursion_bound c \<and>
    ks_threshold (mint_keyset mint) = cfg_threshold c \<and> fst ` set (ks_shares (mint_keyset mint)) = of_nat ` {1..cfg_total_signers c}"
  using assms(5) ristretto_group.setup_ok [OF assms(1-4), of g] ristretto_group.setup_with_dkg_ok [OF assms(1-4), of g] by blast

lemma mint_setup_invariant_witness:
  "\<exists>mint. fst (mint_setup_with_dkg zp_prims \<lparr>cfg_threshold = 2, cfg_total_signers = 3, cfg_recursion_bound = 5\<rparr> (\<lambda>_. 9)) = Ok mint \<and>
     mint_ok zp_prims mint \<and> mint_recursion_bound mint = 5"
  using mint_setup_invariant [OF zp.ristretto_group_axioms, where c = "\<lparr>cfg_threshold = 2, cfg_total_signers = 3, cfg_recursion_bound = 5\<rparr>"
      and g = "\<lambda>_. 9", OF _ _ _ disjI2 [OF refl]] by auto

text \<open>C25: a working mint with a quorum of signers issues, for every non-zero value, every choice of attributes and
  every delay within the limit, a token of that value that passes the whole verification, with no transfers
  made; with attributes it carries a valid presentation and a pool of one more per allowed transfer. Value zero and a set of signers
  that is no quorum are refused.\<close>

theorem issue_full_correct:
  assumes "ristretto_group R" and "mint_ok R mint"
    and "\<forall>a. attrs = Some a \<longrightarrow> not_expired now a" and "\<forall>n. iterations = Some n \<longrightarrow> 0 < n \<and> n \<le> 10000000"
  shows "if v = 0 then fst (issue_full R mint v signers attrs iterations bond g) = Err InvalidValue
    else if \<not> quorum_ids (mint_keyset mint) signers
    then \<exists>e. fst (issue_full R mint v signers attrs iterations bond g) = Err (SigningFailed (show_threshold_error e))
    else \<exists>tok vr. fst (issue_full R mint v signers attrs iterations bond g) = Ok tok \<and>
      verify_token R tok (group_public_key mint) (mint_pedersen mint) (iss_pedersen (mint_issuer mint)) now = Ok vr \<and> all_valid vr \<and>
      token_of R mint now tok \<and> tok_value tok = v \<and> tok_transfer_count tok = 0 \<and>
      length (tok_credential_pool tok) = (if attrs = None then 0 else unat (mint_recursion_bound mint))"
proof (cases "v = 0 \<or> \<not> quorum_ids (mint_keyset mint) signers")
  case True
  then show ?thesis using issue_refused [of "mint_keyset mint" signers mint v R attrs iterations bond g] by (auto simp: issue_full_def)
next
  case False
  obtain tok where "fst (issue_full R mint v signers attrs iterations bond g) = Ok tok" "token_of R mint now tok"
      "tok_value tok = v \<and> tok_transfer_count tok = 0 \<and>
       length (tok_credential_pool tok) = (if attrs = None then 0 else unat (mint_recursion_bound mint))"
    using ristretto_group.issue_full_ok [OF assms(1,2), of signers v attrs now iterations bond g] False assms(3,4)
    unfolding MAX_VDF_ITERATIONS_def by blast
  moreover from this(2) obtain vr where
    "verify_token R tok (group_public_key mint) (mint_pedersen mint) (iss_pedersen (mint_issuer mint)) now = Ok vr" "all_valid vr"
    using token_ok_all_valid by blast
  ultimately have "\<exists>tok vr. fst (issue_full R mint v signers attrs iterations bond g) = Ok tok \<and>
      verify_token R tok (group_public_key mint) (mint_pedersen mint) (iss_pedersen (mint_issuer mint)) now = Ok vr \<and> all_valid vr \<and>
      token_of R mint now tok \<and> tok_value tok = v \<and> tok_transfer_count tok = 0 \<and>
      length (tok_credential_pool tok) = (if attrs = None then 0 else unat (mint_recursion_bound mint))"
    by blast
  with False show ?thesis by simp
qed

definition demo_mint :: "(zp, zp) mint" where
  "demo_mint = (case fst (mint_setup zp_prims \<lparr>cfg_threshold = 2, cfg_total_signers = 3, cfg_recursion_bound = 2\<rparr> (\<lambda>_. 9)) of Ok m \<Rightarrow> m)"

lemma demo_mint_threshold: "ks_threshold (mint_keyset demo_mint) = 2"
  using zp.setup_ok [of "\<lparr>cfg_threshold = 2, cfg_total_signers = 3, cfg_recursion_bound = 2\<rparr>" "\<lambda>_. 9"] by (auto simp: demo_mint_def)

lemma demo_mint_ok: "mint_ok zp_prims demo_mint" "quorum_ids (mint_keyset demo_mint) [3, 1]" "mint_recursion_bound demo_mint = 2"
proof -
  let ?c = "\<lparr>cfg_threshold = 2, cfg_total_signers = 3, cfg_recursion_bound = 2\<rparr>"
  obtain m where m: "fst (mint_setup zp_prims ?c (\<lambda>_. 9)) = Ok m" "mint_ok zp_prims m" "mint_recursion_bound m = 2"
    "ks_threshold (mint_keyset m) = 2" "fst ` set (ks_shares (mint_keyset m)) = of_nat ` {1..3}"
    using zp.setup_ok [of ?c "\<lambda>_. 9"] by auto
  have "{1..3 :: nat} = {1, 2, 3}" by auto
  with m show "mint_ok zp_prims demo_mint" "quorum_ids (mint_keyset demo_mint) [3, 1]" "mint_recursion_bound demo_mint = 2"
    by (simp_all add: demo_mint_def quorum_ids_def)
qed

theorem issue_full_correct_witness:
  "\<exists>tok. fst (issue_full zp_prims demo_mint 100 [3, 1] None (Some 5) None (\<lambda>_. 4)) = Ok tok \<and> tok_value tok = 100 \<and>
     token_of zp_prims demo_mint 77 tok"
  using issue_full_correct [OF zp.ristretto_group_axioms demo_mint_ok(1), of None 77 "Some 5" 100 "[3, 1]" None "\<lambda>_. 4"] demo_mint_ok(2)
  by auto



end
