(* ===== verification/Token_Transfer.thy ===== *)
theory Token_Transfer
  imports Mint
begin

text \<open>
  \<^verbatim>\<open>specter-core/src/transfer.rs\<close> and \<^verbatim>\<open>renewal.rs\<close>: handing a token on, with and without
  verification first, and replacing a worn-out one. Together with the split of \<^verbatim>\<open>mint.rs\<close> these are
  the operations that spend a nullifier; the last section shows that over any sequence of them a nullifier is
  spent at most once and where the value goes.
\<close>

section \<open>Transfer\<close>

record ('s, 'p) transfer_result =
  tr_token :: "('s, 'p) proof_carrying_token"
  tr_spent_nullifier :: bytes

datatype transfer_error =
    NeedsRenewal u32 u32
  | DoubleSpend bytes
  | InvalidTokenValue
  | FoldFailed string
  | VerificationFailed string

text \<open>The first pooled credential replaces the token's own; with an empty pool the token keeps its own.\<close>

definition pop_credential ::
  "('s, 'p) proof_carrying_token \<Rightarrow> ('s, 'p) credential option \<times> ('s, 'p) presentation option \<times>
     (('s, 'p) credential \<times> ('s, 'p) presentation) list" where
  "pop_credential tok =
     (case tok_credential_pool tok of
        (c, p) # rest \<Rightarrow> (Some c, Some p, rest)
      | [] \<Rightarrow> (tok_credential tok, tok_presentation tok, []))"

definition transfer ::
  "('s::field, 'p) prims \<Rightarrow> ('s, 'p) proof_carrying_token \<Rightarrow> write_outcome \<Rightarrow> nullifier_set \<Rightarrow> rng \<Rightarrow>
     (('s, 'p) transfer_result, transfer_error) result \<times> nullifier_set \<times> rng" where
  "transfer R tok w nullifiers g =
     (if tok_value tok = 0 then (Err InvalidTokenValue, nullifiers, g)
      else if needs_renewal tok
      then (Err (NeedsRenewal (tok_transfer_count tok) (tok_recursion_bound tok)), nullifiers, g)
      else
        let spent_nullifier = token_nullifier R tok;
            (inserted, nullifiers) = nullifier_insert w spent_nullifier nullifiers
        in if \<not> inserted then (Err (DoubleSpend spent_nullifier), nullifiers, g)
           else
             let (new_owner_secret, g) = fill_bytes 32 g;
                 new_hash_chain = advance_hash_chain R (tok_hash_chain_head tok) new_owner_secret;
                 new_pk = derive_owner_signing_pk R new_owner_secret;
                 prev_owner_sk = derive_owner_signing_key R (tok_owner_secret tok)
             in case checked_add (tok_transfer_count tok) 1 of
                  None \<Rightarrow> (Err (FoldFailed ''transfer count overflow''), nullifiers, g)
                | Some new_count \<Rightarrow>
                    (case fold_transfer_signed R (tok_fold_proof tok) prev_owner_sk new_pk (tok_id tok)
                        (tok_recursion_bound tok) g of
                       (Err e, g) \<Rightarrow> (Err (FoldFailed (show_fold_error e)), nullifiers, g)
                     | (Panic, g) \<Rightarrow> (Panic, nullifiers, g)
                     | (Ok new_fold_proof, g) \<Rightarrow>
                         let (cred, pres, pool) = pop_credential tok
                         in (Ok \<lparr>tr_token = tok\<lparr>tok_owner_secret := new_owner_secret, tok_hash_chain_head := new_hash_chain,
                                    tok_transfer_count := new_count, tok_fold_proof := new_fold_proof, tok_credential := cred,
                                    tok_presentation := pres, tok_credential_pool := pool\<rparr>,
                                 tr_spent_nullifier = spent_nullifier\<rparr>, nullifiers, g)))"

definition transfer_checks :: "verification_result \<Rightarrow> (unit, transfer_error) result" where
  "transfer_checks vr =
     (if \<not> signature_valid vr then Err (VerificationFailed ''mint signature invalid'')
      else if \<not> value_valid vr then Err (VerificationFailed ''value commitment proof invalid'')
      else if \<not> within_bound vr then Err (VerificationFailed ''transfer count exceeds recursion bound'')
      else if \<not> fold_valid vr
      then Err (VerificationFailed ''fold proof invalid (tampered owner_secret or forged accumulator)'')
      else if credential_valid vr = Some False then Err (VerificationFailed ''credential presentation invalid'')
      else if vdf_valid vr = Some False then Err (VerificationFailed ''VDF time-lock proof invalid'')
      else Ok ())"

definition transfer_checked ::
  "('s::field, 'p::ab_group_add) prims \<Rightarrow> ('s, 'p) proof_carrying_token \<Rightarrow> write_outcome \<Rightarrow> nullifier_set \<Rightarrow> 'p \<Rightarrow>
     'p pedersen_params \<Rightarrow> 'p pedersen_params \<Rightarrow> u64 \<Rightarrow> rng \<Rightarrow>
     (('s, 'p) transfer_result, transfer_error) result \<times> nullifier_set \<times> rng" where
  "transfer_checked R tok w nullifiers pk pedersen credential_pedersen current_time g =
     (case bindR (infallible (verify_token R tok pk pedersen credential_pedersen current_time)) transfer_checks of
        Err e \<Rightarrow> (Err e, nullifiers, g)
      | Panic \<Rightarrow> (Panic, nullifiers, g)
      | Ok _ \<Rightarrow> transfer R tok w nullifiers g)"

definition check_double_spend ::
  "write_outcome \<Rightarrow> nullifier_set \<Rightarrow> bytes \<Rightarrow> (unit, transfer_error) result \<times> nullifier_set" where
  "check_double_spend w nullifiers nullifier =
     (let (inserted, nullifiers) = nullifier_insert w nullifier nullifiers
      in (if inserted then Ok () else Err (DoubleSpend nullifier), nullifiers))"

definition refresh_credential ::
  "('s::field, 'p::ab_group_add) prims \<Rightarrow> ('s, 'p) proof_carrying_token \<Rightarrow> ('s, 'p) issuer \<Rightarrow> rng \<Rightarrow>
     ('s, 'p) proof_carrying_token \<times> rng" where
  "refresh_credential R tok iss g =
     (case tok_credential tok of
        None \<Rightarrow> (tok, g)
      | Some old_cred \<Rightarrow>
          let (new_cred, g) = issue_credential R iss (cred_attributes old_cred) g;
              disclose_indices = (case tok_presentation tok of
                  Some p \<Rightarrow> map fst (disclosed p)
                | None \<Rightarrow> [ATTR_KYC_PASSED, ATTR_NOT_SANCTIONED]);
              (new_pres, g) = create_presentation R new_cred disclose_indices (iss_pedersen iss) g
          in (tok\<lparr>tok_credential := Some new_cred, tok_presentation := Some new_pres\<rparr>, g))"

section \<open>Renewal\<close>

record ('s, 'p) renewal_result =
  rr_new_token :: "('s, 'p) proof_carrying_token"
  rr_old_nullifier :: bytes

datatype renewal_error =
    InvalidSignature
  | InvalidValue
  | InvalidFoldProof
  | InvalidCredential
  | AlreadySpent
  | MintError string

definition renewal_checks :: "verification_result \<Rightarrow> (unit, renewal_error) result" where
  "renewal_checks vr =
     (if \<not> signature_valid vr then Err InvalidSignature
      else if \<not> value_valid vr then Err InvalidValue
      else if \<not> fold_valid vr then Err InvalidFoldProof
      else if credential_valid vr = Some False then Err InvalidCredential
      else Ok ())"

definition renew_token ::
  "('s::field, 'p::ab_group_add) prims \<Rightarrow> ('s, 'p) proof_carrying_token \<Rightarrow> ('s, 'p) mint \<Rightarrow> signer_id list \<Rightarrow>
     write_outcome \<Rightarrow> nullifier_set \<Rightarrow> rng \<Rightarrow>
     (('s, 'p) renewal_result, renewal_error) result \<times> nullifier_set \<times> rng" where
  "renew_token R old_token mint signers w nullifiers g =
     (case bindR (infallible (verify_token R old_token (group_public_key mint) (mint_pedersen mint)
            (iss_pedersen (mint_issuer mint)) 0)) renewal_checks of
        Err e \<Rightarrow> (Err e, nullifiers, g)
      | Panic \<Rightarrow> (Panic, nullifiers, g)
      | Ok _ \<Rightarrow>
          let old_nullifier = token_nullifier R old_token;
              (inserted, nullifiers) = nullifier_insert w old_nullifier nullifiers
          in if \<not> inserted then (Err AlreadySpent, nullifiers, g)
             else
               let credential_attrs = map_option cred_attributes (tok_credential old_token)
               in case issue R mint (tok_value old_token) signers credential_attrs g of
                    (Err e, g) \<Rightarrow> (Err (MintError (show_mint_error e)), nullifiers, g)
                  | (Panic, g) \<Rightarrow> (Panic, nullifiers, g)
                  | (Ok new_token, g) \<Rightarrow>
                      (Ok \<lparr>rr_new_token = new_token, rr_old_nullifier = old_nullifier\<rparr>, nullifiers, g))"

section \<open>What a transfer does\<close>

lemma nullifier_insert_cases:
  assumes "nullifier_insert w n ns = (b, ns')"
  shows "ns_nullifiers ns' = (if b then insert n (ns_nullifiers ns) else ns_nullifiers ns)" and "b \<Longrightarrow> n \<notin> ns_nullifiers ns"
    and "w = None \<Longrightarrow> n \<notin> ns_nullifiers ns \<Longrightarrow> b"
  using assms by (auto simp: nullifier_insert_def split: if_splits option.splits)

lemma credential_step_ok:
  assumes "creds_ok R cp now tok"
    and "pop_credential tok = (cred, pres, pool)"
  shows "creds_ok R cp now (tok\<lparr>tok_owner_secret := sec, tok_hash_chain_head := h, tok_transfer_count := n,
    tok_fold_proof := fp, tok_credential := cred, tok_presentation := pres, tok_credential_pool := pool\<rparr>)"
  using assms by (cases "tok_credential_pool tok") (auto simp: creds_ok_def pop_credential_def)

text \<open>What every transfer that gets past the nullifier set returns.\<close>

lemma transfer_Ok:
  assumes "transfer R tok w ns g = (Ok res, ns', g')"
  shows "tok_value tok \<noteq> 0 \<and> tok_transfer_count tok < tok_recursion_bound tok \<and>
    nullifier_insert w (token_nullifier R tok) ns = (True, ns') \<and> tr_spent_nullifier res = token_nullifier R tok \<and>
    (\<exists>sec fp g1 cred pres pool. length sec = 32 \<and>
      fst (fold_transfer_signed R (tok_fold_proof tok) (derive_owner_signing_key R (tok_owner_secret tok))
        (derive_owner_signing_pk R sec) (tok_id tok) (tok_recursion_bound tok) g1) = Ok fp \<and>
      pop_credential tok = (cred, pres, pool) \<and>
      tr_token res = tok\<lparr>tok_owner_secret := sec, tok_hash_chain_head := advance_hash_chain R (tok_hash_chain_head tok) sec,
        tok_transfer_count := tok_transfer_count tok + 1, tok_fold_proof := fp, tok_credential := cred,
        tok_presentation := pres, tok_credential_pool := pool\<rparr>)"
proof -
  have pre: "tok_value tok \<noteq> 0" "tok_transfer_count tok < tok_recursion_bound tok"
    using assms by (auto simp: transfer_def needs_renewal_def split: if_splits)
  have nr: "\<not> needs_renewal tok" using pre(2) by (simp add: needs_renewal_def)
  obtain b ns1 where b: "nullifier_insert w (token_nullifier R tok) ns = (b, ns1)" by fastforce
  obtain sec g1 where sec: "fill_bytes 32 g = (sec, g1)" by fastforce
  have ins: "nullifier_insert w (token_nullifier R tok) ns = (True, ns1)"
    using assms pre b nr by (cases b) (simp_all add: transfer_def)
  obtain n where n: "checked_add (tok_transfer_count tok) 1 = Some n" "n = tok_transfer_count tok + 1"
    using assms pre ins sec nr
    by (cases "checked_add (tok_transfer_count tok) 1") (auto simp: transfer_def checked_add_Some)
  obtain fr g2 where fr: "fold_transfer_signed R (tok_fold_proof tok) (derive_owner_signing_key R (tok_owner_secret tok))
      (derive_owner_signing_pk R sec) (tok_id tok) (tok_recursion_bound tok) g1 = (fr, g2)" by fastforce
  note eqs = nr pre(1) ins sec n fr
  obtain fp where fp: "fr = Ok fp" using assms by (cases fr) (auto simp: transfer_def eqs Let_def)
  obtain cred pres pool where cpp: "pop_credential tok = (cred, pres, pool)" by (metis surj_pair)
  have "ns' = ns1" "tr_spent_nullifier res = token_nullifier R tok"
    "tr_token res = tok\<lparr>tok_owner_secret := sec, tok_hash_chain_head := advance_hash_chain R (tok_hash_chain_head tok) sec,
        tok_transfer_count := tok_transfer_count tok + 1, tok_fold_proof := fp, tok_credential := cred,
        tok_presentation := pres, tok_credential_pool := pool\<rparr>"
    using assms unfolding transfer_def by (auto simp: eqs fp cpp)
  moreover have "length sec = 32" using sec by simp
  moreover have "fst (fold_transfer_signed R (tok_fold_proof tok) (derive_owner_signing_key R (tok_owner_secret tok))
      (derive_owner_signing_pk R sec) (tok_id tok) (tok_recursion_bound tok) g1) = Ok fp" by (simp add: fr fp)
  ultimately show ?thesis using pre ins cpp by metis
qed

text \<open>When the fold of a transfer is refused: the signed chain is as long as the bound already, or the holder's secret is
  not that of the chain's tip.\<close>

definition fold_refuses :: "('s::field, 'p) prims \<Rightarrow> ('s, 'p) proof_carrying_token \<Rightarrow> bool" where
  "fold_refuses R tok \<longleftrightarrow> tok_recursion_bound tok \<le> ap_steps (tok_fold_proof tok) \<or>
     compress R (derive_owner_signing_pk R (tok_owner_secret tok)) \<noteq> compress R (current_owner_pk (tok_fold_proof tok))"

text \<open>Every way a transfer can end, and what it leaves in the nullifier set.\<close>

definition transfer_ends ::
  "('s::field, 'p) prims \<Rightarrow> ('s, 'p) proof_carrying_token \<Rightarrow> write_outcome \<Rightarrow> nullifier_set \<Rightarrow>
     (('s, 'p) transfer_result, transfer_error) result \<Rightarrow> nullifier_set \<Rightarrow> bool" where
  "transfer_ends R tok w ns r ns' \<longleftrightarrow>
     (case r of
        Ok res \<Rightarrow> nullifier_insert w (token_nullifier R tok) ns = (True, ns')
      | Err (FoldFailed _) \<Rightarrow> nullifier_insert w (token_nullifier R tok) ns = (True, ns') \<and> fold_refuses R tok
      | Err (DoubleSpend n) \<Rightarrow> n = token_nullifier R tok \<and> nullifier_insert w n ns = (False, ns')
      | Err (NeedsRenewal n b) \<Rightarrow> ns' = ns \<and> n = tok_transfer_count tok \<and> b = tok_recursion_bound tok \<and> b \<le> n
      | Err InvalidTokenValue \<Rightarrow> ns' = ns \<and> tok_value tok = 0
      | Err (VerificationFailed _) \<Rightarrow> False
      | Panic \<Rightarrow> False)"

lemma transfer_ends:
  assumes "transfer R tok w ns g = (r, ns', g')"
  shows "transfer_ends R tok w ns r ns'"
proof (cases "tok_value tok = 0 \<or> needs_renewal tok")
  case True
  then show ?thesis
    using assms by (auto simp: transfer_def transfer_ends_def needs_renewal_def split: if_splits)
next
  case False
  obtain b ns1 where b: "nullifier_insert w (token_nullifier R tok) ns = (b, ns1)" by fastforce
  show ?thesis
  proof (cases b)
    case True
    obtain sec g1 where sec: "fill_bytes 32 g = (sec, g1)" by fastforce
    have n: "checked_add (tok_transfer_count tok) 1 = Some (tok_transfer_count tok + 1)"
      using False unsigned_less [of "tok_recursion_bound tok", where ?'a = nat]
      by (simp add: checked_add_def needs_renewal_def word_le_nat_alt)
    obtain fr g2 where fr: "fold_transfer_signed R (tok_fold_proof tok) (derive_owner_signing_key R (tok_owner_secret tok))
      (derive_owner_signing_pk R sec) (tok_id tok) (tok_recursion_bound tok) g1 = (fr, g2)" by fastforce
    have "if fold_refuses R tok then \<exists>e. fr = Err e else \<exists>fp. fr = Ok fp"
      using fold_transfer_signed_eq [of R "tok_fold_proof tok" "derive_owner_signing_key R (tok_owner_secret tok)"
        "derive_owner_signing_pk R sec" "tok_id tok" "tok_recursion_bound tok" g1] fr
      by (auto simp: fold_refuses_def derive_owner_signing_pk_def Let_def split: if_splits)
    then show ?thesis
      using assms False True b sec n fr
      by (cases fr) (auto simp: transfer_def transfer_ends_def split: if_splits prod.splits)
  qed (use assms False b in \<open>auto simp: transfer_def transfer_ends_def\<close>)
qed

context ristretto_group
begin

text \<open>A transfer keeps a token intact, with the next owner at the tip of its chain.\<close>

lemma transfer_keeps_ok:
  assumes tok: "issued_by R pk pedersen tok" "owned_chain R tok" and tr: "transfer R tok w ns g = (Ok res, ns', g')"
  shows "issued_by R pk pedersen (tr_token res)" and "owned_chain R (tr_token res)"
    and "tok_value (tr_token res) = tok_value tok" and "tok_id (tr_token res) = tok_id tok"
    and "unat (tok_transfer_count (tr_token res)) = unat (tok_transfer_count tok) + 1"
    and "\<exists>s. steps_chain (tok_fold_proof (tr_token res)) = steps_chain (tok_fold_proof tok) @ [s]"
    and "unat (ap_steps (tok_fold_proof (tr_token res))) = unat (ap_steps (tok_fold_proof tok)) + 1"
    and "creds_ok R cp now tok \<Longrightarrow> creds_ok R cp now (tr_token res)"
    and "tok_vdf_proof (tr_token res) = tok_vdf_proof tok" and "tok_recursion_bound (tr_token res) = tok_recursion_bound tok"
proof -
  let ?st = "\<lparr>ts_token_id = tok_id tok, ts_owner_hash = owner_pk_hash R (genesis_owner_pk (tok_fold_proof tok)), ts_step = 0\<rparr>"
  obtain sec fp g1 cred pres pool where lt: "tok_transfer_count tok < tok_recursion_bound tok"
    and fold: "fst (fold_transfer_signed R (tok_fold_proof tok) (derive_owner_signing_key R (tok_owner_secret tok))
        (derive_owner_signing_pk R sec) (ts_token_id ?st) (tok_recursion_bound tok) g1) = Ok fp"
    and pop: "pop_credential tok = (cred, pres, pool)"
    and t: "tr_token res = tok\<lparr>tok_owner_secret := sec, tok_hash_chain_head := advance_hash_chain R (tok_hash_chain_head tok) sec,
        tok_transfer_count := tok_transfer_count tok + 1, tok_fold_proof := fp, tok_credential := cred,
        tok_presentation := pres, tok_credential_pool := pool\<rparr>"
    using transfer_Ok [OF tr] by auto
  have "verify_accumulated_proof R (tok_fold_proof tok) ?st" using tok(2) by (simp add: owned_chain_def)
  note fp = fold_keeps_valid [OF this fold]
  show "issued_by R pk pedersen (tr_token res)" using tok(1) fp(3) by (simp add: issued_by_def t)
  show "owned_chain R (tr_token res)" using fp(1,2,3) by (simp add: owned_chain_def t)
  show "unat (tok_transfer_count (tr_token res)) = unat (tok_transfer_count tok) + 1"
    using lt unsigned_less [of "tok_recursion_bound tok", where ?'a = nat]
    by (simp add: t unat_word_ariths word_less_nat_alt)
  show "creds_ok R cp now tok \<Longrightarrow> creds_ok R cp now (tr_token res)"
    unfolding t by (rule credential_step_ok [OF _ pop])
  show "\<exists>s. steps_chain (tok_fold_proof (tr_token res)) = steps_chain (tok_fold_proof tok) @ [s]"
      "unat (ap_steps (tok_fold_proof (tr_token res))) = unat (ap_steps (tok_fold_proof tok)) + 1"
    using fp(4,5) by (simp_all add: t)
qed (use transfer_Ok [OF tr] in auto)

lemma transfer_token_ok:
  assumes tok: "token_ok R pk pedersen cp now tok" and tr: "transfer R tok w ns g = (Ok res, ns', g')"
  shows "token_ok R pk pedersen cp now (tr_token res)"
proof -
  have i: "issued_by R pk pedersen tok" "owned_chain R tok" "creds_ok R cp now tok"
      "tok_transfer_count tok = ap_steps (tok_fold_proof tok)" "\<forall>vp. tok_vdf_proof tok = Some vp \<longrightarrow> vdf_verify R vp"
    using tok unfolding token_ok_def by blast+
  note k = transfer_keeps_ok [OF i(1,2) tr]
  have "tok_transfer_count (tr_token res) = ap_steps (tok_fold_proof (tr_token res))"
    using k(5,7) i(4) by (simp flip: unat_word_inject)
  moreover have "tok_transfer_count (tr_token res) \<le> tok_recursion_bound (tr_token res)"
    using transfer_Ok [OF tr] k(5,10) by (simp add: word_le_nat_alt word_less_nat_alt)
  ultimately show ?thesis
    unfolding token_ok_def using k(1,2,9) k(8) [OF i(3)] i(5) by simp
qed

text \<open>An intact token below its bound is refused only by the nullifier set.\<close>

lemma transfer_outcome:
  assumes tok: "token_ok R pk pedersen cp now tok" and lt: "tok_transfer_count tok < tok_recursion_bound tok"
    and ins: "nullifier_insert w (token_nullifier R tok) ns = (b, ns1)"
  shows "\<exists>r g'. transfer R tok w ns g = (r, ns1, g') \<and> (if b then is_ok r else r = Err (DoubleSpend (token_nullifier R tok)))"
proof -
  have ok: "tok_value tok \<noteq> 0" "owned_chain R tok" "tok_transfer_count tok = ap_steps (tok_fold_proof tok)"
    using tok unfolding token_ok_def issued_by_def by blast+
  obtain sec g1 where sec: "fill_bytes 32 g = (sec, g1)" by fastforce
  obtain fr g2 where fr: "fold_transfer_signed R (tok_fold_proof tok) (derive_owner_signing_key R (tok_owner_secret tok))
      (derive_owner_signing_pk R sec) (tok_id tok) (tok_recursion_bound tok) g1 = (fr, g2)" by fastforce
  have nr: "\<not> needs_renewal tok" using lt by (simp add: needs_renewal_def)
  have n: "checked_add (tok_transfer_count tok) 1 = Some (tok_transfer_count tok + 1)"
    using lt unsigned_less [of "tok_recursion_bound tok", where ?'a = nat] by (simp add: checked_add_def word_less_nat_alt)
  have "\<exists>fp. fr = Ok fp"
    using fold_transfer_signed_eq [of R "tok_fold_proof tok" "derive_owner_signing_key R (tok_owner_secret tok)"
        "derive_owner_signing_pk R sec" "tok_id tok" "tok_recursion_bound tok" g1] fr lt ok(2,3)
    by (simp add: owned_chain_def derive_owner_signing_pk_def Let_def)
  then obtain fp where "fr = Ok fp" by blast
  then show ?thesis
    using ok(1) nr ins sec n fr by (cases b) (auto simp: transfer_def split: prod.split)
qed

lemma transfer_checked_eq:
  "token_ok R pk pedersen cp now tok \<Longrightarrow> transfer_checked R tok w ns pk pedersen cp now g = transfer R tok w ns g"
  by (cases "tok_presentation tok"; cases "tok_vdf_proof tok")
    (simp_all add: transfer_checked_def token_ok_verifies transfer_checks_def)

end

section \<open>Renewal\<close>

lemma renew_Ok:
  assumes "renew_token R old mint signers w ns g = (Ok res, ns', g')"
  shows "nullifier_insert w (token_nullifier R old) ns = (True, ns') \<and> rr_old_nullifier res = token_nullifier R old \<and>
    fst (issue R mint (tok_value old) signers (map_option cred_attributes (tok_credential old)) g) = Ok (rr_new_token res)"
proof -
  obtain b ns1 where b: "nullifier_insert w (token_nullifier R old) ns = (b, ns1)" by fastforce
  obtain i g1 where i: "issue R mint (tok_value old) signers (map_option cred_attributes (tok_credential old)) g = (i, g1)" by fastforce
  show ?thesis
    using assms by (cases b; cases i) (auto simp: renew_token_def b i Let_def split: result.splits unit.splits)
qed

lemma issue_value: "fst (issue R mint v signers attrs g) = Ok tok \<Longrightarrow> tok_value tok = v"
  by (auto simp: issue_def issue_full_def Let_def split: if_splits prod.splits result.splits)

lemma renewal_checks_Ok:
  assumes "verify_token R old pk pedersen cp 0 = Ok vr" and "issued_by R pk pedersen old" and "owned_chain R old" and "creds_ok R cp 0 old"
  shows "renewal_checks vr = Ok ()"
proof -
  have "tok_value old \<noteq> 0" using assms(2) by (simp add: issued_by_def)
  then have "credential_valid vr \<noteq> Some False"
    using assms(1) credential_check_ok [OF assms(4)] by (auto simp: verify_token_eq)
  then show ?thesis
    using verify_token_issued [OF assms(1)] assms(2,3) \<open>tok_value old \<noteq> 0\<close> by (simp add: renewal_checks_def)
qed

lemma verify_token_returns:
  "creds_ok R cp now tok \<Longrightarrow> \<exists>vr. verify_token R tok pk pedersen cp now = Ok vr"
  by (cases "tok_value tok = 0") (simp_all add: verify_token_zero verify_token_eq credential_check_ok)

lemma renew_outcome:
  assumes "issued_by R (group_public_key mint) (mint_pedersen mint) old" and "owned_chain R old"
    and "creds_ok R (iss_pedersen (mint_issuer mint)) 0 old"
    and "nullifier_insert w (token_nullifier R old) ns = (b, ns1)"
    and "issue R mint (tok_value old) signers (map_option cred_attributes (tok_credential old)) g = (i, g1)"
  shows "renew_token R old mint signers w ns g =
    (if \<not> b then (Err AlreadySpent, ns1, g)
     else (map_err (\<lambda>e. MintError (show_mint_error e)) (bindR i (\<lambda>t. Ok \<lparr>rr_new_token = t, rr_old_nullifier = token_nullifier R old\<rparr>)), ns1, g1))"
proof -
  obtain vr where v: "verify_token R old (group_public_key mint) (mint_pedersen mint) (iss_pedersen (mint_issuer mint)) 0 = Ok vr"
    using verify_token_returns [OF assms(3)] by blast
  have "renewal_checks vr = Ok ()" by (rule renewal_checks_Ok [OF v assms(1-3)])
  with v show ?thesis by (cases i) (simp_all add: renew_token_def assms(4,5))
qed

section \<open>Sequences of spends\<close>

text \<open>Any operation that spends, by anybody, on any token, genuine or not; what it consumed and what it returned.\<close>

datatype ('s, 'p) spend_op =
    Op_transfer "('s, 'p) proof_carrying_token" write_outcome
  | Op_transfer_checked "('s, 'p) proof_carrying_token" write_outcome u64
  | Op_split "('s, 'p) proof_carrying_token" "u64 list" "signer_id list" write_outcome
  | Op_renew "('s, 'p) proof_carrying_token" "signer_id list" write_outcome

fun op_token :: "('s, 'p) spend_op \<Rightarrow> ('s, 'p) proof_carrying_token" where
  "op_token (Op_transfer tok w) = tok"
| "op_token (Op_transfer_checked tok w now) = tok"
| "op_token (Op_split tok outs signers w) = tok"
| "op_token (Op_renew tok signers w) = tok"

definition outputs_of :: "('a \<Rightarrow> 'b list) \<Rightarrow> ('a, 'e) result \<Rightarrow> 'b list option" where
  "outputs_of f r = (case r of Ok x \<Rightarrow> Some (f x) | _ \<Rightarrow> None)"

fun spend ::
  "('s::field, 'p::ab_group_add) prims \<Rightarrow> ('s, 'p) mint \<Rightarrow> ('s, 'p) spend_op \<Rightarrow> nullifier_set \<Rightarrow> rng \<Rightarrow>
     ('s, 'p) proof_carrying_token list option \<times> nullifier_set \<times> rng" where
  "spend R mint (Op_transfer tok w) ns g = apfst (outputs_of (\<lambda>r. [tr_token r])) (transfer R tok w ns g)"
| "spend R mint (Op_transfer_checked tok w now) ns g = apfst (outputs_of (\<lambda>r. [tr_token r]))
     (transfer_checked R tok w ns (group_public_key mint) (mint_pedersen mint) (iss_pedersen (mint_issuer mint)) now g)"
| "spend R mint (Op_split tok outs signers w) ns g = apfst (outputs_of id) (split_token R mint tok outs signers w ns g)"
| "spend R mint (Op_renew tok signers w) ns g = apfst (outputs_of (\<lambda>r. [rr_new_token r])) (renew_token R tok mint signers w ns g)"

text \<open>The log of a sequence: every operation, failed ones included, with the tokens it returned, if any, and whether
  it put its token's nullifier into the set.\<close>

record ('s, 'p) spend_log =
  sl_op :: "('s, 'p) spend_op"
  sl_outputs :: "('s, 'p) proof_carrying_token list option"
  sl_burned :: bool

fun spends ::
  "('s::field, 'p::ab_group_add) prims \<Rightarrow> ('s, 'p) mint \<Rightarrow> ('s, 'p) spend_op list \<Rightarrow> nullifier_set \<Rightarrow> rng \<Rightarrow>
     ('s, 'p) spend_log list \<times> nullifier_set" where
  "spends R mint [] ns g = ([], ns)"
| "spends R mint (op # ops) ns g =
     (let (r, ns1, g) = spend R mint op ns g; n = token_nullifier R (op_token op); (log, ns2) = spends R mint ops ns1 g
      in (\<lparr>sl_op = op, sl_outputs = r, sl_burned = (n \<notin> ns_nullifiers ns \<and> n \<in> ns_nullifiers ns1)\<rparr> # log, ns2))"

definition sl_nullifier :: "('s, 'p) prims \<Rightarrow> ('s, 'p) spend_log \<Rightarrow> bytes" where
  "sl_nullifier R e = token_nullifier R (op_token (sl_op e))"

definition sl_value :: "('s, 'p) spend_log \<Rightarrow> nat" where
  "sl_value e = unat (tok_value (op_token (sl_op e)))"

text \<open>The operations that can burn a token and return nothing: a transfer whose fold is refused, and a renewal for which the
  mint does not issue. A split never does.\<close>

fun can_lose :: "('s::field, 'p::ab_group_add) prims \<Rightarrow> ('s, 'p) mint \<Rightarrow> ('s, 'p) spend_op \<Rightarrow> bool" where
  "can_lose R mint (Op_transfer tok w) = fold_refuses R tok"
| "can_lose R mint (Op_transfer_checked tok w now) =
     (issued_by R (group_public_key mint) (mint_pedersen mint) tok \<and> owned_chain R tok \<and>
      tok_recursion_bound tok \<le> ap_steps (tok_fold_proof tok))"
| "can_lose R mint (Op_split tok outs signers w) = False"
| "can_lose R mint (Op_renew tok signers w) = (issued_by R (group_public_key mint) (mint_pedersen mint) tok \<and> owned_chain R tok \<and>
     (\<exists>g. \<not> is_ok (fst (issue R mint (tok_value tok) signers (map_option cred_attributes (tok_credential tok)) g))))"

lemma outputs_of_Some: "outputs_of f r = Some toks \<longleftrightarrow> (\<exists>x. r = Ok x \<and> toks = f x)"
  by (auto simp: outputs_of_def split: result.splits)

lemma split_Ok:
  assumes "split_token R mint old outs signers w ns g = (Ok toks, ns', g')"
  shows "nullifier_insert w (token_nullifier R old) ns = (True, ns') \<and> map tok_value toks = outs \<and>
    try_sum 0 outs = Some (tok_value old)"
proof -
  have "split_checks R mint old outs = Ok ()" using assms by (auto simp: split_token_def split: result.splits unit.splits)
  moreover have "try_sum 0 outs = Some (tok_value old)" using calculation by (auto simp: split_checks_def split: if_splits)
  moreover obtain g1 where "issue_all R mint outs signers g = (Ok toks, g1)"
    "nullifier_insert w (token_nullifier R old) ns = (True, ns')"
    using assms calculation(1) by (auto simp: split_token_def Let_def split: prod.splits result.splits if_splits)
  ultimately show ?thesis using issue_all_values [of R mint outs signers g toks] by simp
qed

lemma split_ends:
  assumes "split_token R mint old outs signers w ns g = (r, ns', g')"
  shows "ns_nullifiers ns' = (if is_ok r then insert (token_nullifier R old) (ns_nullifiers ns) else ns_nullifiers ns)"
  using assms by (auto simp: split_token_def Let_def dest: nullifier_insert_cases(1) split: if_splits prod.splits result.splits)

lemma renew_ends:
  assumes "renew_token R old mint signers w ns g = (r, ns', g')"
  shows "(\<not> is_ok r \<and> ns_nullifiers ns' = ns_nullifiers ns) \<or>
    (nullifier_insert w (token_nullifier R old) ns = (True, ns') \<and>
     issued_by R (group_public_key mint) (mint_pedersen mint) old \<and> owned_chain R old \<and>
     is_ok r = is_ok (fst (issue R mint (tok_value old) signers (map_option cred_attributes (tok_credential old)) g)))"
proof -
  obtain b ns1 where b: "nullifier_insert w (token_nullifier R old) ns = (b, ns1)" by fastforce
  obtain i g1 where i: "issue R mint (tok_value old) signers (map_option cred_attributes (tok_credential old)) g = (i, g1)" by fastforce
  let ?v = "verify_token R old (group_public_key mint) (mint_pedersen mint) (iss_pedersen (mint_issuer mint)) 0"
  show ?thesis
  proof (cases "\<exists>vr. ?v = Ok vr \<and> renewal_checks vr = Ok ()")
    case True
    then obtain vr where v: "?v = Ok vr" "renewal_checks vr = Ok ()" by blast
    then have "issued_by R (group_public_key mint) (mint_pedersen mint) old" "owned_chain R old"
      using verify_token_issued [OF v(1)] by (auto simp: renewal_checks_def split: if_splits)
    then show ?thesis
      using assms v nullifier_insert_cases(1) [OF b] by (cases b; cases i) (auto simp: renew_token_def b i)
  next
    case False
    then show ?thesis using assms by (cases ?v) (auto simp: renew_token_def split: result.splits)
  qed
qed

text \<open>One operation: it returns nothing and leaves the set as it was, or it puts the token's nullifier in, which was not
  there, and returns tokens of the same value in sum, unless it is one of those that can lose the token.\<close>

lemma transfer_spend:
  assumes "transfer R tok w ns g = (r, ns', g')"
  shows "(outputs_of (\<lambda>r. [tr_token r]) r = None \<and> ns_nullifiers ns' = ns_nullifiers ns) \<or>
    token_nullifier R tok \<notin> ns_nullifiers ns \<and> ns_nullifiers ns' = insert (token_nullifier R tok) (ns_nullifiers ns) \<and>
    (case outputs_of (\<lambda>r. [tr_token r]) r of None \<Rightarrow> fold_refuses R tok
     | Some toks \<Rightarrow> (\<Sum>t\<leftarrow>toks. unat (tok_value t)) = unat (tok_value tok))"
proof (cases r)
  case (Ok res)
  then show ?thesis
    using assms transfer_Ok [of R tok w ns g res ns' g'] nullifier_insert_cases(1,2) [of w "token_nullifier R tok" ns True ns']
    by (auto simp: outputs_of_def)
next
  case (Err e)
  then show ?thesis
    using transfer_ends [OF assms] nullifier_insert_cases(1,2) [of w "token_nullifier R tok" ns _ ns']
    by (cases e) (auto simp: transfer_ends_def outputs_of_def)
qed (use transfer_ends [OF assms] in \<open>simp add: transfer_ends_def\<close>)

lemma transfer_value: "transfer R tok w ns g = (Ok res, ns', g') \<Longrightarrow> tok_value (tr_token res) = tok_value tok"
  using transfer_Ok [of R tok w ns g res ns' g'] by auto

lemma transfer_checked_runs:
  assumes "transfer_checked R tok w ns pk pedersen cp now g = (r, ns', g')"
  shows "((\<exists>e. r = Err (VerificationFailed e)) \<or> r = Panic \<and> \<not> is_ok (verify_token R tok pk pedersen cp now)) \<and> ns' = ns \<or>
    transfer R tok w ns g = (r, ns', g') \<and> issued_by R pk pedersen tok \<and> owned_chain R tok"
proof (cases "verify_token R tok pk pedersen cp now")
  case (Ok vr)
  then show ?thesis
    using assms verify_token_issued [OF Ok]
    by (auto simp: transfer_checked_def transfer_checks_def split: if_splits)
qed (use assms in \<open>auto simp: transfer_checked_def\<close>)

lemma spend_ends:
  assumes "spend R mint op ns g = (r, ns', g')"
  shows "(r = None \<and> ns_nullifiers ns' = ns_nullifiers ns) \<or>
    token_nullifier R (op_token op) \<notin> ns_nullifiers ns \<and>
    ns_nullifiers ns' = insert (token_nullifier R (op_token op)) (ns_nullifiers ns) \<and>
    (case r of None \<Rightarrow> can_lose R mint op
     | Some toks \<Rightarrow> (\<Sum>t\<leftarrow>toks. unat (tok_value t)) = unat (tok_value (op_token op)))"
proof (cases op)
  case (Op_transfer tok w)
  then obtain x where x: "transfer R tok w ns g = (x, ns', g')" "r = outputs_of (\<lambda>r. [tr_token r]) x"
    using assms by (cases "transfer R tok w ns g") auto
  from transfer_spend [OF x(1)] x(2) show ?thesis unfolding Op_transfer can_lose.simps op_token.simps by simp
next
  case (Op_transfer_checked tok w now)
  let ?pk = "group_public_key mint" and ?pp = "mint_pedersen mint" and ?cp = "iss_pedersen (mint_issuer mint)"
  obtain x where x: "transfer_checked R tok w ns ?pk ?pp ?cp now g = (x, ns', g')" "r = outputs_of (\<lambda>r. [tr_token r]) x"
    using assms Op_transfer_checked by (cases "transfer_checked R tok w ns ?pk ?pp ?cp now g") auto
  from transfer_checked_runs [OF x(1)] show ?thesis
  proof
    assume "transfer R tok w ns g = (x, ns', g') \<and> issued_by R ?pk ?pp tok \<and> owned_chain R tok"
    then have t: "transfer R tok w ns g = (x, ns', g')" and i: "issued_by R ?pk ?pp tok" "owned_chain R tok" by blast+
    then have "fold_refuses R tok \<longleftrightarrow> tok_recursion_bound tok \<le> ap_steps (tok_fold_proof tok)"
      by (simp add: fold_refuses_def owned_chain_def)
    with transfer_spend [OF t] i x(2) show ?thesis unfolding Op_transfer_checked can_lose.simps op_token.simps by (auto split: option.splits)
  qed (use x(2) Op_transfer_checked in \<open>auto simp: outputs_of_def\<close>)
next
  case (Op_split tok outs signers w)
  then obtain x where x: "split_token R mint tok outs signers w ns g = (x, ns', g')" "r = outputs_of id x"
    using assms by (cases "split_token R mint tok outs signers w ns g") auto
  show ?thesis
  proof (cases x)
    case (Ok toks)
    have "(\<Sum>t\<leftarrow>toks. unat (tok_value t)) = (\<Sum>v\<leftarrow>map tok_value toks. unat v)" by (simp add: o_def)
    with split_Ok [OF x(1) [unfolded Ok]] show ?thesis
      using x Ok Op_split nullifier_insert_cases(1,2) [of w "token_nullifier R tok" ns True ns'] try_sum_eq [of 0 outs "tok_value tok"]
      by (auto simp: outputs_of_def)
  qed (use split_ends [OF x(1)] x(2) Op_split in \<open>simp_all add: outputs_of_def\<close>)
next
  case (Op_renew tok signers w)
  then obtain x where x: "renew_token R tok mint signers w ns g = (x, ns', g')" "r = outputs_of (\<lambda>r. [rr_new_token r]) x"
    using assms by (cases "renew_token R tok mint signers w ns g") auto
  show ?thesis
  proof (cases x)
    case (Ok res)
    with renew_Ok [OF x(1) [unfolded Ok]] show ?thesis
      using x Op_renew issue_value nullifier_insert_cases(1,2) [of w "token_nullifier R tok" ns True ns']
      by (fastforce simp: outputs_of_def)
  qed (use renew_ends [OF x(1)] x(2) Op_renew nullifier_insert_cases(1,2) [of w "token_nullifier R tok" ns True ns']
       in \<open>auto simp: outputs_of_def\<close>)
qed

text \<open>An operation that cannot go wrong after the burn: a transfer of a token whose count is that of its chain, a renewal
  with a quorum.\<close>

fun well_used :: "('s::field, 'p::ab_group_add) prims \<Rightarrow> ('s, 'p) mint \<Rightarrow> ('s, 'p) spend_op \<Rightarrow> bool" where
  "well_used R mint (Op_transfer tok w) \<longleftrightarrow> owned_chain R tok \<and> ap_steps (tok_fold_proof tok) < tok_recursion_bound tok"
| "well_used R mint (Op_transfer_checked tok w now) \<longleftrightarrow> ap_steps (tok_fold_proof tok) < tok_recursion_bound tok"
| "well_used R mint (Op_split tok outs signers w) \<longleftrightarrow> True"
| "well_used R mint (Op_renew tok signers w) \<longleftrightarrow> quorum_ids (mint_keyset mint) signers"

lemma well_used_keeps:
  assumes "ristretto_group R" and "mint_ok R mint" and "well_used R mint op"
  shows "\<not> can_lose R mint op"
proof (cases op)
  case (Op_renew tok signers w)
  have "is_ok (fst (issue R mint (tok_value tok) signers (map_option cred_attributes (tok_credential tok)) g))"
    if "issued_by R (group_public_key mint) (mint_pedersen mint) tok" for g
  proof -
    have "tok_value tok \<noteq> 0" using that by (simp add: issued_by_def)
    with assms(3) Op_renew show ?thesis
      using ristretto_group.issue_full_ok [OF assms(1,2), of signers "tok_value tok" "map_option cred_attributes (tok_credential tok)" 0 None None g]
      by (auto simp: issue_def not_expired_def is_ok_iff)
  qed
  then show ?thesis using Op_renew by auto
qed (use assms(3) in \<open>auto simp: fold_refuses_def owned_chain_def\<close>)

section \<open>Properties\<close>

text \<open>C1: over every sequence of transfers, checked transfers, splits and renewals, by anybody and on any tokens, copies and
  forgeries included, with any answers of the disk. Call an operation burning if it puts its token's nullifier into the set.
  No two burning operations, successful or not, have the same nullifier; the set grows by exactly their nullifiers, none of
  which was in it before; an operation that returns tokens is burning, and their values add up to the value of the
  token it consumed. A burning operation that returns nothing loses the value: this happens only to a renewal of a verified token for
  which the mint does not issue, and to a transfer of a token whose signed chain has reached its bound or, unchecked, does not end in
  the holder's key; it never happens to a split. So burned value is returned value plus lost value, and with a working mint, a quorum for
  each renewal and tokens whose chains are below their bounds nothing is lost.\<close>

theorem spends_once_and_conserve:
  assumes "spends R mint ops ns g = (log, ns')"
  defines "burned \<equiv> filter sl_burned log"
  shows "map sl_op log = ops \<and>
    distinct (map (sl_nullifier R) burned) \<and>
    set (map (sl_nullifier R) burned) \<inter> ns_nullifiers ns = {} \<and>
    ns_nullifiers ns' = ns_nullifiers ns \<union> set (map (sl_nullifier R) burned) \<and>
    (\<forall>e\<in>set log. case sl_outputs e of
        Some toks \<Rightarrow> sl_burned e \<and> (\<Sum>t\<leftarrow>toks. unat (tok_value t)) = sl_value e
      | None \<Rightarrow> sl_burned e \<longrightarrow> can_lose R mint (sl_op e)) \<and>
    (\<Sum>e\<leftarrow>burned. sl_value e) =
      (\<Sum>e\<leftarrow>log. case sl_outputs e of Some toks \<Rightarrow> (\<Sum>t\<leftarrow>toks. unat (tok_value t)) | None \<Rightarrow> 0) +
      (\<Sum>e\<leftarrow>filter (\<lambda>e. sl_outputs e = None) burned. sl_value e) \<and>
    (ristretto_group R \<and> mint_ok R mint \<and> list_all (well_used R mint) ops \<longrightarrow>
      list_all (\<lambda>e. sl_outputs e \<noteq> None) burned)"
proof -
  have run: "map sl_op log = ops \<and> distinct (map (sl_nullifier R) (filter sl_burned log)) \<and>
    set (map (sl_nullifier R) (filter sl_burned log)) \<inter> ns_nullifiers ns = {} \<and>
    ns_nullifiers ns' = ns_nullifiers ns \<union> set (map (sl_nullifier R) (filter sl_burned log)) \<and>
    (\<forall>e\<in>set log. case sl_outputs e of
        Some toks \<Rightarrow> sl_burned e \<and> (\<Sum>t\<leftarrow>toks. unat (tok_value t)) = sl_value e
      | None \<Rightarrow> sl_burned e \<longrightarrow> can_lose R mint (sl_op e))"
    using assms(1)
  proof (induction ops arbitrary: ns g log)
    case (Cons op ops)
    obtain r ns1 g1 where s: "spend R mint op ns g = (r, ns1, g1)" by (metis surj_pair)
    obtain tl where l: "spends R mint ops ns1 g1 = (tl, ns')" using Cons.prems s by (auto simp: Let_def split: prod.splits)
    let ?n = "token_nullifier R (op_token op)"
    have log: "log = \<lparr>sl_op = op, sl_outputs = r, sl_burned = (?n \<notin> ns_nullifiers ns \<and> ?n \<in> ns_nullifiers ns1)\<rparr> # tl"
      using Cons.prems s l by (simp add: Let_def)
    note IH = Cons.IH [OF l]
    from spend_ends [OF s] show ?case
    proof
      assume "r = None \<and> ns_nullifiers ns1 = ns_nullifiers ns"
      then show ?thesis using IH by (simp add: log)
    next
      assume e: "?n \<notin> ns_nullifiers ns \<and> ns_nullifiers ns1 = insert ?n (ns_nullifiers ns) \<and>
        (case r of None \<Rightarrow> can_lose R mint op | Some toks \<Rightarrow> (\<Sum>t\<leftarrow>toks. unat (tok_value t)) = unat (tok_value (op_token op)))"
      then show ?thesis
        using IH by (cases r) (auto simp: log sl_nullifier_def sl_value_def)
    qed
  qed simp
  have sums: "(\<Sum>e\<leftarrow>filter sl_burned es. sl_value e) =
      (\<Sum>e\<leftarrow>es. case sl_outputs e of Some toks \<Rightarrow> (\<Sum>t\<leftarrow>toks. unat (tok_value t)) | None \<Rightarrow> 0) +
      (\<Sum>e\<leftarrow>filter (\<lambda>e. sl_outputs e = None) (filter sl_burned es). sl_value e)"
    if "\<forall>e\<in>set es. case sl_outputs e of Some toks \<Rightarrow> sl_burned e \<and> (\<Sum>t\<leftarrow>toks. unat (tok_value t)) = sl_value e
      | None \<Rightarrow> sl_burned e \<longrightarrow> can_lose R mint (sl_op e)" for es
    using that by (induction es) (auto split: option.splits)
  have "sl_outputs e \<noteq> None"
    if "ristretto_group R \<and> mint_ok R mint \<and> list_all (well_used R mint) ops" "e \<in> set burned" for e
  proof -
    have "well_used R mint (sl_op e)" using that run by (auto simp: list_all_iff burned_def)
    with that run well_used_keeps [of R mint "sl_op e"] show ?thesis by (fastforce simp: burned_def split: option.splits)
  qed
  then show ?thesis
    using run sums [of log] unfolding burned_def by (simp add: list_all_iff)
qed

text \<open>C4: a transfer of an intact token. At its bound it is refused and nothing is spent. Below it, the nullifier set alone decides: if
  it refuses the token's nullifier, the transfer reports a double spend; otherwise the transfer succeeds and the
  token it returns is intact again (it passes every check of \<^verbatim>\<open>verify_token\<close>), has the same identity,
  value and bound, one more transfer and one more signed step at the end of its chain.\<close>

theorem transfer_preserves_token:
  assumes "ristretto_group R" and "token_ok R pk pedersen cp now tok"
    and "nullifier_insert w (token_nullifier R tok) ns = (fresh, ns1)" and "transfer R tok w ns g = (r, ns', g')"
  shows "if tok_transfer_count tok = tok_recursion_bound tok
    then r = Err (NeedsRenewal (tok_transfer_count tok) (tok_recursion_bound tok)) \<and> ns' = ns
    else ns' = ns1 \<and> (if \<not> fresh then r = Err (DoubleSpend (token_nullifier R tok))
      else \<exists>res vr. r = Ok res \<and> token_ok R pk pedersen cp now (tr_token res) \<and>
        verify_token R (tr_token res) pk pedersen cp now = Ok vr \<and> all_valid vr \<and>
        tr_spent_nullifier res = token_nullifier R tok \<and> tok_id (tr_token res) = tok_id tok \<and>
        tok_value (tr_token res) = tok_value tok \<and> tok_recursion_bound (tr_token res) = tok_recursion_bound tok \<and>
        unat (tok_transfer_count (tr_token res)) = unat (tok_transfer_count tok) + 1 \<and>
        (\<exists>s. steps_chain (tok_fold_proof (tr_token res)) = steps_chain (tok_fold_proof tok) @ [s]))"
proof (cases "tok_transfer_count tok = tok_recursion_bound tok")
  case True
  have "tok_value tok \<noteq> 0" using assms(2) by (simp add: token_ok_def issued_by_def)
  with True assms(4) show ?thesis by (simp add: transfer_def needs_renewal_def)
next
  case False
  have i: "issued_by R pk pedersen tok" "owned_chain R tok" "tok_transfer_count tok \<le> tok_recursion_bound tok"
    using assms(2) unfolding token_ok_def by blast+
  then have "tok_transfer_count tok < tok_recursion_bound tok" using False by simp
  then have o: "ns' = ns1" "if fresh then is_ok r else r = Err (DoubleSpend (token_nullifier R tok))"
    using ristretto_group.transfer_outcome [OF assms(1,2) _ assms(3), of g] assms(4) by auto
  show ?thesis
  proof (cases fresh)
    case True
    then obtain res where "r = Ok res" using o(2) by (auto simp: is_ok_iff)
    with assms(4) have tr: "transfer R tok w ns g = (Ok res, ns', g')" by simp
    have ok: "token_ok R pk pedersen cp now (tr_token res)" by (rule ristretto_group.transfer_token_ok [OF assms(1,2) tr])
    then obtain vr where "verify_token R (tr_token res) pk pedersen cp now = Ok vr" "all_valid vr" using token_ok_all_valid by blast
    then show ?thesis
      using False True o(1) ok \<open>r = Ok res\<close> transfer_Ok [OF tr] ristretto_group.transfer_keeps_ok(3-6,10) [OF assms(1) i(1,2) tr]
      by auto
  qed (use o False in auto)
qed

lemma demo_token:
  obtains tok where "token_of zp_prims demo_mint 0 tok" "tok_value tok = 100" "tok_transfer_count tok = 0" "tok_recursion_bound tok = 2"
  using zp.issue_full_ok [OF demo_mint_ok(1,2), of 100 None 0 None None "\<lambda>_. 4"] demo_mint_ok(3) by auto

lemma insert_fresh: "nullifier_insert None n nullifier_set_new = (True, nullifier_set_new\<lparr>ns_nullifiers := {n}\<rparr>)"
  by (simp add: nullifier_insert_def nullifier_set_new_def)

theorem transfer_preserves_token_witness:
  "\<exists>tok res ns' g'. transfer zp_prims tok None nullifier_set_new (\<lambda>_. 6) = (Ok res, ns', g') \<and> token_of zp_prims demo_mint 0 (tr_token res) \<and>
     tok_value (tr_token res) = 100"
proof -
  obtain tok where tok: "token_of zp_prims demo_mint 0 tok" "tok_value tok = 100" "tok_transfer_count tok = 0" "tok_recursion_bound tok = 2"
    by (rule demo_token)
  obtain r ns' g' where r: "transfer zp_prims tok None nullifier_set_new (\<lambda>_. 6) = (r, ns', g')" by (metis surj_pair)
  from transfer_preserves_token [OF zp.ristretto_group_axioms tok(1) insert_fresh r] tok(2-4) r show ?thesis by auto
qed

text \<open>C26: the checked transfer on an arbitrary, possibly tampered token, for every way it can end. It succeeds only if the token
  carries a mint signature on its identity, commitment and first owner, a proof of its value, and a valid chain that
  ends in the holder of its secret; the token it returns has the same properties and value, and its nullifier
  is newly spent. A refusal by the verification, for value zero or for renewal, and a panic of the
  verification leave the set untouched; a reported double spend puts nothing in. The one error after the
  burn is a failed fold: the nullifier is spent and the token lost, on a verified token whose unsigned transfer count
  is below its bound while its signed chain has reached it. On an intact token this does not happen
  and the checked transfer is the plain one.\<close>

theorem transfer_checked_sound:
  assumes "ristretto_group R" and "transfer_checked R tok w ns pk pedersen cp now g = (r, ns', g')"
  shows "(case r of
      Ok res \<Rightarrow> issued_by R pk pedersen tok \<and> owned_chain R tok \<and> nullifier_insert w (token_nullifier R tok) ns = (True, ns') \<and>
        issued_by R pk pedersen (tr_token res) \<and> owned_chain R (tr_token res) \<and> tok_value (tr_token res) = tok_value tok
    | Err (FoldFailed _) \<Rightarrow> issued_by R pk pedersen tok \<and> owned_chain R tok \<and>
        nullifier_insert w (token_nullifier R tok) ns = (True, ns') \<and>
        tok_transfer_count tok < tok_recursion_bound tok \<and> tok_recursion_bound tok \<le> ap_steps (tok_fold_proof tok)
    | Err (DoubleSpend n) \<Rightarrow> n = token_nullifier R tok \<and> nullifier_insert w n ns = (False, ns') \<and> ns_nullifiers ns' = ns_nullifiers ns
    | Err _ \<Rightarrow> ns' = ns
    | Panic \<Rightarrow> ns' = ns \<and> \<not> is_ok (verify_token R tok pk pedersen cp now)) \<and>
    (token_ok R pk pedersen cp now tok \<longrightarrow> transfer R tok w ns g = (r, ns', g') \<and> (\<forall>e. r \<noteq> Err (FoldFailed e)))"
proof
  from transfer_checked_runs [OF assms(2)]
  show "case r of
      Ok res \<Rightarrow> issued_by R pk pedersen tok \<and> owned_chain R tok \<and> nullifier_insert w (token_nullifier R tok) ns = (True, ns') \<and>
        issued_by R pk pedersen (tr_token res) \<and> owned_chain R (tr_token res) \<and> tok_value (tr_token res) = tok_value tok
    | Err (FoldFailed _) \<Rightarrow> issued_by R pk pedersen tok \<and> owned_chain R tok \<and>
        nullifier_insert w (token_nullifier R tok) ns = (True, ns') \<and>
        tok_transfer_count tok < tok_recursion_bound tok \<and> tok_recursion_bound tok \<le> ap_steps (tok_fold_proof tok)
    | Err (DoubleSpend n) \<Rightarrow> n = token_nullifier R tok \<and> nullifier_insert w n ns = (False, ns') \<and> ns_nullifiers ns' = ns_nullifiers ns
    | Err _ \<Rightarrow> ns' = ns
    | Panic \<Rightarrow> ns' = ns \<and> \<not> is_ok (verify_token R tok pk pedersen cp now)"
  proof
    assume "transfer R tok w ns g = (r, ns', g') \<and> issued_by R pk pedersen tok \<and> owned_chain R tok"
    then have t: "transfer R tok w ns g = (r, ns', g')" and i: "issued_by R pk pedersen tok" "owned_chain R tok" by blast+
    have count: "tok_transfer_count tok < tok_recursion_bound tok" if "r = Err (FoldFailed e)" for e
      using t that by (auto simp: transfer_def needs_renewal_def split: if_splits)
    show ?thesis
    proof (cases r)
      case (Ok res)
      then show ?thesis
        using transfer_Ok [OF t [unfolded Ok]] ristretto_group.transfer_keeps_ok(1,2,3) [OF assms(1) i t [unfolded Ok]] i by simp
    next
      case (Err e)
      then show ?thesis
        using transfer_ends [OF t] i count
        by (cases e) (auto simp: transfer_ends_def fold_refuses_def owned_chain_def dest: nullifier_insert_cases(1))
    qed (use transfer_ends [OF t] in \<open>simp add: transfer_ends_def\<close>)
  qed auto
next
  have "\<not> fold_refuses R tok" if "token_ok R pk pedersen cp now tok" "r = Err (FoldFailed e)" "transfer R tok w ns g = (r, ns', g')" for e
    using that by (auto simp: token_ok_def fold_refuses_def owned_chain_def transfer_def needs_renewal_def split: if_splits)
  then show "token_ok R pk pedersen cp now tok \<longrightarrow> transfer R tok w ns g = (r, ns', g') \<and> (\<forall>e. r \<noteq> Err (FoldFailed e))"
    using ristretto_group.transfer_checked_eq [OF assms(1)] assms(2) transfer_ends [of R tok w ns g r ns' g']
    by (auto simp: transfer_ends_def)
qed

text \<open>A run of the checked transfer on an intact token, and the same token again.\<close>

theorem transfer_checked_sound_witness:
  "\<exists>tok res ns' g' ns2 g2. let run = (\<lambda>ns. transfer_checked zp_prims tok None ns (group_public_key demo_mint)
        (mint_pedersen demo_mint) (iss_pedersen (mint_issuer demo_mint)) 0) in
     run nullifier_set_new (\<lambda>_. 6) = (Ok res, ns', g') \<and> run ns' g' = (Err (DoubleSpend (token_nullifier zp_prims tok)), ns2, g2) \<and>
     owned_chain zp_prims tok \<and> owned_chain zp_prims (tr_token res) \<and> ns_nullifiers ns2 = {token_nullifier zp_prims tok}"
proof -
  obtain tok where tok: "token_of zp_prims demo_mint 0 tok" "tok_transfer_count tok = 0" "tok_recursion_bound tok = 2"
    by (rule demo_token)
  let ?n = "token_nullifier zp_prims tok"
  let ?run = "\<lambda>ns. transfer_checked zp_prims tok None ns (group_public_key demo_mint) (mint_pedersen demo_mint)
      (iss_pedersen (mint_issuer demo_mint)) 0"
  obtain r ns' g' where r: "?run nullifier_set_new (\<lambda>_. 6) = (r, ns', g')" by (metis surj_pair)
  note s = transfer_checked_sound [OF zp.ristretto_group_axioms r]
  then have t: "transfer zp_prims tok None nullifier_set_new (\<lambda>_. 6) = (r, ns', g')" using tok(1) by blast
  then obtain res where res: "r = Ok res"
    using zp.transfer_outcome [OF tok(1) _ insert_fresh, of "\<lambda>_. 6"] tok(2,3) by (auto simp: is_ok_iff)
  have ns': "ns_nullifiers ns' = {?n}"
    using s res nullifier_insert_cases(1) [of None ?n nullifier_set_new True ns'] by (simp add: nullifier_set_new_def)
  obtain r2 ns2 g2 where r2: "?run ns' g' = (r2, ns2, g2)" by (metis surj_pair)
  note s2 = transfer_checked_sound [OF zp.ristretto_group_axioms r2]
  have ins: "nullifier_insert None ?n ns' = (False, ns')" using ns' by (simp add: nullifier_insert_def)
  then have "r2 = Err (DoubleSpend ?n)" "ns2 = ns'"
    using zp.transfer_outcome [OF tok(1) _ ins, of g'] tok s2 by auto
  moreover have "owned_chain zp_prims tok" "owned_chain zp_prims (tr_token res)" using s res by auto
  ultimately show ?thesis
    using r r2 res ns' by (intro exI [of _ tok] exI [of _ res] exI [of _ ns'] exI [of _ g'] exI [of _ ns2] exI [of _ g2]) (simp add: Let_def)
qed

text \<open>Renewal. A token of this mint with an intact chain and valid credential, worn out or not, is exchanged by a working
  mint for a fresh intact token of the same value with no transfers made and the same attributes, and the
  old token's nullifier is spent; if it was spent already, the renewal is refused. A success returns a
  token of the old value in every case.\<close>

lemma renewal_replaces_token:
  assumes "ristretto_group R" and "mint_ok R mint" and "quorum_ids (mint_keyset mint) signers"
    and "issued_by R (group_public_key mint) (mint_pedersen mint) old" and "owned_chain R old"
    and "creds_ok R (iss_pedersen (mint_issuer mint)) 0 old"
    and "nullifier_insert w (token_nullifier R old) ns = (fresh, ns1)" and "renew_token R old mint signers w ns g = (r, ns', g')"
  shows "ns' = ns1 \<and> (if \<not> fresh then r = Err AlreadySpent
    else \<exists>res. r = Ok res \<and> token_of R mint 0 (rr_new_token res) \<and> tok_value (rr_new_token res) = tok_value old \<and>
      tok_transfer_count (rr_new_token res) = 0 \<and> rr_old_nullifier res = token_nullifier R old)"
proof -
  obtain i g1 where i: "issue R mint (tok_value old) signers (map_option cred_attributes (tok_credential old)) g = (i, g1)" by fastforce
  have v: "tok_value old \<noteq> 0" using assms(4) by (simp add: issued_by_def)
  have "\<exists>tok. i = Ok tok \<and> token_of R mint 0 tok \<and> tok_value tok = tok_value old \<and> tok_transfer_count tok = 0"
    using ristretto_group.issue_full_ok [OF assms(1,2,3) v, of "map_option cred_attributes (tok_credential old)" 0 None None g] i
    by (auto simp: issue_def not_expired_def)
  then show ?thesis
    using renew_outcome [OF assms(4-7) i] assms(8) by auto
qed

lemma renewal_replaces_token_witness:
  "\<exists>old res ns' g'. tok_value old = 100 \<and> renew_token zp_prims old demo_mint [3, 1] None nullifier_set_new (\<lambda>_. 8) = (Ok res, ns', g') \<and>
     token_of zp_prims demo_mint 0 (rr_new_token res) \<and> tok_value (rr_new_token res) = 100"
proof -
  obtain tok where tok: "token_of zp_prims demo_mint 0 tok" "tok_value tok = 100" by (rule demo_token)
  obtain r ns' g' where r: "renew_token zp_prims tok demo_mint [3, 1] None nullifier_set_new (\<lambda>_. 8) = (r, ns', g')" by (metis surj_pair)
  have "issued_by zp_prims (group_public_key demo_mint) (mint_pedersen demo_mint) tok" "owned_chain zp_prims tok"
    "creds_ok zp_prims (iss_pedersen (mint_issuer demo_mint)) 0 tok" using tok(1) unfolding token_ok_def by blast+
  from renewal_replaces_token [OF zp.ristretto_group_axioms demo_mint_ok(1,2) this insert_fresh r] tok(2) r show ?thesis by auto
qed

text \<open>Renewal spends the old nullifier before it issues. If issuing then fails because the signers are no quorum, the holder gets an
  error, but the old token's nullifier is in the set: every later renewal of it is refused as already spent, and no transfer
  of it succeeds. The value is lost.\<close>

lemma renewal_failure_loses_token:
  assumes "issued_by R (group_public_key mint) (mint_pedersen mint) old" and "owned_chain R old"
    and "creds_ok R (iss_pedersen (mint_issuer mint)) 0 old"
    and "token_nullifier R old \<notin> ns_nullifiers ns" and "\<not> quorum_ids (mint_keyset mint) few"
    and "renew_token R old mint few None ns g = (r, ns', g')"
  shows "(\<exists>e. r = Err (MintError e)) \<and> fst (renew_token R old mint signers w ns' g2) = Err AlreadySpent \<and>
    \<not> is_ok (fst (transfer R old w ns' g2))"
proof -
  obtain b ns1 where b: "nullifier_insert None (token_nullifier R old) ns = (b, ns1)" by fastforce
  then have "b" and mem: "token_nullifier R old \<in> ns_nullifiers ns1" using nullifier_insert_cases [OF b] assms(4) by auto
  have "tok_value old \<noteq> 0" using assms(1) by (simp add: issued_by_def)
  then obtain e g1 where "issue R mint (tok_value old) few (map_option cred_attributes (tok_credential old)) g = (Err e, g1)"
    using issue_refused [OF assms(5) refl] unfolding issue_def by (metis fst_conv surj_pair)
  from renew_outcome [OF assms(1-3) b this] \<open>b\<close> assms(6) have r: "r = Err (MintError (show_mint_error e))" "ns' = ns1" by auto
  then have ins: "nullifier_insert w (token_nullifier R old) ns' = (False, ns')" using mem by (simp add: nullifier_insert_def)
  obtain i g3 where i: "issue R mint (tok_value old) signers (map_option cred_attributes (tok_credential old)) g2 = (i, g3)" by fastforce
  have "\<not> is_ok (fst (transfer R old w ns' g2))" by (simp add: transfer_def ins)
  then show ?thesis using r(1) renew_outcome [OF assms(1-3) ins i] by simp
qed

lemma renewal_failure_loses_token_witness:
  "\<exists>old r ns' g'. tok_value old = 100 \<and> renew_token zp_prims old demo_mint [1] None nullifier_set_new (\<lambda>_. 8) = (r, ns', g') \<and>
     \<not> is_ok r \<and> fst (renew_token zp_prims old demo_mint [3, 1] None ns' (\<lambda>_. 8)) = Err AlreadySpent"
proof -
  obtain tok where tok: "token_of zp_prims demo_mint 0 tok" "tok_value tok = 100" by (rule demo_token)
  obtain r ns' g' where r: "renew_token zp_prims tok demo_mint [1] None nullifier_set_new (\<lambda>_. 8) = (r, ns', g')" by (metis surj_pair)
  have "issued_by zp_prims (group_public_key demo_mint) (mint_pedersen demo_mint) tok" "owned_chain zp_prims tok"
    "creds_ok zp_prims (iss_pedersen (mint_issuer demo_mint)) 0 tok" using tok(1) unfolding token_ok_def by blast+
  from renewal_failure_loses_token [OF this _ _ r] demo_mint_threshold tok(2) r show ?thesis
    by (fastforce simp: nullifier_set_new_def quorum_ids_def)
qed

text \<open>One token in three operations: a transfer, and a transfer and a renewal that come too late.\<close>

theorem spends_once_and_conserve_witness:
  "\<exists>tok log ns'. spends zp_prims demo_mint [Op_transfer tok None, Op_transfer tok None, Op_renew tok [1] None] nullifier_set_new (\<lambda>_. 6) = (log, ns') \<and>
     map sl_burned log = [True, False, False] \<and> ns_nullifiers ns' = {token_nullifier zp_prims tok} \<and>
     (\<Sum>e\<leftarrow>log. case sl_outputs e of Some toks \<Rightarrow> (\<Sum>t\<leftarrow>toks. unat (tok_value t)) | None \<Rightarrow> 0) = 100"
proof -
  obtain tok where tok: "token_of zp_prims demo_mint 0 tok" "tok_value tok = 100" "tok_transfer_count tok = 0" "tok_recursion_bound tok = 2"
    by (rule demo_token)
  let ?ops = "[Op_transfer tok None, Op_transfer tok None, Op_renew tok [1] None]" and ?n = "token_nullifier zp_prims tok"
  obtain log ns' where l: "spends zp_prims demo_mint ?ops nullifier_set_new (\<lambda>_. 6) = (log, ns')" by fastforce
  note c = spends_once_and_conserve [OF l]
  obtain r ns1 g1 where t: "transfer zp_prims tok None nullifier_set_new (\<lambda>_. 6) = (r, ns1, g1)" by (metis surj_pair)
  then obtain res where res: "r = Ok res" "ns1 = nullifier_set_new\<lparr>ns_nullifiers := {?n}\<rparr>"
    using zp.transfer_outcome [OF tok(1) _ insert_fresh, of "\<lambda>_. 6"] tok(3,4) by (auto simp: is_ok_iff)
  obtain e1 e2 e3 where log: "log = [e1, e2, e3]" "sl_nullifier zp_prims e1 = ?n" "sl_nullifier zp_prims e2 = ?n"
      "sl_nullifier zp_prims e3 = ?n" "sl_burned e1" "sl_outputs e1 = Some [tr_token res]"
    using l t res by (auto simp: Let_def outputs_of_def nullifier_set_new_def sl_nullifier_def split: prod.splits)
  have nb: "\<not> sl_burned e2" "\<not> sl_burned e3" using c log by (auto split: if_splits)
  then have "sl_outputs e2 = None" "sl_outputs e3 = None" using c log by (auto split: option.splits)
  moreover have "unat (tok_value (tr_token res)) = 100" using transfer_value [OF t [unfolded res(1)]] tok(2) by simp
  ultimately show ?thesis using c l log nb by (intro exI [of _ tok] exI [of _ log] exI [of _ ns']) (simp add: nullifier_set_new_def)
qed

end
