(* ===== verification/Serde.thy ===== *)
theory Serde
  imports Codec Token_Transfer
begin

text \<open>
  \<^verbatim>\<open>specter-core/src/serde_token.rs\<close>: the byte format of tokens. The source writes out the credential and the
  presentation twice, once for the token's own and once for its pool; here each has one writer
  and one reader, used in both places (the pool's credential is read without the check of its jurisdiction). Which scalar
  values are alphanumeric is Unicode data that is not in the repository: the predicate \<open>alnum\<close>.
\<close>

section \<open>Writing\<close>

definition MAGIC :: bytes where "MAGIC = ascii ''SPCT''"
definition VERSION :: u8 where "VERSION = 1"

definition write_bool :: "bool \<Rightarrow> bytes" where
  "write_bool b = [of_bool b]"

definition write_step :: "('s, 'p) prims \<Rightarrow> ('s, 'p) transfer_step \<Rightarrow> bytes" where
  "write_step R s = compress R (new_owner_pk s) @ compress R (sig_r s) @ scalar_bytes R (sig_s s)"

definition write_credential :: "('s, 'p) prims \<Rightarrow> ('s, 'p) credential \<Rightarrow> bytes" where
  "write_credential R c =
     compress R (cred_commitment c) @ scalar_bytes R (cred_blinding c) @
     write_bool (kyc_passed (cred_attributes c)) @ write_bool (not_sanctioned (cred_attributes c)) @
     [of_nat (length (jurisdiction (cred_attributes c)))] @ ascii (jurisdiction (cred_attributes c)) @
     write_bool (age_over_18 (cred_attributes c)) @ u64_le (expires_at (cred_attributes c)) @
     scalar_bytes R (cred_signature_s c) @ scalar_bytes R (cred_signature_e c) @ compress R (cred_issuer_pk c)"

definition write_disclosed :: "('s, 'p) prims \<Rightarrow> nat \<times> 's \<Rightarrow> bytes" where
  "write_disclosed R d = [of_nat (fst d)] @ scalar_bytes R (snd d)"

definition write_presentation :: "('s, 'p) prims \<Rightarrow> ('s, 'p) presentation \<Rightarrow> bytes" where
  "write_presentation R p =
     compress R (pres_commitment p) @ compress R (pres_issuer_pk p) @
     scalar_bytes R (pres_cred_signature_s p) @ scalar_bytes R (pres_cred_signature_e p) @
     [of_nat (length (disclosed p))] @ concat (map (write_disclosed R) (disclosed p)) @
     compress R (proof_commitment p) @
     [of_nat (length (proof_response p))] @ concat (map (scalar_bytes R) (proof_response p)) @
     scalar_bytes R (proof_challenge p)"

definition write_vdf :: "vdf_proof \<Rightarrow> bytes" where
  "write_vdf v = vdf_seed v @ u64_le (vdf_iterations v) @ vdf_output v"

definition write_pool_entry :: "('s, 'p) prims \<Rightarrow> ('s, 'p) credential \<times> ('s, 'p) presentation \<Rightarrow> bytes" where
  "write_pool_entry R e = write_credential R (fst e) @ write_presentation R (snd e)"

definition write_option :: "('a \<Rightarrow> bytes) \<Rightarrow> 'a option \<Rightarrow> bytes" where
  "write_option wr x = (case x of Some y \<Rightarrow> [1] @ wr y | None \<Rightarrow> [0])"

definition serialize_token :: "('s, 'p) prims \<Rightarrow> ('s, 'p) proof_carrying_token \<Rightarrow> bytes" where
  "serialize_token R tok =
     MAGIC @ [VERSION] @ tok_id tok @ u64_le (tok_value tok) @ compress R (tok_value_commitment tok) @
     compress R (vp_commitment (tok_value_proof tok)) @ scalar_bytes R (vp_response (tok_value_proof tok)) @
     scalar_bytes R (bsig_s (tok_mint_signature tok)) @ scalar_bytes R (bsig_e (tok_mint_signature tok)) @
     tok_owner_secret tok @ tok_hash_chain_head tok @ u32_le (tok_transfer_count tok) @ u32_le (tok_recursion_bound tok) @
     compress R (genesis_owner_pk (tok_fold_proof tok)) @ u32_le (ap_steps (tok_fold_proof tok)) @
     concat (map (write_step R) (steps_chain (tok_fold_proof tok))) @ tok_genesis_owner_hash tok @
     write_option (write_credential R) (tok_credential tok) @ write_option (write_presentation R) (tok_presentation tok) @
     write_option write_vdf (tok_vdf_proof tok) @ write_option (\<lambda>i. i) (tok_bond_owner_id tok) @
     u16_le (of_nat (length (tok_credential_pool tok))) @ concat (map (write_pool_entry R) (tok_credential_pool tok))"

section \<open>Reading\<close>

definition read_point :: "('s, 'p) prims \<Rightarrow> 'p reader" where
  "read_point R = bindP (read_bytes 32) (\<lambda>bs data pos.
     case decompress R bs of Some p \<Rightarrow> Ok (p, pos) | None \<Rightarrow> Err (InvalidPoint (pos - 32)))"

definition read_scalar :: "('s, 'p) prims \<Rightarrow> 's reader" where
  "read_scalar R = bindP (read_bytes 32) (\<lambda>bs data pos.
     case from_canonical_bytes R bs of Some s \<Rightarrow> Ok (s, pos) | None \<Rightarrow> Err (InvalidScalar (pos - 32)))"

definition read_bool :: "bool reader" where
  "read_bool = bindP read_u8 (\<lambda>b. returnP (b \<noteq> 0))"

definition jurisdiction_safe :: "(nat \<Rightarrow> bool) \<Rightarrow> bytes \<Rightarrow> bool" where
  "jurisdiction_safe alnum bs \<longleftrightarrow> list_all (\<lambda>c. alnum c \<or> c = 45 \<or> c = 95) (utf8_chars bs)"

definition read_jurisdiction :: "(bytes \<Rightarrow> bool) \<Rightarrow> string reader" where
  "read_jurisdiction check = bindP read_u8 (\<lambda>jur_len. bindP (read_bytes (unat jur_len)) (\<lambda>jur_bytes.
     let jur = from_utf8_lossy jur_bytes
     in if \<not> check jur then failP (Io ''invalid jurisdiction characters'') else returnP (string_of_bytes jur)))"

definition read_credential :: "('s, 'p) prims \<Rightarrow> (bytes \<Rightarrow> bool) \<Rightarrow> ('s, 'p) credential reader" where
  "read_credential R check =
     bindP (read_point R) (\<lambda>commitment.
     bindP (read_scalar R) (\<lambda>blinding.
     bindP read_bool (\<lambda>kyc.
     bindP read_bool (\<lambda>sanctions.
     bindP (read_jurisdiction check) (\<lambda>jur.
     bindP read_bool (\<lambda>age.
     bindP read_u64 (\<lambda>expires.
     bindP (read_scalar R) (\<lambda>signature_s.
     bindP (read_scalar R) (\<lambda>signature_e.
     bindP (read_point R) (\<lambda>issuer_pk.
       returnP \<lparr>cred_commitment = commitment, cred_blinding = blinding,
         cred_attributes = \<lparr>kyc_passed = kyc, not_sanctioned = sanctions, jurisdiction = jur, age_over_18 = age, expires_at = expires\<rparr>,
         cred_signature_s = signature_s, cred_signature_e = signature_e, cred_issuer_pk = issuer_pk\<rparr>))))))))))"

definition read_disclosed :: "('s, 'p) prims \<Rightarrow> (nat \<times> 's) reader" where
  "read_disclosed R = bindP read_u8 (\<lambda>idx. bindP (read_scalar R) (\<lambda>val. returnP (unat idx, val)))"

definition read_presentation :: "('s, 'p) prims \<Rightarrow> ('s, 'p) presentation reader" where
  "read_presentation R =
     bindP (read_point R) (\<lambda>commitment.
     bindP (read_point R) (\<lambda>issuer_pk.
     bindP (read_scalar R) (\<lambda>signature_s.
     bindP (read_scalar R) (\<lambda>signature_e.
     bindP read_u8 (\<lambda>n_disclosed.
     bindP (repeatP (unat n_disclosed) (read_disclosed R)) (\<lambda>shown.
     bindP (read_point R) (\<lambda>announcement.
     bindP read_u8 (\<lambda>n_responses.
     bindP (repeatP (unat n_responses) (read_scalar R)) (\<lambda>responses.
     bindP (read_scalar R) (\<lambda>challenge.
       returnP \<lparr>pres_commitment = commitment, pres_issuer_pk = issuer_pk, pres_cred_signature_s = signature_s,
         pres_cred_signature_e = signature_e, disclosed = shown, proof_commitment = announcement,
         proof_response = responses, proof_challenge = challenge\<rparr>))))))))))"

definition read_vdf :: "vdf_proof reader" where
  "read_vdf = bindP read_array32 (\<lambda>seed. bindP read_u64 (\<lambda>iterations. bindP read_array32 (\<lambda>out.
     returnP \<lparr>vdf_seed = seed, vdf_iterations = iterations, vdf_output = out\<rparr>)))"

definition read_option :: "'a reader \<Rightarrow> 'a option reader" where
  "read_option rd = bindP read_u8 (\<lambda>flag. if flag = 1 then bindP rd (\<lambda>x. returnP (Some x)) else returnP None)"

definition read_step :: "('s, 'p) prims \<Rightarrow> ('s, 'p) transfer_step reader" where
  "read_step R = bindP (read_point R) (\<lambda>pk. bindP (read_point R) (\<lambda>r. bindP (read_scalar R) (\<lambda>s.
     returnP \<lparr>new_owner_pk = pk, sig_r = r, sig_s = s\<rparr>)))"

definition read_pool_entry :: "('s, 'p) prims \<Rightarrow> (('s, 'p) credential \<times> ('s, 'p) presentation) reader" where
  "read_pool_entry R = bindP (read_credential R (\<lambda>_. True)) (\<lambda>cred. bindP (read_presentation R) (\<lambda>pres. returnP (cred, pres)))"

definition MAX_FOLD_STEPS :: u32 where "MAX_FOLD_STEPS = 10000"
definition MAX_POOL :: nat where "MAX_POOL = 10000"

text \<open>A buffer that ends before the pool is the old format.\<close>

definition read_pool :: "('s, 'p) prims \<Rightarrow> (('s, 'p) credential \<times> ('s, 'p) presentation) list reader" where
  "read_pool R data pos =
     (if pos + 2 \<le> length data
      then bindP read_u16 (\<lambda>pool_count.
        if MAX_POOL < unat pool_count
        then failP (Io (''credential pool count '' @ show_nat (unat pool_count) @ '' exceeds cap '' @ show_nat MAX_POOL))
        else repeatP (unat pool_count) (read_pool_entry R)) data pos
      else Ok ([], pos))"

definition read_header :: "unit reader" where
  "read_header = bindP (read_bytes 4) (\<lambda>magic.
     if magic \<noteq> MAGIC then failP InvalidMagic
     else bindP read_u8 (\<lambda>version. if version \<noteq> VERSION then failP (UnsupportedVersion version) else returnP ()))"

definition read_fold_proof :: "('s, 'p) prims \<Rightarrow> ('s, 'p) accumulated_proof reader" where
  "read_fold_proof R =
     bindP (read_point R) (\<lambda>genesis_pk.
     bindP read_u32 (\<lambda>fold_steps.
       if MAX_FOLD_STEPS < fold_steps
       then failP (Io (''fold steps '' @ show_nat (unat fold_steps) @ '' exceeds cap '' @ show_nat (unat MAX_FOLD_STEPS)))
       else bindP (repeatP (unat fold_steps) (read_step R)) (\<lambda>chain.
         returnP \<lparr>genesis_owner_pk = genesis_pk, steps_chain = chain, ap_steps = fold_steps\<rparr>)))"

definition read_token :: "('s, 'p) prims \<Rightarrow> (nat \<Rightarrow> bool) \<Rightarrow> ('s, 'p) proof_carrying_token reader" where
  "read_token R alnum =
     bindP read_header (\<lambda>_.
     bindP read_array32 (\<lambda>token_id.
     bindP read_u64 (\<lambda>v.
       if v = 0 then failP (Io ''token value must be non-zero'')
       else
     bindP (read_point R) (\<lambda>value_commitment.
     bindP (read_point R) (\<lambda>proof_commitment.
     bindP (read_scalar R) (\<lambda>proof_response.
     bindP (read_scalar R) (\<lambda>sig_s.
     bindP (read_scalar R) (\<lambda>sig_e.
     bindP read_array32 (\<lambda>owner_secret.
     bindP read_array32 (\<lambda>hash_chain_head.
     bindP read_u32 (\<lambda>transfer_count.
     bindP read_u32 (\<lambda>recursion_bound.
       if recursion_bound < transfer_count then failP (Io ''transfer_count exceeds recursion_bound'')
       else
     bindP (read_fold_proof R) (\<lambda>fold_proof.
     bindP read_array32 (\<lambda>genesis_owner_hash.
     bindP (read_option (read_credential R (jurisdiction_safe alnum))) (\<lambda>cred.
     bindP (read_option (read_presentation R)) (\<lambda>pres.
     bindP (read_option read_vdf) (\<lambda>vdf.
     bindP (read_option read_array32) (\<lambda>bond.
     bindP (read_pool R) (\<lambda>pool.
       returnP \<lparr>tok_id = token_id, tok_value = v, tok_value_commitment = value_commitment,
         tok_value_proof = \<lparr>vp_commitment = proof_commitment, vp_response = proof_response\<rparr>,
         tok_mint_signature = \<lparr>bsig_s = sig_s, bsig_e = sig_e\<rparr>, tok_owner_secret = owner_secret,
         tok_hash_chain_head = hash_chain_head, tok_transfer_count = transfer_count, tok_recursion_bound = recursion_bound,
         tok_fold_proof = fold_proof, tok_genesis_owner_hash = genesis_owner_hash, tok_credential = cred,
         tok_presentation = pres, tok_vdf_proof = vdf, tok_bond_owner_id = bond, tok_credential_pool = pool\<rparr>)))))))))))))))))))"

definition deserialize_token :: "('s, 'p) prims \<Rightarrow> (nat \<Rightarrow> bool) \<Rightarrow> bytes \<Rightarrow> (('s, 'p) proof_carrying_token, serde_error) result" where
  "deserialize_token R alnum data = bindR (read_token R alnum data 0) (\<lambda>(tok, pos). Ok tok)"

fun show_serde_error :: "serde_error \<Rightarrow> string" where
  "show_serde_error (BufferTooShort need have_len) = ''buffer too short: need '' @ show_nat need @ '' bytes, have '' @ show_nat have_len"
| "show_serde_error (InvalidPoint off) = ''invalid point encoding at offset '' @ show_nat off"
| "show_serde_error (InvalidScalar off) = ''invalid scalar encoding at offset '' @ show_nat off"
| "show_serde_error InvalidMagic = ''invalid magic bytes''"
| "show_serde_error (UnsupportedVersion v) = ''unsupported version: '' @ show_nat (unat v)"
| "show_serde_error (Io e) = ''IO error: '' @ e"

section \<open>The public form\<close>

text \<open>\<^verbatim>\<open>fill(0)\<close> on a range of the buffer.\<close>

definition zero_range :: "nat \<Rightarrow> nat \<Rightarrow> bytes \<Rightarrow> bytes" where
  "zero_range off n buf = take off buf @ replicate n 0 @ drop (off + n) buf"

definition OWNER_SECRET_OFFSET :: nat where
  "OWNER_SECRET_OFFSET = 4 + 1 + 32 + 8 + 32 + 32 + 32 + 32 + 32"

definition serialize_token_public :: "('s, 'p) prims \<Rightarrow> ('s, 'p) proof_carrying_token \<Rightarrow> bytes" where
  "serialize_token_public R tok =
     (let buf = serialize_token R tok;
          buf = (if OWNER_SECRET_OFFSET + 32 \<le> length buf then zero_range OWNER_SECRET_OFFSET 32 buf else buf);
          fold_steps = unat (ap_steps (tok_fold_proof tok));
          cred_flag_offset = OWNER_SECRET_OFFSET + 32 + 32 + 4 + 4 + 32 + 4 + fold_steps * 96 + 32
      in if cred_flag_offset < length buf \<and> buf ! cred_flag_offset = 1
         then let blinding_offset = cred_flag_offset + 1 + 32
              in if blinding_offset + 32 \<le> length buf then zero_range blinding_offset 32 buf else buf
         else buf)"

definition serialized_size :: "('s, 'p) prims \<Rightarrow> ('s, 'p) proof_carrying_token \<Rightarrow> nat" where
  "serialized_size R tok = length (serialize_token R tok)"

section \<open>What can be written\<close>

definition cred_wf :: "(bytes \<Rightarrow> bool) \<Rightarrow> ('s, 'p) credential \<Rightarrow> bool" where
  "cred_wf check c \<longleftrightarrow> (let jur = jurisdiction (cred_attributes c) in
     length jur < 256 \<and> valid_utf8 (ascii jur) \<and> check (ascii jur))"

definition pres_wf :: "('s, 'p) presentation \<Rightarrow> bool" where
  "pres_wf p \<longleftrightarrow> length (disclosed p) < 256 \<and> (\<forall>d\<in>set (disclosed p). fst d < 256) \<and> length (proof_response p) < 256"

definition vdf_wf :: "vdf_proof \<Rightarrow> bool" where
  "vdf_wf v \<longleftrightarrow> length (vdf_seed v) = 32 \<and> length (vdf_output v) = 32"

definition fold_wf :: "('s, 'p) accumulated_proof \<Rightarrow> bool" where
  "fold_wf p \<longleftrightarrow> unat (ap_steps p) = length (steps_chain p) \<and> length (steps_chain p) \<le> 10000"

definition option_wf :: "('a \<Rightarrow> bool) \<Rightarrow> 'a option \<Rightarrow> bool" where
  "option_wf P x \<longleftrightarrow> (\<forall>y. x = Some y \<longrightarrow> P y)"

text \<open>
  The tokens the format can hold: the fixed arrays have their length, the counts fit, jurisdictions are strings.
\<close>

definition token_wf :: "(nat \<Rightarrow> bool) \<Rightarrow> ('s, 'p) proof_carrying_token \<Rightarrow> bool" where
  "token_wf alnum tok \<longleftrightarrow>
     length (tok_id tok) = 32 \<and> length (tok_owner_secret tok) = 32 \<and> length (tok_hash_chain_head tok) = 32 \<and>
     length (tok_genesis_owner_hash tok) = 32 \<and> tok_value tok \<noteq> 0 \<and> tok_transfer_count tok \<le> tok_recursion_bound tok \<and>
     fold_wf (tok_fold_proof tok) \<and> option_wf (cred_wf (jurisdiction_safe alnum)) (tok_credential tok) \<and>
     option_wf pres_wf (tok_presentation tok) \<and> option_wf vdf_wf (tok_vdf_proof tok) \<and>
     option_wf (\<lambda>i. length i = 32) (tok_bond_owner_id tok) \<and> length (tok_credential_pool tok) \<le> MAX_POOL \<and>
     (\<forall>e\<in>set (tok_credential_pool tok). cred_wf (\<lambda>_. True) (fst e) \<and> pres_wf (snd e))"

text \<open>What a token becomes when its owner's secret and its credential's blinding factor are wiped.\<close>

definition redact :: "('s::zero, 'p) proof_carrying_token \<Rightarrow> ('s, 'p) proof_carrying_token" where
  "redact tok = tok\<lparr>tok_owner_secret := replicate 32 0, tok_credential := map_option (\<lambda>c. c\<lparr>cred_blinding := 0\<rparr>) (tok_credential tok)\<rparr>"

section \<open>Every reader reads what its writer wrote\<close>

interpretation bool: codec write_bool read_bool "\<lambda>_. True"
  by unfold_locales (simp add: write_bool_def read_bool_def bindP_def returnP_def u8.rd_wr [simplified])

interpretation vdf: codec write_vdf read_vdf vdf_wf
  by unfold_locales
    (unfold write_vdf_def read_vdf_def vdf_wf_def append_assoc, simp only: array32.bind_wr u64.bind_wr, simp add: returnP_def)

lemma u8_count: "n < 256 \<Longrightarrow> unat (of_nat n :: u8) = n"
  by (simp add: unat_of_nat)

lemma length_ascii [simp]: "length (ascii s) = length s"
  by (simp add: ascii_def)

lemma option_codec:
  assumes "codec wr rd P"
  shows "codec (write_option wr) (read_option rd) (option_wf P)"
proof (rule codec.intro)
  fix x pre rest
  assume x: "option_wf P x"
  show "read_option rd (pre @ write_option wr x @ rest) (length pre) = Ok (x, length (pre @ write_option wr x))"
  proof (cases x)
    case None
    then show ?thesis unfolding write_option_def read_option_def by (simp only: option.case u8.bind_wr) (simp add: returnP_def)
  next
    case (Some y)
    then have "P y" using x by (simp add: option_wf_def)
    then show ?thesis
      unfolding Some write_option_def read_option_def option.case append_assoc
      by (simp only: u8.bind_wr codec.bind_wr [OF assms] simp_thms if_True) (simp add: returnP_def)
  qed
qed

interpretation opt_vdf: codec "write_option write_vdf" "read_option read_vdf" "option_wf vdf_wf"
  by (rule option_codec [OF vdf.codec_axioms])

interpretation opt_array32: codec "write_option (\<lambda>i. i)" "read_option read_array32" "option_wf (\<lambda>i. length i = 32)"
  by (rule option_codec [OF array32.codec_axioms])

interpretation header: codec "\<lambda>_. MAGIC @ [VERSION]" read_header "\<lambda>_. True"
proof
  fix pre rest and x :: unit
  have m: "length MAGIC = 4" by (simp add: MAGIC_def)
  show "read_header (pre @ (MAGIC @ [VERSION]) @ rest) (length pre) = Ok (x, length (pre @ MAGIC @ [VERSION]))"
    unfolding read_header_def append_assoc
    by (simp only: bind_read_bytes [OF m] simp_thms if_False u8.bind_wr) (simp add: returnP_def)
qed

sublocale ristretto \<subseteq> point: codec "compress R" "read_point R" "\<lambda>_. True"
  by unfold_locales (simp add: read_point_def bind_read_bytes length_compress decompress_compress)

sublocale ristretto \<subseteq> scalar: codec "scalar_bytes R" "read_scalar R" "\<lambda>_. True"
  by unfold_locales (simp add: read_scalar_def bind_read_bytes length_scalar_bytes from_canonical_scalar_bytes)

sublocale ristretto \<subseteq> step: codec "write_step R" "read_step R" "\<lambda>_. True"
  by unfold_locales
    (unfold write_step_def read_step_def append_assoc, simp only: point.bind_wr scalar.bind_wr, simp add: returnP_def)

sublocale ristretto \<subseteq> shown: codec "write_disclosed R" "read_disclosed R" "\<lambda>d. fst d < 256"
  by unfold_locales
    (unfold write_disclosed_def read_disclosed_def append_assoc, simp only: u8.bind_wr scalar.bind_wr u8_count, simp add: returnP_def)

context ristretto
begin

lemma credential_codec: "codec (write_credential R) (read_credential R check) (cred_wf check)"
proof (rule codec.intro)
  fix c :: "('s, 'p) credential" and pre rest
  assume c: "cred_wf check c"
  let ?j = "jurisdiction (cred_attributes c)"
  have j: "length ?j < 256" "valid_utf8 (ascii ?j)" "check (ascii ?j)" using c by (simp_all add: cred_wf_def Let_def)
  have jur: "bindP (read_jurisdiction check) f (pre @ [of_nat (length ?j)] @ ascii ?j @ rest) (length pre)
      = f ?j ((pre @ [of_nat (length ?j)] @ ascii ?j) @ rest) (length (pre @ [of_nat (length ?j)] @ ascii ?j))"
    for f :: "string \<Rightarrow> 'x reader" and pre rest
  proof -
    have "read_jurisdiction check (pre @ [of_nat (length ?j)] @ ascii ?j @ rest) (length pre)
        = Ok (?j, length ((pre @ [of_nat (length ?j)]) @ ascii ?j))"
      unfolding read_jurisdiction_def u8.bind_wr [OF TrueI] u8_count [OF j(1)] bind_read_bytes [OF length_ascii]
      by (simp add: j from_utf8_lossy_valid returnP_def)
    then show ?thesis by (simp add: bindP_def)
  qed
  show "read_credential R check (pre @ write_credential R c @ rest) (length pre) = Ok (c, length (pre @ write_credential R c))"
    unfolding write_credential_def read_credential_def append_assoc
    by (simp only: point.bind_wr scalar.bind_wr bool.bind_wr jur u64.bind_wr) (simp add: returnP_def)
qed

lemma presentation_codec: "codec (write_presentation R) (read_presentation R) pres_wf"
proof (rule codec.intro)
  fix p :: "('s, 'p) presentation" and pre rest
  assume "pres_wf p"
  then have p: "length (disclosed p) < 256" "\<forall>d\<in>set (disclosed p). fst d < 256" "length (proof_response p) < 256"
      "\<forall>s\<in>set (proof_response p). True"
    by (simp_all add: pres_wf_def)
  show "read_presentation R (pre @ write_presentation R p @ rest) (length pre) = Ok (p, length (pre @ write_presentation R p))"
    unfolding write_presentation_def read_presentation_def append_assoc
    by (simp only: point.bind_wr scalar.bind_wr u8.bind_wr u8_count [OF p(1)] u8_count [OF p(3)]
        shown.bind_repeat_wr [OF p(2) refl] scalar.bind_repeat_wr [OF p(4) refl])
      (simp add: returnP_def)
qed

lemma pool_entry_codec: "codec (write_pool_entry R) (read_pool_entry R) (\<lambda>e. cred_wf (\<lambda>_. True) (fst e) \<and> pres_wf (snd e))"
proof (rule codec.intro)
  fix e :: "('s, 'p) credential \<times> ('s, 'p) presentation" and pre rest
  assume e: "cred_wf (\<lambda>_. True) (fst e) \<and> pres_wf (snd e)"
  show "read_pool_entry R (pre @ write_pool_entry R e @ rest) (length pre) = Ok (e, length (pre @ write_pool_entry R e))"
    unfolding write_pool_entry_def read_pool_entry_def append_assoc
    by (simp only: codec.bind_wr [OF credential_codec conjunct1 [OF e]] codec.bind_wr [OF presentation_codec conjunct2 [OF e]])
      (simp add: returnP_def)
qed

lemma fold_codec: "codec (\<lambda>p. compress R (genesis_owner_pk p) @ u32_le (ap_steps p) @ concat (map (write_step R) (steps_chain p)))
  (read_fold_proof R) fold_wf"
proof (rule codec.intro)
  fix p :: "('s, 'p) accumulated_proof" and pre rest
  assume p: "fold_wf p"
  then have n: "unat (ap_steps p) = length (steps_chain p)" "\<forall>s\<in>set (steps_chain p). True" by (simp_all add: fold_wf_def)
  have le: "(MAX_FOLD_STEPS < ap_steps p) = False"
    using p by (simp add: fold_wf_def MAX_FOLD_STEPS_def word_less_nat_alt not_less)
  show "read_fold_proof R (pre @ (compress R (genesis_owner_pk p) @ u32_le (ap_steps p) @ concat (map (write_step R) (steps_chain p))) @ rest)
      (length pre) = Ok (p, length (pre @ compress R (genesis_owner_pk p) @ u32_le (ap_steps p) @ concat (map (write_step R) (steps_chain p))))"
    unfolding read_fold_proof_def append_assoc
    by (simp only: point.bind_wr u32.bind_wr le if_False n(1) step.bind_repeat_wr [OF n(2) refl]) (simp add: returnP_def)
qed

lemma pool_codec:
  "codec (\<lambda>pool. u16_le (of_nat (length pool)) @ concat (map (write_pool_entry R) pool)) (read_pool R)
    (\<lambda>pool. length pool \<le> MAX_POOL \<and> (\<forall>e\<in>set pool. cred_wf (\<lambda>_. True) (fst e) \<and> pres_wf (snd e)))"
proof (rule codec.intro)
  fix pool :: "(('s, 'p) credential \<times> ('s, 'p) presentation) list" and pre rest
  assume p: "length pool \<le> MAX_POOL \<and> (\<forall>e\<in>set pool. cred_wf (\<lambda>_. True) (fst e) \<and> pres_wf (snd e))"
  then have n: "unat (of_nat (length pool) :: u16) = length pool" by (simp add: MAX_POOL_def unat_of_nat)
  have le: "(MAX_POOL < length pool) = False" using p by (simp add: not_less)
  have room: "length pre + 2 \<le> length (pre @ (u16_le (of_nat (length pool)) @ concat (map (write_pool_entry R) pool)) @ rest) = True" by simp
  show "read_pool R (pre @ (u16_le (of_nat (length pool)) @ concat (map (write_pool_entry R) pool)) @ rest) (length pre)
      = Ok (pool, length (pre @ u16_le (of_nat (length pool)) @ concat (map (write_pool_entry R) pool)))"
    unfolding read_pool_def room if_True append_assoc
    by (simp only: u16.bind_wr n le if_False codec.repeat_wr [OF pool_entry_codec conjunct2 [OF p] refl]) simp
qed

lemmas token_readers = header.bind_wr [where x = "()"] array32.bind_wr u64.bind_wr u32.bind_wr point.bind_wr scalar.bind_wr
  codec.bind_wr [OF fold_codec] codec.bind_wr [OF option_codec [OF credential_codec]] codec.bind_wr [OF option_codec [OF presentation_codec]]
  opt_vdf.bind_wr opt_array32.bind_wr

text \<open>The whole token; whatever follows it in the buffer is ignored.\<close>

lemma read_token_written:
  assumes tok: "token_wf alnum tok"
  shows "read_token R alnum (serialize_token R tok @ rest) 0 = Ok (tok, length (serialize_token R tok))"
proof -
  have w: "length (tok_id tok) = 32" "length (tok_owner_secret tok) = 32" "length (tok_hash_chain_head tok) = 32"
      "length (tok_genesis_owner_hash tok) = 32" "(tok_value tok = 0) = False" "(tok_recursion_bound tok < tok_transfer_count tok) = False"
      "fold_wf (tok_fold_proof tok)" "option_wf (cred_wf (jurisdiction_safe alnum)) (tok_credential tok)"
      "option_wf pres_wf (tok_presentation tok)" "option_wf vdf_wf (tok_vdf_proof tok)" "option_wf (\<lambda>i. length i = 32) (tok_bond_owner_id tok)"
      "length (tok_credential_pool tok) \<le> MAX_POOL \<and> (\<forall>e\<in>set (tok_credential_pool tok). cred_wf (\<lambda>_. True) (fst e) \<and> pres_wf (snd e))"
    using tok by (simp_all add: token_wf_def not_less)
  let ?fold = "compress R (genesis_owner_pk (tok_fold_proof tok)) @ u32_le (ap_steps (tok_fold_proof tok)) @
    concat (map (write_step R) (steps_chain (tok_fold_proof tok)))"
  let ?pool = "u16_le (of_nat (length (tok_credential_pool tok))) @ concat (map (write_pool_entry R) (tok_credential_pool tok))"
  have bytes: "serialize_token R tok @ rest = [] @ (MAGIC @ [VERSION]) @ tok_id tok @ u64_le (tok_value tok) @ compress R (tok_value_commitment tok) @
     compress R (vp_commitment (tok_value_proof tok)) @ scalar_bytes R (vp_response (tok_value_proof tok)) @
     scalar_bytes R (bsig_s (tok_mint_signature tok)) @ scalar_bytes R (bsig_e (tok_mint_signature tok)) @
     tok_owner_secret tok @ tok_hash_chain_head tok @ u32_le (tok_transfer_count tok) @ u32_le (tok_recursion_bound tok) @
     ?fold @ tok_genesis_owner_hash tok @
     write_option (write_credential R) (tok_credential tok) @ write_option (write_presentation R) (tok_presentation tok) @
     write_option write_vdf (tok_vdf_proof tok) @ write_option (\<lambda>i. i) (tok_bond_owner_id tok) @ ?pool @ rest"
    by (simp add: serialize_token_def)
  have "read_token R alnum (serialize_token R tok @ rest) (length ([] :: bytes)) = Ok (tok, length (serialize_token R tok))"
    unfolding bytes read_token_def
    by (simp only: token_readers w(1-11) codec.bind_wr [OF pool_codec w(12)] if_False) (simp add: returnP_def serialize_token_def)
  then show ?thesis by simp
qed

section \<open>The public form\<close>

lemma zero_range_at: "length pre = off \<Longrightarrow> length x = n \<Longrightarrow> zero_range off n (pre @ x @ post) = pre @ replicate n 0 @ post"
  by (simp add: zero_range_def)

lemma length_steps: "length (concat (map (write_step R) chain)) = 96 * length chain"
  by (induction chain) (simp_all add: write_step_def length_compress length_scalar_bytes)

lemma serialize_public_eq:
  assumes zero: "scalar_bytes R 0 = replicate 32 0" and tok: "token_wf alnum tok"
  shows "serialize_token_public R tok = serialize_token R (redact tok)"
proof -
  have len: "length (tok_id tok) = 32" "length (tok_owner_secret tok) = 32" "length (tok_hash_chain_head tok) = 32"
      "length (tok_genesis_owner_hash tok) = 32" "unat (ap_steps (tok_fold_proof tok)) = length (steps_chain (tok_fold_proof tok))"
    using tok by (simp_all add: token_wf_def fold_wf_def)
  define A where "A = MAGIC @ [VERSION] @ tok_id tok @ u64_le (tok_value tok) @ compress R (tok_value_commitment tok) @
     compress R (vp_commitment (tok_value_proof tok)) @ scalar_bytes R (vp_response (tok_value_proof tok)) @
     scalar_bytes R (bsig_s (tok_mint_signature tok)) @ scalar_bytes R (bsig_e (tok_mint_signature tok))"
  define B where "B = tok_hash_chain_head tok @ u32_le (tok_transfer_count tok) @ u32_le (tok_recursion_bound tok) @
     compress R (genesis_owner_pk (tok_fold_proof tok)) @ u32_le (ap_steps (tok_fold_proof tok)) @
     concat (map (write_step R) (steps_chain (tok_fold_proof tok))) @ tok_genesis_owner_hash tok"
  define C where "C = write_option (write_presentation R) (tok_presentation tok) @
     write_option write_vdf (tok_vdf_proof tok) @ write_option (\<lambda>i. i) (tok_bond_owner_id tok) @
     u16_le (of_nat (length (tok_credential_pool tok))) @ concat (map (write_pool_entry R) (tok_credential_pool tok))"
  have A: "length A = 205" by (simp add: A_def MAGIC_def len length_compress length_scalar_bytes)
  have B: "length B = 108 + length (steps_chain (tok_fold_proof tok)) * 96" by (simp add: B_def len length_compress length_steps)
  have ser: "serialize_token R tok = A @ tok_owner_secret tok @ B @ write_option (write_credential R) (tok_credential tok) @ C"
    by (simp add: serialize_token_def A_def B_def C_def)
  define P where "P = A @ replicate 32 0 @ B"
  have ser': "serialize_token R (redact tok) = P @
      write_option (write_credential R) (map_option (\<lambda>c. c\<lparr>cred_blinding := 0\<rparr>) (tok_credential tok)) @ C"
    by (simp add: serialize_token_def P_def A_def B_def C_def redact_def)
  define off where "off = OWNER_SECRET_OFFSET + 32 + 32 + 4 + 4 + 32 + 4 + unat (ap_steps (tok_fold_proof tok)) * 96 + 32"
  have P: "length P = off" by (simp add: P_def off_def A B len OWNER_SECRET_OFFSET_def)
  have first: "zero_range OWNER_SECRET_OFFSET 32 (serialize_token R tok) = P @ write_option (write_credential R) (tok_credential tok) @ C"
    unfolding ser P_def by (subst zero_range_at) (simp_all add: A len OWNER_SECRET_OFFSET_def)
  have "OWNER_SECRET_OFFSET + 32 \<le> length (serialize_token R tok)" by (simp add: ser A len OWNER_SECRET_OFFSET_def)
  note public = serialize_token_public_def [of R tok, unfolded Let_def off_def [symmetric] first if_P [OF this]]
  show ?thesis
  proof (cases "tok_credential tok")
    case None
    then show ?thesis unfolding public ser' by (simp add: P [symmetric] write_option_def nth_append)
  next
    case (Some c)
    define D where "D = drop 64 (write_credential R c)"
    have c: "write_credential R c = compress R (cred_commitment c) @ scalar_bytes R (cred_blinding c) @ D"
        "write_credential R (c\<lparr>cred_blinding := 0\<rparr>) = compress R (cred_commitment c) @ replicate 32 0 @ D"
      by (simp_all add: D_def write_credential_def length_compress length_scalar_bytes zero)
    have "zero_range (off + 1 + 32) 32 ((P @ [1] @ compress R (cred_commitment c)) @ scalar_bytes R (cred_blinding c) @ D @ C)
        = (P @ [1] @ compress R (cred_commitment c)) @ replicate 32 0 @ D @ C"
      by (rule zero_range_at) (simp_all add: P length_compress length_scalar_bytes)
    then show ?thesis
      unfolding public ser' using P by (simp add: Some write_option_def c nth_append length_compress length_scalar_bytes)
  qed
qed

lemma redact_wf: "token_wf alnum tok \<Longrightarrow> token_wf alnum (redact tok)"
  by (cases "tok_credential tok") (simp_all add: token_wf_def redact_def option_wf_def cred_wf_def)

end

section \<open>Reading anything\<close>

lemma spec_point [reader_intros]: "reader_spec (read_point R) (\<lambda>_. True)"
  unfolding read_point_def by (rule spec_bind [OF spec_read_bytes]) (auto simp: reader_spec_def split: option.split)

lemma spec_scalar [reader_intros]: "reader_spec (read_scalar R) (\<lambda>_. True)"
  unfolding read_scalar_def by (rule spec_bind [OF spec_read_bytes]) (auto simp: reader_spec_def split: option.split)

lemma spec_bool [reader_intros]: "reader_spec read_bool (\<lambda>_. True)"
  unfolding read_bool_def by (rule reader_intros TrueI)+

lemma spec_header [reader_intros]: "reader_spec read_header (\<lambda>_. True)"
  unfolding read_header_def by (rule reader_intros TrueI)+

lemma spec_jurisdiction [reader_intros]: "reader_spec (read_jurisdiction check) (\<lambda>_. True)"
  unfolding read_jurisdiction_def Let_def by (rule reader_intros TrueI)+

lemma spec_credential [reader_intros]: "reader_spec (read_credential R check) (\<lambda>_. True)"
  unfolding read_credential_def by (rule reader_intros TrueI)+

lemma spec_disclosed [reader_intros]: "reader_spec (read_disclosed R) (\<lambda>_. True)"
  unfolding read_disclosed_def by (rule reader_intros TrueI)+

lemma spec_presentation [reader_intros]: "reader_spec (read_presentation R) (\<lambda>_. True)"
  unfolding read_presentation_def by (rule reader_intros TrueI)+

lemma spec_option [reader_intros]: "reader_spec rd P \<Longrightarrow> reader_spec (read_option rd) (option_wf P)"
  unfolding read_option_def
  by (rule spec_bind [OF spec_ints(1)], rule spec_if, rule spec_bind, assumption)
    (auto simp: option_wf_def intro!: spec_return)

lemma spec_vdf [reader_intros]: "reader_spec read_vdf vdf_wf"
  unfolding read_vdf_def vdf_wf_def by (rule reader_intros | simp)+

lemma spec_fold [reader_intros]: "reader_spec (read_fold_proof R) fold_wf"
proof -
  have "reader_spec (read_step R) (\<lambda>_. True)" unfolding read_step_def by (rule reader_intros TrueI)+
  then show ?thesis
    unfolding read_fold_proof_def
    by (auto intro!: reader_intros simp: fold_wf_def MAX_FOLD_STEPS_def word_less_nat_alt not_less)
qed

lemma spec_pool [reader_intros]: "reader_spec (read_pool R) (\<lambda>pool. length pool \<le> MAX_POOL)"
proof -
  have e: "reader_spec (read_pool_entry R) (\<lambda>_. True)" unfolding read_pool_entry_def by (rule reader_intros TrueI)+
  have "reader_spec (bindP read_u16 (\<lambda>n. if MAX_POOL < unat n
      then failP (Io (''credential pool count '' @ show_nat (unat n) @ '' exceeds cap '' @ show_nat MAX_POOL))
      else repeatP (unat n) (read_pool_entry R))) (\<lambda>pool. length pool \<le> MAX_POOL)"
    by (rule spec_bind [OF spec_ints(2)], rule spec_if, rule spec_fail, rule spec_weaken [OF spec_repeat [OF e]]) simp
  then show ?thesis by (auto simp: reader_spec_def read_pool_def)
qed

definition token_bounds :: "('s, 'p) proof_carrying_token \<Rightarrow> bool" where
  "token_bounds tok \<longleftrightarrow> tok_value tok \<noteq> 0 \<and> tok_transfer_count tok \<le> tok_recursion_bound tok \<and>
     unat (ap_steps (tok_fold_proof tok)) = length (steps_chain (tok_fold_proof tok)) \<and>
     length (steps_chain (tok_fold_proof tok)) \<le> 10000 \<and> length (tok_credential_pool tok) \<le> 10000 \<and>
     length (tok_id tok) = 32 \<and> length (tok_owner_secret tok) = 32 \<and> length (tok_hash_chain_head tok) = 32 \<and>
     length (tok_genesis_owner_hash tok) = 32"

lemma spec_token: "reader_spec (read_token R alnum) token_bounds"
  unfolding read_token_def
  by (auto intro!: reader_intros simp: token_bounds_def fold_wf_def MAX_POOL_def not_less)

section \<open>Properties\<close>

text \<open>C7: the byte format loses nothing: every token with well-formed fields, transferred or not, with or without credential,
  presentation, delay proof, bond and pool, is read back from its serialization exactly, and bytes that
  follow it in the buffer do not matter.\<close>

theorem token_roundtrip:
  assumes "ristretto R" and "token_wf alnum tok"
  shows "deserialize_token R alnum (serialize_token R tok @ rest) = Ok tok"
  using ristretto.read_token_written [OF assms] by (simp add: deserialize_token_def)

definition ascii_alnum :: "nat \<Rightarrow> bool" where
  "ascii_alnum c \<longleftrightarrow> (48 \<le> c \<and> c \<le> 57) \<or> (65 \<le> c \<and> c \<le> 90) \<or> (97 \<le> c \<and> c \<le> 122)"

definition demo_attributes :: attributes where
  "demo_attributes = \<lparr>kyc_passed = True, not_sanctioned = True, jurisdiction = ''EU'', age_over_18 = False, expires_at = 77\<rparr>"

definition demo_credential :: "(zp, zp) credential" where
  "demo_credential = \<lparr>cred_commitment = 4, cred_blinding = 5, cred_attributes = demo_attributes, cred_signature_s = 6,
     cred_signature_e = 7, cred_issuer_pk = 8\<rparr>"

definition sample_token :: "(zp, zp) proof_carrying_token" where
  "sample_token = \<lparr>tok_id = replicate 32 1, tok_value = 100, tok_value_commitment = 3, tok_value_proof = \<lparr>vp_commitment = 1, vp_response = 2\<rparr>,
     tok_mint_signature = \<lparr>bsig_s = 3, bsig_e = 4\<rparr>, tok_owner_secret = replicate 32 9, tok_hash_chain_head = replicate 32 2,
     tok_transfer_count = 1, tok_recursion_bound = 5,
     tok_fold_proof = \<lparr>genesis_owner_pk = 11, steps_chain = [\<lparr>new_owner_pk = 12, sig_r = 13, sig_s = 14\<rparr>], ap_steps = 1\<rparr>,
     tok_genesis_owner_hash = replicate 32 3, tok_credential = Some demo_credential,
     tok_presentation = None, tok_vdf_proof = None, tok_bond_owner_id = Some (replicate 32 8), tok_credential_pool = []\<rparr>"

lemma demo_jurisdiction: "cred_wf (jurisdiction_safe ascii_alnum) demo_credential"
proof -
  have "\<forall>b\<in>set (ascii ''EU''). unat b < 128" by (simp add: ascii_def)
  from utf8_ascii [OF this] show ?thesis
    by (simp add: cred_wf_def demo_credential_def demo_attributes_def jurisdiction_safe_def ascii_def ascii_alnum_def)
qed

lemma sample_token_wf: "token_wf ascii_alnum sample_token"
  using demo_jurisdiction by (simp add: token_wf_def sample_token_def fold_wf_def option_wf_def)

theorem token_roundtrip_witness:
  "deserialize_token zp_prims ascii_alnum (serialize_token zp_prims sample_token @ [1, 2, 3]) = Ok sample_token"
  by (rule token_roundtrip [OF zp.ristretto_axioms sample_token_wf])

text \<open>The form for the network is the serialization with the owner's secret and the blinding factor of the token's credential
  zeroed, wherever the credential starts in the buffer: reading it gives the token with these two fields wiped and all
  else unchanged. The blinding factors of the credentials in the pool are among what is unchanged.\<close>

lemma public_form_redacts:
  assumes "ristretto R" and "scalar_bytes R 0 = replicate 32 0" and "token_wf alnum tok"
  shows "deserialize_token R alnum (serialize_token_public R tok) = Ok (tok\<lparr>tok_owner_secret := replicate 32 0,
    tok_credential := map_option (\<lambda>c. c\<lparr>cred_blinding := 0\<rparr>) (tok_credential tok)\<rparr>)"
  using ristretto.read_token_written [OF assms(1) ristretto.redact_wf [OF assms(1,3)], of "[]"]
  by (simp add: deserialize_token_def ristretto.serialize_public_eq [OF assms] redact_def)

lemma public_form_redacts_witness:
  "deserialize_token zp_prims ascii_alnum (serialize_token_public zp_prims sample_token) =
     Ok (sample_token\<lparr>tok_owner_secret := replicate 32 0, tok_credential := Some (demo_credential\<lparr>cred_blinding := 0\<rparr>)\<rparr>)"
proof -
  have "nat_to_le k 0 = replicate k 0" for k by (induction k) auto
  then have "scalar_bytes zp_prims 0 = replicate 32 0" by (simp add: zp_prims_def zp_bytes_def zero_zp.rep_eq)
  from public_form_redacts [OF zp.ristretto_axioms this sample_token_wf] show ?thesis by (simp add: sample_token_def)
qed

text \<open>C27: the deserializer accepts no out-of-range token and never panics: on every byte sequence it returns an error or a token
  with non-zero value, a transfer counter within its bound, as many steps as its step counter says, at most ten thousand
  steps and pool entries, and 32-byte arrays.\<close>

theorem deserialize_total_and_bounded:
  "case deserialize_token R alnum data of Ok tok \<Rightarrow> token_bounds tok | Err e \<Rightarrow> True | Panic \<Rightarrow> False"
proof (cases "read_token R alnum data 0")
  case (Ok r)
  then show ?thesis using spec_token [of R alnum] by (cases r) (auto simp: deserialize_token_def reader_spec_def)
qed (use spec_token [of R alnum] in \<open>auto simp: deserialize_token_def reader_spec_def\<close>)

end
