(* ===== verification/Secure_Store.thy ===== *)
theory Secure_Store
  imports Serde
begin

text \<open>
  \<^verbatim>\<open>specter-core/src/secure_store.rs\<close> and the encrypted forms of \<^verbatim>\<open>serde_token.rs\<close>. Argon2id and
  ChaCha20-Poly1305 are third-party crates: the record \<open>aead_prims\<close> has the functions that are called, the locale
  \<open>aead\<close> their documented law, that decryption under the same key and nonce inverts encryption.
\<close>

section \<open>The functions the code calls\<close>

text \<open>\<open>None\<close> is the error each of them may return.\<close>

record aead_prims =
  argon2id :: "bytes \<Rightarrow> bytes \<Rightarrow> bytes option"
  aead_encrypt :: "bytes \<Rightarrow> bytes \<Rightarrow> bytes \<Rightarrow> bytes option"
  aead_decrypt :: "bytes \<Rightarrow> bytes \<Rightarrow> bytes \<Rightarrow> bytes option"

locale aead =
  fixes A :: aead_prims
  assumes decrypt_encrypt: "aead_encrypt A key nonce plain = Some ct \<Longrightarrow> aead_decrypt A key nonce ct = Some plain"

section \<open>Encryption with a passphrase\<close>

record encrypted_data =
  enc_salt :: bytes
  enc_nonce :: bytes
  enc_ciphertext :: bytes

datatype secure_store_error =
    DecryptionFailed
  | EncryptionFailed
  | PassphraseTooShort nat nat

fun show_secure_store_error :: "secure_store_error \<Rightarrow> string" where
  "show_secure_store_error DecryptionFailed = ''decryption failed - wrong passphrase or corrupted data''"
| "show_secure_store_error EncryptionFailed = ''encryption failed - buffer overflow or AEAD error''"
| "show_secure_store_error (PassphraseTooShort lo got) =
     ''passphrase too short: need at least '' @ show_nat lo @ '' bytes, got '' @ show_nat got"

text \<open>\<^verbatim>\<open>expect\<close> on the result of the hash panics.\<close>

definition derive_key :: "aead_prims \<Rightarrow> bytes \<Rightarrow> bytes \<Rightarrow> (bytes, 'e) result" where
  "derive_key A passphrase salt = (case argon2id A passphrase salt of Some key \<Rightarrow> Ok key | None \<Rightarrow> Panic)"

definition MIN_PASSPHRASE_LEN :: nat where
  "MIN_PASSPHRASE_LEN = 12"

definition encrypt :: "aead_prims \<Rightarrow> bytes \<Rightarrow> bytes \<Rightarrow> rng \<Rightarrow> (encrypted_data, secure_store_error) result \<times> rng" where
  "encrypt A plaintext passphrase g =
     (if length passphrase < MIN_PASSPHRASE_LEN
      then (Err (PassphraseTooShort MIN_PASSPHRASE_LEN (length passphrase)), g)
      else
        let (salt, g) = fill_bytes 16 g;
            (nonce, g) = fill_bytes 12 g
        in (bindR (derive_key A passphrase salt) (\<lambda>key.
             bindR (ok_or (aead_encrypt A key nonce plaintext) EncryptionFailed) (\<lambda>ciphertext.
               Ok \<lparr>enc_salt = salt, enc_nonce = nonce, enc_ciphertext = ciphertext\<rparr>)), g))"

definition decrypt :: "aead_prims \<Rightarrow> encrypted_data \<Rightarrow> bytes \<Rightarrow> (bytes, secure_store_error) result" where
  "decrypt A encrypted passphrase =
     bindR (derive_key A passphrase (enc_salt encrypted)) (\<lambda>key.
       ok_or (aead_decrypt A key (enc_nonce encrypted) (enc_ciphertext encrypted)) DecryptionFailed)"

text \<open>The hexadecimal rendering, of a library, is a parameter.\<close>

definition fingerprint :: "('s, 'p) prims \<Rightarrow> (bytes \<Rightarrow> string) \<Rightarrow> encrypted_data \<Rightarrow> string" where
  "fingerprint R hex_encode data = hex_encode (take 8 (sha256 R (enc_ciphertext data)))"

section \<open>Encrypted tokens\<close>

definition serialize_encrypted ::
  "('s, 'p) prims \<Rightarrow> aead_prims \<Rightarrow> ('s, 'p) proof_carrying_token \<Rightarrow> bytes \<Rightarrow> rng \<Rightarrow> (encrypted_data, serde_error) result \<times> rng" where
  "serialize_encrypted R A tok passphrase g =
     apfst (map_err (\<lambda>e. Io (show_secure_store_error e))) (encrypt A (serialize_token R tok) passphrase g)"

definition deserialize_encrypted ::
  "('s, 'p) prims \<Rightarrow> aead_prims \<Rightarrow> (nat \<Rightarrow> bool) \<Rightarrow> encrypted_data \<Rightarrow> bytes \<Rightarrow>
     (('s, 'p) proof_carrying_token, serde_error) result" where
  "deserialize_encrypted R A alnum encrypted passphrase =
     bindR (map_err (\<lambda>e. Io (show_secure_store_error e)) (decrypt A encrypted passphrase)) (deserialize_token R alnum)"

section \<open>Laws\<close>

context aead
begin

lemma encrypt_Ok:
  assumes "encrypt A plain pass g = (Ok enc, g')"
  shows "decrypt A enc pass = Ok plain" and "12 \<le> length pass" and "length (enc_salt enc) = 16" and "length (enc_nonce enc) = 12"
proof -
  obtain salt g1 where s: "fill_bytes 16 g = (salt, g1)" by fastforce
  obtain nonce g2 where n: "fill_bytes 12 g1 = (nonce, g2)" by fastforce
  obtain key ct where kc: "argon2id A pass salt = Some key" "aead_encrypt A key nonce plain = Some ct"
    "enc = \<lparr>enc_salt = salt, enc_nonce = nonce, enc_ciphertext = ct\<rparr>" "12 \<le> length pass"
    using assms by (auto simp: encrypt_def derive_key_def s n MIN_PASSPHRASE_LEN_def not_less split: if_splits option.splits)
  then show "decrypt A enc pass = Ok plain" "12 \<le> length pass" "length (enc_salt enc) = 16" "length (enc_nonce enc) = 12"
    using decrypt_encrypt s n by (auto simp: decrypt_def derive_key_def)
qed

end

text \<open>A stand-in cipher and hash for the witnesses: the key is compared, as an authenticated cipher does.\<close>

definition tag_aead :: aead_prims where
  "tag_aead = \<lparr>argon2id = (\<lambda>p s. Some (p @ s)), aead_encrypt = (\<lambda>k n p. Some (len_le (k @ n) @ k @ n @ p)),
     aead_decrypt = (\<lambda>k n c. if take (8 + length (k @ n)) c = len_le (k @ n) @ k @ n then Some (drop (8 + length (k @ n)) c) else None)\<rparr>"

interpretation tag: aead tag_aead
  by unfold_locales (auto simp: tag_aead_def)

end
