(* ===== verification/Handshake.thy ===== *)
theory Handshake
  imports Secure_Store "HOL-Library.Sublist"
begin

text \<open>
  The channel of \<^verbatim>\<open>specter-cli/src/main.rs\<close>: the long-term identity of a node and its file, the signed key exchange
  \<^verbatim>\<open>authenticated_handshake\<close>, its variant with a key encapsulation, and the encryption under the session key.

  A connection is a record of what the peer sends, what was written, how much the network accepts (\<open>None\<close> for no limit), whether
  the timeouts could be set, and the tape of random bytes; an operation that fails with \<^verbatim>\<open>ok()?\<close> returns \<open>None\<close> and the
  connection as it left it. ML-KEM-768 is a third-party crate: the record \<open>kem_prims\<close> with the law of the locale \<open>kem\<close>.
\<close>

section \<open>Connections\<close>

record conn =
  rx :: bytes
  tx :: bytes
  tx_cap :: "nat option"
  timeouts_ok :: bool
  rnd :: rng

type_synonym 'a session = "conn \<Rightarrow> 'a option \<times> conn"

definition bindS :: "'a session \<Rightarrow> ('a \<Rightarrow> 'b session) \<Rightarrow> 'b session" where
  "bindS m f c = (case m c of (None, c) \<Rightarrow> (None, c) | (Some x, c) \<Rightarrow> f x c)"

definition liftS :: "'a option \<Rightarrow> 'a session" where
  "liftS x c = (x, c)"

definition write_all :: "bytes \<Rightarrow> unit session" where
  "write_all bs c =
     (case tx_cap c of
        None \<Rightarrow> (Some (), c\<lparr>tx := tx c @ bs\<rparr>)
      | Some n \<Rightarrow> if length (tx c) + length bs \<le> n then (Some (), c\<lparr>tx := tx c @ bs\<rparr>)
                  else (None, c\<lparr>tx := take n (tx c @ bs)\<rparr>))"

definition read_exact :: "nat \<Rightarrow> bytes session" where
  "read_exact n c = (if n \<le> length (rx c) then (Some (take n (rx c)), c\<lparr>rx := drop n (rx c)\<rparr>) else (None, c\<lparr>rx := []\<rparr>))"

definition set_timeouts :: "unit session" where
  "set_timeouts c = (if timeouts_ok c then Some () else None, c)"

definition draw_scalar :: "('s, 'p) prims \<Rightarrow> 's session" where
  "draw_scalar R c = (let (x, g) = random_scalar R (rnd c) in (Some x, c\<lparr>rnd := g\<rparr>))"

section \<open>The identity of a node\<close>

record ('s, 'p) node_identity =
  ni_secret :: 's
  ni_public :: 'p

definition identity_generate :: "('s, 'p) prims \<Rightarrow> rng \<Rightarrow> ('s, 'p) node_identity \<times> rng" where
  "identity_generate R g =
     (let (secret, g) = random_scalar R g
      in (\<lparr>ni_secret = secret, ni_public = smul R secret (basepoint R)\<rparr>, g))"

text \<open>The \<^verbatim>\<open>expect\<close> panics when the encryption fails.\<close>

definition identity_encode :: "('s, 'p) prims \<Rightarrow> aead_prims \<Rightarrow> ('s, 'p) node_identity \<Rightarrow> bytes \<Rightarrow> rng \<Rightarrow> (bytes, unit) result \<times> rng" where
  "identity_encode R A me passphrase g =
     (case encrypt A (scalar_bytes R (ni_secret me)) passphrase g of
        (Ok enc, g) \<Rightarrow>
          (Ok (ascii ''SID1'' @ enc_salt enc @ enc_nonce enc @ u32_le (of_nat (length (enc_ciphertext enc))) @ enc_ciphertext enc), g)
      | (_, g) \<Rightarrow> (Panic, g))"

definition identity_decode ::
  "('s, 'p) prims \<Rightarrow> aead_prims \<Rightarrow> bytes \<Rightarrow> bytes \<Rightarrow> (('s, 'p) node_identity option, unit) result" where
  "identity_decode R A data passphrase =
     (if length data < 4 + 16 + 12 + 4 \<or> take 4 data \<noteq> ascii ''SID1'' then Ok None
      else
        let salt = take 16 (drop 4 data);
            nonce = take 12 (drop 20 data);
            ct_len = le_to_nat (take 4 (drop 32 data))
        in if length data < 36 + ct_len then Ok None
           else case decrypt A \<lparr>enc_salt = salt, enc_nonce = nonce, enc_ciphertext = take ct_len (drop 36 data)\<rparr> passphrase of
                  Err _ \<Rightarrow> Ok None
                | Panic \<Rightarrow> Panic
                | Ok pt \<Rightarrow>
                    if length pt \<noteq> 32 then Ok None
                    else (case from_canonical_bytes R pt of
                            None \<Rightarrow> Ok None
                          | Some secret \<Rightarrow> Ok (Some \<lparr>ni_secret = secret, ni_public = smul R secret (basepoint R)\<rparr>)))"

section \<open>The signed key exchange\<close>

text \<open>The order of byte arrays.\<close>

fun bytes_less :: "bytes \<Rightarrow> bytes \<Rightarrow> bool" where
  "bytes_less [] ys \<longleftrightarrow> ys \<noteq> []"
| "bytes_less (x # xs) [] \<longleftrightarrow> False"
| "bytes_less (x # xs) (y # ys) \<longleftrightarrow> x < y \<or> (x = y \<and> bytes_less xs ys)"

definition sigma_order :: "bytes \<Rightarrow> bytes \<Rightarrow> bytes \<Rightarrow> bytes \<Rightarrow> bytes \<times> bytes \<times> bytes \<times> bytes" where
  "sigma_order mine_id mine_e theirs_id theirs_e =
     (if bytes_less mine_id theirs_id then (mine_id, theirs_id, mine_e, theirs_e)
      else (theirs_id, mine_id, theirs_e, mine_e))"

definition sigma_transcript :: "('s, 'p) prims \<Rightarrow> string \<Rightarrow> bytes \<times> bytes \<times> bytes \<times> bytes \<Rightarrow> bytes \<Rightarrow> bytes" where
  "sigma_transcript R tag ids secrets =
     (case ids of (id_a, id_b, ephem_a, ephem_b) \<Rightarrow>
        take 32 (sha512 R (ascii tag @ id_a @ id_b @ ephem_a @ ephem_b @ secrets)))"

definition sigma_challenge :: "('s, 'p) prims \<Rightarrow> string \<Rightarrow> 'p \<Rightarrow> 'p \<Rightarrow> bytes \<Rightarrow> 's" where
  "sigma_challenge R tag r pk msg = hash512 R (ascii tag @ compress R r @ compress R pk @ msg)"

definition sigma_key :: "('s, 'p) prims \<Rightarrow> string \<Rightarrow> bytes \<Rightarrow> bytes \<Rightarrow> bytes" where
  "sigma_key R tag secrets transcript = take 32 (sha512 R (ascii tag @ secrets @ transcript))"

text \<open>The check of the peer's identity against the expected one.\<close>

definition check_peer :: "('s, 'p) prims \<Rightarrow> 'p option \<Rightarrow> 'p \<Rightarrow> unit option" where
  "check_peer R expected_peer_pk their_id_pk =
     (case expected_peer_pk of
        None \<Rightarrow> Some ()
      | Some expected \<Rightarrow> if compress R their_id_pk = compress R expected then Some () else None)"

text \<open>
  What both variants do after the exchange of the first messages: sign the transcript, exchange the signatures, the initiator
  first, verify the peer's and derive the key. \<open>secrets\<close> are the shared secrets, one or two.
\<close>

definition sigma_finish ::
  "('s::field, 'p::ab_group_add) prims \<Rightarrow> string \<Rightarrow> string \<Rightarrow> bytes \<Rightarrow> bytes \<Rightarrow> ('s, 'p) node_identity \<Rightarrow> bool \<Rightarrow> 'p \<Rightarrow> bytes session" where
  "sigma_finish R sig_tag key_tag transcript secrets me is_initiator their_id_pk =
     bindS (draw_scalar R) (\<lambda>k.
       let r_point = smul R k (basepoint R);
           e = sigma_challenge R sig_tag r_point (ni_public me) transcript;
           s = k + e * ni_secret me;
           write_sig = bindS (write_all (compress R r_point)) (\<lambda>_. write_all (scalar_bytes R s));
           read_sig = bindS (read_exact 32) (\<lambda>their_r. bindS (read_exact 32) (\<lambda>their_s. liftS (Some (their_r, their_s))))
       in bindS (if is_initiator then bindS write_sig (\<lambda>_. read_sig)
                 else bindS read_sig (\<lambda>sig. bindS write_sig (\<lambda>_. liftS (Some sig)))) (\<lambda>(their_r, their_s).
          bindS (liftS (decompress R their_r)) (\<lambda>their_r_point.
          bindS (liftS (from_canonical_bytes R their_s)) (\<lambda>their_s_scalar.
            let expected_e = sigma_challenge R sig_tag their_r_point their_id_pk transcript;
                lhs = smul R their_s_scalar (basepoint R);
                rhs = their_r_point + smul R expected_e their_id_pk
            in liftS (if lhs \<noteq> rhs then None else Some (sigma_key R key_tag secrets transcript))))))"

definition authenticated_handshake ::
  "('s::field, 'p::ab_group_add) prims \<Rightarrow> ('s, 'p) node_identity \<Rightarrow> 'p option \<Rightarrow> bool \<Rightarrow> bytes session" where
  "authenticated_handshake R me expected_peer_pk is_initiator =
     bindS set_timeouts (\<lambda>_. bindS (draw_scalar R) (\<lambda>ephem_sk.
       let ephem_pk = compress R (smul R ephem_sk (basepoint R));
           my_id_bytes = compress R (ni_public me);
           write_hello = bindS (write_all my_id_bytes) (\<lambda>_. write_all ephem_pk);
           read_hello = bindS (read_exact 32) (\<lambda>i. bindS (read_exact 32) (\<lambda>e. liftS (Some (i, e))))
       in bindS (if is_initiator then bindS write_hello (\<lambda>_. read_hello)
                 else bindS read_hello (\<lambda>h. bindS write_hello (\<lambda>_. liftS (Some h)))) (\<lambda>(their_id_bytes, their_ephem_bytes).
          bindS (liftS (decompress R their_id_bytes)) (\<lambda>their_id_pk.
          bindS (liftS (decompress R their_ephem_bytes)) (\<lambda>their_ephem_pk.
          bindS (liftS (check_peer R expected_peer_pk their_id_pk)) (\<lambda>_.
            let shared = compress R (smul R ephem_sk their_ephem_pk);
                transcript = sigma_transcript R ''specter-sigma-transcript:''
                  (sigma_order my_id_bytes ephem_pk their_id_bytes their_ephem_bytes) shared
            in sigma_finish R ''specter-sigma-sig:'' ''specter-sigma-key:'' transcript shared me is_initiator their_id_pk))))))"

section \<open>The variant with a key encapsulation\<close>

text \<open>
  \<^verbatim>\<open>generate\<close> gives a decapsulation key and the bytes of the encapsulation key, \<^verbatim>\<open>encapsulate\<close> a ciphertext and the shared
  secret; parsing a key or ciphertext of the right length does not fail.
\<close>

record 'd kem_prims =
  kem_generate :: "rng \<Rightarrow> ('d \<times> bytes) \<times> rng"
  kem_encapsulate :: "bytes \<Rightarrow> rng \<Rightarrow> (bytes \<times> bytes) option \<times> rng"
  kem_decapsulate :: "'d \<Rightarrow> bytes \<Rightarrow> bytes option"

definition KYBER_EK_LEN :: nat where "KYBER_EK_LEN = 1184"

definition KYBER_CT_LEN :: nat where "KYBER_CT_LEN = 1088"

locale kem =
  fixes K :: "'d kem_prims"
  assumes length_ek: "kem_generate K g = ((dk, ek), g') \<Longrightarrow> length ek = 1184"
    and encapsulates: "kem_generate K g = ((dk, ek), g') \<Longrightarrow>
      \<exists>ct ss h'. kem_encapsulate K ek h = (Some (ct, ss), h') \<and> length ct = 1088 \<and> kem_decapsulate K dk ct = Some ss"

definition kem_key_pair :: "'d kem_prims \<Rightarrow> ('d \<times> bytes) session" where
  "kem_key_pair K c = (let (kp, g) = kem_generate K (rnd c) in (Some kp, c\<lparr>rnd := g\<rparr>))"

definition kem_encap :: "'d kem_prims \<Rightarrow> bytes \<Rightarrow> (bytes \<times> bytes) session" where
  "kem_encap K ek c = (let (r, g) = kem_encapsulate K ek (rnd c) in (r, c\<lparr>rnd := g\<rparr>))"

definition hybrid_authenticated_handshake ::
  "('s::field, 'p::ab_group_add) prims \<Rightarrow> 'd kem_prims \<Rightarrow> ('s, 'p) node_identity \<Rightarrow> 'p option \<Rightarrow> bool \<Rightarrow> bytes session" where
  "hybrid_authenticated_handshake R K me expected_peer_pk is_initiator =
     bindS set_timeouts (\<lambda>_. bindS (draw_scalar R) (\<lambda>ephem_sk.
       let ephem_pk = compress R (smul R ephem_sk (basepoint R));
           my_id_bytes = compress R (ni_public me)
       in bindS (if is_initiator then bindS (kem_key_pair K) (\<lambda>kp. liftS (Some (Some kp))) else liftS (Some None)) (\<lambda>kyber_dk_pair.
          bindS (case kyber_dk_pair of
                   Some (dk, ek) \<Rightarrow> bindS (write_all my_id_bytes) (\<lambda>_. bindS (write_all ephem_pk) (\<lambda>_. write_all ek))
                 | None \<Rightarrow> liftS (Some ())) (\<lambda>_.
          bindS (read_exact 32) (\<lambda>their_id_bytes.
          bindS (read_exact 32) (\<lambda>their_ephem_bytes.
          bindS (read_exact (if is_initiator then KYBER_CT_LEN else KYBER_EK_LEN)) (\<lambda>kem_bytes.
          bindS (if is_initiator then liftS (Some ()) else bindS (write_all my_id_bytes) (\<lambda>_. write_all ephem_pk)) (\<lambda>_.
          bindS (liftS (decompress R their_id_bytes)) (\<lambda>their_id_pk.
          bindS (liftS (decompress R their_ephem_bytes)) (\<lambda>their_ephem_pk.
          bindS (liftS (check_peer R expected_peer_pk their_id_pk)) (\<lambda>_.
          bindS (case kyber_dk_pair of
                   Some (dk, ek) \<Rightarrow> liftS (kem_decapsulate K dk kem_bytes)
                 | None \<Rightarrow> bindS (kem_encap K kem_bytes) (\<lambda>(ct, ss). bindS (write_all ct) (\<lambda>_. liftS (Some ss)))) (\<lambda>kyber_shared.
            let secrets = compress R (smul R ephem_sk their_ephem_pk) @ kyber_shared;
                transcript = sigma_transcript R ''specter-hybrid-sigma-transcript:''
                  (sigma_order my_id_bytes ephem_pk their_id_bytes their_ephem_bytes) secrets
            in sigma_finish R ''specter-hybrid-sigma-sig:'' ''specter-hybrid-sigma-key:'' transcript secrets me is_initiator
                 their_id_pk))))))))))))"

section \<open>Encryption under the session key\<close>

definition encrypt_with_key :: "aead_prims \<Rightarrow> bytes \<Rightarrow> bytes \<Rightarrow> rng \<Rightarrow> bytes option \<times> rng" where
  "encrypt_with_key A plaintext key g =
     (let (nonce, g) = fill_bytes 12 g in (map_option (\<lambda>ct. nonce @ ct) (aead_encrypt A key nonce plaintext), g))"

definition decrypt_with_key :: "aead_prims \<Rightarrow> bytes \<Rightarrow> bytes \<Rightarrow> bytes option" where
  "decrypt_with_key A data key = (if length data < 12 then None else aead_decrypt A key (take 12 data) (drop 12 data))"

section \<open>Runs over an open connection\<close>

lemma bytes_less_irrefl: "\<not> bytes_less xs xs"
  by (induction xs) auto

lemma bytes_less_total: "xs \<noteq> ys \<Longrightarrow> length xs = length ys \<Longrightarrow> bytes_less xs ys \<or> bytes_less ys xs"
  by (induction xs ys rule: bytes_less.induct) auto

lemma bytes_less_asym: "bytes_less xs ys \<Longrightarrow> \<not> bytes_less ys xs"
  by (induction xs ys rule: bytes_less.induct) (auto elim: bytes_less.elims)

text \<open>Both sides order the four values the same way, provided that the identities differ.\<close>

lemma sigma_order_sym:
  "i \<noteq> j \<Longrightarrow> length i = length j \<Longrightarrow> sigma_order i e j f = sigma_order j f i e"
  using bytes_less_total [of i j] bytes_less_asym by (auto simp: sigma_order_def)

lemma sigma_order_same: "sigma_order i e i f = (i, i, f, e)"
  by (simp add: sigma_order_def bytes_less_irrefl)

definition sigma_signature :: "('s::field, 'p) prims \<Rightarrow> string \<Rightarrow> ('s, 'p) node_identity \<Rightarrow> bytes \<Rightarrow> 's \<Rightarrow> bytes" where
  "sigma_signature R tag me transcript k =
     (let r = smul R k (basepoint R)
      in compress R r @ scalar_bytes R (k + sigma_challenge R tag r (ni_public me) transcript * ni_secret me))"

definition sigma_accepts :: "('s::field, 'p::ab_group_add) prims \<Rightarrow> string \<Rightarrow> 'p \<Rightarrow> bytes \<Rightarrow> bytes \<Rightarrow> bytes \<Rightarrow> bool" where
  "sigma_accepts R tag pk transcript rb sb \<longleftrightarrow>
     (\<exists>r s. decompress R rb = Some r \<and> from_canonical_bytes R sb = Some s \<and>
        smul R s (basepoint R) = r + smul R (sigma_challenge R tag r pk transcript) pk)"

text \<open>What \<open>sigma_finish\<close> does when the network takes everything and the peer has sent two more fields.\<close>

lemma sigma_finish_run:
  assumes "tx_cap c = None" and "rx c = rb @ sb @ rest" and "length rb = 32" and "length sb = 32"
    and "random_scalar R (rnd c) = (k, g')"
  shows "sigma_finish R st kt tr secrets me i pk c =
    (if sigma_accepts R st pk tr rb sb then Some (sigma_key R kt secrets tr) else None,
     c\<lparr>rx := rest, tx := tx c @ sigma_signature R st me tr k, rnd := g'\<rparr>)"
  using assms
  by (cases i)
    (auto simp: sigma_finish_def bindS_def liftS_def draw_scalar_def write_all_def read_exact_def sigma_accepts_def
      sigma_signature_def Let_def split: option.splits)

text \<open>With nothing more from the peer, the initiator has sent its signature when it blocks and the responder has not.\<close>

lemma sigma_finish_blocks:
  assumes "tx_cap c = None" and "rx c = []" and "random_scalar R (rnd c) = (k, g')"
  shows "tx (snd (sigma_finish R st kt tr secrets me i pk c)) = tx c @ (if i then sigma_signature R st me tr k else [])"
  using assms
  by (cases i)
    (auto simp: sigma_finish_def bindS_def liftS_def draw_scalar_def write_all_def read_exact_def sigma_signature_def Let_def)

lemma authenticated_handshake_run:
  fixes me :: "('s::field, 'p::ab_group_add) node_identity"
  assumes "tx_cap c = None" and "timeouts_ok c" and "rx c = ib @ eb @ rest" and "length ib = 32" and "length eb = 32"
    and "random_scalar R (rnd c) = (x, g')" and "decompress R ib = Some P" and "decompress R eb = Some E"
    and "check_peer R expd P = Some ()"
  defines "X \<equiv> compress R (smul R x (basepoint R))" and "I \<equiv> compress R (ni_public me)"
    and "sh \<equiv> compress R (smul R x E)"
  shows "authenticated_handshake R me expd i c =
    sigma_finish R ''specter-sigma-sig:'' ''specter-sigma-key:''
      (sigma_transcript R ''specter-sigma-transcript:'' (sigma_order I X ib eb) sh) sh me i P
      (c\<lparr>rx := rest, tx := tx c @ I @ X, rnd := g'\<rparr>)"
  using assms
  by (cases c; cases i)
    (simp_all add: authenticated_handshake_def bindS_def liftS_def draw_scalar_def write_all_def read_exact_def set_timeouts_def
      Let_def)

context ristretto
begin

lemma signature_accepted:
  assumes "ni_public me = smul R (ni_secret me) (basepoint R)"
  shows "sigma_accepts R tag (ni_public me) tr (take 32 (sigma_signature R tag me tr k)) (drop 32 (sigma_signature R tag me tr k))"
  using assms by (simp add: sigma_accepts_def sigma_signature_def Let_def length_compress decompress_compress
      from_canonical_scalar_bytes smul_add_scalar smul_mult)

lemma length_sigma_signature: "length (sigma_signature R tag me tr k) = 64"
  by (simp add: sigma_signature_def Let_def length_compress length_scalar_bytes)

end

text \<open>One side of an honest run: the peer's messages are its identity, its ephemeral point and its signature.\<close>

definition open_conn :: "bytes \<Rightarrow> rng \<Rightarrow> conn" where
  "open_conn m g = \<lparr>rx = m, tx = [], tx_cap = None, timeouts_ok = True, rnd = g\<rparr>"

context ristretto
begin

lemma handshake_honest_side:
  fixes me peer :: "('s, 'p) node_identity" and y :: 's
  assumes id: "ni_public peer = smul R (ni_secret peer) (basepoint R)"
    and r1: "random_scalar R g = (x, g1)" and r2: "random_scalar R g1 = (k, g2)"
    and ex: "expd = None \<or> expd = Some (ni_public peer)"
  defines "E \<equiv> smul R y (basepoint R)"
  defines "I \<equiv> compress R (ni_public me)" and "X \<equiv> compress R (smul R x (basepoint R))"
    and "J \<equiv> compress R (ni_public peer)" and "Y \<equiv> compress R E" and "sh \<equiv> compress R (smul R x E)"
  defines "tr \<equiv> sigma_transcript R ''specter-sigma-transcript:'' (sigma_order I X J Y) sh"
  assumes m: "m = J @ Y @ sigma_signature R ''specter-sigma-sig:'' peer tr l"
  shows "authenticated_handshake R me expd i (open_conn m g) =
    (Some (sigma_key R ''specter-sigma-key:'' sh tr),
     (open_conn m g)\<lparr>rx := [], tx := I @ X @ sigma_signature R ''specter-sigma-sig:'' me tr k, rnd := g2\<rparr>)"
proof -
  let ?sig = "sigma_signature R ''specter-sigma-sig:'' peer tr l"
  let ?c = "(open_conn m g)\<lparr>rx := ?sig, tx := I @ X, rnd := g1\<rparr>"
  have "check_peer R expd (ni_public peer) = Some ()" using ex by (auto simp: check_peer_def)
  then have "authenticated_handshake R me expd i (open_conn m g) =
      sigma_finish R ''specter-sigma-sig:'' ''specter-sigma-key:'' tr sh me i (ni_public peer) ?c"
    using authenticated_handshake_run [of "open_conn m g" J Y ?sig R x g1 "ni_public peer" E expd me i] r1
    by (simp add: open_conn_def m J_def Y_def length_compress decompress_compress tr_def I_def X_def sh_def)
  also have "\<dots> = (if sigma_accepts R ''specter-sigma-sig:'' (ni_public peer) tr (take 32 ?sig) (drop 32 ?sig)
         then Some (sigma_key R ''specter-sigma-key:'' sh tr) else None,
       ?c\<lparr>rx := [], tx := tx ?c @ sigma_signature R ''specter-sigma-sig:'' me tr k, rnd := g2\<rparr>)"
    using r2 by (intro sigma_finish_run) (simp_all add: length_sigma_signature open_conn_def)
  finally show ?thesis using signature_accepted [OF id] by simp
qed

end

section \<open>Two sessions on one connection\<close>

text \<open>
  What a session has written when it has received \<open>m\<close>: a read that has not enough bytes stops the run, so this is what it wrote
  before it blocked, or all it writes if it returns.
\<close>

definition sent :: "'a session \<Rightarrow> rng \<Rightarrow> bytes \<Rightarrow> bytes" where
  "sent S g m = tx (snd (S (open_conn m g)))"

text \<open>
  Two connected sessions. The state is what has been delivered to the second and to the first; a step delivers some more of
  what the sender has written by then, in pieces of any size. Only what is written can be delivered, so two sessions that
  both wait for the other's first message make no step.
\<close>

inductive delivery :: "'a session \<Rightarrow> 'b session \<Rightarrow> rng \<Rightarrow> rng \<Rightarrow> bytes \<times> bytes \<Rightarrow> bytes \<times> bytes \<Rightarrow> bool" for A B ga gb where
  to_second: "bs \<noteq> [] \<Longrightarrow> prefix (pa @ bs) (sent A ga pb) \<Longrightarrow> delivery A B ga gb (pa, pb) (pa @ bs, pb)"
| to_first: "bs \<noteq> [] \<Longrightarrow> prefix (pb @ bs) (sent B gb pa) \<Longrightarrow> delivery A B ga gb (pa, pb) (pa, pb @ bs)"

text \<open>
  Whatever is delivered when, the exchange ends after a bounded number of bytes, and when nothing is left to deliver both
  sessions have returned the same value.
\<close>

definition agrees :: "bytes session \<Rightarrow> bytes session \<Rightarrow> rng \<Rightarrow> rng \<Rightarrow> bool" where
  "agrees A B ga gb \<longleftrightarrow>
     (\<exists>key n. \<forall>pa pb. (delivery A B ga gb)\<^sup>*\<^sup>* ([], []) (pa, pb) \<longrightarrow> length pa + length pb \<le> n \<and>
        ((\<nexists>st. delivery A B ga gb (pa, pb) st) \<longrightarrow>
           fst (A (open_conn pb ga)) = Some key \<and> fst (B (open_conn pa gb)) = Some key))"

text \<open>A session is causal if more input changes nothing that it has written or returned.\<close>

definition causal :: "'a session \<Rightarrow> bool" where
  "causal S \<longleftrightarrow> (\<forall>(c :: conn) m. tx_cap c = None \<longrightarrow>
     (let (r, c1) = S c; (r', c1') = S (c\<lparr>rx := rx c @ m\<rparr>)
      in tx_cap c1 = None \<and> prefix (tx c) (tx c1) \<and> prefix (tx c1) (tx c1') \<and>
         (r \<noteq> None \<longrightarrow> r' = r \<and> c1' = c1\<lparr>rx := rx c1 @ m\<rparr>)))"

lemma causalD:
  assumes "causal S" and "tx_cap c = None" and "S c = (r, c1)" and "S (c\<lparr>rx := rx c @ m\<rparr>) = (r', c1')"
  shows "tx_cap c1 = None" "prefix (tx c) (tx c1)" "prefix (tx c1) (tx c1')" "r \<noteq> None \<Longrightarrow> r' = r \<and> c1' = c1\<lparr>rx := rx c1 @ m\<rparr>"
  using assms unfolding causal_def by (auto simp: Let_def dest!: spec [of _ c] spec [of _ m])

lemma causal_bind:
  assumes S: "causal S" and T: "\<And>x. causal (T x)"
  shows "causal (bindS S T)"
  unfolding causal_def
proof (intro allI impI)
  fix c :: conn and m assume cap: "tx_cap c = None"
  obtain r c1 where r: "S c = (r, c1)" by fastforce
  obtain r' c1' where r': "S (c\<lparr>rx := rx c @ m\<rparr>) = (r', c1')" by fastforce
  note d = causalD [OF S cap r r']
  have cap': "tx_cap c1' = None"
    using causalD(1) [OF S _ r', of "[]" r' c1'] cap r' by simp
  show "let (r, c1) = bindS S T c; (r', c1') = bindS S T (c\<lparr>rx := rx c @ m\<rparr>)
      in tx_cap c1 = None \<and> prefix (tx c) (tx c1) \<and> prefix (tx c1) (tx c1') \<and>
         (r \<noteq> None \<longrightarrow> r' = r \<and> c1' = c1\<lparr>rx := rx c1 @ m\<rparr>)"
  proof (cases r)
    case None
    show ?thesis
    proof (cases r')
      case (Some x)
      obtain r2 c2 where t: "T x c1' = (r2, c2)" by fastforce
      then have "prefix (tx c1') (tx c2)" using causalD(2) [OF T cap' t, of "[]" r2 c2] by simp
      then show ?thesis using None Some r r' d t prefix_order.trans by (fastforce simp: bindS_def)
    qed (use None r r' d in \<open>simp add: bindS_def\<close>)
  next
    case (Some x)
    obtain r2 c2 where t: "T x c1 = (r2, c2)" by fastforce
    obtain r3 c3 where t3: "T x (c1\<lparr>rx := rx c1 @ m\<rparr>) = (r3, c3)" by fastforce
    from causalD [OF T d(1) t t3] show ?thesis
      using Some r r' d t t3 prefix_order.trans by (fastforce simp: bindS_def)
  qed
qed

lemma causal_steps:
  "causal (liftS x)" "causal (write_all bs)" "causal (read_exact n)" "causal set_timeouts" "causal (draw_scalar R)"
  "causal (kem_key_pair K)" "causal (kem_encap K ek)"
  by (auto simp: causal_def liftS_def write_all_def read_exact_def set_timeouts_def draw_scalar_def kem_key_pair_def kem_encap_def
      Let_def split: prod.splits)

lemma causal_cases:
  "causal S \<Longrightarrow> causal T \<Longrightarrow> causal (if b then S else T)"
  "(\<And>x y. causal (f x y)) \<Longrightarrow> causal (case p of (x, y) \<Rightarrow> f x y)"
  "causal S \<Longrightarrow> (\<And>x. causal (g x)) \<Longrightarrow> causal (case z of None \<Rightarrow> S | Some x \<Rightarrow> g x)"
  by (simp_all split: prod.split option.split)

lemmas causal_intros = causal_bind causal_steps causal_cases

lemma handshakes_causal:
  "causal (authenticated_handshake R me ex i)" "causal (hybrid_authenticated_handshake R K me ex i)"
  unfolding authenticated_handshake_def hybrid_authenticated_handshake_def sigma_finish_def Let_def
  by (intro causal_intros)+

lemma causal_sent: "causal S \<Longrightarrow> prefix m m' \<Longrightarrow> prefix (sent S g m) (sent S g m')"
proof -
  assume "causal S" "prefix m m'"
  then obtain zs where "m' = m @ zs" by (auto simp: prefix_def)
  moreover obtain r c1 r' c1' where "S (open_conn m g) = (r, c1)" "S ((open_conn m g)\<lparr>rx := rx (open_conn m g) @ zs\<rparr>) = (r', c1')"
    by (metis surj_pair)
  ultimately show ?thesis
    using causalD(3) [OF \<open>causal S\<close>, of "open_conn m g" r c1 zs r' c1'] by (simp add: open_conn_def sent_def)
qed

text \<open>
  The exchange of four messages: the first session speaks first, each answers the other's first part, and with both parts both
  return. Then every delivery ends with everything delivered.
\<close>

lemma four_messages_agree:
  assumes A: "causal A" and B: "causal B"
    and start: "prefix ha (sent A ga [])" "prefix hb (sent B gb ha)" "prefix ma (sent A ga hb)"
    and fin: "fst (A (open_conn mb ga)) = Some key" "sent A ga mb = ma" "fst (B (open_conn ma gb)) = Some key" "sent B gb ma = mb"
  shows "agrees A B ga gb"
proof -
  have reach: "prefix (fst st) ma \<and> prefix (snd st) mb \<and> prefix (fst st) (sent A ga (snd st)) \<and> prefix (snd st) (sent B gb (fst st))"
    if "(delivery A B ga gb)\<^sup>*\<^sup>* ([], []) st" for st
    using that
  proof (induction rule: rtranclp_induct)
    case (step st st')
    from step.hyps(2) show ?case
    proof cases
      case (to_second bs pa pb)
      have "prefix (sent A ga pb) ma" using causal_sent [OF A, of pb mb ga] fin step.IH to_second by simp
      moreover have "prefix (sent B gb pa) (sent B gb (pa @ bs))" by (rule causal_sent [OF B]) simp
      ultimately show ?thesis using step.IH to_second prefix_order.trans by (simp, blast)
    next
      case (to_first bs pb pa)
      have "prefix (sent B gb pa) mb" using causal_sent [OF B, of pa ma gb] fin step.IH to_first by simp
      moreover have "prefix (sent A ga pb) (sent A ga (pb @ bs))" by (rule causal_sent [OF A]) simp
      ultimately show ?thesis using step.IH to_first prefix_order.trans by (simp, blast)
    qed
  qed simp
  have inv: "prefix pa ma" "prefix pb mb" "prefix pa (sent A ga pb)" "prefix pb (sent B gb pa)"
    if "(delivery A B ga gb)\<^sup>*\<^sup>* ([], []) (pa, pb)" for pa pb
    using reach [OF that] by simp_all
  have "pa = ma \<and> pb = mb" if r: "(delivery A B ga gb)\<^sup>*\<^sup>* ([], []) (pa, pb)" and stuck: "\<nexists>st. delivery A B ga gb (pa, pb) st" for pa pb
  proof -
    have pa: "pa = sent A ga pb"
      using inv(3) [OF r] stuck delivery.to_second [of _ pa A ga pb B gb] by (metis append_Nil2 prefix_def prefix_order.refl)
    have pb: "pb = sent B gb pa"
      using inv(4) [OF r] stuck delivery.to_first [of _ pb B gb pa A ga] by (metis append_Nil2 prefix_def prefix_order.refl)
    have "prefix ha pa" using start(1) causal_sent [OF A, of "[]" pb ga] pa prefix_order.trans by force
    then have "prefix hb pb" using start(2) causal_sent [OF B, of ha pa gb] pb prefix_order.trans by metis
    then have "prefix ma pa" using start(3) causal_sent [OF A, of hb pb ga] pa prefix_order.trans by metis
    then show ?thesis using inv(1) [OF r] pb fin(4) prefix_order.antisym by blast
  qed
  then have "fst (A (open_conn pb ga)) = Some key \<and> fst (B (open_conn pa gb)) = Some key"
    if "(delivery A B ga gb)\<^sup>*\<^sup>* ([], []) (pa, pb)" and "\<nexists>st. delivery A B ga gb (pa, pb) st" for pa pb
    using that fin(1,3) by blast
  moreover have "length pa + length pb \<le> length ma + length mb" if "(delivery A B ga gb)\<^sup>*\<^sup>* ([], []) (pa, pb)" for pa pb
    using inv(1,2) [OF that] by (simp add: add_mono prefix_length_le)
  ultimately show ?thesis unfolding agrees_def by blast
qed

context ristretto
begin

lemma dh_commutes: "smul R x (smul R y (basepoint R)) = smul R y (smul R x (basepoint R))"
  by (rule smul_commute)

text \<open>What each side has written before the signature of the other: the initiator speaks without waiting.\<close>

lemma handshake_hello:
  "random_scalar R g = (x, g1) \<Longrightarrow>
   tx (snd (authenticated_handshake R me expd True (open_conn [] g))) = compress R (ni_public me) @ compress R (smul R x (basepoint R))"
  by (simp add: authenticated_handshake_def bindS_def draw_scalar_def write_all_def read_exact_def set_timeouts_def Let_def open_conn_def)

lemma handshake_reply:
  fixes me peer :: "('s, 'p) node_identity" and y :: 's
  assumes r1: "random_scalar R g = (x, g1)" and r2: "random_scalar R g1 = (k, g2)"
    and ex: "expd = None \<or> expd = Some (ni_public peer)"
  defines "E \<equiv> smul R y (basepoint R)"
  defines "I \<equiv> compress R (ni_public me)" and "X \<equiv> compress R (smul R x (basepoint R))"
    and "J \<equiv> compress R (ni_public peer)" and "Y \<equiv> compress R E" and "sh \<equiv> compress R (smul R x E)"
  defines "tr \<equiv> sigma_transcript R ''specter-sigma-transcript:'' (sigma_order I X J Y) sh"
  shows "sent (authenticated_handshake R me expd i) g (J @ Y) =
    I @ X @ (if i then sigma_signature R ''specter-sigma-sig:'' me tr k else [])"
proof -
  let ?c = "(open_conn (J @ Y) g)\<lparr>rx := [], tx := I @ X, rnd := g1\<rparr>"
  have "check_peer R expd (ni_public peer) = Some ()" using ex by (auto simp: check_peer_def)
  then have "authenticated_handshake R me expd i (open_conn (J @ Y) g) =
      sigma_finish R ''specter-sigma-sig:'' ''specter-sigma-key:'' tr sh me i (ni_public peer) ?c"
    using authenticated_handshake_run [of "open_conn (J @ Y) g" J Y "[]" R x g1 "ni_public peer" E expd me i] r1
    by (simp add: open_conn_def J_def Y_def length_compress decompress_compress tr_def I_def X_def sh_def)
  then show ?thesis
    using sigma_finish_blocks [of ?c R k g2] r2 by (simp add: sent_def open_conn_def)
qed

lemma handshake_agrees:
  assumes a: "ni_public a = smul R (ni_secret a) (basepoint R)" and b: "ni_public b = smul R (ni_secret b) (basepoint R)"
    and ne: "ni_public a \<noteq> ni_public b"
    and ea: "ea = None \<or> ea = Some (ni_public b)" and eb: "eb = None \<or> eb = Some (ni_public a)"
  shows "agrees (authenticated_handshake R a ea True) (authenticated_handshake R b eb False) ga gb"
proof -
  obtain x ga1 where x: "random_scalar R ga = (x, ga1)" by fastforce
  obtain k ga2 where k: "random_scalar R ga1 = (k, ga2)" by fastforce
  obtain y gb1 where y: "random_scalar R gb = (y, gb1)" by fastforce
  obtain l gb2 where l: "random_scalar R gb1 = (l, gb2)" by fastforce
  define I X J Y where "I = compress R (ni_public a)" and "X = compress R (smul R x (basepoint R))"
    and "J = compress R (ni_public b)" and "Y = compress R (smul R y (basepoint R))"
  define sh where "sh = compress R (smul R x (smul R y (basepoint R)))"
  define tr where "tr = sigma_transcript R ''specter-sigma-transcript:'' (sigma_order I X J Y) sh"
  define ma mb where "ma = I @ X @ sigma_signature R ''specter-sigma-sig:'' a tr k"
    and "mb = J @ Y @ sigma_signature R ''specter-sigma-sig:'' b tr l"
  have sym: "tr = sigma_transcript R ''specter-sigma-transcript:'' (sigma_order J Y I X) sh"
    unfolding tr_def using ne by (subst sigma_order_sym) (simp_all add: I_def J_def length_compress)
  have sh': "sh = compress R (smul R y (smul R x (basepoint R)))" unfolding sh_def dh_commutes [of x y] ..
  have A: "authenticated_handshake R a ea True (open_conn mb ga) = (Some (sigma_key R ''specter-sigma-key:'' sh tr), (open_conn mb ga)\<lparr>rx := [], tx := ma, rnd := ga2\<rparr>)"
    unfolding ma_def tr_def sh_def I_def X_def J_def Y_def
    by (rule handshake_honest_side [OF b x k ea])
      (simp_all add: open_conn_def mb_def tr_def sh_def I_def X_def J_def Y_def)
  have B: "authenticated_handshake R b eb False (open_conn ma gb) = (Some (sigma_key R ''specter-sigma-key:'' sh tr), (open_conn ma gb)\<lparr>rx := [], tx := mb, rnd := gb2\<rparr>)"
    unfolding mb_def sym sh' I_def X_def J_def Y_def
    by (rule handshake_honest_side [OF a y l eb])
      (simp_all add: open_conn_def ma_def sym sh' I_def X_def J_def Y_def)
  show ?thesis
  proof (rule four_messages_agree [OF handshakes_causal(1) handshakes_causal(1), where ha = "I @ X" and hb = "J @ Y" and ma = ma and mb = mb])
    show "prefix (I @ X) (sent (authenticated_handshake R a ea True) ga [])"
      using x by (simp add: sent_def handshake_hello I_def X_def)
    show "prefix (J @ Y) (sent (authenticated_handshake R b eb False) gb (I @ X))"
      using handshake_reply [OF y l eb, where me = b and y = x and i = False] by (simp add: I_def X_def J_def Y_def)
    show "prefix ma (sent (authenticated_handshake R a ea True) ga (J @ Y))"
      using handshake_reply [OF x k ea, where me = a and y = y and i = True] by (simp add: ma_def tr_def sh_def I_def X_def J_def Y_def)
  qed (simp_all add: sent_def A B)
qed

lemma handshake_returns:
  fixes me peer :: "('s, 'p) node_identity"
  assumes "ni_public peer = smul R (ni_secret peer) (basepoint R)" and "expd = None \<or> expd = Some (ni_public peer)"
  shows "\<exists>m key. fst (authenticated_handshake R me expd i (open_conn m g)) = Some key"
proof -
  obtain x g1 where x: "random_scalar R g = (x, g1)" by fastforce
  obtain k g2 where k: "random_scalar R g1 = (k, g2)" by fastforce
  show ?thesis by (intro exI, rule arg_cong [of _ _ fst, OF handshake_honest_side [OF assms(1) x k assms(2) refl], THEN trans]) simp
qed

text \<open>The initiator accepts its own messages sent back.\<close>

lemma handshake_reflects:
  assumes a: "ni_public a = smul R (ni_secret a) (basepoint R)" and ea: "ea = None \<or> ea = Some (ni_public a)"
  shows "\<exists>m key. fst (authenticated_handshake R a ea True (open_conn m g)) = Some key \<and>
    tx (snd (authenticated_handshake R a ea True (open_conn m g))) = m"
proof -
  obtain x g1 where x: "random_scalar R g = (x, g1)" by fastforce
  obtain k g2 where k: "random_scalar R g1 = (k, g2)" by fastforce
  define I X where "I = compress R (ni_public a)" and "X = compress R (smul R x (basepoint R))"
  define sh where "sh = compress R (smul R x (smul R x (basepoint R)))"
  define tr where "tr = sigma_transcript R ''specter-sigma-transcript:'' (sigma_order I X I X) sh"
  define m where "m = I @ X @ sigma_signature R ''specter-sigma-sig:'' a tr k"
  have "authenticated_handshake R a ea True (open_conn m g) = (Some (sigma_key R ''specter-sigma-key:'' sh tr), (open_conn m g)\<lparr>rx := [], tx := m, rnd := g2\<rparr>)"
    unfolding m_def tr_def sh_def I_def X_def
    by (rule handshake_honest_side [OF a x k ea])
      (simp_all add: open_conn_def tr_def sh_def I_def X_def)
  then show ?thesis by - (rule exI [of _ m], simp)
qed

end

section \<open>The variant with a key encapsulation\<close>

context ristretto
begin

text \<open>Both sides up to the signatures, whatever the peer has sent after its first message.\<close>

lemma hybrid_initiator_run:
  fixes me peer :: "('s, 'p) node_identity" and y :: 's and K :: "'d kem_prims"
  assumes r1: "random_scalar R g = (x, g1)" and gen: "kem_generate K g1 = ((dk, ek), g2)"
    and ex: "expd = None \<or> expd = Some (ni_public peer)"
    and ct: "kem_decapsulate K dk ct = Some ss" "length ct = 1088"
  defines "E \<equiv> smul R y (basepoint R)"
  defines "I \<equiv> compress R (ni_public me)" and "X \<equiv> compress R (smul R x (basepoint R))"
    and "J \<equiv> compress R (ni_public peer)" and "Y \<equiv> compress R E" and "sh \<equiv> compress R (smul R x E) @ ss"
  defines "tr \<equiv> sigma_transcript R ''specter-hybrid-sigma-transcript:'' (sigma_order I X J Y) sh"
  assumes m: "m = J @ Y @ ct @ rest"
  shows "hybrid_authenticated_handshake R K me expd True (open_conn m g) =
    sigma_finish R ''specter-hybrid-sigma-sig:'' ''specter-hybrid-sigma-key:'' tr sh me True (ni_public peer)
      ((open_conn m g)\<lparr>rx := rest, tx := I @ X @ ek, rnd := g2\<rparr>)"
proof -
  have "check_peer R expd (ni_public peer) = Some ()" using ex by (auto simp: check_peer_def)
  then show ?thesis
    using r1 gen ct
    by (simp add: hybrid_authenticated_handshake_def bindS_def liftS_def draw_scalar_def write_all_def read_exact_def set_timeouts_def
        kem_key_pair_def Let_def open_conn_def m J_def Y_def length_compress decompress_compress tr_def I_def X_def sh_def KYBER_CT_LEN_def)
qed

lemma hybrid_responder_run:
  fixes me peer :: "('s, 'p) node_identity" and y :: 's and K :: "'d kem_prims"
  assumes r1: "random_scalar R g = (x, g1)" and enc: "kem_encapsulate K ek g1 = (Some (ct, ss), g2)"
    and ex: "expd = None \<or> expd = Some (ni_public peer)" and ek: "length ek = 1184"
  defines "E \<equiv> smul R y (basepoint R)"
  defines "I \<equiv> compress R (ni_public me)" and "X \<equiv> compress R (smul R x (basepoint R))"
    and "J \<equiv> compress R (ni_public peer)" and "Y \<equiv> compress R E" and "sh \<equiv> compress R (smul R x E) @ ss"
  defines "tr \<equiv> sigma_transcript R ''specter-hybrid-sigma-transcript:'' (sigma_order I X J Y) sh"
  assumes m: "m = J @ Y @ ek @ rest"
  shows "hybrid_authenticated_handshake R K me expd False (open_conn m g) =
    sigma_finish R ''specter-hybrid-sigma-sig:'' ''specter-hybrid-sigma-key:'' tr sh me False (ni_public peer)
      ((open_conn m g)\<lparr>rx := rest, tx := I @ X @ ct, rnd := g2\<rparr>)"
proof -
  have "check_peer R expd (ni_public peer) = Some ()" using ex by (auto simp: check_peer_def)
  then show ?thesis
    using r1 enc ek
    by (simp add: hybrid_authenticated_handshake_def bindS_def liftS_def draw_scalar_def write_all_def read_exact_def set_timeouts_def
        kem_encap_def Let_def open_conn_def m J_def Y_def length_compress decompress_compress tr_def I_def X_def sh_def KYBER_EK_LEN_def)
qed

lemma hybrid_hello:
  "random_scalar R g = (x, g1) \<Longrightarrow> kem_generate K g1 = ((dk, ek), g2) \<Longrightarrow>
   tx (snd (hybrid_authenticated_handshake R K me expd True (open_conn [] g))) =
     compress R (ni_public me) @ compress R (smul R x (basepoint R)) @ ek"
  by (simp add: hybrid_authenticated_handshake_def bindS_def liftS_def draw_scalar_def write_all_def read_exact_def set_timeouts_def
      kem_key_pair_def Let_def open_conn_def)

lemma hybrid_initiator:
  fixes me peer :: "('s, 'p) node_identity" and y :: 's and K :: "'d kem_prims"
  assumes id: "ni_public peer = smul R (ni_secret peer) (basepoint R)"
    and r1: "random_scalar R g = (x, g1)" and gen: "kem_generate K g1 = ((dk, ek), g2)" and r2: "random_scalar R g2 = (k, g3)"
    and ex: "expd = None \<or> expd = Some (ni_public peer)"
    and ct: "kem_decapsulate K dk ct = Some ss" "length ct = 1088"
  defines "E \<equiv> smul R y (basepoint R)"
  defines "I \<equiv> compress R (ni_public me)" and "X \<equiv> compress R (smul R x (basepoint R))"
    and "J \<equiv> compress R (ni_public peer)" and "Y \<equiv> compress R E" and "sh \<equiv> compress R (smul R x E) @ ss"
  defines "tr \<equiv> sigma_transcript R ''specter-hybrid-sigma-transcript:'' (sigma_order I X J Y) sh"
  assumes m: "m = J @ Y @ ct @ sigma_signature R ''specter-hybrid-sigma-sig:'' peer tr l"
  shows "hybrid_authenticated_handshake R K me expd True (open_conn m g) =
    (Some (sigma_key R ''specter-hybrid-sigma-key:'' sh tr),
     (open_conn m g)\<lparr>rx := [], tx := I @ X @ ek @ sigma_signature R ''specter-hybrid-sigma-sig:'' me tr k, rnd := g3\<rparr>)"
proof -
  let ?sig = "sigma_signature R ''specter-hybrid-sigma-sig:'' peer tr l"
  let ?c = "(open_conn m g)\<lparr>rx := ?sig, tx := I @ X @ ek, rnd := g2\<rparr>"
  have "hybrid_authenticated_handshake R K me expd True (open_conn m g) =
      sigma_finish R ''specter-hybrid-sigma-sig:'' ''specter-hybrid-sigma-key:'' tr sh me True (ni_public peer) ?c"
    unfolding tr_def sh_def I_def X_def J_def Y_def E_def
    by (rule hybrid_initiator_run [OF r1 gen ex ct]) (simp add: m tr_def sh_def I_def X_def J_def Y_def E_def)
  also have "\<dots> = (if sigma_accepts R ''specter-hybrid-sigma-sig:'' (ni_public peer) tr (take 32 ?sig) (drop 32 ?sig)
         then Some (sigma_key R ''specter-hybrid-sigma-key:'' sh tr) else None,
       ?c\<lparr>rx := [], tx := tx ?c @ sigma_signature R ''specter-hybrid-sigma-sig:'' me tr k, rnd := g3\<rparr>)"
    using r2 by (intro sigma_finish_run) (simp_all add: length_sigma_signature open_conn_def)
  finally show ?thesis using signature_accepted [OF id] by simp
qed

lemma hybrid_responder:
  fixes me peer :: "('s, 'p) node_identity" and y :: 's and K :: "'d kem_prims"
  assumes id: "ni_public peer = smul R (ni_secret peer) (basepoint R)"
    and r1: "random_scalar R g = (x, g1)" and enc: "kem_encapsulate K ek g1 = (Some (ct, ss), g2)" and r2: "random_scalar R g2 = (k, g3)"
    and ex: "expd = None \<or> expd = Some (ni_public peer)" and ek: "length ek = 1184"
  defines "E \<equiv> smul R y (basepoint R)"
  defines "I \<equiv> compress R (ni_public me)" and "X \<equiv> compress R (smul R x (basepoint R))"
    and "J \<equiv> compress R (ni_public peer)" and "Y \<equiv> compress R E" and "sh \<equiv> compress R (smul R x E) @ ss"
  defines "tr \<equiv> sigma_transcript R ''specter-hybrid-sigma-transcript:'' (sigma_order I X J Y) sh"
  assumes m: "m = J @ Y @ ek @ sigma_signature R ''specter-hybrid-sigma-sig:'' peer tr l"
  shows "hybrid_authenticated_handshake R K me expd False (open_conn m g) =
    (Some (sigma_key R ''specter-hybrid-sigma-key:'' sh tr),
     (open_conn m g)\<lparr>rx := [], tx := I @ X @ ct @ sigma_signature R ''specter-hybrid-sigma-sig:'' me tr k, rnd := g3\<rparr>)"
proof -
  let ?sig = "sigma_signature R ''specter-hybrid-sigma-sig:'' peer tr l"
  let ?c = "(open_conn m g)\<lparr>rx := ?sig, tx := I @ X @ ct, rnd := g2\<rparr>"
  have "hybrid_authenticated_handshake R K me expd False (open_conn m g) =
      sigma_finish R ''specter-hybrid-sigma-sig:'' ''specter-hybrid-sigma-key:'' tr sh me False (ni_public peer) ?c"
    unfolding tr_def sh_def I_def X_def J_def Y_def E_def
    by (rule hybrid_responder_run [OF r1 enc ex ek]) (simp add: m tr_def sh_def I_def X_def J_def Y_def E_def)
  also have "\<dots> = (if sigma_accepts R ''specter-hybrid-sigma-sig:'' (ni_public peer) tr (take 32 ?sig) (drop 32 ?sig)
         then Some (sigma_key R ''specter-hybrid-sigma-key:'' sh tr) else None,
       ?c\<lparr>rx := [], tx := tx ?c @ sigma_signature R ''specter-hybrid-sigma-sig:'' me tr k, rnd := g3\<rparr>)"
    using r2 by (intro sigma_finish_run) (simp_all add: length_sigma_signature open_conn_def)
  finally show ?thesis using signature_accepted [OF id] by simp
qed

lemma hybrid_agrees:
  fixes a b :: "('s, 'p) node_identity" and K :: "'d kem_prims"
  assumes kem: "kem K" and a: "ni_public a = smul R (ni_secret a) (basepoint R)" and b: "ni_public b = smul R (ni_secret b) (basepoint R)"
    and ne: "ni_public a \<noteq> ni_public b"
    and ea: "ea = None \<or> ea = Some (ni_public b)" and eb: "eb = None \<or> eb = Some (ni_public a)"
  shows "agrees (hybrid_authenticated_handshake R K a ea True) (hybrid_authenticated_handshake R K b eb False) ga gb"
proof -
  obtain x ga1 where x: "random_scalar R ga = (x, ga1)" by fastforce
  obtain dk ek ga2 where gen: "kem_generate K ga1 = ((dk, ek), ga2)" by (metis surj_pair)
  obtain k ga3 where k: "random_scalar R ga2 = (k, ga3)" by fastforce
  obtain y gb1 where y: "random_scalar R gb = (y, gb1)" by fastforce
  obtain ct ss gb2 where enc: "kem_encapsulate K ek gb1 = (Some (ct, ss), gb2)" "length ct = 1088" "kem_decapsulate K dk ct = Some ss"
    using kem.encapsulates [OF kem gen] by blast
  obtain l gb3 where l: "random_scalar R gb2 = (l, gb3)" by fastforce
  define I X J Y where "I = compress R (ni_public a)" and "X = compress R (smul R x (basepoint R))"
    and "J = compress R (ni_public b)" and "Y = compress R (smul R y (basepoint R))"
  define sh where "sh = compress R (smul R x (smul R y (basepoint R))) @ ss"
  define tr where "tr = sigma_transcript R ''specter-hybrid-sigma-transcript:'' (sigma_order I X J Y) sh"
  define ma mb where "ma = I @ X @ ek @ sigma_signature R ''specter-hybrid-sigma-sig:'' a tr k"
    and "mb = J @ Y @ ct @ sigma_signature R ''specter-hybrid-sigma-sig:'' b tr l"
  have sym: "tr = sigma_transcript R ''specter-hybrid-sigma-transcript:'' (sigma_order J Y I X) sh"
    unfolding tr_def using ne by (subst sigma_order_sym) (simp_all add: I_def J_def length_compress)
  have sh': "sh = compress R (smul R y (smul R x (basepoint R))) @ ss" unfolding sh_def dh_commutes [of x y] ..
  have A: "hybrid_authenticated_handshake R K a ea True (open_conn mb ga) = (Some (sigma_key R ''specter-hybrid-sigma-key:'' sh tr), (open_conn mb ga)\<lparr>rx := [], tx := ma, rnd := ga3\<rparr>)"
    unfolding ma_def tr_def sh_def I_def X_def J_def Y_def
    by (rule hybrid_initiator [OF b x gen k ea enc(3,2)])
      (simp add: mb_def tr_def sh_def I_def X_def J_def Y_def)
  have B: "hybrid_authenticated_handshake R K b eb False (open_conn ma gb) = (Some (sigma_key R ''specter-hybrid-sigma-key:'' sh tr), (open_conn ma gb)\<lparr>rx := [], tx := mb, rnd := gb3\<rparr>)"
    unfolding mb_def sym sh' I_def X_def J_def Y_def
    by (rule hybrid_responder [OF a y enc(1) l eb kem.length_ek [OF kem gen]])
      (simp add: ma_def sym sh' I_def X_def J_def Y_def)
  show ?thesis
  proof (rule four_messages_agree [OF handshakes_causal(2) handshakes_causal(2),
        where ha = "I @ X @ ek" and hb = "J @ Y @ ct" and ma = ma and mb = mb])
    show "prefix (I @ X @ ek) (sent (hybrid_authenticated_handshake R K a ea True) ga [])"
      using x gen by (simp add: sent_def hybrid_hello I_def X_def)
    show "prefix (J @ Y @ ct) (sent (hybrid_authenticated_handshake R K b eb False) gb (I @ X @ ek))"
      using hybrid_responder_run [OF y enc(1) eb kem.length_ek [OF kem gen], where m = "I @ X @ ek" and y = x and rest = "[]" and me = b] l
      by (simp add: sent_def sigma_finish_blocks open_conn_def I_def X_def J_def Y_def)
    show "prefix ma (sent (hybrid_authenticated_handshake R K a ea True) ga (J @ Y @ ct))"
      using hybrid_initiator_run [OF x gen ea enc(3,2), where m = "J @ Y @ ct" and y = y and rest = "[]" and me = a] k
      by (simp add: sent_def sigma_finish_blocks open_conn_def ma_def tr_def sh_def I_def X_def J_def Y_def)
  qed (simp_all add: sent_def A B)
qed

end

section \<open>What an accepted handshake says\<close>

lemma bindS_Some: "bindS m f c = (Some y, c') \<longleftrightarrow> (\<exists>x c1. m c = (Some x, c1) \<and> f x c1 = (Some y, c'))"
  by (auto simp: bindS_def split: prod.splits option.splits)

lemma liftS_Some [simp]: "liftS x c = (Some y, c') \<longleftrightarrow> x = Some y \<and> c' = c"
  by (auto simp: liftS_def)

lemma set_timeouts_Some [simp]: "set_timeouts c = (Some x, c') \<longleftrightarrow> timeouts_ok c \<and> c' = c"
  by (auto simp: set_timeouts_def)

lemma read_exact_Some: "read_exact n c = (Some b, c') \<Longrightarrow> rx c = b @ rx c' \<and> length b = n \<and> rnd c' = rnd c"
  by (auto simp: read_exact_def split: if_splits)

lemma exchange_Some:
  fixes u v u' v' :: bytes
  assumes "(if i then bindS (bindS (write_all u) (\<lambda>_. write_all v)) (\<lambda>_. bindS (read_exact 32) (\<lambda>a. bindS (read_exact 32) (\<lambda>b. liftS (Some (a, b)))))
     else bindS (bindS (read_exact 32) (\<lambda>a. bindS (read_exact 32) (\<lambda>b. liftS (Some (a, b)))))
       (\<lambda>h. bindS (bindS (write_all u) (\<lambda>_. write_all v)) (\<lambda>_. liftS (Some h)))) c = (Some (u', v'), c')"
  shows "rx c = u' @ v' @ rx c' \<and> length u' = 32 \<and> length v' = 32 \<and> rnd c' = rnd c"
proof -
  have w: "rx c2 = rx c1 \<and> rnd c2 = rnd c1" if "bindS (write_all u) (\<lambda>_. write_all v) c1 = (Some x, c2)" for c1 c2 x
    using that by (auto simp: bindS_Some write_all_def split: option.splits if_splits)
  have r: "rx c1 = a @ b @ rx c2 \<and> length a = 32 \<and> length b = 32 \<and> rnd c2 = rnd c1"
    if "bindS (read_exact 32) (\<lambda>a. bindS (read_exact 32) (\<lambda>b. liftS (Some (a, b)))) c1 = (Some (a, b), c2)" for c1 c2 a b
    using that by (auto simp: bindS_Some dest!: read_exact_Some)
  show ?thesis
  proof (cases i)
    case True
    with assms obtain x c1 where "bindS (write_all u) (\<lambda>_. write_all v) c = (Some x, c1)"
      "bindS (read_exact 32) (\<lambda>a. bindS (read_exact 32) (\<lambda>b. liftS (Some (a, b)))) c1 = (Some (u', v'), c')"
      by (auto simp: bindS_Some [of "bindS (write_all u) (\<lambda>_. write_all v)"])
    then show ?thesis using w r by metis
  next
    case False
    with assms obtain c1 x where "bindS (read_exact 32) (\<lambda>a. bindS (read_exact 32) (\<lambda>b. liftS (Some (a, b)))) c = (Some (u', v'), c1)"
      "bindS (write_all u) (\<lambda>_. write_all v) c1 = (Some x, c')"
      by (auto simp: bindS_Some [of "bindS (read_exact 32) (\<lambda>a. bindS (read_exact 32) (\<lambda>b. liftS (Some (a, b))))"]
          bindS_Some [of "bindS (write_all u) (\<lambda>_. write_all v)"])
    then show ?thesis using w r by metis
  qed
qed

lemma sigma_finish_Some:
  assumes "sigma_finish R st kt tr secrets me i pk c = (Some key, c')"
  obtains rb sb where "rx c = rb @ sb @ rx c'" "length rb = 32" "length sb = 32" "sigma_accepts R st pk tr rb sb"
    "key = sigma_key R kt secrets tr"
proof -
  obtain k g where k: "random_scalar R (rnd c) = (k, g)" by fastforce
  obtain rb sb c1 where ex: "rx c = rb @ sb @ rx c1" "length rb = 32" "length sb = 32" and
    v: "bindS (liftS (decompress R rb)) (\<lambda>r. bindS (liftS (from_canonical_bytes R sb)) (\<lambda>s.
       liftS (if smul R s (basepoint R) \<noteq> r + smul R (sigma_challenge R st r pk tr) pk then None else Some (sigma_key R kt secrets tr)))) c1 = (Some key, c')"
    using assms unfolding sigma_finish_def Let_def bindS_Some [of "draw_scalar R"]
    by (auto simp: draw_scalar_def k bindS_Some [where f = "case_prod _"] dest!: exchange_Some)
  from v have "sigma_accepts R st pk tr rb sb" "key = sigma_key R kt secrets tr" "c1 = c'"
    by (auto simp: bindS_Some sigma_accepts_def split: if_splits)
  with ex that show thesis by blast
qed

lemma handshake_Some:
  assumes "authenticated_handshake R me ex i c = (Some key, c')" and "random_scalar R (rnd c) = (x, g)"
  obtains ib eb rb sb P E where "rx c = ib @ eb @ rb @ sb @ rx c'" "length ib = 32" "length eb = 32" "length rb = 32" "length sb = 32"
    "decompress R ib = Some P" "decompress R eb = Some E" "check_peer R ex P = Some ()"
    "sigma_accepts R ''specter-sigma-sig:'' P (sigma_transcript R ''specter-sigma-transcript:''
       (sigma_order (compress R (ni_public me)) (compress R (smul R x (basepoint R))) ib eb) (compress R (smul R x E))) rb sb"
    "key = sigma_key R ''specter-sigma-key:'' (compress R (smul R x E)) (sigma_transcript R ''specter-sigma-transcript:''
       (sigma_order (compress R (ni_public me)) (compress R (smul R x (basepoint R))) ib eb) (compress R (smul R x E)))"
proof -
  let ?X = "compress R (smul R x (basepoint R))" and ?I = "compress R (ni_public me)"
  obtain ib eb c1 where ex: "rx c = ib @ eb @ rx c1" "length ib = 32" "length eb = 32" and
    v: "bindS (liftS (decompress R ib)) (\<lambda>P. bindS (liftS (decompress R eb)) (\<lambda>E. bindS (liftS (check_peer R ex P)) (\<lambda>_.
       sigma_finish R ''specter-sigma-sig:'' ''specter-sigma-key:'' (sigma_transcript R ''specter-sigma-transcript:'' (sigma_order ?I ?X ib eb)
         (compress R (smul R x E))) (compress R (smul R x E)) me i P))) c1 = (Some key, c')"
    using assms(1) unfolding authenticated_handshake_def Let_def bindS_Some [of "draw_scalar R"] bindS_Some [of set_timeouts]
    by (auto simp: draw_scalar_def assms(2) bindS_Some [where f = "case_prod _"] dest!: exchange_Some)
  from v obtain P E where pe: "decompress R ib = Some P" "decompress R eb = Some E" "check_peer R ex P = Some ()"
    and fin: "sigma_finish R ''specter-sigma-sig:'' ''specter-sigma-key:'' (sigma_transcript R ''specter-sigma-transcript:'' (sigma_order ?I ?X ib eb)
         (compress R (smul R x E))) (compress R (smul R x E)) me i P c1 = (Some key, c')"
    by (auto simp: bindS_Some)
  show thesis
    by (rule sigma_finish_Some [OF fin], rule that [of ib eb _ _ P E]) (use ex pe in simp_all)
qed

section \<open>Files and messages\<close>

lemma identity_roundtrip:
  assumes "ristretto R" and "aead A" and "identity_encode R A me pass g = (Ok data, g')" and "length data < 2 ^ 32"
    and "ni_public me = smul R (ni_secret me) (basepoint R)"
  shows "identity_decode R A data pass = Ok (Some me)"
proof -
  obtain enc where e: "encrypt A (scalar_bytes R (ni_secret me)) pass g = (Ok enc, g')"
    and data: "data = ascii ''SID1'' @ enc_salt enc @ enc_nonce enc @ u32_le (of_nat (length (enc_ciphertext enc))) @ enc_ciphertext enc"
    using assms(3) by (auto simp: identity_encode_def split: prod.splits result.splits)
  note enc = aead.encrypt_Ok [OF assms(2) e]
  have m: "length (ascii ''SID1'') = 4" by (simp add: ascii_def)
  have "length (enc_ciphertext enc) < 2 ^ 32" using assms(4) by (simp add: data)
  then have n: "le_to_nat (take 4 (drop 32 data)) = length (enc_ciphertext enc)"
    using enc(3,4) m by (simp add: data unat_of_nat)
  have "\<lparr>enc_salt = take 16 (drop 4 data), enc_nonce = take 12 (drop 20 data), enc_ciphertext = take (le_to_nat (take 4 (drop 32 data))) (drop 36 data)\<rparr> = enc"
    unfolding n using enc(3,4) m by (simp add: data)
  moreover have "\<not> (length data < 4 + 16 + 12 + 4 \<or> take 4 data \<noteq> ascii ''SID1'')" "\<not> length data < 36 + le_to_nat (take 4 (drop 32 data))"
    unfolding n using enc(3,4) m by (simp_all add: data)
  moreover have "length (scalar_bytes R (ni_secret me)) = 32" "from_canonical_bytes R (scalar_bytes R (ni_secret me)) = Some (ni_secret me)"
    using assms(1) by (simp_all add: ristretto.length_scalar_bytes ristretto_group.from_canonical_scalar_bytes ristretto.axioms)
  ultimately show ?thesis using enc(1) assms(5) by (simp add: identity_decode_def Let_def)
qed

lemma message_roundtrip:
  assumes "aead A" and "encrypt_with_key A plain key g = (Some data, g')"
  shows "decrypt_with_key A data key = Some plain"
  using assms(2) aead.decrypt_encrypt [OF assms(1)]
  by (auto simp: encrypt_with_key_def decrypt_with_key_def split: prod.splits)

section \<open>Properties\<close>

text \<open>C37: Two nodes with different identities run the handshake over one connection, each expecting nobody in particular or the
  other; the connection carries what each has written so far to the other, in pieces of any size and in any order of the two
  directions. Then the exchange ends after a bounded number of bytes, and when nothing is left to deliver both have
  returned, with the same session key, whatever random numbers they draw; for the classical exchange and for the variant
  with a key encapsulation. The network accepts every write and delivers before the timeouts.\<close>

theorem handshake_agreement:
  fixes K :: "'d kem_prims"
  assumes "ristretto R" and "kem K" and "ni_public a = smul R (ni_secret a) (basepoint R)"
    and "ni_public b = smul R (ni_secret b) (basepoint R)" and "ni_public a \<noteq> ni_public b"
    and "ea = None \<or> ea = Some (ni_public b)" and "eb = None \<or> eb = Some (ni_public a)"
  shows "agrees (authenticated_handshake R a ea True) (authenticated_handshake R b eb False) ga gb \<and>
    agrees (hybrid_authenticated_handshake R K a ea True) (hybrid_authenticated_handshake R K b eb False) ga gb"
  using ristretto.handshake_agrees [OF assms(1,3-7)] ristretto.hybrid_agrees [OF assms(1,2,3-7)] by blast

definition demo_kem :: "unit kem_prims" where
  "demo_kem = \<lparr>kem_generate = (\<lambda>g. (((), replicate 1184 0), g)),
     kem_encapsulate = (\<lambda>ek g. (Some (replicate 1088 0, replicate 32 9), g)),
     kem_decapsulate = (\<lambda>dk ct. Some (replicate 32 9))\<rparr>"

interpretation demo_kem: kem demo_kem
  by unfold_locales (simp_all add: demo_kem_def)

definition demo_identity :: "zp \<Rightarrow> (zp, zp) node_identity" where
  "demo_identity s = \<lparr>ni_secret = s, ni_public = smul zp_prims s (basepoint zp_prims)\<rparr>"

lemma demo_identity_key: "ni_public (demo_identity s) = smul zp_prims (ni_secret (demo_identity s)) (basepoint zp_prims)"
  by (simp add: demo_identity_def)

lemma demo_identity_ne: "ni_public (demo_identity 1) \<noteq> ni_public (demo_identity 2)"
  using zp.scalar_of_u64_inject [of 2 1] by (auto simp: demo_identity_def zp_prims_def)

theorem handshake_agreement_witness:
  "agrees (authenticated_handshake zp_prims (demo_identity 1) (Some (ni_public (demo_identity 2))) True)
     (authenticated_handshake zp_prims (demo_identity 2) None False) (\<lambda>_. 3) (\<lambda>_. 8) \<and>
   agrees (hybrid_authenticated_handshake zp_prims demo_kem (demo_identity 1) (Some (ni_public (demo_identity 2))) True)
     (hybrid_authenticated_handshake zp_prims demo_kem (demo_identity 2) None False) (\<lambda>_. 3) (\<lambda>_. 8)"
  by (rule handshake_agreement [OF zp.ristretto_axioms demo_kem.kem_axioms demo_identity_key demo_identity_key demo_identity_ne]) simp_all

text \<open>C38: A node that accepts a handshake has read, as the first 128 bytes, an identity, an ephemeral point and a signature that
  verifies under that identity over a transcript with both identities, both ephemeral points and the shared secret; the
  identity is the expected one if one was given; and the key is the hash of the shared secret and that transcript.\<close>

theorem handshake_authentic:
  assumes "ristretto R" and "authenticated_handshake R me ex i c = (Some key, c')"
  shows "\<exists>x P E r s tr. x = fst (random_scalar R (rnd c)) \<and>
    take 128 (rx c) = compress R P @ compress R E @ compress R r @ scalar_bytes R s \<and> (\<forall>Q. ex = Some Q \<longrightarrow> P = Q) \<and>
    tr = sigma_transcript R ''specter-sigma-transcript:'' (sigma_order (compress R (ni_public me))
      (compress R (smul R x (basepoint R))) (compress R P) (compress R E)) (compress R (smul R x E)) \<and>
    smul R s (basepoint R) = r + smul R (sigma_challenge R ''specter-sigma-sig:'' r P tr) P \<and>
    key = sigma_key R ''specter-sigma-key:'' (compress R (smul R x E)) tr"
proof -
  obtain x g where x: "random_scalar R (rnd c) = (x, g)" by fastforce
  obtain ib eb rb sb P E where h: "rx c = ib @ eb @ rb @ sb @ rx c'" "length ib = 32" "length eb = 32" "length rb = 32" "length sb = 32"
    "decompress R ib = Some P" "decompress R eb = Some E" "check_peer R ex P = Some ()"
    and acc: "sigma_accepts R ''specter-sigma-sig:'' P (sigma_transcript R ''specter-sigma-transcript:''
       (sigma_order (compress R (ni_public me)) (compress R (smul R x (basepoint R))) ib eb) (compress R (smul R x E))) rb sb"
    and key: "key = sigma_key R ''specter-sigma-key:'' (compress R (smul R x E)) (sigma_transcript R ''specter-sigma-transcript:''
       (sigma_order (compress R (ni_public me)) (compress R (smul R x (basepoint R))) ib eb) (compress R (smul R x E)))"
    by (rule handshake_Some [OF assms(2) x])
  obtain r s where rs: "decompress R rb = Some r" "from_canonical_bytes R sb = Some s"
    "smul R s (basepoint R) = r + smul R (sigma_challenge R ''specter-sigma-sig:'' r P (sigma_transcript R ''specter-sigma-transcript:''
       (sigma_order (compress R (ni_public me)) (compress R (smul R x (basepoint R))) ib eb) (compress R (smul R x E)))) P"
    using acc by (auto simp: sigma_accepts_def)
  have enc: "compress R P = ib" "compress R E = eb" "compress R r = rb" "scalar_bytes R s = sb"
    using h(6,7) rs(1,2) assms(1) by (simp_all add: ristretto.compress_decompress ristretto.scalar_bytes_canonical)
  have "P = Q" if "ex = Some Q" for Q
    using h(8) that ristretto_group.compress_inject [OF ristretto.axioms(1) [OF assms(1)]]
    by (auto simp: check_peer_def split: if_splits)
  then show ?thesis
    using x h(1-5) rs(3) key enc by (intro exI [of _ x] exI [of _ P] exI [of _ E] exI [of _ r] exI [of _ s]) simp
qed

theorem handshake_authentic_witness:
  "\<exists>m key c'. authenticated_handshake zp_prims (demo_identity 1) (Some (ni_public (demo_identity 2))) True (open_conn m (\<lambda>_. 3)) = (Some key, c') \<and>
     take 32 m = compress zp_prims (ni_public (demo_identity 2))"
proof -
  let ?hs = "authenticated_handshake zp_prims (demo_identity 1) (Some (ni_public (demo_identity 2))) True"
  obtain m key where "fst (?hs (open_conn m (\<lambda>_. 3))) = Some key"
    using zp.handshake_returns [OF demo_identity_key, of "Some (ni_public (demo_identity 2))" 2] by blast
  then obtain c' where run: "?hs (open_conn m (\<lambda>_. 3)) = (Some key, c')" by (metis prod.collapse)
  obtain E r s where "take 128 m = compress zp_prims (ni_public (demo_identity 2)) @ compress zp_prims E @ compress zp_prims r @ scalar_bytes zp_prims s"
    using handshake_authentic [OF zp.ristretto_axioms run] by (auto simp: open_conn_def)
  then have "take 32 (take 128 m) = compress zp_prims (ni_public (demo_identity 2))" by (simp add: zp.length_compress)
  with run show ?thesis by (auto simp: min_def)
qed

text \<open>A flaw of the handshake: an initiator that expects nobody in particular accepts its own messages sent back to it, so a
  party without any key completes the handshake; the same holds for an initiator that expects its own identity.\<close>

lemma handshake_reflection:
  assumes "ristretto R" and "ni_public a = smul R (ni_secret a) (basepoint R)" and "ea = None \<or> ea = Some (ni_public a)"
  shows "\<exists>m key. fst (authenticated_handshake R a ea True (open_conn m g)) = Some key \<and>
    tx (snd (authenticated_handshake R a ea True (open_conn m g))) = m"
  using assms by (rule ristretto.handshake_reflects)

lemma handshake_reflection_witness:
  "\<exists>m key. fst (authenticated_handshake zp_prims (demo_identity 1) None True (open_conn m (\<lambda>_. 3))) = Some key \<and>
     tx (snd (authenticated_handshake zp_prims (demo_identity 1) None True (open_conn m (\<lambda>_. 3)))) = m"
  by (rule handshake_reflection [OF zp.ristretto_axioms demo_identity_key]) simp

end
