(* ===== verification/Token_Format.thy ===== *)
theory Token_Format
  imports Serde
begin

text \<open>
  The tokens of the mint fit the byte format: what \<^verbatim>\<open>issue_full\<close> makes and \<^verbatim>\<open>transfer\<close> hands on is well formed for
  \<^verbatim>\<open>serialize_token\<close> as long as the recursion bound does not exceed the caps of the reader, and a well formed token
  takes at most 210 million bytes, which 32 bits can count.
\<close>

section \<open>What can be stored\<close>

definition attrs_wf :: "(bytes \<Rightarrow> bool) \<Rightarrow> attributes \<Rightarrow> bool" where
  "attrs_wf check a \<longleftrightarrow> length (jurisdiction a) < 256 \<and> valid_utf8 (ascii (jurisdiction a)) \<and> check (ascii (jurisdiction a))"

text \<open>The conditions on the mint and on the inputs under which an issued token can be stored.\<close>

definition issue_wf :: "(nat \<Rightarrow> bool) \<Rightarrow> ('a, 'b) mint \<Rightarrow> attributes option \<Rightarrow> bytes option \<Rightarrow> bool" where
  "issue_wf alnum mint attrs bond \<longleftrightarrow> unat (mint_recursion_bound mint) \<le> 10000 \<and>
     option_wf (attrs_wf (jurisdiction_safe alnum)) attrs \<and> option_wf (\<lambda>i. length i = 32) bond"

text \<open>
  The reader checks the jurisdiction of the credential in use but not those of the pool, which a transfer moves into use:
  a token that stays readable across transfers has them all in order.
\<close>

definition storable :: "(nat \<Rightarrow> bool) \<Rightarrow> ('s, 'p) proof_carrying_token \<Rightarrow> bool" where
  "storable alnum tok \<longleftrightarrow> token_wf alnum tok \<and> unat (tok_recursion_bound tok) \<le> 10000 \<and>
     (\<forall>e\<in>set (tok_credential_pool tok). cred_wf (jurisdiction_safe alnum) (fst e))"

section \<open>Size\<close>

lemma length_concat_le: "(\<And>x. x \<in> set xs \<Longrightarrow> length (f x) \<le> n) \<Longrightarrow> length (concat (map f xs)) \<le> length xs * n"
  by (induction xs) (auto intro: add_mono)

lemma length_write_option: "option_wf P x \<Longrightarrow> (\<And>y. P y \<Longrightarrow> length (wr y) \<le> n) \<Longrightarrow> length (write_option wr x) \<le> n + 1"
  by (cases x) (auto simp: write_option_def option_wf_def)

context ristretto
begin

lemma length_write_credential: "cred_wf check c \<Longrightarrow> length (write_credential R c) \<le> 500"
  by (auto simp: write_credential_def write_bool_def cred_wf_def Let_def length_compress length_scalar_bytes)

lemma length_write_presentation:
  assumes "pres_wf p" shows "length (write_presentation R p) \<le> 20000"
proof -
  have "length (concat (map (write_disclosed R) (disclosed p))) \<le> length (disclosed p) * 33"
    "length (concat (map (scalar_bytes R) (proof_response p))) \<le> length (proof_response p) * 32"
    by (rule length_concat_le, simp add: write_disclosed_def length_scalar_bytes)+
  moreover have "length (disclosed p) < 256" "length (proof_response p) < 256" using assms by (simp_all add: pres_wf_def)
  ultimately show ?thesis by (simp add: write_presentation_def length_compress length_scalar_bytes)
qed

lemma length_write_pool_entry:
  "cred_wf check (fst e) \<Longrightarrow> pres_wf (snd e) \<Longrightarrow> length (write_pool_entry R e) \<le> 20500"
  using length_write_credential [of check "fst e"] length_write_presentation [of "snd e"] by (simp add: write_pool_entry_def)

lemma length_serialize_token:
  assumes "token_wf alnum tok"
  shows "length (serialize_token R tok) \<le> 210000000"
proof -
  note wf = assms [unfolded token_wf_def fold_wf_def MAX_POOL_def]
  have steps: "length (concat (map (write_step R) (steps_chain (tok_fold_proof tok)))) \<le> length (steps_chain (tok_fold_proof tok)) * 96"
    by (rule length_concat_le) (simp add: write_step_def length_compress length_scalar_bytes)
  have pool: "length (concat (map (write_pool_entry R) (tok_credential_pool tok))) \<le> length (tok_credential_pool tok) * 20500"
    using wf by (intro length_concat_le length_write_pool_entry) auto
  have "length (write_option (write_credential R) (tok_credential tok)) \<le> 501"
    "length (write_option (write_presentation R) (tok_presentation tok)) \<le> 20001"
    "length (write_option write_vdf (tok_vdf_proof tok)) \<le> 73"
    "length (write_option (\<lambda>i. i) (tok_bond_owner_id tok)) \<le> 33"
    using wf length_write_option [of "cred_wf (jurisdiction_safe alnum)" "tok_credential tok", OF _ length_write_credential]
      length_write_option [of pres_wf "tok_presentation tok", OF _ length_write_presentation]
      length_write_option [of vdf_wf "tok_vdf_proof tok" write_vdf 72]
      length_write_option [of "\<lambda>i. length i = 32" "tok_bond_owner_id tok" "\<lambda>i. i" 32]
    by (simp_all add: write_vdf_def vdf_wf_def)
  moreover have "length (tok_credential_pool tok) \<le> 10000" "length (steps_chain (tok_fold_proof tok)) \<le> 10000"
    "length (tok_id tok) = 32" "length (tok_owner_secret tok) = 32" "length (tok_hash_chain_head tok) = 32"
    "length (tok_genesis_owner_hash tok) = 32"
    using wf by blast+
  ultimately show ?thesis
    using steps pool by (simp add: serialize_token_def MAGIC_def length_compress length_scalar_bytes)
qed

section \<open>Issued tokens\<close>

lemma cred_wf_True: "cred_wf check c \<Longrightarrow> cred_wf (\<lambda>_. True) c"
  by (simp add: cred_wf_def Let_def)

lemma fresh_credential_wf:
  assumes "attrs_wf check a" and "fresh_credential R iss a g = (e, g')"
  shows "cred_wf check (fst e) \<and> pres_wf (snd e)"
proof -
  obtain c g1 where c: "issue_credential R iss a g = (c, g1)" by fastforce
  obtain p g2 where p: "create_presentation R c standard_disclosure (iss_pedersen iss) g1 = (p, g2)" by fastforce
  have "cred_attributes c = a" using c by (auto simp: issue_credential_def Let_def split: prod.splits)
  moreover have "length (filter P [0..<5]) < 255" for P
    using length_filter_le [of P "[0..<5]"] by simp
  then have "pres_wf p"
    using p by (auto simp: create_presentation_def Let_def pres_wf_def standard_disclosure_def hidden_indices_def
        attribute_count_def ATTR_KYC_PASSED_def ATTR_NOT_SANCTIONED_def split: prod.splits)
  ultimately show ?thesis using assms by (auto simp: fresh_credential_def c p cred_wf_def attrs_wf_def Let_def)
qed

lemma generate_pool_wf:
  "attrs_wf check a \<Longrightarrow> generate_pool R iss a n g = (pool, g') \<Longrightarrow>
     length pool = n \<and> (\<forall>e\<in>set pool. cred_wf check (fst e) \<and> pres_wf (snd e))"
proof (induction n arbitrary: g pool g')
  case (Suc n)
  obtain e g1 where e: "fresh_credential R iss a g = (e, g1)" by fastforce
  obtain rest g2 where r: "generate_pool R iss a n g1 = (rest, g2)" by fastforce
  show ?case using Suc.prems Suc.IH [OF Suc.prems(1) r] fresh_credential_wf [OF Suc.prems(1) e] by (auto simp: e r)
qed simp

lemma length_sha256_iter: "length seed = 32 \<Longrightarrow> length ((sha256 R ^^ n) seed) = 32"
  by (cases n) (simp_all add: length_sha256)

lemma issue_full_wf:
  assumes wf: "issue_wf alnum mint attrs bond" and i: "issue_full R mint v signers attrs iterations bond g = (Ok tok, g')"
  shows "storable alnum tok"
proof -
  obtain us g1 where us: "generate_secrets R v (mint_pedersen mint) g = (us, g1)" by fastforce
  let ?m = "build_signed_message R (uts_token_id us) (uts_value_commitment us)
    (owner_pk_hash R (derive_owner_signing_pk R (uts_owner_secret us)))"
  have v: "v \<noteq> 0" using i by (auto simp: issue_full_def)
  then obtain sig g2 where sig: "threshold_blind_sign R (mint_keyset mint) signers ?m g1 = (Ok sig, g2)"
    using i by (auto simp: issue_full_def us Let_def split: prod.splits result.splits)
  obtain cred pres g3 where c: "issue_compliance R (mint_issuer mint) attrs g2 = (cred, pres, g3)" by (metis surj_pair)
  obtain pv g4 where pv: "prove_value R (mint_pedersen mint) (scalar_from_u64 R v) (uts_value_blinding us) g3 = (pv, g4)" by fastforce
  obtain pool g5 where pool: "issue_pool R (mint_issuer mint) attrs (unat (mint_recursion_bound mint)) g4 = (pool, g5)" by fastforce
  have cp: "option_wf (cred_wf (jurisdiction_safe alnum)) cred \<and> option_wf pres_wf pres"
  proof (cases attrs)
    case (Some a)
    then have "attrs_wf (jurisdiction_safe alnum) a" using wf by (simp add: issue_wf_def option_wf_def)
    with c fresh_credential_wf [OF this] show ?thesis by (fastforce simp: issue_compliance_def Some option_wf_def split: prod.splits)
  qed (use c in \<open>simp add: issue_compliance_def option_wf_def\<close>)
  have pl: "length pool \<le> 10000 \<and> (\<forall>e\<in>set pool. cred_wf (jurisdiction_safe alnum) (fst e) \<and> pres_wf (snd e))"
  proof (cases attrs)
    case (Some a)
    then have "attrs_wf (jurisdiction_safe alnum) a" "unat (mint_recursion_bound mint) \<le> 10000"
      using wf by (simp_all add: issue_wf_def option_wf_def)
    with pool generate_pool_wf [OF this(1), of "mint_issuer mint" "unat (mint_recursion_bound mint)" g4] show ?thesis
      by (simp add: issue_pool_def Some)
  qed (use pool in \<open>simp add: issue_pool_def\<close>)
  have "vdf_wf (vdf_evaluate R (vdf_create_seed R (uts_token_id us) 0) n)" for n
    by (simp add: vdf_wf_def vdf_evaluate_def vdf_create_seed_def length_sha256 length_sha256_iter)
  then have vdf: "option_wf vdf_wf (map_option (vdf_evaluate R (vdf_create_seed R (uts_token_id us) 0)) iterations)"
    by (auto simp: option_wf_def)
  have len: "length (owner_pk_hash R pk) = 32" "length (advance_hash_chain R h d) = 32" for pk h d
    by (simp_all add: owner_pk_hash_def advance_hash_chain_def length_shake256)
  have us32: "length (uts_token_id us) = 32" "length (uts_owner_secret us) = 32" using generate_secrets_eq [OF us] by simp_all
  have pl': "\<forall>e\<in>set pool. cred_wf (\<lambda>_. True) (fst e)" using pl cred_wf_True by blast
  have bond: "option_wf (\<lambda>i. length i = 32) bond" "unat (mint_recursion_bound mint) \<le> 10000" using wf by (simp_all add: issue_wf_def)
  show ?thesis
    using i v unfolding issue_full_def us Let_def
    by (simp add: sig c pv pool) (use cp pl pl' vdf us32 bond in
      \<open>auto simp: storable_def token_wf_def fold_wf_def create_initial_proof_with_pk_def len MAX_POOL_def\<close>)
qed

section \<open>Transferred tokens\<close>

lemma fold_transfer_wf:
  assumes "fold_wf p" and "unat bound \<le> 10000" and "fold_transfer_signed R p sk pk i bound g = (Ok p', g')"
  shows "fold_wf p' \<and> ap_steps p' \<le> bound"
proof -
  obtain n where n: "checked_add (ap_steps p) 1 = Some n" "ap_steps p < bound" "ap_steps p' = n"
      "length (steps_chain p') = length (steps_chain p) + 1"
    using assms(3) by (auto simp: fold_transfer_signed_def Let_def not_le split: if_splits option.splits prod.splits)
  then have "unat n = unat (ap_steps p) + 1" using checked_add_unat [OF n(1)] by simp
  then show ?thesis using assms(1,2) n by (auto simp: fold_wf_def word_le_nat_alt word_less_nat_alt)
qed

lemma transfer_storable:
  assumes tok: "storable alnum tok" and t: "transfer R tok w ns g = (Ok res, ns', g')"
  shows "storable alnum (tr_token res)"
proof -
  obtain secret g1 where secret: "fill_bytes 32 g = (secret, g1)" by fastforce
  obtain n where n: "checked_add (tok_transfer_count tok) 1 = Some n"
    using t by (auto simp: transfer_def secret Let_def split: if_splits prod.splits option.splits)
  obtain p g2 where p: "fold_transfer_signed R (tok_fold_proof tok) (derive_owner_signing_key R (tok_owner_secret tok))
      (derive_owner_signing_pk R secret) (tok_id tok) (tok_recursion_bound tok) g1 = (Ok p, g2)"
    using t by (auto simp: transfer_def secret n Let_def split: if_splits prod.splits option.splits result.splits)
  obtain cred pres pool where pop: "pop_credential tok = (cred, pres, pool)" by (metis surj_pair)
  have res: "tr_token res = tok\<lparr>tok_owner_secret := secret, tok_hash_chain_head := advance_hash_chain R (tok_hash_chain_head tok) secret,
      tok_transfer_count := n, tok_fold_proof := p, tok_credential := cred, tok_presentation := pres, tok_credential_pool := pool\<rparr>"
    and count: "tok_transfer_count tok < tok_recursion_bound tok"
    using t by (auto simp: transfer_def secret n p pop Let_def needs_renewal_def not_le split: if_splits prod.splits)
  have "fold_wf p" using fold_transfer_wf [OF _ _ p] tok by (simp add: storable_def token_wf_def)
  moreover have "n \<le> tok_recursion_bound tok"
    using count checked_add_unat [OF n] by (simp add: word_le_nat_alt word_less_nat_alt)
  moreover have "option_wf (cred_wf (jurisdiction_safe alnum)) cred" "option_wf pres_wf pres"
      "set pool \<subseteq> set (tok_credential_pool tok)" "length pool \<le> length (tok_credential_pool tok)"
    using tok pop by (auto simp: pop_credential_def storable_def token_wf_def option_wf_def split: list.splits)
  ultimately show ?thesis
    using tok length_fill_bytes [OF secret] unfolding res
    by (auto simp: storable_def token_wf_def advance_hash_chain_def length_shake256)
qed

text \<open>Once the pool of credentials is used up, every transfer adds the 96 bytes of its step: the size of a token is not constant.\<close>

lemma transfer_size:
  assumes tok: "token_of R mint now tok" "token_wf alnum tok" "tok_credential_pool tok = []" and t: "transfer R tok w ns g = (Ok res, ns', g')"
  shows "serialized_size R (tr_token res) = serialized_size R tok + 96"
proof -
  have i: "issued_by R (group_public_key mint) (mint_pedersen mint) tok" "owned_chain R tok" using tok(1) unfolding token_ok_def by blast+
  obtain s where s: "steps_chain (tok_fold_proof (tr_token res)) = steps_chain (tok_fold_proof tok) @ [s]"
    using transfer_keeps_ok(6) [OF i t] by blast
  obtain sec fp where r: "tr_token res = tok\<lparr>tok_owner_secret := sec, tok_hash_chain_head := advance_hash_chain R (tok_hash_chain_head tok) sec,
      tok_transfer_count := tok_transfer_count tok + 1, tok_fold_proof := fp, tok_credential := tok_credential tok,
      tok_presentation := tok_presentation tok, tok_credential_pool := []\<rparr>" "length sec = 32"
    using transfer_Ok [OF t] tok(3) by (auto simp: pop_credential_def)
  then have "steps_chain fp = steps_chain (tok_fold_proof tok) @ [s]" using s by simp
  moreover have "length (advance_hash_chain R (tok_hash_chain_head tok) sec) = 32" by (simp add: advance_hash_chain_def length_shake256)
  ultimately show ?thesis
    using tok(2,3) r
    by (simp add: serialized_size_def serialize_token_def token_wf_def write_step_def length_compress length_scalar_bytes)
qed

end

end
