(* ===== verification/Wallet.thy ===== *)
theory Wallet
  imports Secure_Store Token_Format "HOL-Library.Multiset"
begin

text \<open>
  \<^verbatim>\<open>specter-core/src/wallet.rs\<close>: a holder's tokens, the choice of one to spend, and the encrypted wallet file.
\<close>

section \<open>The wallet\<close>

record ('s, 'p) wallet =
  w_tokens :: "('s, 'p) proof_carrying_token list"

definition wallet_new :: "('s, 'p) wallet" where
  "wallet_new = \<lparr>w_tokens = []\<rparr>"

definition MAX_TOKENS :: nat where
  "MAX_TOKENS = 100000"

definition add_token :: "('s, 'p) proof_carrying_token \<Rightarrow> ('s, 'p) wallet \<Rightarrow> bool \<times> ('s, 'p) wallet" where
  "add_token tok w =
     (if MAX_TOKENS \<le> length (w_tokens w) then (False, w) else (True, w\<lparr>w_tokens := w_tokens w @ [tok]\<rparr>))"

text \<open>\<^verbatim>\<open>Vec::remove\<close>, at an index in range, and \<^verbatim>\<open>Iterator::position\<close>.\<close>

definition remove_at :: "nat \<Rightarrow> 'a list \<Rightarrow> 'a list" where
  "remove_at i xs = take i xs @ drop (Suc i) xs"

fun position :: "('a \<Rightarrow> bool) \<Rightarrow> 'a list \<Rightarrow> nat option" where
  "position P [] = None"
| "position P (x # xs) = (if P x then Some 0 else map_option Suc (position P xs))"

definition remove_token ::
  "bytes \<Rightarrow> ('s, 'p) wallet \<Rightarrow> ('s, 'p) proof_carrying_token option \<times> ('s, 'p) wallet" where
  "remove_token token_id w =
     (case position (\<lambda>t. tok_id t = token_id) (w_tokens w) of
        Some pos \<Rightarrow> (Some (w_tokens w ! pos), w\<lparr>w_tokens := remove_at pos (w_tokens w)\<rparr>)
      | None \<Rightarrow> (None, w))"

definition balance :: "('s, 'p) wallet \<Rightarrow> u64" where
  "balance w = foldl saturating_add 0 (map tok_value (w_tokens w))"

definition token_count :: "('s, 'p) wallet \<Rightarrow> nat" where
  "token_count w = length (w_tokens w)"

text \<open>\<^verbatim>\<open>Iterator::min_by_key\<close>: the first of the least elements.\<close>

fun min_by_key :: "('a \<Rightarrow> 'k::linorder) \<Rightarrow> 'a list \<Rightarrow> 'a option" where
  "min_by_key key [] = None"
| "min_by_key key (x # xs) =
     (case min_by_key key xs of None \<Rightarrow> Some x | Some y \<Rightarrow> if key x \<le> key y then Some x else Some y)"

definition usable :: "u64 \<Rightarrow> ('s, 'p) proof_carrying_token \<Rightarrow> bool" where
  "usable amount t \<longleftrightarrow> amount \<le> tok_value t \<and> \<not> needs_renewal t"

definition select_token :: "u64 \<Rightarrow> ('s, 'p) wallet \<Rightarrow> ('s, 'p) proof_carrying_token option" where
  "select_token amount w = min_by_key tok_value (filter (usable amount) (w_tokens w))"

definition take_token :: "u64 \<Rightarrow> ('s, 'p) wallet \<Rightarrow> ('s, 'p) proof_carrying_token option \<times> ('s, 'p) wallet" where
  "take_token amount w =
     (case map_option fst (min_by_key (\<lambda>(i, t). tok_value t) (filter (\<lambda>(i, t). usable amount t) (enumerate 0 (w_tokens w)))) of
        None \<Rightarrow> (None, w)
      | Some idx \<Rightarrow> (Some (w_tokens w ! idx), w\<lparr>w_tokens := remove_at idx (w_tokens w)\<rparr>))"

definition tokens_needing_renewal :: "('s, 'p) wallet \<Rightarrow> ('s, 'p) proof_carrying_token list" where
  "tokens_needing_renewal w = filter needs_renewal (w_tokens w)"

record token_info =
  ti_token_id :: bytes
  ti_value :: u64
  ti_transfer_count :: u32
  ti_recursion_bound :: u32
  ti_needs_renewal :: bool
  ti_has_credential :: bool
  ti_has_bond :: bool
  ti_estimated_size :: nat

definition list_tokens :: "('s, 'p) wallet \<Rightarrow> token_info list" where
  "list_tokens w = map (\<lambda>t. \<lparr>ti_token_id = tok_id t, ti_value = tok_value t, ti_transfer_count = tok_transfer_count t,
     ti_recursion_bound = tok_recursion_bound t, ti_needs_renewal = needs_renewal t, ti_has_credential = has_credential t,
     ti_has_bond = has_bond t, ti_estimated_size = estimated_size t\<rparr>) (w_tokens w)"

definition total_storage_bytes :: "('s, 'p) wallet \<Rightarrow> nat" where
  "total_storage_bytes w = sum_list (map estimated_size (w_tokens w))"

definition wallet_is_empty :: "('s, 'p) wallet \<Rightarrow> bool" where
  "wallet_is_empty w \<longleftrightarrow> w_tokens w = []"

section \<open>The wallet file\<close>

datatype wallet_error =
    InvalidFormat
  | TokenVerificationFailed
  | WrongPassphrase
  | TokenError string

definition wallet_payload :: "('s, 'p) prims \<Rightarrow> ('s, 'p) wallet \<Rightarrow> bytes" where
  "wallet_payload R w =
     u32_le (of_nat (length (w_tokens w))) @
     concat (map (\<lambda>t. let token_bytes = serialize_token R t in u32_le (of_nat (length token_bytes)) @ token_bytes) (w_tokens w))"

definition wallet_save ::
  "('s, 'p) prims \<Rightarrow> aead_prims \<Rightarrow> ('s, 'p) wallet \<Rightarrow> bytes \<Rightarrow> rng \<Rightarrow> (bytes, wallet_error) result \<times> rng" where
  "wallet_save R A w passphrase g =
     (let (enc, g) = encrypt A (wallet_payload R w) passphrase g
      in (bindR (map_err (\<lambda>e. TokenError (show_secure_store_error e)) enc) (\<lambda>enc.
            Ok (ascii ''SWLT'' @ enc_salt enc @ enc_nonce enc @ u32_le (of_nat (length (enc_ciphertext enc))) @ enc_ciphertext enc)), g))"

definition read_u32_at :: "bytes \<Rightarrow> nat \<Rightarrow> nat" where
  "read_u32_at data pos = le_to_nat (take 4 (drop pos data))"

fun load_tokens ::
  "('s::field, 'p::ab_group_add) prims \<Rightarrow> (nat \<Rightarrow> bool) \<Rightarrow> 'p \<Rightarrow> 'p pedersen_params \<Rightarrow> 'p pedersen_params \<Rightarrow> u64 \<Rightarrow>
     nat \<Rightarrow> bytes \<Rightarrow> nat \<Rightarrow> (('s, 'p) proof_carrying_token list, wallet_error) result" where
  "load_tokens R alnum pk pedersen cp now 0 payload offset = Ok []"
| "load_tokens R alnum pk pedersen cp now (Suc n_tokens) payload offset =
     (if length payload < offset + 4 then Err InvalidFormat
      else
        let len = read_u32_at payload offset; offset = offset + 4 in
        if length payload < offset + len then Err InvalidFormat
        else
          bindR (map_err (\<lambda>e. TokenError (show_serde_error e)) (deserialize_token R alnum (take len (drop offset payload)))) (\<lambda>tok.
          bindR (infallible (verify_token R tok pk pedersen cp now)) (\<lambda>vr.
            if \<not> all_valid vr then Err TokenVerificationFailed
            else bindR (load_tokens R alnum pk pedersen cp now n_tokens payload (offset + len)) (\<lambda>toks. Ok (tok # toks)))))"

definition MAX_TOKENS_PER_WALLET :: nat where
  "MAX_TOKENS_PER_WALLET = 100000"

definition wallet_load ::
  "('s::field, 'p::ab_group_add) prims \<Rightarrow> aead_prims \<Rightarrow> (nat \<Rightarrow> bool) \<Rightarrow> bytes \<Rightarrow> bytes \<Rightarrow> 'p \<Rightarrow> 'p pedersen_params \<Rightarrow>
     'p pedersen_params \<Rightarrow> u64 \<Rightarrow> (('s, 'p) wallet, wallet_error) result" where
  "wallet_load R A alnum data passphrase pk pedersen cp now =
     (if length data < 36 \<or> take 4 data \<noteq> ascii ''SWLT'' then Err InvalidFormat
      else
        let salt = take 16 (drop 4 data);
            nonce = take 12 (drop 20 data);
            ct_len = read_u32_at data 32
        in if length data < 36 + ct_len then Err InvalidFormat
           else
             let encrypted = \<lparr>enc_salt = salt, enc_nonce = nonce, enc_ciphertext = take ct_len (drop 36 data)\<rparr>
             in bindR (map_err (\<lambda>_. WrongPassphrase) (decrypt A encrypted passphrase)) (\<lambda>payload.
                  if length payload < 4 then Err InvalidFormat
                  else
                    let n_tokens = read_u32_at payload 0
                    in if MAX_TOKENS_PER_WALLET < n_tokens then Err InvalidFormat
                       else bindR (load_tokens R alnum pk pedersen cp now n_tokens payload 4) (\<lambda>tokens. Ok \<lparr>w_tokens = tokens\<rparr>)))"

section \<open>Choosing a token\<close>

lemma min_by_key_None [simp]: "min_by_key key xs = None \<longleftrightarrow> xs = []"
  by (cases xs) (auto split: option.splits)

lemma min_by_key_Some:
  "min_by_key key xs = Some x \<Longrightarrow> x \<in> set xs \<and> (\<forall>y\<in>set xs. key x \<le> key y)"
proof (induction xs arbitrary: x)
  case (Cons z xs)
  then show ?case by (cases "min_by_key key xs") (auto split: if_splits)
qed simp

lemma mset_remove_at: "i < length xs \<Longrightarrow> mset xs = add_mset (xs ! i) (mset (remove_at i xs))"
  by (subst id_take_nth_drop [of i xs]) (simp_all add: remove_at_def)

lemma min_by_key_map: "map_option h (min_by_key (\<lambda>x. key (h x)) xs) = min_by_key key (map h xs)"
  by (induction xs) (auto split: option.splits)

lemma min_by_key_snd: "map_option snd (min_by_key (\<lambda>(i, t). key t) ixs) = min_by_key key (map snd ixs)"
  using min_by_key_map [of snd key ixs] by (simp add: case_prod_unfold)

lemma filter_enumerate: "map snd (filter (\<lambda>(i, t). P t) (enumerate n xs)) = filter P xs"
  by (induction xs arbitrary: n) auto

lemma take_select:
  "take_token amount w = (case select_token amount w of
     None \<Rightarrow> (None, w)
   | Some t \<Rightarrow> (Some t, snd (take_token amount w)))"
proof -
  let ?m = "min_by_key (\<lambda>(i, t). tok_value t) (filter (\<lambda>(i, t). usable amount t) (enumerate 0 (w_tokens w)))"
  have s: "select_token amount w = map_option snd ?m"
    unfolding select_token_def min_by_key_snd filter_enumerate ..
  show ?thesis
  proof (cases ?m)
    case (Some it)
    then have "it \<in> set (enumerate 0 (w_tokens w))" using min_by_key_Some [OF Some] by simp
    then have "w_tokens w ! fst it = snd it" by (simp add: in_set_enumerate_eq)
    then show ?thesis using s Some by (simp add: take_token_def)
  qed (use s in \<open>simp add: take_token_def\<close>)
qed

lemma take_token_mset:
  assumes "take_token amount w = (Some t, w')"
  shows "mset (w_tokens w) = add_mset t (mset (w_tokens w'))"
proof -
  let ?m = "min_by_key (\<lambda>(i, t). tok_value t) (filter (\<lambda>(i, t). usable amount t) (enumerate 0 (w_tokens w)))"
  obtain it where it: "?m = Some it" "t = w_tokens w ! fst it" "w_tokens w' = remove_at (fst it) (w_tokens w)"
    using assms by (cases ?m) (auto simp: take_token_def)
  then have "fst it < length (w_tokens w)" using min_by_key_Some [OF it(1)] by (simp add: in_set_enumerate_eq)
  then show ?thesis using mset_remove_at it by metis
qed

lemma unat_balance: "unat (balance w) = min (\<Sum>t\<leftarrow>w_tokens w. unat (tok_value t)) (2 ^ 64 - 1)"
proof -
  have "unat (foldl saturating_add a vs) = min (unat a + (\<Sum>v\<leftarrow>vs. unat v)) (2 ^ 64 - 1)" for a :: u64 and vs
  proof (induction vs arbitrary: a)
    case Nil
    show ?case using unsigned_less [of a, where ?'a = nat] by simp
  next
    case (Cons v vs)
    show ?case using Cons.IH [of "saturating_add a v"] by (simp add: unat_saturating_add min_def)
  qed
  from this [of 0 "map tok_value (w_tokens w)"] show ?thesis by (simp add: balance_def o_def)
qed

section \<open>Reading a saved wallet\<close>

definition framed :: "('s, 'p) prims \<Rightarrow> ('s, 'p) proof_carrying_token \<Rightarrow> bytes" where
  "framed R t = u32_le (of_nat (length (serialize_token R t))) @ serialize_token R t"

lemma wallet_payload_eq: "wallet_payload R w = u32_le (of_nat (length (w_tokens w))) @ concat (map (framed R) (w_tokens w))"
  by (simp add: wallet_payload_def framed_def [abs_def] Let_def)

lemma length_framed [simp]: "length (framed R t) = 4 + length (serialize_token R t)"
  by (simp add: framed_def)

lemma read_u32_written: "n < 2 ^ 32 \<Longrightarrow> read_u32_at (pre @ u32_le (of_nat n) @ rest) (length pre) = n"
  by (simp add: read_u32_at_def unat_of_nat)

context ristretto
begin

lemma load_tokens_written:
  assumes "\<forall>t\<in>set toks. token_wf alnum t \<and> (\<exists>vr. verify_token R t pk pedersen cp now = Ok vr \<and> all_valid vr)"
  shows "load_tokens R alnum pk pedersen cp now (length toks) (pre @ concat (map (framed R) toks)) (length pre) = Ok toks"
  using assms
proof (induction toks arbitrary: pre)
  case (Cons t toks)
  let ?n = "length (serialize_token R t)" and ?rest = "concat (map (framed R) toks)"
  have wf: "token_wf alnum t" "?n < 2 ^ 32" and v: "\<exists>vr. verify_token R t pk pedersen cp now = Ok vr \<and> all_valid vr"
    using Cons.prems length_serialize_token [of alnum t] by auto
  have len: "read_u32_at (pre @ framed R t @ ?rest) (length pre) = ?n"
    using read_u32_written [OF wf(2), of pre "serialize_token R t @ ?rest"] by (simp add: framed_def)
  have d: "deserialize_token R alnum (serialize_token R t) = Ok t"
    using read_token_written [OF wf(1), of "[]"] by (simp add: deserialize_token_def)
  have tk: "take ?n (drop (length pre + 4) (pre @ framed R t @ ?rest)) = serialize_token R t" by (simp add: framed_def)
  have "load_tokens R alnum pk pedersen cp now (length toks) ((pre @ framed R t) @ ?rest) (length (pre @ framed R t)) = Ok toks"
    using Cons.prems by (intro Cons.IH) simp
  then have IH: "load_tokens R alnum pk pedersen cp now (length toks) (pre @ framed R t @ ?rest) (length pre + 4 + ?n) = Ok toks"
    by (simp add: add.assoc)
  from v obtain vr where "verify_token R t pk pedersen cp now = Ok vr" "all_valid vr" by blast
  with IH show ?case
    unfolding list.size(4) list.map concat.simps add_Suc_right add_0_right load_tokens.simps Let_def len tk d by simp
qed simp

end

lemma load_saved:
  assumes "ristretto R" and "aead A" and "wallet_save R A w pass g = (Ok data, g')" and "length (w_tokens w) \<le> 100000"
    and "\<forall>t\<in>set (w_tokens w). token_wf alnum t \<and> (\<exists>vr. verify_token R t pk pedersen cp now = Ok vr \<and> all_valid vr)"
    and "length data < 2 ^ 32"
  shows "wallet_load R A alnum data pass pk pedersen cp now = Ok w"
proof -
  obtain enc g1 where e: "encrypt A (wallet_payload R w) pass g = (Ok enc, g1)"
    and data: "data = ascii ''SWLT'' @ enc_salt enc @ enc_nonce enc @ u32_le (of_nat (length (enc_ciphertext enc))) @ enc_ciphertext enc"
    using assms(3) by (auto simp: wallet_save_def split: prod.splits)
  note enc = aead.encrypt_Ok [OF assms(2) e]
  have ct: "length (enc_ciphertext enc) < 2 ^ 32" using assms(6) by (simp add: data)
  have m: "length (ascii ''SWLT'') = 4" by (simp add: ascii_def)
  have ct_len: "read_u32_at data 32 = length (enc_ciphertext enc)"
    using read_u32_written [OF ct, of "ascii ''SWLT'' @ enc_salt enc @ enc_nonce enc" "enc_ciphertext enc"] enc(3,4) m by (simp add: data)
  have "length (w_tokens w) < 2 ^ 32" using assms(4) by simp
  then have n: "read_u32_at (wallet_payload R w) 0 = length (w_tokens w)"
    using read_u32_written [of _ "[]"] by (simp add: wallet_payload_eq)
  have toks: "load_tokens R alnum pk pedersen cp now (length (w_tokens w)) (wallet_payload R w) 4 = Ok (w_tokens w)"
    using ristretto.load_tokens_written [OF assms(1,5), of "u32_le (of_nat (length (w_tokens w)))"] by (simp add: wallet_payload_eq)
  have "\<lparr>enc_salt = take 16 (drop 4 data), enc_nonce = take 12 (drop 20 data), enc_ciphertext = take (read_u32_at data 32) (drop 36 data)\<rparr> = enc"
    unfolding ct_len using enc(3,4) m by (simp add: data)
  moreover have "\<not> (length data < 36 \<or> take 4 data \<noteq> ascii ''SWLT'')" "\<not> length data < 36 + read_u32_at data 32"
    unfolding ct_len using enc(3,4) m by (simp_all add: data)
  moreover have "\<not> length (wallet_payload R w) < 4" by (simp add: wallet_payload_eq)
  ultimately show ?thesis
    using enc(1) assms(4) toks n by (simp add: wallet_load_def Let_def MAX_TOKENS_PER_WALLET_def)
qed

text \<open>Saving a wallet with one token under a passphrase, with the example cipher.\<close>

lemma tag_saved:
  assumes "token_wf alnum tok"
  obtains data g' where "wallet_save zp_prims tag_aead \<lparr>w_tokens = [tok]\<rparr> (replicate 12 7) g = (Ok data, g')" "length data < 2 ^ 32"
proof -
  obtain salt g1 where s: "fill_bytes 16 g = (salt, g1)" by fastforce
  obtain nonce g2 where n: "fill_bytes 12 g1 = (nonce, g2)" by fastforce
  have "length salt = 16" "length nonce = 12" using s n by (auto simp: fill_bytes_def Let_def)
  moreover have "length (wallet_payload zp_prims \<lparr>w_tokens = [tok]\<rparr>) \<le> 210000008"
    using zp.length_serialize_token [OF assms] by (simp add: wallet_payload_eq)
  moreover have "aead_encrypt tag_aead key nonce p = Some (len_le (key @ nonce) @ key @ nonce @ p)" for key p by (simp add: tag_aead_def)
  ultimately show ?thesis
    using that s n by (simp add: wallet_save_def encrypt_def derive_key_def MIN_PASSPHRASE_LEN_def tag_aead_def)
qed

text \<open>A wallet with one token of the example mint.\<close>

lemma demo_saved:
  obtains tok data g' where "wallet_save zp_prims tag_aead \<lparr>w_tokens = [tok]\<rparr> (replicate 12 7) (\<lambda>_. 1) = (Ok data, g')"
    "token_of zp_prims demo_mint 0 tok" "token_wf ascii_alnum tok" "tok_value tok = 100" "length data < 2 ^ 32"
proof -
  have wf: "issue_wf ascii_alnum demo_mint None None" using demo_mint_ok(3) by (simp add: issue_wf_def option_wf_def)
  obtain tok where tok: "fst (issue_full zp_prims demo_mint 100 [3, 1] None None None (\<lambda>_. 4)) = Ok tok" "token_of zp_prims demo_mint 0 tok"
      "tok_value tok = 100"
    using zp.issue_full_ok [OF demo_mint_ok(1,2), of 100 None 0 None None "\<lambda>_. 4"] by auto
  then have t: "token_wf ascii_alnum tok" using zp.issue_full_wf [OF wf] by (metis prod.collapse storable_def)
  from tag_saved [OF this] show ?thesis using that [OF _ tok(2) t tok(3)] by blast
qed

section \<open>Properties\<close>

text \<open>C11: spending from a wallet: the token offered for an amount is one that covers it and can still be transferred, of least value
  among these, and none is offered exactly when the wallet has none; taking it removes that token and no other, so the values
  in the wallet before are the value taken plus those left; and the balance is the true sum of the values, capped at the
  largest 64-bit number.\<close>

theorem wallet_take_conserves:
  "(select_token amount w = None \<longleftrightarrow> (\<forall>t\<in>set (w_tokens w). \<not> usable amount t)) \<and>
   (\<forall>t. select_token amount w = Some t \<longrightarrow> t \<in> set (w_tokens w) \<and> amount \<le> tok_value t \<and> \<not> needs_renewal t \<and>
      (\<forall>u\<in>set (w_tokens w). usable amount u \<longrightarrow> tok_value t \<le> tok_value u)) \<and>
   fst (take_token amount w) = select_token amount w \<and>
   (\<forall>t w'. take_token amount w = (Some t, w') \<longrightarrow> mset (w_tokens w) = add_mset t (mset (w_tokens w'))) \<and>
   unat (balance w) = min (\<Sum>t\<leftarrow>w_tokens w. unat (tok_value t)) (2 ^ 64 - 1)"
proof (intro conjI allI impI)
  show "select_token amount w = None \<longleftrightarrow> (\<forall>t\<in>set (w_tokens w). \<not> usable amount t)"
    by (simp add: select_token_def filter_empty_conv)
  show "fst (take_token amount w) = select_token amount w"
    by (subst take_select) (simp split: option.split)
  show "unat (balance w) = min (\<Sum>t\<leftarrow>w_tokens w. unat (tok_value t)) (2 ^ 64 - 1)" by (rule unat_balance)
next
  fix t w' assume "take_token amount w = (Some t, w')"
  then show "mset (w_tokens w) = add_mset t (mset (w_tokens w'))" by (rule take_token_mset)
next
  fix t assume "select_token amount w = Some t"
  note m = min_by_key_Some [OF this [unfolded select_token_def]]
  then show "t \<in> set (w_tokens w)" "amount \<le> tok_value t" "\<not> needs_renewal t"
      "\<forall>u\<in>set (w_tokens w). usable amount u \<longrightarrow> tok_value t \<le> tok_value u"
    by (simp_all add: usable_def)
qed

theorem wallet_take_conserves_witness:
  "select_token 50 \<lparr>w_tokens = [sample_token]\<rparr> = Some sample_token \<and>
   mset [sample_token] = add_mset sample_token (mset (w_tokens (snd (take_token 50 \<lparr>w_tokens = [sample_token]\<rparr>))))"
proof -
  let ?w = "\<lparr>w_tokens = [sample_token]\<rparr>"
  have s: "select_token 50 ?w = Some sample_token" by (simp add: select_token_def usable_def needs_renewal_def sample_token_def word_le_nat_alt)
  note p = wallet_take_conserves [of 50 ?w]
  then have "fst (take_token 50 ?w) = Some sample_token" using s by metis
  then have "take_token 50 ?w = (Some sample_token, snd (take_token 50 ?w))" by (metis prod.collapse)
  then have "mset (w_tokens ?w) = add_mset sample_token (mset (w_tokens (snd (take_token 50 ?w))))" using p by metis
  with s show ?thesis by simp
qed

text \<open>C28: a wallet survives saving and loading. If its tokens are well formed and pass verification at the time of
  loading, there are at most a hundred thousand of them and the file is shorter than the 32-bit lengths of the format allow, then
  loading the saved bytes with the same passphrase gives the same wallet.\<close>

theorem wallet_roundtrip:
  assumes "ristretto R" and "aead A" and "wallet_save R A w pass g = (Ok data, g')" and "length (w_tokens w) \<le> 100000"
    and "\<forall>t\<in>set (w_tokens w). token_wf alnum t \<and> (\<exists>vr. verify_token R t pk pedersen cp now = Ok vr \<and> all_valid vr)"
    and "length data < 2 ^ 32"
  shows "wallet_load R A alnum data pass pk pedersen cp now = Ok w"
  by (rule load_saved [OF assms])

theorem wallet_roundtrip_witness:
  "\<exists>tok data g'. tok_value tok = 100 \<and> wallet_save zp_prims tag_aead \<lparr>w_tokens = [tok]\<rparr> (replicate 12 7) (\<lambda>_. 1) = (Ok data, g') \<and>
     wallet_load zp_prims tag_aead ascii_alnum data (replicate 12 7) (group_public_key demo_mint) (mint_pedersen demo_mint)
       (iss_pedersen (mint_issuer demo_mint)) 0 = Ok \<lparr>w_tokens = [tok]\<rparr>"
proof -
  obtain tok data g' where t: "wallet_save zp_prims tag_aead \<lparr>w_tokens = [tok]\<rparr> (replicate 12 7) (\<lambda>_. 1) = (Ok data, g')"
    "token_of zp_prims demo_mint 0 tok" "token_wf ascii_alnum tok" "tok_value tok = 100" "length data < 2 ^ 32"
    by (rule demo_saved)
  from wallet_roundtrip [OF zp.ristretto_axioms tag.aead_axioms t(1) _ _ t(5)] token_ok_all_valid [OF t(2)] t(1,3,4) show ?thesis by auto
qed

text \<open>Loading verifies: whatever the bytes are, every token of a wallet that loads passed the whole verification
  against the mint's key at the given time, and there are at most a hundred thousand.\<close>

lemma wallet_load_verified:
  assumes "wallet_load R A alnum data pass pk pedersen cp now = Ok w"
  shows "length (w_tokens w) \<le> 100000 \<and>
    (\<forall>t\<in>set (w_tokens w). \<exists>vr. verify_token R t pk pedersen cp now = Ok vr \<and> all_valid vr)"
proof -
  have "length toks = n \<and> (\<forall>t\<in>set toks. \<exists>vr. verify_token R t pk pedersen cp now = Ok vr \<and> all_valid vr)"
    if "load_tokens R alnum pk pedersen cp now n payload off = Ok toks" for n payload off toks
    using that by (induction n arbitrary: off toks) (auto simp: Let_def split: if_splits)
  with assms show ?thesis by (fastforce simp: wallet_load_def Let_def MAX_TOKENS_PER_WALLET_def split: if_splits)
qed

lemma wallet_load_verified_witness:
  "\<exists>data w t. wallet_load zp_prims tag_aead ascii_alnum data (replicate 12 7) (group_public_key demo_mint) (mint_pedersen demo_mint)
      (iss_pedersen (mint_issuer demo_mint)) 0 = Ok w \<and> t \<in> set (w_tokens w) \<and>
     (\<exists>vr. verify_token zp_prims t (group_public_key demo_mint) (mint_pedersen demo_mint) (iss_pedersen (mint_issuer demo_mint)) 0 = Ok vr \<and>
        all_valid vr)"
proof -
  obtain tok data g' where t: "wallet_save zp_prims tag_aead \<lparr>w_tokens = [tok]\<rparr> (replicate 12 7) (\<lambda>_. 1) = (Ok data, g')"
    "token_of zp_prims demo_mint 0 tok" "token_wf ascii_alnum tok" "tok_value tok = 100" "length data < 2 ^ 32"
    by (rule demo_saved)
  have l: "wallet_load zp_prims tag_aead ascii_alnum data (replicate 12 7) (group_public_key demo_mint) (mint_pedersen demo_mint)
       (iss_pedersen (mint_issuer demo_mint)) 0 = Ok \<lparr>w_tokens = [tok]\<rparr>"
    using t token_ok_all_valid [OF t(2)] by (intro load_saved [OF zp.ristretto_axioms tag.aead_axioms t(1)]) auto
  from wallet_load_verified [OF l]
  have "\<exists>vr. verify_token zp_prims tok (group_public_key demo_mint) (mint_pedersen demo_mint) (iss_pedersen (mint_issuer demo_mint)) 0 = Ok vr \<and>
     all_valid vr" by simp
  with l show ?thesis by (intro exI [of _ data] exI [of _ "\<lparr>w_tokens = [tok]\<rparr>"] exI [of _ tok]) simp
qed

end
