(* ===== verification/Cli.thy ===== *)
theory Cli
  imports Handshake Wallet
begin

text \<open>
  The commands of \<^verbatim>\<open>specter-cli/src/main.rs\<close>, in a release build. The state is the two files and the tape of random bytes; the
  environment is the passphrase variable, the clock and what the file system does with a write. A command returns a value, returns
  early, exits the process or panics. What is printed is the returned value; messages are left out.
  The hexadecimal decoder of the crate \<^verbatim>\<open>hex\<close> is a parameter.
\<close>

section \<open>Environment and outcomes\<close>

datatype fs_write = Written | Not_opened | Truncated nat

record cli_env =
  env_passphrase :: "bytes option"
  env_now :: u64
  wallet_write :: fs_write
  identity_write :: fs_write

record cli_state =
  wallet_file :: "bytes option"
  identity_file :: "bytes option"
  cli_rng :: rng

datatype 'a outcome = Done 'a | Returned | Exited nat | Panicked

type_synonym 'a command = "cli_state \<Rightarrow> 'a outcome \<times> cli_state"

fun and_then :: "'a outcome \<times> cli_state \<Rightarrow> ('a \<Rightarrow> 'b command) \<Rightarrow> 'b outcome \<times> cli_state" where
  "and_then (Done x, st) f = f x st"
| "and_then (Returned, st) f = (Returned, st)"
| "and_then (Exited n, st) f = (Exited n, st)"
| "and_then (Panicked, st) f = (Panicked, st)"

text \<open>\<^verbatim>\<open>std::fs::write\<close> truncates the file before it writes.\<close>

definition fs_write_file :: "fs_write \<Rightarrow> bytes \<Rightarrow> bytes option \<Rightarrow> bool \<times> bytes option" where
  "fs_write_file w data old =
     (case w of Written \<Rightarrow> (True, Some data) | Not_opened \<Rightarrow> (False, old) | Truncated n \<Rightarrow> (False, Some (take n data)))"

definition get_passphrase :: "cli_env \<Rightarrow> bytes command" where
  "get_passphrase env st =
     (case env_passphrase env of
        Some p \<Rightarrow> if MIN_PASSPHRASE_LEN \<le> length p then (Done p, st) else (Exited 1, st)
      | None \<Rightarrow> (Exited 1, st))"

section \<open>Arguments\<close>

text \<open>\<^verbatim>\<open>str::parse\<close> for \<^verbatim>\<open>u64\<close>: an optional plus sign and digits, with overflow an error.\<close>

definition digit_value :: "char \<Rightarrow> nat option" where
  "digit_value c = (if 48 \<le> (of_char c :: nat) \<and> (of_char c :: nat) \<le> 57 then Some (of_char c - 48) else None)"

fun parse_digits :: "nat \<Rightarrow> string \<Rightarrow> nat option" where
  "parse_digits acc [] = Some acc"
| "parse_digits acc (c # cs) =
     (case digit_value c of
        None \<Rightarrow> None
      | Some d \<Rightarrow> if acc * 10 + d < 2 ^ 64 then parse_digits (acc * 10 + d) cs else None)"

definition parse_u64 :: "string \<Rightarrow> u64 option" where
  "parse_u64 s =
     (let ds = (case s of c # cs \<Rightarrow> if c = CHR ''+'' then cs else s | [] \<Rightarrow> [])
      in if ds = [] then None else map_option of_nat (parse_digits 0 ds))"

definition arg :: "string list \<Rightarrow> nat \<Rightarrow> string option" where
  "arg args i = (if i < length args then Some (args ! i) else None)"

text \<open>Arguments are ASCII; \<^verbatim>\<open>trim\<close> removes white space at both ends.\<close>

definition is_space :: "char \<Rightarrow> bool" where
  "is_space c \<longleftrightarrow> (of_char c :: nat) \<in> {9, 10, 11, 12, 13, 32}"

definition trim :: "string \<Rightarrow> string" where
  "trim s = rev (dropWhile is_space (rev (dropWhile is_space s)))"

definition parse_peer_pk :: "('s, 'p) prims \<Rightarrow> (string \<Rightarrow> bytes option) \<Rightarrow> string \<Rightarrow> 'p option" where
  "parse_peer_pk R hex_decode s =
     Option.bind (hex_decode (trim s)) (\<lambda>bs. if length bs \<noteq> 32 then None else decompress R bs)"

section \<open>Mint, identity and wallet of an invocation\<close>

definition default_attrs :: attributes where
  "default_attrs = \<lparr>kyc_passed = True, not_sanctioned = True, jurisdiction = ''EU'', age_over_18 = True, expires_at = 0\<rparr>"

definition default_mint :: "('s::field, 'p::ab_group_add) prims \<Rightarrow> ('s, 'p) mint command" where
  "default_mint R st =
     (case mint_setup_with_dkg R \<lparr>cfg_threshold = 2, cfg_total_signers = 3, cfg_recursion_bound = 20\<rparr> (cli_rng st) of
        (Ok mint, g) \<Rightarrow> (Done mint, st\<lparr>cli_rng := g\<rparr>)
      | (_, g) \<Rightarrow> (Panicked, st\<lparr>cli_rng := g\<rparr>))"

text \<open>Making a new identity and writing it; the result of the write is ignored.\<close>

definition create_identity ::
  "('s, 'p) prims \<Rightarrow> aead_prims \<Rightarrow> cli_env \<Rightarrow> bytes \<Rightarrow> ('s, 'p) node_identity command" where
  "create_identity R A env passphrase st =
     (let (me, g) = identity_generate R (cli_rng st)
      in case identity_encode R A me passphrase g of
           (Ok data, g) \<Rightarrow>
             (Done me, st\<lparr>identity_file := snd (fs_write_file (identity_write env) data (identity_file st)), cli_rng := g\<rparr>)
         | (_, g) \<Rightarrow> (Panicked, st\<lparr>cli_rng := g\<rparr>))"

definition identity_load_or_create ::
  "('s, 'p) prims \<Rightarrow> aead_prims \<Rightarrow> cli_env \<Rightarrow> bytes \<Rightarrow> ('s, 'p) node_identity command" where
  "identity_load_or_create R A env passphrase st =
     (case identity_file st of
        Some data \<Rightarrow>
          (case identity_decode R A data passphrase of
             Ok (Some me) \<Rightarrow> (Done me, st)
           | Ok None \<Rightarrow> create_identity R A env passphrase st
           | _ \<Rightarrow> (Panicked, st))
      | None \<Rightarrow> create_identity R A env passphrase st)"

definition load_or_create_wallet ::
  "('s::field, 'p::ab_group_add) prims \<Rightarrow> aead_prims \<Rightarrow> (nat \<Rightarrow> bool) \<Rightarrow> cli_env \<Rightarrow> ('s, 'p) mint \<Rightarrow> ('s, 'p) wallet command" where
  "load_or_create_wallet R A alnum env mint st =
     (case wallet_file st of
        None \<Rightarrow> (Done wallet_new, st)
      | Some data \<Rightarrow> and_then (get_passphrase env st) (\<lambda>passphrase st.
          (case wallet_load R A alnum data passphrase (group_public_key mint) (mint_pedersen mint)
               (iss_pedersen (mint_issuer mint)) (env_now env) of
             Ok w \<Rightarrow> (Done w, st)
           | Err _ \<Rightarrow> (Done wallet_new, st)
           | Panic \<Rightarrow> (Panicked, st))))"

text \<open>Saving the wallet: \<open>failed\<close> is what a failure does, an exit or a return.\<close>

definition save_wallet ::
  "('s, 'p) prims \<Rightarrow> aead_prims \<Rightarrow> cli_env \<Rightarrow> bytes outcome \<Rightarrow> ('s, 'p) wallet \<Rightarrow> bytes command" where
  "save_wallet R A env failed w st =
     and_then (get_passphrase env st) (\<lambda>passphrase st.
       (case wallet_save R A w passphrase (cli_rng st) of
          (Ok data, g) \<Rightarrow>
            (let (ok, file) = fs_write_file (wallet_write env) data (wallet_file st)
             in (if ok then Done data else failed, st\<lparr>wallet_file := file, cli_rng := g\<rparr>))
        | (Err _, g) \<Rightarrow> (failed, st\<lparr>cli_rng := g\<rparr>)
        | (Panic, g) \<Rightarrow> (Panicked, st\<lparr>cli_rng := g\<rparr>)))"

section \<open>Local commands\<close>

definition cmd_setup :: "('s::field, 'p::ab_group_add) prims \<Rightarrow> aead_prims \<Rightarrow> cli_env \<Rightarrow> 'p command" where
  "cmd_setup R A env st =
     and_then (default_mint R st) (\<lambda>mint st.
     and_then (save_wallet R A env (Exited 1) (wallet_new :: ('s, 'p) wallet) st) (\<lambda>data st.
       (Done (group_public_key mint), st)))"

definition cmd_mint ::
  "('s::field, 'p::ab_group_add) prims \<Rightarrow> aead_prims \<Rightarrow> (nat \<Rightarrow> bool) \<Rightarrow> cli_env \<Rightarrow> string list \<Rightarrow>
     (('s, 'p) proof_carrying_token \<times> u64) command" where
  "cmd_mint R A alnum env args st =
     (let v = (case Option.bind (arg args 2) parse_u64 of Some v \<Rightarrow> v | None \<Rightarrow> 1000)
      in and_then (default_mint R st) (\<lambda>mint st.
           (case issue R mint v [1, 2] (Some default_attrs) (cli_rng st) of
              (Ok tok, g) \<Rightarrow>
                and_then (load_or_create_wallet R A alnum env mint (st\<lparr>cli_rng := g\<rparr>)) (\<lambda>w st.
                  let w = snd (add_token tok w)
                  in and_then (save_wallet R A env (Exited 1) w st) (\<lambda>data st. (Done (tok, balance w), st)))
            | (_, g) \<Rightarrow> (Panicked, st\<lparr>cli_rng := g\<rparr>))))"

definition cmd_balance ::
  "('s::field, 'p::ab_group_add) prims \<Rightarrow> aead_prims \<Rightarrow> (nat \<Rightarrow> bool) \<Rightarrow> cli_env \<Rightarrow> (u64 \<times> nat \<times> token_info list \<times> nat) command" where
  "cmd_balance R A alnum env st =
     and_then (default_mint R st) (\<lambda>mint st.
     and_then (load_or_create_wallet R A alnum env mint st) (\<lambda>w st.
       (Done (balance w, token_count w, list_tokens w, length (tokens_needing_renewal w)), st)))"

definition cmd_transfer ::
  "('s::field, 'p::ab_group_add) prims \<Rightarrow> aead_prims \<Rightarrow> (nat \<Rightarrow> bool) \<Rightarrow> cli_env \<Rightarrow> (bytes \<times> u64) command" where
  "cmd_transfer R A alnum env st =
     and_then (default_mint R st) (\<lambda>mint st.
     and_then (load_or_create_wallet R A alnum env mint st) (\<lambda>w st.
       if wallet_is_empty w then (Returned, st)
       else case take_token 1 w of
         (None, w) \<Rightarrow> (Returned, st)
       | (Some tok, w) \<Rightarrow>
           (case transfer R tok None nullifier_set_new (cli_rng st) of
              (Ok res, ns, g) \<Rightarrow>
                let w = snd (add_token (tr_token res) w)
                in and_then (save_wallet R A env (Exited 1) w (st\<lparr>cli_rng := g\<rparr>)) (\<lambda>data st.
                     (Done (tr_spent_nullifier res, balance w), st))
            | (Err _, ns, g) \<Rightarrow> (Exited 1, st\<lparr>cli_rng := g\<rparr>)
            | (Panic, ns, g) \<Rightarrow> (Panicked, st\<lparr>cli_rng := g\<rparr>))))"

definition cmd_save ::
  "('s::field, 'p::ab_group_add) prims \<Rightarrow> aead_prims \<Rightarrow> (nat \<Rightarrow> bool) \<Rightarrow> cli_env \<Rightarrow> (nat \<times> nat) command" where
  "cmd_save R A alnum env st =
     and_then (default_mint R st) (\<lambda>mint st.
     and_then (load_or_create_wallet R A alnum env mint st) (\<lambda>w st.
     and_then (save_wallet R A env (Exited 1) w st) (\<lambda>data st. (Done (length data, token_count w), st))))"

definition cmd_load ::
  "('s::field, 'p::ab_group_add) prims \<Rightarrow> aead_prims \<Rightarrow> (nat \<Rightarrow> bool) \<Rightarrow> cli_env \<Rightarrow> (u64 \<times> nat) command" where
  "cmd_load R A alnum env st =
     and_then (default_mint R st) (\<lambda>mint st.
     and_then (load_or_create_wallet R A alnum env mint st) (\<lambda>w st. (Done (balance w, token_count w), st)))"

section \<open>Sending and receiving\<close>

definition handshake_dispatch ::
  "('s::field, 'p::ab_group_add) prims \<Rightarrow> 'd kem_prims option \<Rightarrow> ('s, 'p) node_identity \<Rightarrow> 'p option \<Rightarrow> bool \<Rightarrow> bytes session" where
  "handshake_dispatch R pq_handshake me expected_peer_pk is_initiator =
     (case pq_handshake of
        Some K \<Rightarrow> hybrid_authenticated_handshake R K me expected_peer_pk is_initiator
      | None \<Rightarrow> authenticated_handshake R me expected_peer_pk is_initiator)"

text \<open>A session step inside a command: it draws from the command's tape, and its failure returns from the command.\<close>

definition in_session :: "'a session \<Rightarrow> conn \<Rightarrow> ('a \<times> conn) command" where
  "in_session m c st =
     (case m (c\<lparr>rnd := cli_rng st\<rparr>) of
        (Some x, c) \<Rightarrow> (Done (x, c), st\<lparr>cli_rng := rnd c\<rparr>)
      | (None, c) \<Rightarrow> (Returned, st\<lparr>cli_rng := rnd c\<rparr>))"

definition encryptS :: "aead_prims \<Rightarrow> bytes \<Rightarrow> bytes \<Rightarrow> bytes session" where
  "encryptS A plaintext key c = (let (r, g) = encrypt_with_key A plaintext key (rnd c) in (r, c\<lparr>rnd := g\<rparr>))"

text \<open>\<open>connection\<close> is the stream \<^verbatim>\<open>connect\<close> gives, with all the peer will send, or \<open>None\<close> when it fails.\<close>

definition cmd_send ::
  "('s::field, 'p::ab_group_add) prims \<Rightarrow> aead_prims \<Rightarrow> 'd kem_prims option \<Rightarrow> (string \<Rightarrow> bytes option) \<Rightarrow> (nat \<Rightarrow> bool) \<Rightarrow> cli_env \<Rightarrow>
     string list \<Rightarrow> conn option \<Rightarrow> (bytes \<times> conn) command" where
  "cmd_send R A pq hex_decode alnum env args connection st =
     (let expected_peer = Option.bind (arg args 3) (parse_peer_pk R hex_decode)
      in and_then (default_mint R st) (\<lambda>mint st.
         and_then (get_passphrase env st) (\<lambda>passphrase st.
         and_then (identity_load_or_create R A env passphrase st) (\<lambda>my_identity st.
         and_then (load_or_create_wallet R A alnum env mint st) (\<lambda>w st.
           if wallet_is_empty w then (Returned, st)
           else case take_token 1 w of
             (None, w) \<Rightarrow> (Returned, st)
           | (Some tok, w) \<Rightarrow>
               let plaintext = serialize_token_public R tok
               in (case connection of
                     None \<Rightarrow> (Returned, st)
                   | Some c \<Rightarrow>
                       and_then (in_session (handshake_dispatch R pq my_identity expected_peer True) c st) (\<lambda>(shared_key, c) st.
                       and_then (in_session (encryptS A plaintext shared_key) c st) (\<lambda>(encrypted, c) st.
                       and_then (in_session (bindS (write_all (u32_le (of_nat (length encrypted)))) (\<lambda>_. write_all encrypted)) c st) (\<lambda>(u, c) st.
                       and_then (save_wallet R A env Returned w st) (\<lambda>data st. (Done (tok_id tok, c), st)))))))))))"

definition MAX_TOKEN_SIZE :: nat where
  "MAX_TOKEN_SIZE = 65536"

definition receive_message :: "aead_prims \<Rightarrow> bytes \<Rightarrow> bytes session" where
  "receive_message A shared_key =
     bindS (read_exact 4) (\<lambda>len_buf.
       let len = le_to_nat len_buf
       in bindS (liftS (if MAX_TOKEN_SIZE < len \<or> len = 0 then None else Some ())) (\<lambda>_.
          bindS (read_exact len) (\<lambda>encrypted_buf. liftS (decrypt_with_key A encrypted_buf shared_key))))"

text \<open>\<open>connection\<close> is what \<^verbatim>\<open>bind\<close> and \<^verbatim>\<open>accept\<close> give.\<close>

definition cmd_receive ::
  "('s::field, 'p::ab_group_add) prims \<Rightarrow> aead_prims \<Rightarrow> 'd kem_prims option \<Rightarrow> (nat \<Rightarrow> bool) \<Rightarrow> cli_env \<Rightarrow> conn option \<Rightarrow>
     (('s, 'p) proof_carrying_token \<times> conn) command" where
  "cmd_receive R A pq alnum env connection st =
     and_then (get_passphrase env st) (\<lambda>passphrase st.
     and_then (identity_load_or_create R A env passphrase st) (\<lambda>my_identity st.
       (case connection of
          None \<Rightarrow> (Returned, st)
        | Some c \<Rightarrow>
            and_then (in_session (handshake_dispatch R pq my_identity None False) c st) (\<lambda>(shared_key, c) st.
            and_then (in_session (receive_message A shared_key) c st) (\<lambda>(buf, c) st.
              (case deserialize_token R alnum buf of
                 Err _ \<Rightarrow> (Returned, st)
               | Panic \<Rightarrow> (Panicked, st)
               | Ok tok \<Rightarrow>
                   and_then (default_mint R st) (\<lambda>mint st.
                     (case verify_token R tok (group_public_key mint) (mint_pedersen mint) (iss_pedersen (mint_issuer mint)) 0 of
                        Ok vr \<Rightarrow>
                          if all_valid vr
                          then and_then (load_or_create_wallet R A alnum env mint st) (\<lambda>w st.
                               and_then (save_wallet R A env Returned (snd (add_token tok w)) st) (\<lambda>data st. (Done (tok, c), st)))
                          else (Returned, st)
                      | _ \<Rightarrow> (Panicked, st)))))))))"

section \<open>Lemmas\<close>

text \<open>A passphrase that is long enough, a disk that takes the write, and primitives that do not fail.\<close>

definition cli_ready :: "aead_prims \<Rightarrow> cli_env \<Rightarrow> bytes \<Rightarrow> bool" where
  "cli_ready A env p \<longleftrightarrow> env_passphrase env = Some p \<and> MIN_PASSPHRASE_LEN \<le> length p \<and> wallet_write env = Written \<and>
     (\<forall>q s. argon2id A q s \<noteq> None) \<and> (\<forall>k n x. aead_encrypt A k n x \<noteq> None)"

text \<open>The tokens a command finds in the wallet file: those of a file that loads under the mint of this invocation, or none.\<close>

definition found_tokens ::
  "('s::field, 'p::ab_group_add) prims \<Rightarrow> aead_prims \<Rightarrow> (nat \<Rightarrow> bool) \<Rightarrow> cli_env \<Rightarrow> bytes \<Rightarrow> ('s, 'p) mint \<Rightarrow> bytes option \<Rightarrow>
     ('s, 'p) proof_carrying_token list" where
  "found_tokens R A alnum env p mint file =
     (case file of
        None \<Rightarrow> []
      | Some data \<Rightarrow>
          (case wallet_load R A alnum data p (group_public_key mint) (mint_pedersen mint) (iss_pedersen (mint_issuer mint)) (env_now env) of
             Ok w \<Rightarrow> w_tokens w
           | _ \<Rightarrow> []))"

definition load_panics ::
  "('s::field, 'p::ab_group_add) prims \<Rightarrow> aead_prims \<Rightarrow> (nat \<Rightarrow> bool) \<Rightarrow> cli_env \<Rightarrow> bytes \<Rightarrow> ('s, 'p) mint \<Rightarrow> bytes option \<Rightarrow> bool" where
  "load_panics R A alnum env p mint file \<longleftrightarrow>
     (case file of
        None \<Rightarrow> False
      | Some data \<Rightarrow> wallet_load R A alnum data p (group_public_key mint) (mint_pedersen mint)
          (iss_pedersen (mint_issuer mint)) (env_now env) = Panic)"

lemma ready_passphrase: "cli_ready A env p \<Longrightarrow> get_passphrase env st = (Done p, st)"
  by (simp add: cli_ready_def get_passphrase_def)

lemma load_or_create_found:
  assumes "cli_ready A env p" and "\<not> load_panics R A alnum env p mint (wallet_file st)"
  shows "load_or_create_wallet R A alnum env mint st = (Done \<lparr>w_tokens = found_tokens R A alnum env p mint (wallet_file st)\<rparr>, st)"
  using assms
  by (auto simp: load_or_create_wallet_def ready_passphrase found_tokens_def load_panics_def wallet_new_def
      split: option.splits result.splits)

lemma save_wallet_ready:
  assumes "cli_ready A env p"
  obtains data g where "save_wallet R A env failed w st = (Done data, st\<lparr>wallet_file := Some data, cli_rng := g\<rparr>)"
    "wallet_save R A w p (cli_rng st) = (Ok data, g)"
proof -
  obtain salt g1 where s: "fill_bytes 16 (cli_rng st) = (salt, g1)" by fastforce
  obtain nonce g2 where n: "fill_bytes 12 g1 = (nonce, g2)" by fastforce
  obtain key ct where "argon2id A p salt = Some key" "aead_encrypt A key nonce (wallet_payload R w) = Some ct"
    using assms unfolding cli_ready_def by (metis option.exhaust)
  with s n assms obtain data g where "wallet_save R A w p (cli_rng st) = (Ok data, g)"
    by (simp add: wallet_save_def encrypt_def derive_key_def ok_or_def cli_ready_def)
  moreover have "wallet_write env = Written" using assms by (simp add: cli_ready_def)
  ultimately show thesis
    using that [of data g] by (simp add: save_wallet_def ready_passphrase [OF assms] fs_write_file_def)
qed

context ristretto_group
begin

lemma default_mint_ok:
  obtains mint g where "default_mint R st = (Done mint, st\<lparr>cli_rng := g\<rparr>)" "mint_ok R mint" "mint_recursion_bound mint = 20"
    "quorum_ids (mint_keyset mint) [1, 2]" "quorum_ids (mint_keyset mint) [1, 3]" "quorum_ids (mint_keyset mint) [2, 3]"
proof -
  let ?c = "\<lparr>cfg_threshold = 2, cfg_total_signers = 3, cfg_recursion_bound = 20\<rparr> :: mint_config"
  obtain mint where m: "fst (mint_setup_with_dkg R ?c (cli_rng st)) = Ok mint" "mint_ok R mint" "mint_recursion_bound mint = 20"
    "ks_threshold (mint_keyset mint) = 2" "fst ` set (ks_shares (mint_keyset mint)) = of_nat ` {1..3}"
    using setup_with_dkg_ok [of ?c "cli_rng st"] by auto
  have "{1..3 :: nat} = {1, 2, 3}" by auto
  then have "quorum_ids (mint_keyset mint) [1, 2]" "quorum_ids (mint_keyset mint) [1, 3]" "quorum_ids (mint_keyset mint) [2, 3]"
    using m(4,5) by (simp_all add: quorum_ids_def)
  moreover have "default_mint R st = (Done mint, st\<lparr>cli_rng := snd (mint_setup_with_dkg R ?c (cli_rng st))\<rparr>)"
    using m(1) by (auto simp: default_mint_def split: prod.split)
  ultimately show thesis using that m by blast
qed

end

lemma cmd_mint_run:
  assumes R: "ristretto R" and rdy: "cli_ready A env p" and mint: "fst (default_mint R st) = Done mint"
    and attrs: "attrs_wf (jurisdiction_safe alnum) default_attrs"
    and v: "v \<noteq> 0" "(case Option.bind (arg args 2) parse_u64 of Some v \<Rightarrow> v | None \<Rightarrow> 1000) = v"
  defines "old \<equiv> found_tokens R A alnum env p mint (wallet_file st)"
  obtains (panicked) "load_panics R A alnum env p mint (wallet_file st)" "fst (cmd_mint R A alnum env args st) = Panicked"
      "wallet_file (snd (cmd_mint R A alnum env args st)) = wallet_file st"
  | (saved) tok w data st' g g' where "\<not> load_panics R A alnum env p mint (wallet_file st)" "w = snd (add_token tok \<lparr>w_tokens = old\<rparr>)"
      "cmd_mint R A alnum env args st = (Done (tok, balance w), st')" "wallet_file st' = Some data"
      "wallet_save R A w p g = (Ok data, g')" "tok_value tok = v" "token_of R mint (env_now env) tok" "token_wf alnum tok"
proof -
  note rg = ristretto.axioms(1) [OF R]
  obtain mint' g1 where m: "default_mint R st = (Done mint', st\<lparr>cli_rng := g1\<rparr>)" "mint_ok R mint'" "mint_recursion_bound mint' = 20"
      "quorum_ids (mint_keyset mint') [1, 2]"
    by (rule ristretto_group.default_mint_ok [OF rg])
  then have [simp]: "mint' = mint" using mint by simp
  obtain tok where t: "fst (issue R mint v [1, 2] (Some default_attrs) g1) = Ok tok" "token_of R mint (env_now env) tok" "tok_value tok = v"
    using ristretto_group.issue_full_ok [OF rg m(2,4) v(1), where attrs = "Some default_attrs" and now = "env_now env" and iterations = None]
    by (force simp: issue_def not_expired_def default_attrs_def)
  then obtain g2 where i: "issue R mint v [1, 2] (Some default_attrs) g1 = (Ok tok, g2)" by (metis prod.collapse)
  have "issue_wf alnum mint (Some default_attrs) None" using attrs m(3) by (simp add: issue_wf_def option_wf_def)
  then have wf: "token_wf alnum tok" using ristretto.issue_full_wf [OF R] i by (auto simp: issue_def storable_def)
  let ?st = "st\<lparr>cli_rng := g2\<rparr>" and ?w = "snd (add_token tok \<lparr>w_tokens = old\<rparr>)"
  show thesis
  proof (cases "load_panics R A alnum env p mint (wallet_file st)")
    case True
    then have "load_or_create_wallet R A alnum env mint ?st = (Panicked, ?st)"
      by (auto simp: load_or_create_wallet_def ready_passphrase [OF rdy] load_panics_def split: option.splits)
    then show thesis using panicked True m(1) i v(2) by (simp add: cmd_mint_def Let_def)
  next
    case False
    then have "load_or_create_wallet R A alnum env mint ?st = (Done \<lparr>w_tokens = old\<rparr>, ?st)"
      using load_or_create_found [OF rdy, of R alnum mint ?st] by (simp add: old_def)
    moreover obtain data g where "save_wallet R A env (Exited 1) ?w ?st = (Done data, ?st\<lparr>wallet_file := Some data, cli_rng := g\<rparr>)"
      "wallet_save R A ?w p (cli_rng ?st) = (Ok data, g)"
      by (rule save_wallet_ready [OF rdy])
    ultimately show thesis using saved False t wf m(1) i v(2) by (simp add: cmd_mint_def Let_def)
  qed
qed

lemma found_tokens_verified:
  assumes "old = found_tokens R A alnum env p mint file"
  shows "length old \<le> 100000" "t \<in> set old \<Longrightarrow>
    \<exists>vr. verify_token R t (group_public_key mint) (mint_pedersen mint) (iss_pedersen (mint_issuer mint)) (env_now env) = Ok vr \<and> all_valid vr"
  using assms wallet_load_verified by (fastforce simp: found_tokens_def split: option.splits result.splits)+

lemma cmd_mint_zero:
  assumes "(case Option.bind (arg args 2) parse_u64 of Some v \<Rightarrow> v | None \<Rightarrow> 1000) = 0"
  shows "fst (cmd_mint R A alnum env args st) = Panicked \<and> wallet_file (snd (cmd_mint R A alnum env args st)) = wallet_file st"
  using assms by (auto simp: cmd_mint_def default_mint_def issue_def issue_full_def Let_def split: prod.splits result.splits)

section \<open>Properties\<close>

text \<open>C39: Minting from the command line, with a passphrase that is long enough, a disk that takes the write, primitives that do not
  fail, and a value that is the parsed argument (1000 if there is none). The command crashes, and leaves the wallet file as
  it was, if the value is 0 or if loading the old file crashes. Otherwise it reports a token of the value that verifies
  under the keys of the mint of this invocation, and the file it writes, if shorter than 4 GiB, loads under these keys to
  the tokens found before, followed by the new one if they were fewer than \<^verbatim>\<open>MAX_TOKENS\<close>: a full wallet drops the new
  token while the command reports it as added. The tokens found before are those of the old file only if it loads under the
  keys of this invocation, which are fresh: when the old file does not load, for a wrong key or a wrong passphrase, its tokens
  are replaced by the new one without an error. The tokens found are assumed to be such as the format can hold (a
  jurisdiction of at most 255 bytes).\<close>

theorem cli_mint_file:
  assumes "ristretto R" and "aead A" and "cli_ready A env p" and "fst (default_mint R st) = Done mint"
    and "attrs_wf (jurisdiction_safe alnum) default_attrs"
    and "(case Option.bind (arg args 2) parse_u64 of Some v \<Rightarrow> v | None \<Rightarrow> 1000) = v"
    and "old = found_tokens R A alnum env p mint (wallet_file st)" and "\<forall>t\<in>set old. token_wf alnum t"
  shows "if v = 0 \<or> load_panics R A alnum env p mint (wallet_file st)
    then fst (cmd_mint R A alnum env args st) = Panicked \<and> wallet_file (snd (cmd_mint R A alnum env args st)) = wallet_file st
    else \<exists>tok toks data st'. toks = (if length old < MAX_TOKENS then old @ [tok] else old) \<and>
      cmd_mint R A alnum env args st = (Done (tok, balance \<lparr>w_tokens = toks\<rparr>), st') \<and> wallet_file st' = Some data \<and>
      tok_value tok = v \<and> token_of R mint (env_now env) tok \<and>
      (length data < 2 ^ 32 \<longrightarrow>
        wallet_load R A alnum data p (group_public_key mint) (mint_pedersen mint) (iss_pedersen (mint_issuer mint)) (env_now env)
          = Ok \<lparr>w_tokens = toks\<rparr>)"
proof (cases "v = 0")
  case False
  show ?thesis
  proof (rule cmd_mint_run [OF assms(1,3-5) False assms(6)])
    fix tok w data st' g g'
    assume np: "\<not> load_panics R A alnum env p mint (wallet_file st)"
      and w: "w = snd (add_token tok \<lparr>w_tokens = found_tokens R A alnum env p mint (wallet_file st)\<rparr>)"
      and r: "cmd_mint R A alnum env args st = (Done (tok, balance w), st')" "wallet_file st' = Some data" "wallet_save R A w p g = (Ok data, g')"
        "tok_value tok = v" "token_of R mint (env_now env) tok" "token_wf alnum tok"
    have weq: "w = \<lparr>w_tokens = if length old < MAX_TOKENS then old @ [tok] else old\<rparr>" using w assms(7) by (simp add: add_token_def)
    note found = found_tokens_verified [OF assms(7)]
    have "wallet_load R A alnum data p (group_public_key mint) (mint_pedersen mint) (iss_pedersen (mint_issuer mint)) (env_now env) = Ok w"
      if "length data < 2 ^ 32"
      using that assms(8) found r(6) token_ok_all_valid [OF r(5)]
      by (intro load_saved [OF assms(1,2) r(3)]) (auto simp: weq MAX_TOKENS_def)
    with r np False weq show ?thesis by auto
  qed (use False in simp)
qed (use assms(6) cmd_mint_zero [of args R A alnum env st] in simp)

lemma demo_attrs_wf: "attrs_wf (jurisdiction_safe ascii_alnum) default_attrs"
proof -
  have "\<forall>b\<in>set (ascii ''EU''). unat b < 128" by (simp add: ascii_def)
  from utf8_ascii [OF this] show ?thesis
    by (simp add: attrs_wf_def default_attrs_def jurisdiction_safe_def ascii_def ascii_alnum_def)
qed

definition demo_env :: cli_env where
  "demo_env = \<lparr>env_passphrase = Some (replicate 12 7), env_now = 5, wallet_write = Written, identity_write = Written\<rparr>"

lemma demo_ready: "cli_ready tag_aead demo_env (replicate 12 7)"
  by (simp add: cli_ready_def demo_env_def tag_aead_def MIN_PASSPHRASE_LEN_def)

text \<open>A file with a token that loads under the keys drawn from a tape, as a second invocation with the same tape finds it.\<close>

lemma demo_wallet_file:
  assumes "default_mint zp_prims (st :: cli_state) = (Done mint, st')"
  obtains data t where "found_tokens zp_prims tag_aead ascii_alnum demo_env (replicate 12 7) mint (Some data) = [t]"
    "\<not> load_panics zp_prims tag_aead ascii_alnum demo_env (replicate 12 7) mint (Some data)" "tok_value t = 100" "token_wf ascii_alnum t"
proof -
  have m: "mint_ok zp_prims mint" "quorum_ids (mint_keyset mint) [1, 2]" "mint_recursion_bound mint = 20"
    using assms zp.default_mint_ok [of st] by (metis Pair_inject outcome.inject(1))+
  obtain t where t: "fst (issue_full zp_prims mint 100 [1, 2] None None None (\<lambda>_. 9)) = Ok t" "token_of zp_prims mint 5 t" "tok_value t = 100"
    using zp.issue_full_ok [OF m(1,2), of 100 None 5 None None "\<lambda>_. 9"] by auto
  have "issue_wf ascii_alnum mint None None" using m(3) by (simp add: issue_wf_def option_wf_def)
  then have wf: "token_wf ascii_alnum t" using t(1) zp.issue_full_wf by (metis prod.collapse storable_def)
  obtain data g' where d: "wallet_save zp_prims tag_aead \<lparr>w_tokens = [t]\<rparr> (replicate 12 7) (\<lambda>_. 1) = (Ok data, g')" "length data < 2 ^ 32"
    by (rule tag_saved [OF wf])
  have "wallet_load zp_prims tag_aead ascii_alnum data (replicate 12 7) (group_public_key mint) (mint_pedersen mint)
      (iss_pedersen (mint_issuer mint)) 5 = Ok \<lparr>w_tokens = [t]\<rparr>"
    using wf token_ok_all_valid [OF t(2)] by (intro load_saved [OF zp.ristretto_axioms tag.aead_axioms d(1) _ _ d(2)]) auto
  then show thesis using that [of data t] t(3) wf by (simp add: found_tokens_def load_panics_def demo_env_def)
qed

theorem cli_mint_file_witness:
  "\<exists>fl mint old tok st'. found_tokens zp_prims tag_aead ascii_alnum demo_env (replicate 12 7) mint (Some fl) = [old] \<and>
     fst (default_mint zp_prims \<lparr>wallet_file = Some fl, identity_file = None, cli_rng = \<lambda>_. 4\<rparr>) = Done mint \<and>
     cmd_mint zp_prims tag_aead ascii_alnum demo_env [''specter-cli'', ''mint'', ''25'']
       \<lparr>wallet_file = Some fl, identity_file = None, cli_rng = \<lambda>_. 4\<rparr> = (Done (tok, 125), st') \<and> tok_value tok = 25"
proof -
  let ?st = "\<lambda>fl. \<lparr>wallet_file = fl, identity_file = None, cli_rng = \<lambda>_. 4\<rparr> :: cli_state"
  obtain mint g where m0: "default_mint zp_prims (?st None) = (Done mint, (?st None)\<lparr>cli_rng := g\<rparr>)"
    by (rule zp.default_mint_ok)
  then have m: "fst (default_mint zp_prims (?st fl)) = Done mint" for fl
    by (auto simp: default_mint_def split: prod.splits result.splits)
  obtain fl t where t: "found_tokens zp_prims tag_aead ascii_alnum demo_env (replicate 12 7) mint (Some fl) = [t]"
    "\<not> load_panics zp_prims tag_aead ascii_alnum demo_env (replicate 12 7) mint (Some fl)" "tok_value t = 100" "token_wf ascii_alnum t"
    by (rule demo_wallet_file [OF m0])
  have v: "(case Option.bind (arg [''specter-cli'', ''mint'', ''25''] 2) parse_u64 of Some v \<Rightarrow> v | None \<Rightarrow> 1000) = 25"
    by (simp add: arg_def parse_u64_def digit_value_def)
  obtain tok st' where "cmd_mint zp_prims tag_aead ascii_alnum demo_env [''specter-cli'', ''mint'', ''25''] (?st (Some fl)) =
      (Done (tok, balance \<lparr>w_tokens = [t, tok]\<rparr>), st')" "tok_value tok = 25"
    using cli_mint_file [OF zp.ristretto_axioms tag.aead_axioms demo_ready m demo_attrs_wf v refl, of "Some fl"] t
    by (auto simp: MAX_TOKENS_def)
  moreover from this(2) t(3) have "balance \<lparr>w_tokens = [t, tok]\<rparr> = 125" by (simp add: balance_def saturating_add_def)
  ultimately show ?thesis using t(1) m by metis
qed

text \<open>What a received message is. The bytes \<^verbatim>\<open>send\<close> writes after the handshake, a length and the token encrypted under the session
  key, are read and decrypted by \<^verbatim>\<open>receive\<close> under the same key, provided that they are at most 65536; the token it gets
  is the sender's with the owner's secret and the credential's blinding factor replaced by zeros, so that the receiver does
  not hold the secret it would need to spend the token.\<close>

lemma cli_transport:
  assumes "ristretto R" and "aead A" and "scalar_bytes R 0 = replicate 32 0" and "token_wf alnum tok"
    and "encrypt_with_key A (serialize_token_public R tok) key g = (Some enc, g')" and "length enc \<le> MAX_TOKEN_SIZE"
    and "tx_cap c = None" and "tx c = []" and "rx d = tx (snd (bindS (write_all (u32_le (of_nat (length enc)))) (\<lambda>_. write_all enc) c)) @ rest"
  shows "\<exists>buf d' tok'. receive_message A key d = (Some buf, d') \<and> rx d' = rest \<and> deserialize_token R alnum buf = Ok tok' \<and>
    tok' = tok\<lparr>tok_owner_secret := replicate 32 0, tok_credential := map_option (\<lambda>c. c\<lparr>cred_blinding := 0\<rparr>) (tok_credential tok)\<rparr>"
proof -
  have rx: "rx d = u32_le (of_nat (length enc)) @ enc @ rest" using assms(7-9) by (simp add: bindS_def write_all_def)
  have n: "length enc \<le> 65536" using assms(6) by (simp add: MAX_TOKEN_SIZE_def)
  then have len: "unat (of_nat (length enc) :: u32) = length enc" by (simp add: unat_of_nat)
  have "enc \<noteq> []" using assms(5) by (auto simp: encrypt_with_key_def fill_bytes_def Let_def)
  then have "receive_message A key d = (decrypt_with_key A enc key, d\<lparr>rx := rest\<rparr>)"
    using rx n by (simp add: receive_message_def bindS_def read_exact_def liftS_def Let_def len MAX_TOKEN_SIZE_def)
  with message_roundtrip [OF assms(2,5)] public_form_redacts [OF assms(1,3,4)] show ?thesis by auto
qed


lemma zp_zero_bytes: "scalar_bytes zp_prims 0 = replicate 32 0"
proof -
  have "nat_to_le k 0 = replicate k 0" for k by (induction k) auto
  then show ?thesis by (simp add: zp_prims_def zp_bytes_def zero_zp.rep_eq)
qed

lemma cli_transport_witness:
  "\<exists>enc g' buf d' tok'. encrypt_with_key tag_aead (serialize_token_public zp_prims sample_token) (replicate 32 5) (\<lambda>_. 4) = (Some enc, g') \<and>
     receive_message tag_aead (replicate 32 5)
       \<lparr>rx = u32_le (of_nat (length enc)) @ enc, tx = [], tx_cap = None, timeouts_ok = True, rnd = \<lambda>_. 4\<rparr> = (Some buf, d') \<and>
     deserialize_token zp_prims ascii_alnum buf = Ok tok' \<and> tok_value tok' = 100 \<and> tok_owner_secret tok' = replicate 32 0"
proof -
  let ?plain = "serialize_token_public zp_prims sample_token" and ?key = "replicate 32 5"
  have "length ?plain \<le> 1000"
    unfolding zp.serialize_public_eq [OF zp_zero_bytes sample_token_wf]
    by (simp add: serialize_token_def redact_def sample_token_def
        demo_credential_def demo_attributes_def write_credential_def write_step_def write_option_def write_bool_def MAGIC_def ascii_def
        zp.length_compress zp.length_scalar_bytes)
  moreover obtain enc g' where e: "encrypt_with_key tag_aead ?plain ?key (\<lambda>_. 4) = (Some enc, g')" "length enc \<le> 200 + length ?plain"
    by (simp add: encrypt_with_key_def tag_aead_def fill_bytes_def Let_def)
  ultimately have n: "length enc \<le> MAX_TOKEN_SIZE" by (simp add: MAX_TOKEN_SIZE_def)
  let ?c = "\<lparr>rx = [], tx = [], tx_cap = None, timeouts_ok = True, rnd = \<lambda>_. 4\<rparr> :: conn"
  let ?d = "\<lparr>rx = u32_le (of_nat (length enc)) @ enc, tx = [], tx_cap = None, timeouts_ok = True, rnd = \<lambda>_. 4\<rparr> :: conn"
  have "rx ?d = tx (snd (bindS (write_all (u32_le (of_nat (length enc)))) (\<lambda>_. write_all enc) ?c)) @ []"
    by (simp add: bindS_def write_all_def)
  from cli_transport [OF zp.ristretto_axioms tag.aead_axioms zp_zero_bytes sample_token_wf e(1) n _ _ this] e(1) show ?thesis
    by (auto simp: sample_token_def)
qed

end
