(* ===== verification/Memory_Guard.thy ===== *)
theory Memory_Guard
  imports Prelude
begin

text \<open>
  \<^verbatim>\<open>specter-core/src/memory_guard.rs\<close>: buffers whose pages are locked into memory and that are wiped when dropped. The process is
  its memory by address, the set of locked pages, whether it may dump core and whether the warning was printed. The operating
  system locks and unlocks whole pages, and locks do not stack: one \<^verbatim>\<open>munlock\<close> unlocks a page however often it was locked. Where
  the allocator puts a buffer and whether a call succeeds are arguments.
\<close>

record process =
  memory :: "nat \<Rightarrow> u8"
  locked_pages :: "nat set"
  core_dumps :: bool
  warned :: bool

datatype guard = Unix_guard | Windows_guard | No_guard

definition PAGE_SIZE :: nat where
  "PAGE_SIZE = 4096"

definition pages_of :: "nat \<Rightarrow> nat \<Rightarrow> nat set" where
  "pages_of addr len = (\<lambda>a. a div PAGE_SIZE) ` set [addr..<addr + len]"

definition log_mlock_failure :: "process \<Rightarrow> process" where
  "log_mlock_failure st = st\<lparr>warned := True\<rparr>"

definition try_lock_unix :: "bool \<Rightarrow> nat \<Rightarrow> nat \<Rightarrow> process \<Rightarrow> bool \<times> process" where
  "try_lock_unix mlock_ok addr len st =
     (if len = 0 then (True, st)
      else if \<not> mlock_ok then (False, log_mlock_failure st)
      else (True, st\<lparr>locked_pages := locked_pages st \<union> pages_of addr len\<rparr>))"

definition try_unlock_unix :: "nat \<Rightarrow> nat \<Rightarrow> process \<Rightarrow> process" where
  "try_unlock_unix addr len st = (if len = 0 then st else st\<lparr>locked_pages := locked_pages st - pages_of addr len\<rparr>)"

definition disable_core_dumps_unix :: "bool \<Rightarrow> process \<Rightarrow> bool \<times> process" where
  "disable_core_dumps_unix setrlimit_ok st = (if setrlimit_ok then (True, st\<lparr>core_dumps := False\<rparr>) else (False, st))"

definition try_lock_windows :: "bool \<Rightarrow> nat \<Rightarrow> nat \<Rightarrow> process \<Rightarrow> bool \<times> process" where
  "try_lock_windows virtual_lock_ok addr len st =
     (if len = 0 then (True, st)
      else if \<not> virtual_lock_ok then (False, log_mlock_failure st)
      else (True, st\<lparr>locked_pages := locked_pages st \<union> pages_of addr len\<rparr>))"

definition try_unlock_windows :: "nat \<Rightarrow> nat \<Rightarrow> process \<Rightarrow> process" where
  "try_unlock_windows addr len st = (if len = 0 then st else st\<lparr>locked_pages := locked_pages st - pages_of addr len\<rparr>)"

definition disable_core_dumps_windows :: "process \<Rightarrow> bool \<times> process" where
  "disable_core_dumps_windows st = (True, st)"

text \<open>Without the feature, or on a platform that is neither, nothing is done.\<close>

definition try_lock_fallback :: "process \<Rightarrow> bool \<times> process" where
  "try_lock_fallback st = (False, st)"

definition disable_core_dumps_fallback :: "process \<Rightarrow> bool \<times> process" where
  "disable_core_dumps_fallback st = (True, st)"

definition try_lock :: "guard \<Rightarrow> bool \<Rightarrow> nat \<Rightarrow> nat \<Rightarrow> process \<Rightarrow> bool \<times> process" where
  "try_lock guard os_ok addr len st =
     (case guard of
        Unix_guard \<Rightarrow> try_lock_unix os_ok addr len st
      | Windows_guard \<Rightarrow> try_lock_windows os_ok addr len st
      | No_guard \<Rightarrow> try_lock_fallback st)"

definition try_unlock :: "guard \<Rightarrow> nat \<Rightarrow> nat \<Rightarrow> process \<Rightarrow> process" where
  "try_unlock guard addr len st =
     (case guard of Unix_guard \<Rightarrow> try_unlock_unix addr len st | Windows_guard \<Rightarrow> try_unlock_windows addr len st | No_guard \<Rightarrow> st)"

definition disable_core_dumps :: "guard \<Rightarrow> bool \<Rightarrow> process \<Rightarrow> bool \<times> process" where
  "disable_core_dumps guard os_ok st =
     (case guard of
        Unix_guard \<Rightarrow> disable_core_dumps_unix os_ok st
      | Windows_guard \<Rightarrow> disable_core_dumps_windows st
      | No_guard \<Rightarrow> disable_core_dumps_fallback st)"

lemmas platform_defs =
  try_lock_def try_lock_unix_def try_lock_windows_def try_lock_fallback_def
  try_unlock_def try_unlock_unix_def try_unlock_windows_def
  disable_core_dumps_def disable_core_dumps_unix_def disable_core_dumps_windows_def disable_core_dumps_fallback_def

record locked_bytes =
  lb_addr :: nat
  lb_len :: nat
  lb_locked :: bool

definition write_bytes :: "nat \<Rightarrow> bytes \<Rightarrow> (nat \<Rightarrow> u8) \<Rightarrow> nat \<Rightarrow> u8" where
  "write_bytes addr bs m a = (if addr \<le> a \<and> a < addr + length bs then bs ! (a - addr) else m a)"

definition locked_new :: "guard \<Rightarrow> bool \<Rightarrow> nat \<Rightarrow> nat \<Rightarrow> process \<Rightarrow> locked_bytes \<times> process" where
  "locked_new guard os_ok addr len st =
     (let st = st\<lparr>memory := write_bytes addr (replicate len 0) (memory st)\<rparr>;
          (locked, st) = try_lock guard os_ok addr len st
      in (\<lparr>lb_addr = addr, lb_len = len, lb_locked = locked\<rparr>, st))"

text \<open>The vector is in memory already.\<close>

definition locked_from_vec :: "guard \<Rightarrow> bool \<Rightarrow> nat \<Rightarrow> nat \<Rightarrow> process \<Rightarrow> locked_bytes \<times> process" where
  "locked_from_vec guard os_ok addr len st =
     (let (locked, st) = try_lock guard os_ok addr len st
      in (\<lparr>lb_addr = addr, lb_len = len, lb_locked = locked\<rparr>, st))"

definition as_slice :: "locked_bytes \<Rightarrow> process \<Rightarrow> bytes" where
  "as_slice b st = map (memory st) [lb_addr b..<lb_addr b + lb_len b]"

text \<open>Writing through the mutable view; the index is checked.\<close>

definition as_mut_slice_set :: "locked_bytes \<Rightarrow> nat \<Rightarrow> u8 \<Rightarrow> process \<Rightarrow> (process, unit) result" where
  "as_mut_slice_set b i v st =
     (if i < lb_len b then Ok (st\<lparr>memory := (memory st)(lb_addr b + i := v)\<rparr>) else Panic)"

definition is_locked :: "locked_bytes \<Rightarrow> bool" where
  "is_locked b = lb_locked b"

definition locked_len :: "locked_bytes \<Rightarrow> nat" where
  "locked_len b = lb_len b"

definition locked_is_empty :: "locked_bytes \<Rightarrow> bool" where
  "locked_is_empty b \<longleftrightarrow> lb_len b = 0"

text \<open>
  \<^verbatim>\<open>zeroize\<close> of the crate of that name wipes the whole vector. The length it leaves is the parameter \<open>zlen\<close>: the identity when
  the vector keeps its length, zero when it is cleared, as the crate does for a \<^verbatim>\<open>Vec\<close>.
\<close>

definition zeroize_vec :: "(nat \<Rightarrow> nat) \<Rightarrow> locked_bytes \<Rightarrow> process \<Rightarrow> locked_bytes \<times> process" where
  "zeroize_vec zlen b st =
     (b\<lparr>lb_len := zlen (lb_len b)\<rparr>, st\<lparr>memory := write_bytes (lb_addr b) (replicate (lb_len b) 0) (memory st)\<rparr>)"

definition locked_drop :: "(nat \<Rightarrow> nat) \<Rightarrow> guard \<Rightarrow> locked_bytes \<Rightarrow> process \<Rightarrow> process" where
  "locked_drop zlen guard b st =
     (let (b, st) = zeroize_vec zlen b st
      in if lb_locked b then try_unlock guard (lb_addr b) (lb_len b) st else st)"

section \<open>Lemmas\<close>

definition region :: "locked_bytes \<Rightarrow> nat set" where
  "region b = {lb_addr b..<lb_addr b + lb_len b}"

lemma write_bytes_outside: "a \<notin> {addr..<addr + length bs} \<Longrightarrow> write_bytes addr bs m a = m a"
  by (auto simp: write_bytes_def)

lemma write_zeros: "write_bytes addr (replicate len 0) m a = (if a \<in> {addr..<addr + len} then 0 else m a)"
  by (auto simp: write_bytes_def)

lemma memory_try_unlock [simp]: "memory (try_unlock guard addr len st) = memory st"
  by (simp add: platform_defs split: guard.splits)

text \<open>A lock that is reported is a lock of every page of the buffer.\<close>

lemma try_lock_result:
  assumes "try_lock guard ok addr len st = (l, st')"
  shows "memory st' = memory st" "locked_pages st \<subseteq> locked_pages st'" "l \<Longrightarrow> pages_of addr len \<subseteq> locked_pages st'"
proof -
  have e: "pages_of addr 0 = {}" by (simp add: pages_of_def)
  note r = assms [symmetric, unfolded platform_defs log_mlock_failure_def]
  show "memory st' = memory st"
    using r by (cases guard; cases "len = 0"; cases ok; simp)
  show "locked_pages st \<subseteq> locked_pages st'"
    using r by (cases guard; cases "len = 0"; cases ok; simp)
  show "l \<Longrightarrow> pages_of addr len \<subseteq> locked_pages st'"
    using r by (cases guard; cases "len = 0"; cases ok; simp add: e)
qed

lemma locked_new_zero:
  assumes "locked_new guard ok addr len st = (b, st')"
  shows "as_slice b st' = replicate len 0 \<and> (\<forall>a. a \<notin> region b \<longrightarrow> memory st' a = memory st a)"
proof -
  let ?st = "st\<lparr>memory := write_bytes addr (replicate len 0) (memory st)\<rparr>"
  obtain l st1 where t: "try_lock guard ok addr len ?st = (l, st1)" by fastforce
  then have "b = \<lparr>lb_addr = addr, lb_len = len, lb_locked = l\<rparr>" "st' = st1" using assms by (auto simp: locked_new_def Let_def)
  then show ?thesis
    using try_lock_result(1) [OF t] by (simp add: as_slice_def region_def write_zeros list_eq_iff_nth_eq)
qed

text \<open>Dropping wipes the buffer and nothing else, whether or not it was locked and whatever the length after the wipe.\<close>

lemma locked_drop_wipes: "memory (locked_drop zlen guard b st) a = (if a \<in> region b then 0 else memory st a)"
  by (simp add: locked_drop_def zeroize_vec_def Let_def region_def write_zeros)

text \<open>The wipe comes before the unlock: at every moment of the drop a page of the buffer that is not locked any more holds zeros.\<close>

lemma locked_drop_order:
  assumes "zeroize_vec zlen b st = (b', st1)"
  shows "locked_pages st1 = locked_pages st \<and> (\<forall>a\<in>region b. memory st1 a = 0) \<and>
    locked_drop zlen guard b st = (if lb_locked b then try_unlock guard (lb_addr b) (zlen (lb_len b)) st1 else st1)"
  using assms by (auto simp: locked_drop_def zeroize_vec_def Let_def region_def write_zeros)

text \<open>With a \<^verbatim>\<open>zeroize\<close> that clears the vector, the unlock is asked for the empty slice and does nothing: every page stays locked.\<close>

lemma drop_leaves_pages_locked:
  assumes "\<And>n. zlen n = 0"
  shows "locked_pages (locked_drop zlen guard b st) = locked_pages st"
  by (simp add: locked_drop_def zeroize_vec_def Let_def platform_defs assms split: guard.splits)

section \<open>Buffers of a process\<close>

text \<open>Creating and dropping buffers, in any order; the allocator hands out memory of no live buffer.\<close>

inductive guard_step :: "(nat \<Rightarrow> nat) \<Rightarrow> guard \<Rightarrow> locked_bytes list \<times> process \<Rightarrow> locked_bytes list \<times> process \<Rightarrow> bool"
  for zlen guard where
  alloc: "locked_new guard ok addr len st = (b, st') \<Longrightarrow> \<forall>c\<in>set bs. region c \<inter> region b = {} \<Longrightarrow>
     guard_step zlen guard (bs, st) (b # bs, st')"
| adopt: "locked_from_vec guard ok addr len st = (b, st') \<Longrightarrow> \<forall>c\<in>set bs. region c \<inter> region b = {} \<Longrightarrow>
     guard_step zlen guard (bs, st) (b # bs, st')"
| set_byte: "b \<in> set bs \<Longrightarrow> as_mut_slice_set b i v st = Ok st' \<Longrightarrow> guard_step zlen guard (bs, st) (bs, st')"
| drop: "locked_drop zlen guard b st = st' \<Longrightarrow> guard_step zlen guard (xs @ b # ys, st) (xs @ ys, st')"

definition lock_inv :: "locked_bytes list \<times> process \<Rightarrow> bool" where
  "lock_inv s \<longleftrightarrow> (\<forall>b\<in>set (fst s). is_locked b \<longrightarrow> pages_of (lb_addr b) (lb_len b) \<subseteq> locked_pages (snd s))"

text \<open>
  Over any such sequence, with a \<^verbatim>\<open>zeroize\<close> that clears the vector, the pages of every live buffer that says it is locked are
  locked.
\<close>

lemma lock_inv_step:
  assumes "\<And>n. zlen n = 0" and "guard_step zlen guard s s'" and "lock_inv s"
  shows "lock_inv s'"
  using assms(2)
proof cases
  case (alloc ok addr len st b st' bs)
  obtain l st1 where t: "try_lock guard ok addr len (st\<lparr>memory := write_bytes addr (replicate len 0) (memory st)\<rparr>) = (l, st1)" by fastforce
  then have "b = \<lparr>lb_addr = addr, lb_len = len, lb_locked = l\<rparr>" "st' = st1" using alloc by (auto simp: locked_new_def Let_def)
  then show ?thesis
    using try_lock_result(2,3) [OF t] assms(3) alloc by (auto simp: lock_inv_def is_locked_def)
next
  case (adopt ok addr len st b st' bs)
  obtain l st1 where t: "try_lock guard ok addr len st = (l, st1)" by fastforce
  then have "b = \<lparr>lb_addr = addr, lb_len = len, lb_locked = l\<rparr>" "st' = st1" using adopt by (auto simp: locked_from_vec_def Let_def)
  then show ?thesis
    using try_lock_result(2,3) [OF t] assms(3) adopt by (auto simp: lock_inv_def is_locked_def)
next
  case (set_byte b bs i v st st')
  then have "locked_pages st' = locked_pages st" by (auto simp: as_mut_slice_set_def split: if_splits)
  then show ?thesis using set_byte assms(3) by (simp add: lock_inv_def)
next
  case (drop b st st' xs ys)
  then have "locked_pages st' = locked_pages st" using drop_leaves_pages_locked assms(1) by blast
  then show ?thesis using drop assms(3) by (simp add: lock_inv_def)
qed

lemma lock_inv_reachable:
  assumes "(guard_step (\<lambda>n. 0) guard)\<^sup>*\<^sup>* ([], st) s"
  shows "lock_inv s"
  using assms
proof (induction rule: rtranclp_induct)
  case base
  show ?case by (simp add: lock_inv_def)
next
  case (step s s')
  then show ?case using lock_inv_step [of "\<lambda>n. 0"] by blast
qed

text \<open>
  A drop that does unlock would break this: of two buffers on one page, dropping the first unlocks the page of the second, which
  still says it is locked.
\<close>

lemma shared_page_unlocked:
  "let st0 = \<lparr>memory = \<lambda>a. 0, locked_pages = {}, core_dumps = True, warned = False\<rparr>;
     (a, st1) = locked_new Unix_guard True 0 32 st0; (b, st2) = locked_new Unix_guard True 32 32 st1; st3 = locked_drop (\<lambda>n. n) Unix_guard a st2
   in is_locked b \<and> \<not> pages_of (lb_addr b) (lb_len b) \<subseteq> locked_pages st3"
proof -
  have "pages_of 0 32 = {0}" "pages_of 32 32 = {0}"
    by (auto simp: pages_of_def PAGE_SIZE_def image_iff intro!: exI [of _ "0 :: nat"] bexI [of _ 32])
  then show ?thesis
    by (simp add: locked_new_def locked_drop_def zeroize_vec_def platform_defs is_locked_def Let_def)
qed

end
