(* ===== verification/Cli_Main.thy ===== *)
theory Cli_Main
  imports Cli Memory_Guard
begin

text \<open>
  The entry point of \<^verbatim>\<open>specter-cli/src/main.rs\<close>, its demonstration and its benchmark. What is printed is a record of the values printed; the
  times of the benchmark are left out. The theorem-like lemmas say that the demonstration shows what it announces: it ends unless two
  nullifiers of its chain of transfers coincide, all its tokens verify, and the second spend is refused.
\<close>

section \<open>The demonstration\<close>

record demo_transfer =
  dt_count :: u32
  dt_bound :: u32
  dt_steps :: u32
  dt_valid :: bool
  dt_nullifier :: bytes

record ('s, 'p) demo_report =
  dr_key :: 'p
  dr_minted :: "('s, 'p) proof_carrying_token"
  dr_size :: nat
  dr_check :: verification_result
  dr_transfers :: "demo_transfer list"
  dr_second_ok :: bool
  dr_final :: "('s, 'p) proof_carrying_token"

text \<open>Transfers one after another, each verified; an \<^verbatim>\<open>unwrap\<close> of a failed transfer panics.\<close>

fun demo_transfers ::
  "('s::field, 'p::ab_group_add) prims \<Rightarrow> ('s, 'p) mint \<Rightarrow> nat \<Rightarrow> ('s, 'p) proof_carrying_token \<Rightarrow> nullifier_set \<Rightarrow> rng \<Rightarrow>
     (demo_transfer list \<times> ('s, 'p) proof_carrying_token \<times> nullifier_set \<times> rng, unit) result" where
  "demo_transfers R mint 0 tok ns g = Ok ([], tok, ns, g)"
| "demo_transfers R mint (Suc n) tok ns g =
     (case transfer R tok None ns g of
        (Ok tr, ns, g) \<Rightarrow>
          (case verify_token R (tr_token tr) (group_public_key mint) (mint_pedersen mint) (iss_pedersen (mint_issuer mint)) 0 of
             Ok vr \<Rightarrow>
               bindR (demo_transfers R mint n (tr_token tr) ns g) (\<lambda>(reports, final, ns, g).
                 Ok (\<lparr>dt_count = tok_transfer_count (tr_token tr), dt_bound = tok_recursion_bound (tr_token tr),
                      dt_steps = ap_steps (tok_fold_proof (tr_token tr)), dt_valid = all_valid vr,
                      dt_nullifier = tr_spent_nullifier tr\<rparr> # reports, final, ns, g))
           | _ \<Rightarrow> Panic)
      | _ \<Rightarrow> Panic)"

definition run_demo :: "('s::field, 'p::ab_group_add) prims \<Rightarrow> ('s, 'p) demo_report command" where
  "run_demo R st =
     and_then (default_mint R st) (\<lambda>mint st.
       (case issue R mint 1000 [1, 3] (Some default_attrs) (cli_rng st) of
          (Ok tok, g) \<Rightarrow>
            (case verify_token R tok (group_public_key mint) (mint_pedersen mint) (iss_pedersen (mint_issuer mint)) 0 of
               Ok check \<Rightarrow>
                 (case demo_transfers R mint 5 tok nullifier_set_new g of
                    Ok (reports, current, ns, g) \<Rightarrow>
                      (case issue R mint 500 [2, 3] None g of
                         (Ok original, g) \<Rightarrow>
                           let nullifier = token_nullifier R original
                           in (case transfer R original None nullifier_set_new g of
                                 (Ok spend1, ds_set, g) \<Rightarrow>
                                   let (second_ok, ds_set) = nullifier_insert None nullifier ds_set
                                   in (Done \<lparr>dr_key = group_public_key mint, dr_minted = tok, dr_size = serialized_size R tok, dr_check = check,
                                        dr_transfers = reports, dr_second_ok = second_ok, dr_final = current\<rparr>, st\<lparr>cli_rng := g\<rparr>)
                               | (_, ds_set, g) \<Rightarrow> (Panicked, st\<lparr>cli_rng := g\<rparr>))
                       | (_, g) \<Rightarrow> (Panicked, st\<lparr>cli_rng := g\<rparr>))
                  | _ \<Rightarrow> (Panicked, st))
             | _ \<Rightarrow> (Panicked, st\<lparr>cli_rng := g\<rparr>))
        | (_, g) \<Rightarrow> (Panicked, st\<lparr>cli_rng := g\<rparr>)))"

section \<open>The benchmark\<close>

fun issue_times ::
  "('s::field, 'p::ab_group_add) prims \<Rightarrow> ('s, 'p) mint \<Rightarrow> attributes option \<Rightarrow> nat \<Rightarrow> rng \<Rightarrow>
     (('s, 'p) proof_carrying_token list \<times> rng, unit) result" where
  "issue_times R mint attrs 0 g = Ok ([], g)"
| "issue_times R mint attrs (Suc n) g =
     (case issue R mint 1000 [1, 2] attrs g of
        (Ok tok, g) \<Rightarrow> bindR (issue_times R mint attrs n g) (\<lambda>(toks, g). Ok (tok # toks, g))
      | _ \<Rightarrow> Panic)"

fun transfer_times :: "('s::field, 'p::ab_group_add) prims \<Rightarrow> ('s, 'p) mint \<Rightarrow> nat \<Rightarrow> rng \<Rightarrow> (rng, unit) result" where
  "transfer_times R mint 0 g = Ok g"
| "transfer_times R mint (Suc n) g =
     (case issue R mint 1000 [1, 2] None g of
        (Ok tok, g) \<Rightarrow>
          (case transfer R tok None nullifier_set_new g of
             (Ok tr, ns, g) \<Rightarrow> transfer_times R mint n g
           | _ \<Rightarrow> Panic)
      | _ \<Rightarrow> Panic)"

fun chain_times ::
  "('s::field, 'p::ab_group_add) prims \<Rightarrow> nat \<Rightarrow> ('s, 'p) proof_carrying_token \<Rightarrow> nullifier_set \<Rightarrow> rng \<Rightarrow>
     (('s, 'p) proof_carrying_token \<times> rng, unit) result" where
  "chain_times R 0 tok ns g = Ok (tok, g)"
| "chain_times R (Suc n) tok ns g =
     (case transfer R tok None ns g of (Ok tr, ns, g) \<Rightarrow> chain_times R n (tr_token tr) ns g | _ \<Rightarrow> Panic)"

text \<open>The validity of the last token of the chain, the bytes of the saved wallet and the size that is printed twice.\<close>

definition run_benchmark ::
  "('s::field, 'p::ab_group_add) prims \<Rightarrow> aead_prims \<Rightarrow> (nat \<Rightarrow> bool) \<Rightarrow> (bool \<times> nat \<times> nat \<times> nat) command" where
  "run_benchmark R A alnum st =
     and_then (default_mint R st) (\<lambda>mint st.
       let check = (\<lambda>t. verify_token R t (group_public_key mint) (mint_pedersen mint) (iss_pedersen (mint_issuer mint)) 0);
           r = bindR (issue_times R mint None 50 (cli_rng st)) (\<lambda>(tokens, g).
               bindR (issue_times R mint (Some default_attrs) 50 g) (\<lambda>(cred_tokens, g).
               if list_ex (\<lambda>t. check t = Panic) cred_tokens then Panic
               else bindR (transfer_times R mint 50 g) (\<lambda>g.
                 case issue R mint 1000 [1, 2] (Some default_attrs) g of
                   (Ok tok, g) \<Rightarrow>
                     bindR (chain_times R 20 tok nullifier_set_new g) (\<lambda>(current, g).
                       case check current of
                         Ok vr \<Rightarrow>
                           let w = foldl (\<lambda>w t. snd (add_token t w)) wallet_new cred_tokens
                           in (case wallet_save R A w (ascii ''bench-passphrase-ok'') g of
                                 (Ok saved, g) \<Rightarrow>
                                   if wallet_load R A alnum saved (ascii ''bench-passphrase-ok'') (group_public_key mint) (mint_pedersen mint)
                                        (iss_pedersen (mint_issuer mint)) 0 = Panic
                                   then Panic
                                   else Ok ((all_valid vr, length saved, serialized_size R (tokens ! 0), serialized_size R (tokens ! 0)), g)
                               | _ \<Rightarrow> Panic)
                       | _ \<Rightarrow> Panic)
                 | _ \<Rightarrow> Panic)))
       in (case r of Ok (out, g) \<Rightarrow> (Done out, st\<lparr>cli_rng := g\<rparr>) | _ \<Rightarrow> (Panicked, st)))"

section \<open>The entry point\<close>

datatype ('s, 'p) cli_report =
    Setup_done 'p
  | Minted "('s, 'p) proof_carrying_token" u64
  | Balance_shown u64 nat "token_info list" nat
  | Transferred bytes u64
  | Sent bytes conn
  | Received "('s, 'p) proof_carrying_token" conn
  | Saved nat nat
  | Loaded u64 nat
  | Demo_shown "('s, 'p) demo_report"
  | Benchmark_shown "bool \<times> nat \<times> nat \<times> nat"
  | Help_shown

definition map_done :: "('a \<Rightarrow> 'b) \<Rightarrow> 'a outcome \<times> cli_state \<Rightarrow> 'b outcome \<times> cli_state" where
  "map_done f r = and_then r (\<lambda>x st. (Done (f x), st))"

definition cli_main ::
  "('s::field, 'p::ab_group_add) prims \<Rightarrow> aead_prims \<Rightarrow> 'd kem_prims option \<Rightarrow> (string \<Rightarrow> bytes option) \<Rightarrow> (nat \<Rightarrow> bool) \<Rightarrow> cli_env \<Rightarrow>
     guard \<Rightarrow> bool \<Rightarrow> string list \<Rightarrow> conn option \<Rightarrow> process \<Rightarrow> cli_state \<Rightarrow> process \<times> (('s, 'p) cli_report outcome \<times> cli_state)" where
  "cli_main R A pq hex_decode alnum env guard os_ok args connection p st =
     (let p = snd (disable_core_dumps guard os_ok p);
          cmd = (case arg args 1 of Some c \<Rightarrow> c | None \<Rightarrow> ''help'')
      in (p,
          if cmd = ''setup'' then map_done Setup_done (cmd_setup R A env st)
          else if cmd = ''mint'' then map_done (\<lambda>(t, b). Minted t b) (cmd_mint R A alnum env args st)
          else if cmd = ''balance'' then map_done (\<lambda>(b, n, l, k). Balance_shown b n l k) (cmd_balance R A alnum env st)
          else if cmd = ''transfer'' then map_done (\<lambda>(n, b). Transferred n b) (cmd_transfer R A alnum env st)
          else if cmd = ''send'' then map_done (\<lambda>(i, c). Sent i c) (cmd_send R A pq hex_decode alnum env args connection st)
          else if cmd = ''receive'' then map_done (\<lambda>(t, c). Received t c) (cmd_receive R A pq alnum env connection st)
          else if cmd = ''save'' then map_done (\<lambda>(n, k). Saved n k) (cmd_save R A alnum env st)
          else if cmd = ''load'' then map_done (\<lambda>(b, n). Loaded b n) (cmd_load R A alnum env st)
          else if cmd = ''demo'' then map_done Demo_shown (run_demo R st)
          else if cmd = ''benchmark'' then map_done Benchmark_shown (run_benchmark R A alnum st)
          else if cmd = ''help'' \<or> cmd = ''--help'' \<or> cmd = ''-h'' then (Done Help_shown, st)
          else (Exited 1, st)))"

section \<open>What the demonstration shows\<close>

text \<open>No token of the chain has a nullifier that is in the set when its turn comes.\<close>

fun chain_fresh ::
  "('s::field, 'p::ab_group_add) prims \<Rightarrow> nat \<Rightarrow> ('s, 'p) proof_carrying_token \<Rightarrow> nullifier_set \<Rightarrow> rng \<Rightarrow> bool" where
  "chain_fresh R 0 tok ns g \<longleftrightarrow> True"
| "chain_fresh R (Suc n) tok ns g \<longleftrightarrow> token_nullifier R tok \<notin> ns_nullifiers ns \<and>
     (case transfer R tok None ns g of (Ok tr, ns, g) \<Rightarrow> chain_fresh R n (tr_token tr) ns g | _ \<Rightarrow> True)"

text \<open>What \<open>n\<close> transfers of a token print.\<close>

definition transfers_shown :: "nat \<Rightarrow> u32 \<Rightarrow> u32 \<Rightarrow> nullifier_set \<Rightarrow> demo_transfer list \<Rightarrow> bool" where
  "transfers_shown n c0 bound ns reports \<longleftrightarrow> length reports = n \<and>
     (\<forall>i<n. dt_valid (reports ! i) \<and> unat (dt_count (reports ! i)) = unat c0 + i + 1 \<and> dt_steps (reports ! i) = dt_count (reports ! i) \<and>
        dt_bound (reports ! i) = bound) \<and>
     distinct (map dt_nullifier reports) \<and> dt_nullifier ` set reports \<inter> ns_nullifiers ns = {}"

lemma transfers_shown_Cons:
  assumes "transfers_shown n c bound ns1 rs" and "unat c = unat c0 + 1" and "ns_nullifiers ns1 = insert (dt_nullifier r) (ns_nullifiers ns)"
    and "dt_valid r" "dt_count r = c" "dt_steps r = c" "dt_bound r = bound" "dt_nullifier r \<notin> ns_nullifiers ns"
  shows "transfers_shown (Suc n) c0 bound ns (r # rs)"
  using assms by (auto simp: transfers_shown_def nth_Cons split: nat.split)

context ristretto_group
begin

lemma demo_step:
  assumes "token_of R mint 0 tok" and "unat (tok_transfer_count tok) + Suc n \<le> unat (tok_recursion_bound tok)"
  shows "if token_nullifier R tok \<in> ns_nullifiers ns then \<exists>e ns1 g1. transfer R tok None ns g = (Err e, ns1, g1)
    else \<exists>tr ns1 g1 vr. transfer R tok None ns g = (Ok tr, ns1, g1) \<and> ns_nullifiers ns1 = insert (token_nullifier R tok) (ns_nullifiers ns) \<and>
      tr_spent_nullifier tr = token_nullifier R tok \<and> token_of R mint 0 (tr_token tr) \<and>
      verify_token R (tr_token tr) (group_public_key mint) (mint_pedersen mint) (iss_pedersen (mint_issuer mint)) 0 = Ok vr \<and> all_valid vr \<and>
      unat (tok_transfer_count (tr_token tr)) = unat (tok_transfer_count tok) + 1 \<and> tok_recursion_bound (tr_token tr) = tok_recursion_bound tok \<and>
      ap_steps (tok_fold_proof (tr_token tr)) = tok_transfer_count (tr_token tr) \<and> tok_value (tr_token tr) = tok_value tok"
proof -
  have lt: "tok_transfer_count tok < tok_recursion_bound tok" using assms(2) by (simp add: word_less_nat_alt)
  obtain b ns1 where ins: "nullifier_insert None (token_nullifier R tok) ns = (b, ns1)" by fastforce
  have b: "b \<longleftrightarrow> token_nullifier R tok \<notin> ns_nullifiers ns" "b \<Longrightarrow> ns_nullifiers ns1 = insert (token_nullifier R tok) (ns_nullifiers ns)"
    using ins by (auto simp: nullifier_insert_def split: if_splits option.splits)
  obtain r g' where t: "transfer R tok None ns g = (r, ns1, g')" "if b then is_ok r else r = Err (DoubleSpend (token_nullifier R tok))"
    using transfer_outcome [OF assms(1) lt ins] by blast
  show ?thesis
  proof (cases b)
    case True
    then obtain tr where tr: "transfer R tok None ns g = (Ok tr, ns1, g')" using t by (auto simp: is_ok_iff)
    have ok: "token_of R mint 0 (tr_token tr)" by (rule transfer_token_ok [OF assms(1) tr])
    have i: "issued_by R (group_public_key mint) (mint_pedersen mint) tok" "owned_chain R tok" using assms(1) unfolding token_ok_def by blast+
    have "ap_steps (tok_fold_proof (tr_token tr)) = tok_transfer_count (tr_token tr)" using ok unfolding token_ok_def by metis
    moreover obtain vr where "verify_token R (tr_token tr) (group_public_key mint) (mint_pedersen mint) (iss_pedersen (mint_issuer mint)) 0 = Ok vr"
        "all_valid vr"
      using token_ok_all_valid [OF ok] by blast
    ultimately show ?thesis
      using True b tr ok transfer_Ok [OF tr] transfer_keeps_ok(3,5,10) [OF i tr] by auto
  next
    case False
    then show ?thesis using b t by auto
  qed
qed

lemma demo_transfers_spec:
  assumes "token_of R mint 0 tok" and "unat (tok_transfer_count tok) + n \<le> unat (tok_recursion_bound tok)"
  shows "if chain_fresh R n tok ns g
    then \<exists>reports final ns' g'. demo_transfers R mint n tok ns g = Ok (reports, final, ns', g') \<and>
      transfers_shown n (tok_transfer_count tok) (tok_recursion_bound tok) ns reports \<and> token_of R mint 0 final \<and> tok_value final = tok_value tok
    else demo_transfers R mint n tok ns g = Panic"
  using assms
proof (induction n arbitrary: tok ns g)
  case 0
  then show ?case by (simp add: transfers_shown_def)
next
  case (Suc n)
  show ?case
  proof (cases "token_nullifier R tok \<in> ns_nullifiers ns")
    case True
    then show ?thesis using demo_step [OF Suc.prems, of ns g] by auto
  next
    case False
    then obtain tr ns1 g1 vr where s: "transfer R tok None ns g = (Ok tr, ns1, g1)"
        "ns_nullifiers ns1 = insert (token_nullifier R tok) (ns_nullifiers ns)" "tr_spent_nullifier tr = token_nullifier R tok"
        "token_of R mint 0 (tr_token tr)"
        "verify_token R (tr_token tr) (group_public_key mint) (mint_pedersen mint) (iss_pedersen (mint_issuer mint)) 0 = Ok vr" "all_valid vr"
        "unat (tok_transfer_count (tr_token tr)) = unat (tok_transfer_count tok) + 1" "tok_recursion_bound (tr_token tr) = tok_recursion_bound tok"
        "ap_steps (tok_fold_proof (tr_token tr)) = tok_transfer_count (tr_token tr)" "tok_value (tr_token tr) = tok_value tok"
      using demo_step [OF Suc.prems, of ns g] by (simp only: if_False) blast
    have fresh: "chain_fresh R (Suc n) tok ns g \<longleftrightarrow> chain_fresh R n (tr_token tr) ns1 g1" using False s(1) by simp
    have "unat (tok_transfer_count (tr_token tr)) + n \<le> unat (tok_recursion_bound (tr_token tr))" using Suc.prems(2) s(7,8) by simp
    note IH = Suc.IH [OF s(4) this, of ns1 g1]
    show ?thesis
    proof (cases "chain_fresh R n (tr_token tr) ns1 g1")
      case True
      with IH obtain rs final ns' g' where r: "demo_transfers R mint n (tr_token tr) ns1 g1 = Ok (rs, final, ns', g')"
          "transfers_shown n (tok_transfer_count (tr_token tr)) (tok_recursion_bound tok) ns1 rs" "token_of R mint 0 final"
          "tok_value final = tok_value tok"
        using s(8,10) by auto
      let ?r = "\<lparr>dt_count = tok_transfer_count (tr_token tr), dt_bound = tok_recursion_bound (tr_token tr),
        dt_steps = ap_steps (tok_fold_proof (tr_token tr)), dt_valid = all_valid vr, dt_nullifier = tr_spent_nullifier tr\<rparr>"
      have "transfers_shown (Suc n) (tok_transfer_count tok) (tok_recursion_bound tok) ns (?r # rs)"
        by (rule transfers_shown_Cons [OF r(2) s(7)]) (use False s in simp_all)
      moreover have "demo_transfers R mint (Suc n) tok ns g = Ok (?r # rs, final, ns', g')" by (simp add: s(1,5) r(1))
      ultimately show ?thesis using True fresh r(3,4) by auto
    next
      case False
      then show ?thesis using IH fresh s(1,5) by simp
    qed
  qed
qed

lemma issued_by_default_mint:
  assumes "mint_ok R mint" and "mint_recursion_bound mint = 20" and "quorum_ids (mint_keyset mint) signers" and "v \<noteq> 0"
    and "attrs = None \<or> attrs = Some default_attrs"
  obtains tok g' where "issue R mint v signers attrs g = (Ok tok, g')" "token_of R mint 0 tok" "tok_value tok = v"
    "tok_transfer_count tok = 0" "tok_recursion_bound tok = 20"
proof -
  have "\<exists>tok. fst (issue R mint v signers attrs g) = Ok tok \<and> token_of R mint 0 tok \<and> tok_value tok = v \<and> tok_transfer_count tok = 0 \<and>
      tok_recursion_bound tok = 20"
    using issue_full_ok [OF assms(1,3,4), where attrs = attrs and now = 0 and iterations = None and bond = None and g = g] assms(2,5)
    by (force simp: issue_def not_expired_def default_attrs_def)
  then show thesis using that by (metis prod.collapse)
qed

lemma run_demo_spec:
  obtains mint tok g0 g where "default_mint R st = (Done mint, st\<lparr>cli_rng := g0\<rparr>)"
    "issue R mint 1000 [1, 3] (Some default_attrs) g0 = (Ok tok, g)" "token_of R mint 0 tok"
    "if chain_fresh R 5 tok nullifier_set_new g
     then \<exists>rep st'. run_demo R st = (Done rep, st') \<and> dr_minted rep = tok \<and> all_valid (dr_check rep) \<and>
       transfers_shown 5 0 20 nullifier_set_new (dr_transfers rep) \<and> token_of R mint 0 (dr_final rep) \<and> tok_value (dr_final rep) = 1000 \<and>
       \<not> dr_second_ok rep
     else fst (run_demo R st) = Panicked"
proof -
  obtain mint g0 where m: "default_mint R st = (Done mint, st\<lparr>cli_rng := g0\<rparr>)" "mint_ok R mint" "mint_recursion_bound mint = 20"
    "quorum_ids (mint_keyset mint) [1, 3]" "quorum_ids (mint_keyset mint) [2, 3]"
    by (rule default_mint_ok)
  obtain tok g where t: "issue R mint 1000 [1, 3] (Some default_attrs) g0 = (Ok tok, g)" "token_of R mint 0 tok" "tok_value tok = 1000"
      "tok_transfer_count tok = 0" "tok_recursion_bound tok = 20"
    by (rule issued_by_default_mint [OF m(2,3,4), of 1000 "Some default_attrs" g0]) auto
  obtain check where c: "verify_token R tok (group_public_key mint) (mint_pedersen mint) (iss_pedersen (mint_issuer mint)) 0 = Ok check" "all_valid check"
    using token_ok_all_valid [OF t(2)] by blast
  have bound: "unat (tok_transfer_count tok) + 5 \<le> unat (tok_recursion_bound tok)" using t(4,5) by simp
  note spec = demo_transfers_spec [OF t(2) bound, of nullifier_set_new g]
  have "if chain_fresh R 5 tok nullifier_set_new g
     then \<exists>rep st'. run_demo R st = (Done rep, st') \<and> dr_minted rep = tok \<and> all_valid (dr_check rep) \<and>
       transfers_shown 5 0 20 nullifier_set_new (dr_transfers rep) \<and> token_of R mint 0 (dr_final rep) \<and> tok_value (dr_final rep) = 1000 \<and>
       \<not> dr_second_ok rep
     else fst (run_demo R st) = Panicked"
  proof (cases "chain_fresh R 5 tok nullifier_set_new g")
    case True
    then obtain reports final ns' g1 where d: "demo_transfers R mint 5 tok nullifier_set_new g = Ok (reports, final, ns', g1)"
        "transfers_shown 5 0 20 nullifier_set_new reports" "token_of R mint 0 final" "tok_value final = 1000"
      using spec t(3-5) by (simp only: if_True) metis
    obtain orig g2 where o: "issue R mint 500 [2, 3] None g1 = (Ok orig, g2)" "token_of R mint 0 orig" "tok_transfer_count orig = 0"
        "tok_recursion_bound orig = 20"
      by (rule issued_by_default_mint [OF m(2,3,5), of 500 None g1]) auto
    have "unat (tok_transfer_count orig) + Suc 0 \<le> unat (tok_recursion_bound orig)" using o(3,4) by simp
    from demo_step [OF o(2) this, of nullifier_set_new g2] obtain tr ds g3 where
        s: "transfer R orig None nullifier_set_new g2 = (Ok tr, ds, g3)" "token_nullifier R orig \<in> ns_nullifiers ds"
      by (auto simp: nullifier_set_new_def)
    have "nullifier_insert None (token_nullifier R orig) ds = (False, ds)" using s(2) by (simp add: nullifier_insert_def)
    then show ?thesis using True m(1) t(1) c d o(1) s(1) by (simp add: run_demo_def)
  next
    case False
    then have "demo_transfers R mint 5 tok nullifier_set_new g = Panic" using spec by simp
    then show ?thesis using False m(1) t(1) c by (simp add: run_demo_def)
  qed
  then show thesis by (rule that [OF m(1) t(1,2)])
qed

end

section \<open>Properties\<close>

text \<open>The demonstration from beginning to end: key generation, issuing with a credential, verification, five transfers and a second
  spend. It ends exactly when no nullifier repeats along the chain of transfers, which depends on the random owner secrets and the hash;
  then the token minted and the token after every transfer pass the whole verification, the counters go from 1 to 5 with one
  signed step each, the value is still 1000, and the second spend of the other token is refused.\<close>

lemma demo_shows_what_it_claims:
  assumes "ristretto_group R"
  shows "\<exists>mint tok g0 g. default_mint R st = (Done mint, st\<lparr>cli_rng := g0\<rparr>) \<and>
    issue R mint 1000 [1, 3] (Some default_attrs) g0 = (Ok tok, g) \<and> token_of R mint 0 tok \<and>
    (if chain_fresh R 5 tok nullifier_set_new g
     then \<exists>rep st'. run_demo R st = (Done rep, st') \<and> dr_minted rep = tok \<and> all_valid (dr_check rep) \<and>
       transfers_shown 5 0 20 nullifier_set_new (dr_transfers rep) \<and> token_of R mint 0 (dr_final rep) \<and> tok_value (dr_final rep) = 1000 \<and>
       \<not> dr_second_ok rep
     else fst (run_demo R st) = Panicked)"
  by (rule ristretto_group.run_demo_spec [OF assms, of st]) blast

lemma demo_shows_what_it_claims_witness:
  "\<exists>mint tok g0 g. default_mint zp_prims \<lparr>wallet_file = None, identity_file = None, cli_rng = \<lambda>i. of_nat i\<rparr> =
       (Done mint, \<lparr>wallet_file = None, identity_file = None, cli_rng = g0\<rparr>) \<and>
     issue zp_prims mint 1000 [1, 3] (Some default_attrs) g0 = (Ok tok, g) \<and>
     (chain_fresh zp_prims 5 tok nullifier_set_new g \<longleftrightarrow>
        (\<exists>rep st'. run_demo zp_prims \<lparr>wallet_file = None, identity_file = None, cli_rng = \<lambda>i. of_nat i\<rparr> = (Done rep, st') \<and> \<not> dr_second_ok rep))"
proof -
  let ?st = "\<lparr>wallet_file = None, identity_file = None, cli_rng = \<lambda>i. of_nat i\<rparr> :: cli_state"
  from demo_shows_what_it_claims [OF zp.ristretto_group_axioms, of ?st]
  obtain mint tok g0 g where d: "default_mint zp_prims ?st = (Done mint, ?st\<lparr>cli_rng := g0\<rparr>)"
      "issue zp_prims mint 1000 [1, 3] (Some default_attrs) g0 = (Ok tok, g)"
      "if chain_fresh zp_prims 5 tok nullifier_set_new g
       then \<exists>rep st'. run_demo zp_prims ?st = (Done rep, st') \<and> dr_minted rep = tok \<and> all_valid (dr_check rep) \<and>
         transfers_shown 5 0 20 nullifier_set_new (dr_transfers rep) \<and> token_of zp_prims mint 0 (dr_final rep) \<and>
         tok_value (dr_final rep) = 1000 \<and> \<not> dr_second_ok rep
       else fst (run_demo zp_prims ?st) = Panicked"
    by (elim exE conjE)
  then have "chain_fresh zp_prims 5 tok nullifier_set_new g \<longleftrightarrow> (\<exists>rep st'. run_demo zp_prims ?st = (Done rep, st') \<and> \<not> dr_second_ok rep)"
    by (auto split: if_splits)
  with d(1,2) show ?thesis by (intro exI [of _ mint] exI [of _ tok] exI [of _ g0] exI [of _ g]) simp
qed

end
