(* ===== verification/Payments.thy ===== *)
theory Payments
  imports Wallet
begin

text \<open>
  Payments between users, as a refinement of a ledger of coins. The concrete state is a wallet per user and the nullifier set; a step
  mints a token into a wallet, or picks a token from one user's wallet, spends it (by a transfer, a checked transfer, a split or
  a renewal) and stores what it returns in a user's wallet, with the operations of \<^verbatim>\<open>wallet.rs\<close>, \<^verbatim>\<open>mint.rs\<close>, \<^verbatim>\<open>transfer.rs\<close>
  and \<^verbatim>\<open>renewal.rs\<close> in the order in which \<^verbatim>\<open>cmd_mint\<close> and \<^verbatim>\<open>cmd_transfer\<close> call them. The abstract state is a multiset of coin values
  per user. The theorem is a functional refinement: the event a step reports, applied to the ledger before, gives the ledger after.
\<close>

section \<open>The ledger\<close>

type_synonym 'u ledger = "'u \<Rightarrow> nat multiset"

datatype 'u ledger_event =
    Issued 'u nat
  | Moved 'u 'u nat "nat list"
  | Nothing

text \<open>A coin of one user becomes coins of another, or of the same user, of at most its value.\<close>

fun ledger_step :: "'u ledger_event \<Rightarrow> 'u ledger \<Rightarrow> 'u ledger option" where
  "ledger_step (Issued u v) L = (if v = 0 then None else Some (L(u := add_mset v (L u))))"
| "ledger_step (Moved a b c cs) L =
     (if c \<in># L a \<and> sum_list cs \<le> c
      then let L = L(a := L a - {#c#}) in Some (L(b := L b + mset cs))
      else None)"
| "ledger_step Nothing L = Some L"

fun ledger_run :: "'u ledger_event list \<Rightarrow> 'u ledger \<Rightarrow> 'u ledger option" where
  "ledger_run [] L = Some L"
| "ledger_run (e # es) L = Option.bind (ledger_step e L) (ledger_run es)"

section \<open>Payments\<close>

record ('u, 's, 'p) payment_system =
  ps_wallets :: "'u \<Rightarrow> ('s, 'p) wallet"
  ps_spent :: nullifier_set
  ps_rng :: rng

datatype pick = By_amount u64 | By_id bytes

datatype spend_kind =
    Kind_transfer write_outcome
  | Kind_checked write_outcome u64
  | Kind_split "u64 list" "signer_id list" write_outcome
  | Kind_renew "signer_id list" write_outcome

datatype 'u payment =
    Issue 'u u64 "signer_id list" "attributes option"
  | Spend 'u 'u pick spend_kind

fun pick_token :: "pick \<Rightarrow> ('s, 'p) wallet \<Rightarrow> ('s, 'p) proof_carrying_token option \<times> ('s, 'p) wallet" where
  "pick_token (By_amount x) w = take_token x w"
| "pick_token (By_id i) w = remove_token i w"

fun op_of :: "spend_kind \<Rightarrow> ('s, 'p) proof_carrying_token \<Rightarrow> ('s, 'p) spend_op" where
  "op_of (Kind_transfer w) tok = Op_transfer tok w"
| "op_of (Kind_checked w now) tok = Op_transfer_checked tok w now"
| "op_of (Kind_split outs signers w) tok = Op_split tok outs signers w"
| "op_of (Kind_renew signers w) tok = Op_renew tok signers w"

text \<open>Storing tokens one by one; a full wallet drops the token. The tokens kept, and the wallet.\<close>

fun add_tokens ::
  "('s, 'p) proof_carrying_token list \<Rightarrow> ('s, 'p) wallet \<Rightarrow> ('s, 'p) proof_carrying_token list \<times> ('s, 'p) wallet" where
  "add_tokens [] w = ([], w)"
| "add_tokens (t # ts) w =
     (let (ok, w) = add_token t w; (kept, w) = add_tokens ts w in (if ok then t # kept else kept, w))"

fun payment_step ::
  "('s::field, 'p::ab_group_add) prims \<Rightarrow> ('s, 'p) mint \<Rightarrow> 'u payment \<Rightarrow> ('u, 's, 'p) payment_system \<Rightarrow>
     'u ledger_event \<times> ('u, 's, 'p) payment_system" where
  "payment_step R mint (Issue u v signers attrs) st =
     (case issue R mint v signers attrs (ps_rng st) of
        (Ok tok, g) \<Rightarrow>
          (case add_token tok (ps_wallets st u) of
             (ok, w) \<Rightarrow> (if ok then Issued u (unat v) else Nothing, st\<lparr>ps_wallets := (ps_wallets st)(u := w), ps_rng := g\<rparr>))
      | (_, g) \<Rightarrow> (Nothing, st\<lparr>ps_rng := g\<rparr>))"
| "payment_step R mint (Spend a b p kind) st =
     (case pick_token p (ps_wallets st a) of
        (None, w) \<Rightarrow> (Nothing, st)
      | (Some tok, wa) \<Rightarrow>
          (case spend R mint (op_of kind tok) (ps_spent st) (ps_rng st) of
             (r, ns, g) \<Rightarrow>
               let ws = (ps_wallets st)(a := wa);
                   (kept, wb) = add_tokens (case r of None \<Rightarrow> [] | Some toks \<Rightarrow> toks) (ws b)
               in (Moved a b (unat (tok_value tok)) (map (\<lambda>t. unat (tok_value t)) kept),
                   \<lparr>ps_wallets = ws(b := wb), ps_spent = ns, ps_rng = g\<rparr>)))"

fun payments ::
  "('s::field, 'p::ab_group_add) prims \<Rightarrow> ('s, 'p) mint \<Rightarrow> 'u payment list \<Rightarrow> ('u, 's, 'p) payment_system \<Rightarrow>
     'u ledger_event list \<times> ('u, 's, 'p) payment_system" where
  "payments R mint [] st = ([], st)"
| "payments R mint (p # ps) st =
     (let (e, st) = payment_step R mint p st; (es, st) = payments R mint ps st in (e # es, st))"

text \<open>The coins a wallet holds.\<close>

definition coins :: "('s, 'p) wallet \<Rightarrow> nat multiset" where
  "coins w = mset (map (\<lambda>t. unat (tok_value t)) (w_tokens w))"

definition ledger_of :: "('u, 's, 'p) payment_system \<Rightarrow> 'u ledger" where
  "ledger_of st = (\<lambda>u. coins (ps_wallets st u))"

section \<open>Lemmas\<close>

lemma coins_add_token:
  "add_token t w = (ok, w') \<Longrightarrow> coins w' = (if ok then add_mset (unat (tok_value t)) (coins w) else coins w)"
  by (auto simp: add_token_def coins_def split: if_splits)

lemma coins_add_tokens:
  "add_tokens ts w = (kept, w') \<Longrightarrow> coins w' = coins w + mset (map (\<lambda>t. unat (tok_value t)) kept)"
proof (induction ts arbitrary: w kept w')
  case (Cons t ts)
  obtain ok w1 where a: "add_token t w = (ok, w1)" by fastforce
  obtain k w2 where k: "add_tokens ts w1 = (k, w2)" by fastforce
  show ?case using Cons.IH [OF k] Cons.prems coins_add_token [OF a] by (auto simp: a k)
qed simp

lemma kept_value:
  "add_tokens ts w = (kept, w') \<Longrightarrow> (\<Sum>t\<leftarrow>kept. unat (tok_value t)) \<le> (\<Sum>t\<leftarrow>ts. unat (tok_value t))"
proof (induction ts arbitrary: w kept w')
  case (Cons t ts)
  obtain ok w1 where a: "add_token t w = (ok, w1)" by fastforce
  obtain k w2 where k: "add_tokens ts w1 = (k, w2)" by fastforce
  show ?case using Cons.IH [OF k] Cons.prems by (auto simp: a k)
qed simp

lemma position_Some: "position P xs = Some i \<Longrightarrow> i < length xs"
  by (induction xs arbitrary: i) (auto split: if_splits)

lemma pick_token_coins:
  assumes "pick_token p w = (Some t, w')"
  shows "coins w = add_mset (unat (tok_value t)) (coins w')"
proof -
  have "mset (w_tokens w) = add_mset t (mset (w_tokens w'))"
  proof (cases p)
    case (By_amount x)
    then show ?thesis using take_token_mset assms by simp
  next
    case (By_id i)
    then obtain k where "position (\<lambda>t. tok_id t = i) (w_tokens w) = Some k" "t = w_tokens w ! k" "w_tokens w' = remove_at k (w_tokens w)"
      using assms by (auto simp: remove_token_def split: option.splits)
    then show ?thesis using position_Some mset_remove_at by metis
  qed
  then show ?thesis unfolding coins_def mset_map by simp
qed

lemma issue_nonzero: "fst (issue R mint v signers attrs g) = Ok tok \<Longrightarrow> v \<noteq> 0"
  by (auto simp: issue_def issue_full_def)

lemma op_token_op_of [simp]: "op_token (op_of kind tok) = tok"
  by (cases kind) simp_all

text \<open>One step refines one event.\<close>

lemma payment_step_refines:
  assumes "payment_step R mint p st = (e, st')"
  shows "ledger_step e (ledger_of st) = Some (ledger_of st')"
proof (cases p)
  case (Issue u v signers attrs)
  obtain r g where i: "issue R mint v signers attrs (ps_rng st) = (r, g)" by fastforce
  show ?thesis
  proof (cases r)
    case (Ok tok)
    then have tok: "tok_value tok = v" "v \<noteq> 0" using issue_value issue_nonzero i by (metis fst_conv)+
    obtain ok w where a: "add_token tok (ps_wallets st u) = (ok, w)" by fastforce
    then have "e = (if ok then Issued u (unat v) else Nothing)" "st' = st\<lparr>ps_wallets := (ps_wallets st)(u := w), ps_rng := g\<rparr>"
      using assms by (auto simp: Issue i Ok)
    then show ?thesis using coins_add_token [OF a] tok by (auto simp: ledger_of_def fun_eq_iff unat_eq_0)
  qed (use assms in \<open>auto simp: Issue i ledger_of_def\<close>)
next
  case (Spend a b k kind)
  obtain t wa where pk: "pick_token k (ps_wallets st a) = (t, wa)" by fastforce
  show ?thesis
  proof (cases t)
    case (Some tok)
    obtain r ns g where s: "spend R mint (op_of kind tok) (ps_spent st) (ps_rng st) = (r, ns, g)" by (metis surj_pair)
    let ?toks = "case r of None \<Rightarrow> [] | Some toks \<Rightarrow> toks" and ?v = "unat (tok_value tok)"
    obtain kept wb where k: "add_tokens ?toks (((ps_wallets st)(a := wa)) b) = (kept, wb)" by fastforce
    then have e: "e = Moved a b ?v (map (\<lambda>t. unat (tok_value t)) kept)" "ps_wallets st' = (ps_wallets st)(a := wa, b := wb)"
      using assms by (auto simp: Spend pk Some s)
    have "(\<Sum>t\<leftarrow>?toks. unat (tok_value t)) \<le> ?v"
    proof (cases r)
      case (Some ts)
      from spend_ends [OF s] Some show ?thesis by auto
    qed simp
    then have "sum_list (map (\<lambda>t. unat (tok_value t)) kept) \<le> ?v" using kept_value [OF k] by simp
    moreover have "coins (ps_wallets st a) = add_mset ?v (coins wa)" using pick_token_coins pk Some by blast
    moreover have "coins wb = coins (((ps_wallets st)(a := wa)) b) + mset (map (\<lambda>t. unat (tok_value t)) kept)" by (rule coins_add_tokens [OF k])
    ultimately show ?thesis by (auto simp: e ledger_of_def fun_eq_iff)
  qed (use assms pk in \<open>auto simp: Spend\<close>)
qed

lemma payments_refine:
  "payments R mint ps st = (es, st') \<Longrightarrow> ledger_run es (ledger_of st) = Some (ledger_of st')"
proof (induction ps arbitrary: st es st')
  case (Cons p ps)
  obtain e st1 where e: "payment_step R mint p st = (e, st1)" by fastforce
  obtain es1 st2 where es: "payments R mint ps st1 = (es1, st2)" by fastforce
  show ?case using Cons.IH [OF es] Cons.prems payment_step_refines [OF e] by (auto simp: e es)
qed simp

text \<open>A transfer of an intact token that the nullifier set takes, to a wallet with room, moves the coin whole.\<close>

lemma transfer_moves:
  assumes "ristretto_group R" and "take_token x (ps_wallets st a) = (Some tok, wa)" and "token_of R mint now tok"
    and "nullifier_insert w (token_nullifier R tok) (ps_spent st) = (True, ns1)"
    and "length (w_tokens (((ps_wallets st)(a := wa)) b)) < MAX_TOKENS"
  shows "fst (payment_step R mint (Spend a b (By_amount x) (Kind_transfer w)) st) = Moved a b (unat (tok_value tok)) [unat (tok_value tok)]"
proof -
  have "select_token x (ps_wallets st a) = Some tok"
    using assms(2) take_select [of x "ps_wallets st a"] by (cases "select_token x (ps_wallets st a)") simp_all
  then have "\<not> needs_renewal tok" using min_by_key_Some [of tok_value] by (fastforce simp: select_token_def usable_def)
  then have "tok_transfer_count tok < tok_recursion_bound tok" by (simp add: needs_renewal_def not_le)
  from ristretto_group.transfer_outcome [OF assms(1,3) this assms(4), of "ps_rng st"]
  obtain res g' where t: "transfer R tok w (ps_spent st) (ps_rng st) = (Ok res, ns1, g')" by (auto simp: is_ok_iff)
  moreover have "tok_value (tr_token res) = tok_value tok" by (rule transfer_value [OF t])
  moreover have "add_token (tr_token res) (((ps_wallets st)(a := wa)) b) =
      (True, (((ps_wallets st)(a := wa)) b)\<lparr>w_tokens := w_tokens (((ps_wallets st)(a := wa)) b) @ [tr_token res]\<rparr>)"
    using assms(5) by (simp add: add_token_def)
  ultimately show ?thesis
    using assms(2) by (simp add: outputs_of_def Let_def split: if_splits)
qed

section \<open>Properties\<close>

text \<open>C10: The payment system refines the ledger. Over every sequence of issues, transfers, checked transfers, splits and renewals between
  the wallets of any users, with any tokens in the wallets and any answers of the disk, the events that the steps report are a run
  of the ledger from the coins held before to the coins held after: a token issued is a coin added to one user, a token spent
  leaves its user, and what it becomes is worth at most as much. And a transfer of an intact token that the nullifier set accepts,
  to a wallet with room, moves the coin to the receiver at its full value.\<close>

theorem payments_refine_ledger:
  assumes "payments R mint ps st = (es, st')"
  shows "ledger_run es (ledger_of st) = Some (ledger_of st') \<and>
    (\<forall>a b x w tok wa now ns1. ristretto_group R \<longrightarrow> take_token x (ps_wallets st' a) = (Some tok, wa) \<longrightarrow> token_of R mint now tok \<longrightarrow>
       nullifier_insert w (token_nullifier R tok) (ps_spent st') = (True, ns1) \<longrightarrow>
       length (w_tokens (((ps_wallets st')(a := wa)) b)) < MAX_TOKENS \<longrightarrow>
       fst (payment_step R mint (Spend a b (By_amount x) (Kind_transfer w)) st') = Moved a b (unat (tok_value tok)) [unat (tok_value tok)])"
  by (intro conjI allI impI) (rule payments_refine [OF assms], rule transfer_moves)

theorem payments_refine_ledger_witness:
  "\<exists>(st :: (bool, zp, zp) payment_system) st'. coins (ps_wallets st True) = {#100#} \<and>
     payments zp_prims demo_mint [Spend True False (By_amount 50) (Kind_transfer None)] st = ([Moved True False 100 [100]], st') \<and>
     ledger_run [Moved True False 100 [100]] (ledger_of st) = Some (ledger_of st')"
proof -
  obtain tok where tok: "token_of zp_prims demo_mint 0 tok" "tok_value tok = 100" "tok_transfer_count tok = 0" "tok_recursion_bound tok = 2"
    by (rule demo_token)
  define st :: "(bool, zp, zp) payment_system" where
    "st = \<lparr>ps_wallets = (\<lambda>u. \<lparr>w_tokens = if u then [tok] else []\<rparr>), ps_spent = nullifier_set_new, ps_rng = \<lambda>_. 6\<rparr>"
  let ?p = "Spend True False (By_amount 50) (Kind_transfer None)"
  have "take_token 50 (ps_wallets st True) = (Some tok, \<lparr>w_tokens = []\<rparr>)"
    using tok by (simp add: st_def take_token_def usable_def needs_renewal_def remove_at_def word_le_nat_alt)
  moreover have "nullifier_insert None (token_nullifier zp_prims tok) (ps_spent st) =
      (True, nullifier_set_new\<lparr>ns_nullifiers := {token_nullifier zp_prims tok}\<rparr>)"
    unfolding st_def by (simp add: insert_fresh)
  moreover have room: "length (w_tokens (((ps_wallets st)(True := \<lparr>w_tokens = []\<rparr>)) False)) < MAX_TOKENS"
    by (simp add: st_def MAX_TOKENS_def)
  ultimately have "fst (payment_step zp_prims demo_mint ?p st) = Moved True False (unat (tok_value tok)) [unat (tok_value tok)]"
    using tok(1) zp.ristretto_group_axioms room
    by (intro conjunct2 [OF payments_refine_ledger [of zp_prims demo_mint "[]" st "[]" st], rule_format]) simp_all
  then obtain st' where "payments zp_prims demo_mint [?p] st = ([Moved True False 100 [100]], st')"
    using tok(2) by (cases "payment_step zp_prims demo_mint ?p st") (simp del: payment_step.simps)
  moreover have "coins (ps_wallets st True) = {#100#}" using tok(2) by (simp add: st_def coins_def)
  ultimately show ?thesis using payments_refine_ledger [of zp_prims demo_mint "[?p]" st] by blast
qed

end
