(* ===== verification/Tee.thy ===== *)
theory Tee
  imports Prime_Field
begin

text \<open>
  The crate \<^verbatim>\<open>specter-tee\<close>: reports that a peer runs in a confidential virtual machine. The providers of \<^verbatim>\<open>lib.rs\<close>,
  \<^verbatim>\<open>mock.rs\<close> and \<^verbatim>\<open>sev_snp.rs\<close>, the verification of \<^verbatim>\<open>sev_snp_verify.rs\<close> and the policy of
  \<^verbatim>\<open>tcb_policy.rs\<close>. The crates \<^verbatim>\<open>sev\<close> and \<^verbatim>\<open>bincode\<close> are the record \<open>sev_prims\<close>: what a report and a certificate are is
  left to them, and the type variables \<open>'r\<close> and \<open>'c\<close> stand for theirs. The guest device is the record \<open>guest_device\<close>. Texts that the
  code builds from a foreign error are cut to their fixed part. The trait of the providers is the locale \<open>attestation_provider\<close>.
\<close>

section \<open>The policy\<close>

record tcb_floor =
  floor_bootloader :: u8
  floor_tee :: u8
  floor_snp :: u8
  floor_microcode :: u8

record tcb_policy =
  min_tcb :: tcb_floor
  allowed_measurements :: "bytes list"
  max_vmpl :: u32

text \<open>The texts of \<open>TcbTooOld\<close> are rendered from these numbers.\<close>

datatype tcb_policy_violation =
    TcbTooOld "u8 \<times> u8 \<times> u8 \<times> u8" "u8 \<times> u8 \<times> u8 \<times> u8"
  | VmplTooHigh u32 u32
  | MeasurementNotAllowed

definition permissive :: tcb_policy where
  "permissive = \<lparr>min_tcb = \<lparr>floor_bootloader = 0, floor_tee = 0, floor_snp = 0, floor_microcode = 0\<rparr>,
     allowed_measurements = [], max_vmpl = 3\<rparr>"

definition policy_check :: "tcb_policy \<Rightarrow> u8 \<Rightarrow> u8 \<Rightarrow> u8 \<Rightarrow> u8 \<Rightarrow> bytes \<Rightarrow> u32 \<Rightarrow> (unit, tcb_policy_violation) result" where
  "policy_check policy bootloader tee snp microcode report_measurement report_vmpl =
     (let m = min_tcb policy in
      if bootloader < floor_bootloader m \<or> tee < floor_tee m \<or> snp < floor_snp m \<or> microcode < floor_microcode m
      then Err (TcbTooOld (bootloader, tee, snp, microcode) (floor_bootloader m, floor_tee m, floor_snp m, floor_microcode m))
      else if max_vmpl policy < report_vmpl then Err (VmplTooHigh report_vmpl (max_vmpl policy))
      else if allowed_measurements policy \<noteq> [] \<and> \<not> list_ex (\<lambda>m. m = report_measurement) (allowed_measurements policy)
      then Err MeasurementNotAllowed
      else Ok ())"

section \<open>Attestations\<close>

datatype platform = NonePlatform | SevSnp

record tee_attestation =
  ta_platform :: platform
  ta_report :: bytes
  ta_user_data :: bytes

datatype tee_error =
    PlatformUnavailable
  | SnpDeviceError string
  | SnpReportError string
  | VerifyError string
  | PolicyViolation tcb_policy_violation

text \<open>A build with the SEV-SNP backend, and whether the guest device exists.\<close>

definition detect_platform :: "bool \<Rightarrow> bool \<Rightarrow> platform" where
  "detect_platform sev_snp_linux is_sev_snp_guest = (if sev_snp_linux \<and> is_sev_snp_guest then SevSnp else NonePlatform)"

definition null_request_report :: "bytes \<Rightarrow> (tee_attestation, tee_error) result" where
  "null_request_report user_data = Err PlatformUnavailable"

definition null_verify_report :: "tee_attestation \<Rightarrow> bytes \<Rightarrow> tcb_policy \<Rightarrow> (unit, tee_error) result" where
  "null_verify_report attestation expected_user_data policy = Err PlatformUnavailable"

definition user_data_from_pubkey :: "('s, 'p) prims \<Rightarrow> bytes \<Rightarrow> bytes" where
  "user_data_from_pubkey R pk_compressed = sha512 R (ascii ''specter-tee-user-data:'' @ pk_compressed)"

definition user_data_from_pubkey_and_nonce :: "('s, 'p) prims \<Rightarrow> bytes \<Rightarrow> bytes \<Rightarrow> bytes" where
  "user_data_from_pubkey_and_nonce R pk_compressed nonce =
     sha512 R (ascii ''specter-tee-user-data-nonce:'' @ pk_compressed @ len_be nonce @ nonce)"

section \<open>The mock provider\<close>

definition MOCK_TAG :: bytes where
  "MOCK_TAG = ascii ''specter-tee-mock-attestation:v1'' @ [0]"

definition mock_request_report :: "bytes \<Rightarrow> (tee_attestation, tee_error) result" where
  "mock_request_report user_data =
     Ok \<lparr>ta_platform = NonePlatform, ta_report = MOCK_TAG @ user_data, ta_user_data = user_data\<rparr>"

text \<open>The slice \<^verbatim>\<open>[32..32 + 64]\<close> panics on a shorter report.\<close>

definition mock_verify_report :: "tee_attestation \<Rightarrow> bytes \<Rightarrow> tcb_policy \<Rightarrow> (unit, tee_error) result" where
  "mock_verify_report attestation expected_user_data policy =
     (if ta_platform attestation \<noteq> NonePlatform
      then Err (VerifyError ''mock provider can only verify Platform::None attestations'')
      else if ta_user_data attestation \<noteq> expected_user_data then Err (VerifyError ''user_data mismatch'')
      else if length (ta_report attestation) < 32 then Err (VerifyError ''mock envelope too short'')
      else if take 32 (ta_report attestation) \<noteq> MOCK_TAG then Err (VerifyError ''mock envelope magic mismatch'')
      else if length (ta_report attestation) < 32 + 64 then Panic
      else if take 64 (drop 32 (ta_report attestation)) \<noteq> expected_user_data
      then Err (VerifyError ''mock envelope user_data mismatch'')
      else Ok ())"

section \<open>Verification of SEV-SNP reports\<close>

record snp_wire =
  wire_report_bytes :: bytes
  wire_cert_table :: "(string \<times> bytes) list option"

record 'c cert_chain =
  chain_ark :: 'c
  chain_ask :: 'c
  chain_vek :: 'c

record ('c, 'r) sev_prims =
  wire_serialize :: "snp_wire \<Rightarrow> bytes option"
  wire_deserialize :: "bytes \<Rightarrow> snp_wire option"
  report_from_bytes :: "bytes \<Rightarrow> 'r option"
  report_data :: "'r \<Rightarrow> bytes"
  current_bootloader :: "'r \<Rightarrow> u8"
  current_tee :: "'r \<Rightarrow> u8"
  current_snp :: "'r \<Rightarrow> u8"
  current_microcode :: "'r \<Rightarrow> u8"
  measurement :: "'r \<Rightarrow> bytes"
  vmpl :: "'r \<Rightarrow> u32"
  certificate_from_der :: "bytes \<Rightarrow> 'c option"
  chain_verify :: "'c cert_chain \<Rightarrow> bool"
  report_verify :: "'c cert_chain \<Rightarrow> 'r \<Rightarrow> bool"

definition MAX_ENVELOPE_BYTES :: nat where
  "MAX_ENVELOPE_BYTES = 2 ^ 20"

text \<open>The first entry with a name.\<close>

definition find_cert :: "(string \<times> bytes) list \<Rightarrow> string \<Rightarrow> bytes option" where
  "find_cert table name = map_of table name"

definition chain_from_cert_table :: "('c, 'r) sev_prims \<Rightarrow> (string \<times> bytes) list \<Rightarrow> ('c cert_chain, tee_error) result" where
  "chain_from_cert_table S table =
     bindR (ok_or (find_cert table ''ark'') (VerifyError ''cert table missing ARK'')) (\<lambda>ark_der.
     bindR (ok_or (find_cert table ''ask'') (VerifyError ''cert table missing ASK'')) (\<lambda>ask_der.
     bindR (ok_or (find_cert table ''vcek'') (VerifyError ''cert table missing VCEK'')) (\<lambda>vcek_der.
     bindR (ok_or (certificate_from_der S ark_der) (VerifyError ''parse ARK: '')) (\<lambda>ark.
     bindR (ok_or (certificate_from_der S ask_der) (VerifyError ''parse ASK: '')) (\<lambda>ask.
     bindR (ok_or (certificate_from_der S vcek_der) (VerifyError ''parse VCEK: '')) (\<lambda>vcek.
       Ok \<lparr>chain_ark = ark, chain_ask = ask, chain_vek = vcek\<rparr>))))))"

definition verify_snp_report ::
  "('c, 'r) sev_prims \<Rightarrow> tee_attestation \<Rightarrow> bytes \<Rightarrow> tcb_policy \<Rightarrow> (unit, tee_error) result" where
  "verify_snp_report S attestation expected_user_data policy =
     (if ta_platform attestation \<noteq> SevSnp then Err (VerifyError ''attestation is not from SEV-SNP'')
      else if ta_user_data attestation \<noteq> expected_user_data
      then Err (VerifyError ''user_data mismatch between attestation and expected'')
      else if MAX_ENVELOPE_BYTES < length (ta_report attestation)
      then Err (VerifyError ''attestation report exceeds 1 MiB envelope cap'')
      else
        bindR (ok_or (wire_deserialize S (ta_report attestation)) (VerifyError ''deserialize envelope: '')) (\<lambda>wire.
        if MAX_ENVELOPE_BYTES < length (wire_report_bytes wire) then Err (VerifyError ''inner report exceeds 1 MiB cap'')
        else if (case wire_cert_table wire of
                   None \<Rightarrow> False
                 | Some certs \<Rightarrow> list_ex (\<lambda>(name, der). MAX_ENVELOPE_BYTES < length der) certs)
        then Err (VerifyError ''inner cert exceeds 1 MiB cap'')
        else
          bindR (ok_or (report_from_bytes S (wire_report_bytes wire)) (VerifyError ''parse report: '')) (\<lambda>report.
          if report_data S report \<noteq> expected_user_data
          then Err (VerifyError ''report.report_data != expected_user_data'')
          else
            bindR (ok_or (wire_cert_table wire) (VerifyError ''no cert table in attestation envelope'')) (\<lambda>cert_table.
            bindR (chain_from_cert_table S cert_table) (\<lambda>chain.
            if \<not> chain_verify S chain then Err (VerifyError ''chain: '')
            else if \<not> report_verify S chain report then Err (VerifyError ''report sig: '')
            else map_err PolicyViolation
                   (policy_check policy (current_bootloader S report) (current_tee S report) (current_snp S report)
                     (current_microcode S report) (measurement S report) (vmpl S report)))))))"

definition portable_request_report :: "bytes \<Rightarrow> (tee_attestation, tee_error) result" where
  "portable_request_report user_data = Err PlatformUnavailable"

definition portable_verify_report ::
  "('c, 'r) sev_prims \<Rightarrow> tee_attestation \<Rightarrow> bytes \<Rightarrow> tcb_policy \<Rightarrow> (unit, tee_error) result" where
  "portable_verify_report S attestation expected_user_data policy = verify_snp_report S attestation expected_user_data policy"

section \<open>The guest's provider\<close>

datatype cert_type = ARK | ASK | VCEK | VLEK | CRL | OTHER string | Empty

text \<open>Whether the device file exists, whether it opens, and its answer to a request with the given user data.\<close>

record guest_device =
  dev_exists :: bool
  dev_opens :: bool
  get_ext_report :: "bytes \<Rightarrow> (bytes \<times> (cert_type \<times> bytes) list option) option"

definition is_sev_snp_guest :: "guest_device \<Rightarrow> bool" where
  "is_sev_snp_guest dev = dev_exists dev"

definition sev_snp_new :: "guest_device \<Rightarrow> (unit, tee_error) result" where
  "sev_snp_new dev =
     (if \<not> is_sev_snp_guest dev then Err (SnpDeviceError ''/dev/sev-guest not present - not running inside a SEV-SNP VM'') else Ok ())"

fun cert_name :: "cert_type \<Rightarrow> string" where
  "cert_name ARK = ''ark''"
| "cert_name ASK = ''ask''"
| "cert_name VCEK = ''vcek''"
| "cert_name VLEK = ''vlek''"
| "cert_name CRL = ''crl''"
| "cert_name (OTHER uuid) = ''other:'' @ uuid"
| "cert_name Empty = ''empty''"

definition serialize_cert_table :: "(cert_type \<times> bytes) list \<Rightarrow> (string \<times> bytes) list" where
  "serialize_cert_table table = map (\<lambda>(t, der). (cert_name t, der)) table"

definition sev_request_report :: "('c, 'r) sev_prims \<Rightarrow> guest_device \<Rightarrow> bytes \<Rightarrow> (tee_attestation, tee_error) result" where
  "sev_request_report S dev user_data =
     (if \<not> dev_opens dev then Err (SnpDeviceError '''')
      else
        bindR (ok_or (get_ext_report dev user_data) (SnpReportError '''')) (\<lambda>(report_bytes, cert_table).
        let wire = \<lparr>wire_report_bytes = report_bytes, wire_cert_table = map_option serialize_cert_table cert_table\<rparr>
        in bindR (ok_or (wire_serialize S wire) (SnpReportError ''serialize: '')) (\<lambda>bs.
             Ok \<lparr>ta_platform = SevSnp, ta_report = bs, ta_user_data = user_data\<rparr>)))"

definition sev_verify_report ::
  "('c, 'r) sev_prims \<Rightarrow> tee_attestation \<Rightarrow> bytes \<Rightarrow> tcb_policy \<Rightarrow> (unit, tee_error) result" where
  "sev_verify_report S attestation expected_user_data policy = verify_snp_report S attestation expected_user_data policy"

section \<open>The contract of a provider\<close>

locale attestation_provider =
  fixes request :: "bytes \<Rightarrow> (tee_attestation, tee_error) result"
    and verify :: "tee_attestation \<Rightarrow> bytes \<Rightarrow> tcb_policy \<Rightarrow> (unit, tee_error) result"
  assumes request_binds: "request user_data = Ok att \<Longrightarrow> ta_user_data att = user_data"
    and verify_binds: "verify att user_data policy = Ok u \<Longrightarrow> ta_user_data att = user_data"
begin

lemma binds_one:
  assumes "verify att user_data policy = Ok u" and "verify att user_data' policy' = Ok u'"
  shows "user_data = user_data'"
  using verify_binds [OF assms(1)] verify_binds [OF assms(2)] by simp

lemma request_verified_for:
  assumes "request user_data = Ok att" and "verify att user_data' policy = Ok u"
  shows "user_data' = user_data"
  using request_binds [OF assms(1)] verify_binds [OF assms(2)] by simp

text \<open>One attestation is not accepted for two keys or two nonces, unless the two inputs of the hash, which differ, collide.\<close>

lemma binds_key_and_nonce:
  assumes "verify att (user_data_from_pubkey_and_nonce R pk nonce) policy = Ok u"
    and "verify att (user_data_from_pubkey_and_nonce R pk' nonce') policy' = Ok u'"
    and "length pk = length pk'" and "(pk, nonce) \<noteq> (pk', nonce')"
  shows "let tag = ascii ''specter-tee-user-data-nonce:''; x = tag @ pk @ len_be nonce @ nonce; y = tag @ pk' @ len_be nonce' @ nonce'
    in x \<noteq> y \<and> sha512 R x = sha512 R y"
  using binds_one [OF assms(1,2)] assms(3,4) by (auto simp: user_data_from_pubkey_and_nonce_def Let_def)

end

interpretation null_provider: attestation_provider null_request_report null_verify_report
  by unfold_locales (simp_all add: null_request_report_def null_verify_report_def)

interpretation mock_provider: attestation_provider mock_request_report mock_verify_report
  by unfold_locales (auto simp: mock_request_report_def mock_verify_report_def split: if_splits)

interpretation portable_provider: attestation_provider portable_request_report "portable_verify_report S"
  for S :: "('c, 'r) sev_prims"
  by unfold_locales (auto simp: portable_request_report_def portable_verify_report_def verify_snp_report_def split: if_splits)

lemma sev_request_Ok:
  "sev_request_report S dev user_data = Ok att \<longleftrightarrow> dev_opens dev \<and>
     (\<exists>report_bytes certs bs. get_ext_report dev user_data = Some (report_bytes, certs) \<and>
        wire_serialize S \<lparr>wire_report_bytes = report_bytes, wire_cert_table = map_option serialize_cert_table certs\<rparr> = Some bs \<and>
        att = \<lparr>ta_platform = SevSnp, ta_report = bs, ta_user_data = user_data\<rparr>)"
  by (auto simp: sev_request_report_def ok_or_def Let_def split: option.splits)

interpretation sev_provider: attestation_provider "sev_request_report S dev" "sev_verify_report S"
  for S :: "('c, 'r) sev_prims" and dev
  by unfold_locales (auto simp: sev_request_Ok sev_verify_report_def verify_snp_report_def split: if_splits)

section \<open>Lemmas\<close>

lemma policy_check_Ok:
  "policy_check policy b t s m meas v = Ok () \<longleftrightarrow>
     floor_bootloader (min_tcb policy) \<le> b \<and> floor_tee (min_tcb policy) \<le> t \<and> floor_snp (min_tcb policy) \<le> s \<and>
     floor_microcode (min_tcb policy) \<le> m \<and> v \<le> max_vmpl policy \<and>
     (allowed_measurements policy = [] \<or> meas \<in> set (allowed_measurements policy))"
  by (auto simp: policy_check_def Let_def list_ex_iff not_less)

lemma policy_check_total: "policy_check policy b t s m meas v \<noteq> Panic"
  by (simp add: policy_check_def Let_def)

text \<open>Raising a component of the floor, lowering the privilege bound or pinning fewer measurements accepts no new report.\<close>

lemma policy_check_mono:
  assumes "policy_check strict b t s m meas v = Ok ()"
    and "floor_bootloader (min_tcb lax) \<le> floor_bootloader (min_tcb strict)" "floor_tee (min_tcb lax) \<le> floor_tee (min_tcb strict)"
      "floor_snp (min_tcb lax) \<le> floor_snp (min_tcb strict)" "floor_microcode (min_tcb lax) \<le> floor_microcode (min_tcb strict)"
    and "max_vmpl strict \<le> max_vmpl lax"
    and "allowed_measurements lax = [] \<or> allowed_measurements strict \<noteq> [] \<and> set (allowed_measurements strict) \<subseteq> set (allowed_measurements lax)"
  shows "policy_check lax b t s m meas v = Ok ()"
  using assms unfolding policy_check_Ok by (auto intro: order_trans)

lemma chain_from_cert_table_Ok:
  "chain_from_cert_table S table = Ok chain \<longleftrightarrow>
     (\<exists>ark ask vcek. find_cert table ''ark'' = Some ark \<and> certificate_from_der S ark = Some (chain_ark chain) \<and>
        find_cert table ''ask'' = Some ask \<and> certificate_from_der S ask = Some (chain_ask chain) \<and>
        find_cert table ''vcek'' = Some vcek \<and> certificate_from_der S vcek = Some (chain_vek chain))"
  by (cases chain) (auto simp: chain_from_cert_table_def ok_or_def split: option.splits)

lemma chain_from_cert_table_total: "chain_from_cert_table S table \<noteq> Panic"
  by (auto simp: chain_from_cert_table_def ok_or_def split: option.splits)

text \<open>What an accepted envelope holds.\<close>

definition envelope_accepted :: "('c, 'r) sev_prims \<Rightarrow> bytes \<Rightarrow> snp_wire \<Rightarrow> 'r \<Rightarrow> 'c cert_chain \<Rightarrow> tcb_policy \<Rightarrow> bool" where
  "envelope_accepted S user_data wire report chain policy \<longleftrightarrow>
     length (wire_report_bytes wire) \<le> MAX_ENVELOPE_BYTES \<and> report_from_bytes S (wire_report_bytes wire) = Some report \<and>
     report_data S report = user_data \<and>
     (\<exists>table. wire_cert_table wire = Some table \<and> (\<forall>(name, der)\<in>set table. length der \<le> MAX_ENVELOPE_BYTES) \<and>
        chain_from_cert_table S table = Ok chain) \<and>
     chain_verify S chain \<and> report_verify S chain report \<and>
     policy_check policy (current_bootloader S report) (current_tee S report) (current_snp S report) (current_microcode S report)
       (measurement S report) (vmpl S report) = Ok ()"

lemma verify_snp_report_Ok:
  "verify_snp_report S att user_data policy = Ok () \<longleftrightarrow>
     ta_platform att = SevSnp \<and> ta_user_data att = user_data \<and> length (ta_report att) \<le> MAX_ENVELOPE_BYTES \<and>
     (\<exists>wire report chain. wire_deserialize S (ta_report att) = Some wire \<and> envelope_accepted S user_data wire report chain policy)"
  by (fastforce simp: verify_snp_report_def envelope_accepted_def ok_or_def list_ex_iff not_less
      split: option.splits if_splits)

text \<open>The verification never panics.\<close>

lemma verify_snp_report_total: "verify_snp_report S att user_data policy \<noteq> Panic"
proof -
  have "map_err PolicyViolation (policy_check policy b t s m meas v) \<noteq> Panic" for b t s m meas v
    using policy_check_total [of policy b t s m meas v] by (cases "policy_check policy b t s m meas v") auto
  moreover have "bindR (chain_from_cert_table S table) f \<noteq> Panic" if "\<And>chain. f chain \<noteq> Panic" for table and f :: "'a cert_chain \<Rightarrow> (unit, tee_error) result"
    using chain_from_cert_table_total [of S table] that by (cases "chain_from_cert_table S table") auto
  ultimately show ?thesis
    by (simp add: verify_snp_report_def ok_or_def split: option.splits)
qed

text \<open>
  A report of the guest device that the firmware binds to the requested user data and that its certificates verify is accepted by
  every peer whose policy it meets.
\<close>

lemma sev_request_accepted:
  assumes "sev_request_report S dev user_data = Ok att"
    and "\<And>w bs. wire_serialize S w = Some bs \<Longrightarrow> wire_deserialize S bs = Some w"
    and "get_ext_report dev user_data = Some (report_bytes, Some certs)"
    and "envelope_accepted S user_data \<lparr>wire_report_bytes = report_bytes, wire_cert_table = Some (serialize_cert_table certs)\<rparr> report chain policy"
    and "length (ta_report att) \<le> MAX_ENVELOPE_BYTES"
  shows "portable_verify_report S att user_data policy = Ok ()"
proof -
  obtain bs where bs: "wire_serialize S \<lparr>wire_report_bytes = report_bytes, wire_cert_table = Some (serialize_cert_table certs)\<rparr> = Some bs"
      "att = \<lparr>ta_platform = SevSnp, ta_report = bs, ta_user_data = user_data\<rparr>"
    using assms(1,3) unfolding sev_request_Ok by auto
  show ?thesis
    unfolding portable_verify_report_def verify_snp_report_Ok
    using bs(2) assms(2) [OF bs(1)] assms(4,5) by auto
qed

text \<open>
  The chain is checked against itself only: certificates of anybody that verify each other carry a report with any contents, so
  the root of trust is whoever made the envelope.
\<close>

lemma snp_root_not_pinned:
  assumes "certificate_from_der S ark_der = Some (chain_ark chain)" "certificate_from_der S ask_der = Some (chain_ask chain)"
      "certificate_from_der S vcek_der = Some (chain_vek chain)"
    and "chain_verify S chain" and "report_from_bytes S rb = Some report" and "report_verify S chain report"
    and "report_data S report = user_data" and "measurement S report \<in> set (allowed_measurements policy)"
    and "floor_bootloader (min_tcb policy) \<le> current_bootloader S report" "floor_tee (min_tcb policy) \<le> current_tee S report"
      "floor_snp (min_tcb policy) \<le> current_snp S report" "floor_microcode (min_tcb policy) \<le> current_microcode S report"
      "vmpl S report \<le> max_vmpl policy"
    and "wire_deserialize S bs = Some \<lparr>wire_report_bytes = rb, wire_cert_table = Some [(''ark'', ark_der), (''ask'', ask_der), (''vcek'', vcek_der)]\<rparr>"
    and "length bs \<le> MAX_ENVELOPE_BYTES" "length rb \<le> MAX_ENVELOPE_BYTES" "length ark_der \<le> MAX_ENVELOPE_BYTES"
      "length ask_der \<le> MAX_ENVELOPE_BYTES" "length vcek_der \<le> MAX_ENVELOPE_BYTES"
  shows "verify_snp_report S \<lparr>ta_platform = SevSnp, ta_report = bs, ta_user_data = user_data\<rparr> user_data policy = Ok ()"
  unfolding verify_snp_report_Ok
  using assms by (auto simp: envelope_accepted_def chain_from_cert_table_Ok find_cert_def policy_check_Ok)

text \<open>The mock provider panics on an envelope that has the tag but is shorter than tag and data.\<close>

lemma mock_verify_panics:
  "mock_verify_report att user_data policy = Panic \<longleftrightarrow> ta_platform att = NonePlatform \<and> ta_user_data att = user_data \<and>
     take 32 (ta_report att) = MOCK_TAG \<and> 32 \<le> length (ta_report att) \<and> length (ta_report att) < 96"
  by (auto simp: mock_verify_report_def)

lemma mock_roundtrip:
  assumes "length user_data = 64" and "mock_request_report user_data = Ok att"
  shows "mock_verify_report att user_data policy = Ok ()"
  using assms by (auto simp: mock_request_report_def mock_verify_report_def MOCK_TAG_def ascii_def)

section \<open>Properties\<close>

text \<open>C40: What an accepted SEV-SNP report means. When a provider accepts an attestation for a public key and a nonce, its envelope
  parses to a report whose data is the hash of the key and the nonce, signed under a certificate chain that verifies and is
  taken from the envelope, with a firmware not older than the policy's floor, a privilege level within the policy's bound and a
  measurement of the policy's list unless it is empty; and every other provider that accepts the same attestation,
  under any policy, does so for the same key and nonce, unless two different inputs of SHA-512 collide.\<close>

theorem attestation_binds_key:
  assumes "sev_verify_report S att (user_data_from_pubkey_and_nonce R pk nonce) policy = Ok ()"
  shows "(\<exists>wire report table chain. wire_deserialize S (ta_report att) = Some wire \<and>
      report_from_bytes S (wire_report_bytes wire) = Some report \<and>
      report_data S report = sha512 R (ascii ''specter-tee-user-data-nonce:'' @ pk @ len_be nonce @ nonce) \<and>
      wire_cert_table wire = Some table \<and> chain_from_cert_table S table = Ok chain \<and> chain_verify S chain \<and> report_verify S chain report \<and>
      floor_bootloader (min_tcb policy) \<le> current_bootloader S report \<and> floor_tee (min_tcb policy) \<le> current_tee S report \<and>
      floor_snp (min_tcb policy) \<le> current_snp S report \<and> floor_microcode (min_tcb policy) \<le> current_microcode S report \<and>
      vmpl S report \<le> max_vmpl policy \<and>
      (allowed_measurements policy = [] \<or> measurement S report \<in> set (allowed_measurements policy))) \<and>
    (\<forall>pk' nonce' policy'. portable_verify_report S att (user_data_from_pubkey_and_nonce R pk' nonce') policy' = Ok () \<longrightarrow>
       length pk' = length pk \<longrightarrow> (pk', nonce') = (pk, nonce) \<or>
       (let tag = ascii ''specter-tee-user-data-nonce:''; x = tag @ pk @ len_be nonce @ nonce; y = tag @ pk' @ len_be nonce' @ nonce'
        in x \<noteq> y \<and> sha512 R x = sha512 R y))"
proof (intro conjI allI impI)
  fix pk' nonce' policy'
  assume "portable_verify_report S att (user_data_from_pubkey_and_nonce R pk' nonce') policy' = Ok ()" "length pk' = length pk"
  moreover have "portable_verify_report S att (user_data_from_pubkey_and_nonce R pk nonce) policy = Ok ()"
    using assms by (simp add: sev_verify_report_def portable_verify_report_def)
  ultimately show "(pk', nonce') = (pk, nonce) \<or>
      (let tag = ascii ''specter-tee-user-data-nonce:''; x = tag @ pk @ len_be nonce @ nonce; y = tag @ pk' @ len_be nonce' @ nonce'
       in x \<noteq> y \<and> sha512 R x = sha512 R y)"
    using portable_provider.binds_key_and_nonce [of S att R pk nonce policy "()" pk' nonce' policy' "()"] by (auto simp: Let_def)
qed (use assms in \<open>auto simp: sev_verify_report_def verify_snp_report_Ok envelope_accepted_def policy_check_Ok
  user_data_from_pubkey_and_nonce_def\<close>)

text \<open>A report that is its user data followed by the measurement, and certificates that are bytes.\<close>

definition demo_sev :: "(bytes, bytes) sev_prims" where
  "demo_sev = \<lparr>wire_serialize = (\<lambda>w. None), wire_deserialize = (\<lambda>bs. Some \<lparr>wire_report_bytes = bs,
       wire_cert_table = Some [(''ark'', [1]), (''vcek'', [1, 2, 3]), (''ask'', [1, 2])]\<rparr>),
     report_from_bytes = Some, report_data = take 64, current_bootloader = (\<lambda>r. 4), current_tee = (\<lambda>r. 2), current_snp = (\<lambda>r. 8),
     current_microcode = (\<lambda>r. 115), measurement = drop 64, vmpl = (\<lambda>r. 0), certificate_from_der = Some,
     chain_verify = (\<lambda>c. length (chain_vek c) = 3), report_verify = (\<lambda>c r. r \<noteq> [])\<rparr>"

theorem attestation_binds_key_witness:
  "let user_data = user_data_from_pubkey_and_nonce zp_prims (replicate 32 6) [1, 2]; m = replicate 48 9;
     policy = \<lparr>min_tcb = \<lparr>floor_bootloader = 3, floor_tee = 0, floor_snp = 8, floor_microcode = 100\<rparr>, allowed_measurements = [m], max_vmpl = 0\<rparr>;
     att = \<lparr>ta_platform = SevSnp, ta_report = user_data @ m, ta_user_data = user_data\<rparr>
   in sev_verify_report demo_sev att user_data policy = Ok () \<and>
      (\<exists>report chain. report_verify demo_sev chain report \<and> measurement demo_sev report \<in> {m})"
proof -
  let ?ud = "user_data_from_pubkey_and_nonce zp_prims (replicate 32 6) [1, 2]" and ?m = "replicate 48 9 :: bytes"
  let ?policy = "\<lparr>min_tcb = \<lparr>floor_bootloader = 3, floor_tee = 0, floor_snp = 8, floor_microcode = 100\<rparr>, allowed_measurements = [?m], max_vmpl = 0\<rparr>"
  let ?att = "\<lparr>ta_platform = SevSnp, ta_report = ?ud @ ?m, ta_user_data = ?ud\<rparr>"
  have len: "length ?ud = 64" by (simp add: user_data_from_pubkey_and_nonce_def zp.length_sha512)
  then have v: "sev_verify_report demo_sev ?att ?ud ?policy = Ok ()"
    unfolding sev_verify_report_def verify_snp_report_Ok
    by (auto simp: demo_sev_def envelope_accepted_def chain_from_cert_table_Ok find_cert_def policy_check_Ok MAX_ENVELOPE_BYTES_def
        intro!: exI [of _ "\<lparr>chain_ark = [1], chain_ask = [1, 2], chain_vek = [1, 2, 3]\<rparr>"])
  from attestation_binds_key [OF this] show ?thesis unfolding Let_def using v by auto
qed

end
