(* ===== verification/Sis.thy ===== *)
theory Sis
  imports Prelude
begin

text \<open>
  \<^verbatim>\<open>specter-primitives/src/sis.rs\<close>: the toy commitment \<open>A x mod q\<close>. The sum of a row is a \<^verbatim>\<open>u128\<close> that wraps in a release
  build; a missing row, a short row and a zero modulus panic. The sampler of the crate \<^verbatim>\<open>rand\<close> is a parameter.
\<close>

type_synonym u128 = "128 word"

record sis_params =
  sis_q :: u64
  sis_n :: nat
  sis_m :: nat
  matrix_a :: "u64 list list"
  sis_beta :: u64

datatype sis_error =
    WrongMessageLength nat nat
  | MessageNotShort nat u64 u64

fun gen_list :: "(rng \<Rightarrow> 'a \<times> rng) \<Rightarrow> nat \<Rightarrow> rng \<Rightarrow> 'a list \<times> rng" where
  "gen_list gen 0 g = ([], g)"
| "gen_list gen (Suc k) g = (let (x, g) = gen g; (xs, g) = gen_list gen k g in (x # xs, g))"

text \<open>\<^verbatim>\<open>gen_range(0..q)\<close> panics on an empty range.\<close>

definition sis_generate :: "(u64 \<Rightarrow> rng \<Rightarrow> u64 \<times> rng) \<Rightarrow> nat \<Rightarrow> nat \<Rightarrow> u64 \<Rightarrow> u64 \<Rightarrow> rng \<Rightarrow> (sis_params, unit) result \<times> rng" where
  "sis_generate gen_range n m q beta g =
     (if q = 0 \<and> 0 < n \<and> 0 < m then (Panic, g)
      else let (matrix, g) = gen_list (gen_list (gen_range q) m) n g
           in (Ok \<lparr>sis_q = q, sis_n = n, sis_m = m, matrix_a = matrix, sis_beta = beta\<rparr>, g))"

text \<open>The first entry above the bound.\<close>

fun first_long :: "nat \<Rightarrow> u64 \<Rightarrow> u64 list \<Rightarrow> (nat \<times> u64) option" where
  "first_long i beta [] = None"
| "first_long i beta (x # xs) = (if beta < x then Some (i, x) else first_long (i + 1) beta xs)"

fun row_sum :: "u128 \<Rightarrow> u64 list \<Rightarrow> u64 list \<Rightarrow> (u128, sis_error) result" where
  "row_sum acc row [] = Ok acc"
| "row_sum acc [] (x # xs) = Panic"
| "row_sum acc (a # row) (x # xs) = row_sum (acc + ucast a * ucast x) row xs"

definition commit_row :: "sis_params \<Rightarrow> u64 list \<Rightarrow> nat \<Rightarrow> (u64, sis_error) result" where
  "commit_row p xs i =
     (if i < length (matrix_a p)
      then bindR (row_sum 0 (matrix_a p ! i) xs) (\<lambda>s. if sis_q p = 0 then Panic else Ok (ucast (s mod ucast (sis_q p))))
      else Panic)"

definition sis_commit :: "sis_params \<Rightarrow> u64 list \<Rightarrow> (u64 list, sis_error) result" where
  "sis_commit p xs =
     (if length xs \<noteq> sis_m p then Err (WrongMessageLength (sis_m p) (length xs))
      else case first_long 0 (sis_beta p) xs of
        Some (i, v) \<Rightarrow> Err (MessageNotShort i v (sis_beta p))
      | None \<Rightarrow> collectR (map (commit_row p xs) [0..<sis_n p]))"

definition sis_verify_opening :: "sis_params \<Rightarrow> u64 list \<Rightarrow> u64 list \<Rightarrow> (bool, sis_error) result" where
  "sis_verify_opening p commitment xs = bindR (sis_commit p xs) (\<lambda>recomputed. Ok (recomputed = commitment))"

section \<open>The sum without overflow\<close>

definition dot :: "u64 list \<Rightarrow> u64 list \<Rightarrow> nat" where
  "dot row xs = (\<Sum>(a, x)\<leftarrow>zip row xs. unat a * unat x)"

lemma unat_ucast_128: "unat (ucast (a :: u64) :: u128) = unat a"
  by (simp add: unsigned_ucast_eq take_bit_nat_eq_self order_less_trans [OF unsigned_less])

lemma row_sum_value:
  assumes "length xs \<le> length row" and "unat acc + dot row xs < 2 ^ 128"
  shows "\<exists>s. row_sum acc row xs = Ok s \<and> unat s = unat acc + dot row xs"
  using assms
proof (induction acc row xs rule: row_sum.induct)
  case (3 acc a row x xs)
  have d: "dot (a # row) (x # xs) = unat a * unat x + dot row xs" by (simp add: dot_def)
  have prod: "unat (ucast a * ucast x :: u128) = unat a * unat x"
    using 3(3) d by (simp add: unat_word_ariths unat_ucast_128)
  then have "unat (acc + ucast a * ucast x) = unat acc + unat a * unat x"
    using 3(3) d by (simp add: unat_word_ariths(1))
  then show ?case using 3 d by (simp add: add.assoc)
qed (simp_all add: dot_def)

text \<open>Parameters as \<^verbatim>\<open>generate\<close> makes them, small enough for the sums to stay below \<^verbatim>\<open>u128::MAX\<close>.\<close>

definition sis_wf :: "sis_params \<Rightarrow> bool" where
  "sis_wf p \<longleftrightarrow> sis_q p \<noteq> 0 \<and> length (matrix_a p) = sis_n p \<and>
     (\<forall>row\<in>set (matrix_a p). length row = sis_m p \<and> (\<forall>a\<in>set row. a < sis_q p)) \<and>
     sis_m p * (unat (sis_q p) * unat (sis_beta p)) < 2 ^ 128"

lemma first_long_None: "first_long i beta xs = None \<longleftrightarrow> (\<forall>x\<in>set xs. x \<le> beta)"
  by (induction i beta xs rule: first_long.induct) auto

lemma dot_bound:
  assumes "\<forall>a\<in>set row. a < q" and "\<forall>x\<in>set xs. x \<le> beta"
  shows "dot row xs \<le> length xs * (unat q * unat beta)"
  using assms
proof (induction row arbitrary: xs)
  case (Cons a row)
  show ?case
  proof (cases xs)
    case (Cons x xs')
    have "unat a * unat x \<le> unat q * unat beta"
      using Cons.prems by (intro mult_le_mono) (auto simp: Cons word_le_nat_alt word_less_nat_alt)
    moreover have "dot row xs' \<le> length xs' * (unat q * unat beta)" using Cons.IH Cons.prems by (simp add: Cons)
    ultimately show ?thesis by (simp add: dot_def Cons)
  qed (simp add: dot_def)
qed (simp add: dot_def)

lemma mod_u64_less: "(q :: u64) \<noteq> 0 \<Longrightarrow> n mod unat q < 18446744073709551616"
  using unsigned_less [of q, where 'a = nat] by (intro order_less_trans [OF mod_less_divisor]) (simp_all add: unat_gt_0)

lemma commit_row_value:
  assumes "sis_wf p" and "length xs = sis_m p" and "\<forall>x\<in>set xs. x \<le> sis_beta p" and "i < sis_n p"
  shows "\<exists>c. commit_row p xs i = Ok c \<and> unat c = dot (matrix_a p ! i) xs mod unat (sis_q p)"
proof -
  let ?row = "matrix_a p ! i"
  have row: "?row \<in> set (matrix_a p)" using assms(1,4) by (simp add: sis_wf_def)
  then have "dot ?row xs \<le> length xs * (unat (sis_q p) * unat (sis_beta p))"
    using assms(1,3) by (intro dot_bound) (auto simp: sis_wf_def)
  then have "unat (0 :: u128) + dot ?row xs < 2 ^ 128" using assms(1,2) by (simp add: sis_wf_def)
  moreover have "length xs \<le> length ?row" using assms(1,2) row by (auto simp: sis_wf_def)
  ultimately obtain s where s: "row_sum 0 ?row xs = Ok s" "unat s = dot ?row xs" using row_sum_value [of xs ?row 0] by auto
  have "unat (ucast (s mod ucast (sis_q p)) :: u64) = unat s mod unat (sis_q p)"
  proof -
    have "unat s mod unat (sis_q p) < 2 ^ 64" using mod_u64_less assms(1) by (simp add: sis_wf_def)
    then have "take_bit 64 (unat s mod unat (sis_q p)) = unat s mod unat (sis_q p)" by (simp add: take_bit_nat_eq_self)
    moreover have "unat (s mod ucast (sis_q p)) = unat s mod unat (sis_q p)" by (simp add: unat_mod_distrib unat_ucast_128 del: unsigned_ucast_eq)
    ultimately show ?thesis by (simp add: unsigned_ucast_eq [of "s mod ucast (sis_q p)"])
  qed
  with s assms(1,4) show ?thesis by (auto simp: commit_row_def sis_wf_def)
qed

lemma sis_commit_Ok:
  assumes "sis_wf p"
  shows "sis_commit p xs = Ok cs \<longleftrightarrow> length xs = sis_m p \<and> (\<forall>x\<in>set xs. x \<le> sis_beta p) \<and> length cs = sis_n p \<and>
    (\<forall>i < sis_n p. unat (cs ! i) = dot (matrix_a p ! i) xs mod unat (sis_q p))"
proof (cases "length xs = sis_m p \<and> (\<forall>x\<in>set xs. x \<le> sis_beta p)")
  case True
  then have "first_long 0 (sis_beta p) xs = None" by (simp add: first_long_None)
  moreover have "map (commit_row p xs) [0..<sis_n p] = map Ok cs \<longleftrightarrow> length cs = sis_n p \<and>
      (\<forall>i < sis_n p. unat (cs ! i) = dot (matrix_a p ! i) xs mod unat (sis_q p))"
    using commit_row_value [OF assms conjunct1 [OF True] conjunct2 [OF True]]
    by (fastforce simp: list_eq_iff_nth_eq word_unat_eq_iff)
  ultimately show ?thesis using True by (simp add: sis_commit_def collectR_Ok)
next
  case False
  then show ?thesis using first_long_None [of 0 "sis_beta p" xs] by (auto simp: sis_commit_def split: option.splits)
qed

section \<open>Lemmas on the scheme\<close>

lemma sis_commit_opens: "sis_commit p xs = Ok cs \<Longrightarrow> sis_verify_opening p cs xs = Ok True"
  by (simp add: sis_verify_opening_def)

lemma sis_commit_accepts:
  assumes "sis_wf p" and "length xs = sis_m p" and "\<forall>x\<in>set xs. x \<le> sis_beta p"
  shows "\<exists>cs. sis_commit p xs = Ok cs"
  by (rule exI [of _ "map (\<lambda>i. of_nat (dot (matrix_a p ! i) xs mod unat (sis_q p))) [0..<sis_n p]"])
    (use assms in \<open>auto simp: sis_commit_Ok unat_of_nat sis_wf_def intro!: mod_less mod_u64_less\<close>)

lemma dot_diff:
  "(\<Sum>(a, z)\<leftarrow>zip row (map2 (\<lambda>x y. int (unat x) - int (unat y)) xs ys). int (unat a) * z) = int (dot row xs) - int (dot row ys)"
  if "length xs = length ys"
  using that
proof (induction xs ys arbitrary: row rule: list_induct2)
  case (Cons x xs y ys)
  then show ?case by (cases row) (simp_all add: dot_def algebra_simps)
qed (simp add: dot_def)

text \<open>
  Binding: two different openings of one commitment are a solution of the short integer problem for the matrix, a vector that is
  not zero, has entries of at most the bound and is mapped to zero.
\<close>

lemma sis_binding:
  assumes "sis_wf p" and "sis_verify_opening p cs xs = Ok True" and "sis_verify_opening p cs ys = Ok True" and "xs \<noteq> ys"
  shows "\<exists>zs. length zs = sis_m p \<and> (\<exists>z\<in>set zs. z \<noteq> 0) \<and> (\<forall>z\<in>set zs. \<bar>z\<bar> \<le> int (unat (sis_beta p))) \<and>
    (\<forall>i < sis_n p. int (unat (sis_q p)) dvd (\<Sum>(a, z)\<leftarrow>zip (matrix_a p ! i) zs. int (unat a) * z))"
proof -
  let ?zs = "map2 (\<lambda>x y. int (unat x) - int (unat y)) xs ys"
  have c: "sis_commit p xs = Ok cs" "sis_commit p ys = Ok cs" using assms(2,3) by (auto simp: sis_verify_opening_def)
  note x = c(1) [unfolded sis_commit_Ok [OF assms(1)]] and y = c(2) [unfolded sis_commit_Ok [OF assms(1)]]
  have len: "length xs = length ys" using x y by simp
  obtain j where "j < length xs" "xs ! j \<noteq> ys ! j" using assms(4) len by (auto simp: list_eq_iff_nth_eq)
  then have "?zs ! j \<noteq> 0" "j < length ?zs" using len by (simp_all add: word_uint_eq_iff)
  then have "\<exists>z\<in>set ?zs. z \<noteq> 0" by (meson nth_mem)
  moreover have "\<forall>z\<in>set ?zs. \<bar>z\<bar> \<le> int (unat (sis_beta p))"
  proof -
    have "\<bar>int (unat x) - int (unat y)\<bar> \<le> int (unat (sis_beta p))" if "(x, y) \<in> set (zip xs ys)" for x y
    proof -
      have "unat x \<le> unat (sis_beta p)" "unat y \<le> unat (sis_beta p)"
        using set_zip_leftD [OF that] set_zip_rightD [OF that] x y by (simp_all add: word_le_nat_alt)
      then show ?thesis by linarith
    qed
    then show ?thesis by auto
  qed
  moreover have "int (unat (sis_q p)) dvd (\<Sum>(a, z)\<leftarrow>zip (matrix_a p ! i) ?zs. int (unat a) * z)" if "i < sis_n p" for i
    using x y that unfolding dot_diff [OF len] by (metis mod_eq_dvd_iff zmod_int)
  ultimately show ?thesis using x len by (intro exI [of _ ?zs]) simp
qed

lemma gen_list_props:
  assumes "gen_list gen k g = (xs, g')" and "\<And>g x g'. gen g = (x, g') \<Longrightarrow> P x"
  shows "length xs = k \<and> (\<forall>x\<in>set xs. P x)"
  using assms(1)
proof (induction k arbitrary: g xs)
  case (Suc k)
  then show ?case using assms(2) by (fastforce split: prod.splits)
qed simp

lemma sis_generate_wf:
  assumes "\<And>q g. q \<noteq> 0 \<Longrightarrow> fst (gen_range q g) < q" and "q \<noteq> 0" and "m * (unat q * unat beta) < 2 ^ 128"
    and "sis_generate gen_range n m q beta g = (Ok p, g')"
  shows "sis_wf p"
proof -
  obtain M where M: "gen_list (gen_list (gen_range q) m) n g = (M, g')" "p = \<lparr>sis_q = q, sis_n = n, sis_m = m, matrix_a = M, sis_beta = beta\<rparr>"
    using assms(2,4) by (auto simp: sis_generate_def split: prod.splits)
  have "length M = n \<and> (\<forall>row\<in>set M. length row = m \<and> (\<forall>a\<in>set row. a < q))"
  proof (rule gen_list_props [OF M(1)])
    fix h row h' assume "gen_list (gen_range q) m h = (row, h')"
    then show "length row = m \<and> (\<forall>a\<in>set row. a < q)"
      by (rule gen_list_props) (metis assms(1,2) fst_conv)
  qed
  then show ?thesis using assms(2,3) M(2) by (simp add: sis_wf_def)
qed

text \<open>
  Outside the bound of \<open>sis_wf\<close> the sum wraps: with the largest odd modulus, an entry equal to the modulus is zero in the field but
  the commitment to it is not the commitment to zero.
\<close>

lemma sis_commit_wraps:
  "let p = \<lparr>sis_q = 18446744073709551615, sis_n = 1, sis_m = 2, matrix_a = [[18446744073709551614, 18446744073709551614]], sis_beta = 18446744073709551615\<rparr>
   in sis_commit p [18446744073709551615, 18446744073709551615] = Ok [18446744073709551614] \<and> sis_commit p [0, 0] = Ok [0] \<and>
      dot [18446744073709551614, 18446744073709551614] [18446744073709551615, 18446744073709551615] mod unat (sis_q p) = 0"
  by (simp add: sis_commit_def commit_row_def dot_def Let_def)

end
