(* ===== verification/Deterrence.thy ===== *)
theory Deterrence
  imports Complex_Main Prelude
begin

text \<open>
  \<^verbatim>\<open>specter-core/src/deterrence.rs\<close>: the comparison of bond and value, and the expected profit of a double spend in \<^verbatim>\<open>f64\<close>
  arithmetic. A float is the real number it stands for, and an operation is the exact operation followed by rounding to 53
  binary digits, to nearest with ties to even; overflow, infinities other than the bond ratio's and subnormal numbers do not occur
  for the magnitudes of 64-bit inputs and finite probabilities. The precision of \<^verbatim>\<open>powi\<close> is not specified by Rust: it is a parameter.
\<close>

section \<open>Floating-point arithmetic\<close>

definition round_even :: "real \<Rightarrow> int" where
  "round_even x =
     (let n = \<lfloor>x\<rfloor>; d = x - of_int n
      in if d < 1 / 2 then n else if 1 / 2 < d then n + 1 else if even n then n else n + 1)"

definition f64_round :: "real \<Rightarrow> real" where
  "f64_round x =
     (if x = 0 then 0
      else let e = \<lfloor>log 2 \<bar>x\<bar>\<rfloor> - 52 in of_int (round_even (x * 2 powr - of_int e)) * 2 powr of_int e)"

definition f64_of_u64 :: "u64 \<Rightarrow> real" where
  "f64_of_u64 w = f64_round (real (unat w))"

definition f64_of_u32 :: "u32 \<Rightarrow> real" where
  "f64_of_u32 w = f64_round (real (unat w))"

definition f_add :: "real \<Rightarrow> real \<Rightarrow> real" where "f_add x y = f64_round (x + y)"

definition f_sub :: "real \<Rightarrow> real \<Rightarrow> real" where "f_sub x y = f64_round (x - y)"

definition f_mul :: "real \<Rightarrow> real \<Rightarrow> real" where "f_mul x y = f64_round (x * y)"

definition f_div :: "real \<Rightarrow> real \<Rightarrow> real" where "f_div x y = f64_round (x / y)"

section \<open>The analysis\<close>

record deterrence_params =
  token_value :: u64
  bond_amount :: u64
  detection_probability :: real
  reputation_cost :: u64
  attestation_witnesses :: u32
  network_size :: u32

text \<open>The bond ratio is \<open>None\<close> for the infinity of a token without value.\<close>

record deterrence_result =
  expected_value :: real
  functionally_prevented :: bool
  max_rational_gain :: real
  offline_detection_probability :: real
  bond_ratio :: "real option"
  security_margin :: real

definition analyze_deterrence :: "(real \<Rightarrow> int \<Rightarrow> real) \<Rightarrow> deterrence_params \<Rightarrow> deterrence_result" where
  "analyze_deterrence pow_i params =
     (let v = f64_of_u64 (token_value params);
          b = f64_of_u64 (bond_amount params);
          r = f64_of_u64 (reputation_cost params);
          p_detect = detection_probability params;
          witness_coverage =
            (if 0 < network_size params then f_div (f64_of_u32 (attestation_witnesses params)) (f64_of_u32 (network_size params)) else 0);
          p_offline_detect = f_sub 1 (pow_i (f_sub 1 witness_coverage) (sint (attestation_witnesses params)));
          combined_p_detect = f_sub 1 (f_mul (f_sub 1 p_offline_detect) (f_sub 1 p_detect));
          p_success = 1;
          expected = f_sub (f_sub (f_mul p_success v) (f_mul combined_p_detect b)) r
      in \<lparr>expected_value = expected,
          functionally_prevented = (expected < 0),
          max_rational_gain = f_sub (f_sub v b) r,
          offline_detection_probability = p_offline_detect,
          bond_ratio = (if 0 < v then Some (f_div b v) else None),
          security_margin = f_sub (f_add b r) v\<rparr>)"

datatype deterrence_error = InsufficientBond u64 u64 u64

definition verify_deterrence :: "u64 \<Rightarrow> u64 \<Rightarrow> (unit, deterrence_error) result" where
  "verify_deterrence val bond =
     (if bond \<le> val then Err (InsufficientBond val bond (val + 1)) else Ok ())"

section \<open>Lemmas\<close>

lemma round_even_int [simp]: "round_even (of_int k) = k"
  by (simp add: round_even_def)

lemma f64_round_0 [simp]: "f64_round 0 = 0"
  by (simp add: f64_round_def)

lemma f64_round_scaled:
  assumes "x \<noteq> 0" and "\<lfloor>log 2 \<bar>x\<bar>\<rfloor> - 52 = e" and "x * 2 powr - of_int e = of_int m"
  shows "f64_round x = x"
proof -
  have "of_int m * 2 powr of_int e = x * (2 powr - of_int e * 2 powr of_int e)" by (simp add: assms(3) [symmetric])
  also have "\<dots> = x" by (simp add: powr_add [symmetric])
  finally show ?thesis using assms by (simp add: f64_round_def Let_def)
qed

lemma log2_pow53: "log 2 9007199254740992 = 53"
proof -
  have "log 2 ((2 :: real) ^ 53) = real 53 * log 2 2" by (rule log_nat_power) simp
  then show ?thesis by simp
qed

text \<open>Integers of at most 53 digits are floats.\<close>

lemma f64_round_int:
  assumes "\<bar>k\<bar> \<le> 2 ^ 53"
  shows "f64_round (of_int k) = of_int k"
proof (cases "k = 0")
  case False
  let ?l = "\<lfloor>log 2 \<bar>real_of_int k\<bar>\<rfloor>"
  have k1: "1 \<le> \<bar>real_of_int k\<bar>" using False by linarith
  then have l0: "0 \<le> ?l" by simp
  show ?thesis
  proof (cases "\<bar>k\<bar> = 2 ^ 53")
    case True
    then have a: "\<bar>real_of_int k\<bar> = 9007199254740992" by (simp flip: of_int_abs)
    then have "?l - 52 = 1" by (simp add: log2_pow53)
    moreover have "real_of_int k * 2 powr - of_int 1 = of_int (k div 2)"
    proof -
      have "even k" using True by (metis abs_dvd_iff dvd_power even_numeral pos2 zero_less_numeral dvd_refl dvd_abs_iff)
      then show ?thesis by (auto simp: powr_minus elim!: evenE)
    qed
    ultimately show ?thesis using False by (intro f64_round_scaled) auto
  next
    case neq: False
    then have "\<bar>k\<bar> < 9007199254740992" using assms by simp
    then have "\<bar>real_of_int k\<bar> < 9007199254740992" by linarith
    then have "log 2 \<bar>real_of_int k\<bar> < log 2 9007199254740992" using k1 by (intro log_less) auto
    then have "?l \<le> 52" by (simp add: log2_pow53 floor_le_iff)
    then obtain n where n: "?l - 52 = - int n" using zero_le_imp_eq_int [of "52 - ?l"] by (metis diff_ge_0_iff_ge minus_diff_eq)
    have "real_of_int k * 2 powr - of_int (- int n) = of_int (k * 2 ^ n)" by (simp add: powr_realpow)
    from f64_round_scaled [OF _ n this] False show ?thesis by simp
  qed
qed simp

lemma f64_round_nat: "n \<le> 2 ^ 53 \<Longrightarrow> f64_round (real n) = real n"
  using f64_round_int [of "int n"] by simp

lemma f64_of_small: "unat (w :: u64) \<le> 2 ^ 53 \<Longrightarrow> f64_of_u64 w = real (unat w)"
  unfolding f64_of_u64_def by (rule f64_round_nat)

text \<open>A number that needs 54 digits: \<open>2 ^ 53 + 1\<close> lies half-way between two floats and goes to the even one.\<close>

lemma f64_round_tie: "f64_round 9007199254740993 = 9007199254740992"
proof -
  have "log 2 9007199254740992 \<le> log 2 9007199254740993" by simp
  moreover have c: "log 2 18014398509481984 = 54" using log_nat_power [of 2 2 54] by simp
  have "log 2 9007199254740993 < log 2 18014398509481984" by simp
  then have "log 2 9007199254740993 < 54" unfolding c .
  ultimately have l: "\<lfloor>log 2 \<bar>9007199254740993\<bar>\<rfloor> - 52 = (1 :: int)" by (simp add: log2_pow53 floor_eq_iff)
  have r: "round_even (9007199254740993 / 2) = 4503599627370496"
  proof -
    have "\<lfloor>(9007199254740993 :: real) / 2\<rfloor> = 4503599627370496" by (simp add: floor_eq_iff)
    then show ?thesis by (simp add: round_even_def Let_def)
  qed
  have x: "9007199254740993 * 2 powr - of_int 1 = 9007199254740993 / (2 :: real)" by (simp add: powr_minus_divide)
  show ?thesis unfolding f64_round_def Let_def l x r by simp
qed

text \<open>
  The deterrence theorem of the source, in the range in which the arithmetic is exact: with certain detection and a bond above
  the value, the expected profit is exactly value minus bond minus reputation, hence negative, whatever the witnesses.
\<close>

lemma f64_one [simp]: "f64_round 1 = 1"
  using f64_round_int [of 1] by simp

lemma f64_profit:
  assumes "v < b" and "b \<le> 2 ^ 52" and "r \<le> 2 ^ 52"
  shows "f64_round (real v) = real v" "f64_round (real b) = real b" "f64_round (real v - real b) = real v - real b"
    "f64_round (real v - real b - real r) = real v - real b - real r"
  using assms f64_round_nat [of v] f64_round_nat [of b] f64_round_int [of "int v - int b"] f64_round_int [of "int v - int b - int r"]
  by simp_all

lemma deterrence_exact:
  assumes "detection_probability params = 1" and "verify_deterrence (token_value params) (bond_amount params) = Ok ()"
    and "unat (bond_amount params) \<le> 2 ^ 52" and "unat (reputation_cost params) \<le> 2 ^ 52"
  shows "expected_value (analyze_deterrence pow_i params) =
      real (unat (token_value params)) - real (unat (bond_amount params)) - real (unat (reputation_cost params)) \<and>
    functionally_prevented (analyze_deterrence pow_i params)"
proof -
  let ?v = "unat (token_value params)" and ?b = "unat (bond_amount params)" and ?r = "unat (reputation_cost params)"
  have vb: "?v < ?b" using assms(2) by (auto simp: verify_deterrence_def word_le_nat_alt split: if_splits)
  have conv: "f64_of_u64 (token_value params) = real ?v" "f64_of_u64 (bond_amount params) = real ?b" "f64_of_u64 (reputation_cost params) = real ?r"
    by (rule f64_of_small; use vb assms(3,4) in simp)+
  note ints = f64_profit [OF vb assms(3,4)]
  have "expected_value (analyze_deterrence pow_i params) = real ?v - real ?b - real ?r"
    using ints by (simp add: analyze_deterrence_def Let_def assms(1) conv f_sub_def f_mul_def)
  moreover have "functionally_prevented (analyze_deterrence pow_i params) \<longleftrightarrow> expected_value (analyze_deterrence pow_i params) < 0"
    by (simp add: analyze_deterrence_def Let_def)
  moreover have "real ?v - real ?b - real ?r < 0" using vb by linarith
  ultimately show ?thesis by metis
qed

text \<open>Beyond that range the two checks disagree: a bond that exceeds the value by one is sufficient, and the profit is rounded to zero.\<close>

lemma deterrence_rounding_gap:
  "let params = \<lparr>token_value = 9007199254740992, bond_amount = 9007199254740993, detection_probability = 1, reputation_cost = 0,
     attestation_witnesses = 0, network_size = 0\<rparr>
   in verify_deterrence (token_value params) (bond_amount params) = Ok () \<and>
      expected_value (analyze_deterrence pow_i params) = 0 \<and> \<not> functionally_prevented (analyze_deterrence pow_i params)"
proof -
  have "f64_of_u64 9007199254740992 = 9007199254740992" "f64_of_u64 9007199254740993 = 9007199254740992" "f64_of_u64 0 = 0"
    using f64_of_small [of 9007199254740992] f64_round_tie by (simp_all add: f64_of_u64_def)
  moreover have "f64_round 9007199254740992 = 9007199254740992" using f64_round_int [of 9007199254740992] by simp
  ultimately show ?thesis
    by (simp add: verify_deterrence_def analyze_deterrence_def Let_def f_sub_def f_mul_def)
qed

text \<open>The minimum bond of the error wraps to zero for the largest value.\<close>

lemma minimum_bond_wraps: "verify_deterrence (- 1) bond = Err (InsufficientBond (- 1) bond 0)"
  by (simp add: verify_deterrence_def)

end
