(* ===== verification/Nova_Ivc.thy ===== *)
theory Nova_Ivc
  imports Prelude
begin

text \<open>
  \<^verbatim>\<open>specter-fold/src/nova_ivc.rs\<close>: the step circuit and the engine around it. The crate \<^verbatim>\<open>bellpepper\<close> is the record
  \<open>cs_prims\<close> (allocating a number, adding a constraint, the variable that is one) with the laws of the locale \<open>constraint_system\<close>;
  the crate \<^verbatim>\<open>nova_snark\<close> is the record \<open>nova_prims\<close> with the law of the locale \<open>nova\<close>, which relates an accepted proof to
  satisfying assignments of the step circuit. A linear combination is the list of its variables; all coefficients here are one.
\<close>

section \<open>The step circuit\<close>

datatype synthesis_error = AssignmentMissing | OtherSynthesisError

record ('v, 'f) allocated_num =
  an_variable :: 'v
  an_value :: "'f option"

record ('v, 'f, 'cs) cs_prims =
  num_alloc :: "('f, synthesis_error) result \<Rightarrow> 'cs \<Rightarrow> (('v, 'f) allocated_num \<times> 'cs, synthesis_error) result"
  enforce :: "'v list \<Rightarrow> 'v list \<Rightarrow> 'v list \<Rightarrow> 'cs \<Rightarrow> 'cs"
  cs_one :: 'v
  satisfied :: "('v \<Rightarrow> 'f) \<Rightarrow> 'cs \<Rightarrow> bool"

record transfer_circuit =
  new_owner_data :: u64
  state_hash :: u64

definition circuit_new :: "u64 \<Rightarrow> u64 \<Rightarrow> transfer_circuit" where
  "circuit_new d h = \<lparr>new_owner_data = d, state_hash = h\<rparr>"

definition circuit_blank :: transfer_circuit where
  "circuit_blank = \<lparr>new_owner_data = 0, state_hash = 0\<rparr>"

definition arity :: "transfer_circuit \<Rightarrow> nat" where
  "arity c = 2"

definition synthesize ::
  "('v, 'f::field, 'cs) cs_prims \<Rightarrow> transfer_circuit \<Rightarrow> 'cs \<Rightarrow> ('v, 'f) allocated_num list \<Rightarrow>
     (('v, 'f) allocated_num list \<times> 'cs, synthesis_error) result" where
  "synthesize C c cs z =
     (if length z < 2 then Panic
      else
        bindR (num_alloc C (bindR (ok_or (an_value (z ! 0)) AssignmentMissing) (\<lambda>old. Ok (old + 1))) cs) (\<lambda>(new_count, cs).
        let cs = enforce C [an_variable new_count] [cs_one C] [an_variable (z ! 0), cs_one C] cs
        in bindR (num_alloc C (Ok (of_nat (unat (new_owner_data c)))) cs) (\<lambda>(owner_data, cs).
           bindR (num_alloc C (bindR (ok_or (an_value (z ! 1)) AssignmentMissing)
                    (\<lambda>old_state. Ok (old_state + of_nat (unat (new_owner_data c)) + 1))) cs) (\<lambda>(new_state, cs).
           let cs = enforce C [an_variable new_state] [cs_one C] [an_variable (z ! 1), an_variable owner_data, cs_one C] cs
           in Ok ([new_count, new_state], cs)))))"

section \<open>The engine\<close>

record ('pp, 'snark, 'f) nova_prims =
  pp_setup :: "transfer_circuit \<Rightarrow> 'pp"
  rs_new :: "'pp \<Rightarrow> transfer_circuit \<Rightarrow> 'f list \<Rightarrow> 'snark option"
  rs_prove_step :: "'pp \<Rightarrow> 'snark \<Rightarrow> transfer_circuit \<Rightarrow> bool \<times> 'snark"
  rs_verify :: "'pp \<Rightarrow> 'snark \<Rightarrow> nat \<Rightarrow> 'f list \<Rightarrow> 'f list option"

definition engine_setup :: "('pp, 'snark, 'f) nova_prims \<Rightarrow> 'pp" where
  "engine_setup N = pp_setup N circuit_blank"

definition prove_genesis :: "('pp, 'snark, 'f::field) nova_prims \<Rightarrow> 'pp \<Rightarrow> u64 \<Rightarrow> u64 \<Rightarrow> ('snark, string) result" where
  "prove_genesis N pp initial_count initial_state_hash =
     (let z0 = [of_nat (unat initial_count), of_nat (unat initial_state_hash)]; circuit = circuit_new 0 0
      in bindR (ok_or (rs_new N pp circuit z0) ''genesis failed: '') (\<lambda>snark.
         case rs_prove_step N pp snark circuit of
           (True, snark) \<Rightarrow> Ok snark
         | (False, snark) \<Rightarrow> Err ''genesis step failed: ''))"

definition fold_step ::
  "('pp, 'snark, 'f) nova_prims \<Rightarrow> 'pp \<Rightarrow> 'snark \<Rightarrow> u64 \<Rightarrow> u64 \<Rightarrow> (unit, string) result \<times> 'snark" where
  "fold_step N pp snark owner_data hash =
     (case rs_prove_step N pp snark (circuit_new owner_data hash) of
        (True, snark) \<Rightarrow> (Ok (), snark)
      | (False, snark) \<Rightarrow> (Err ''fold failed: '', snark))"

definition nova_verify :: "('pp, 'snark, 'f::field) nova_prims \<Rightarrow> 'pp \<Rightarrow> 'snark \<Rightarrow> nat \<Rightarrow> u64 \<Rightarrow> u64 \<Rightarrow> bool" where
  "nova_verify N pp snark num_steps initial_count initial_state_hash =
     (case rs_verify N pp snark num_steps [of_nat (unat initial_count), of_nat (unat initial_state_hash)] of
        Some outputs \<Rightarrow> True
      | None \<Rightarrow> False)"

section \<open>What the constraints say\<close>

locale constraint_system =
  fixes C :: "('v, 'f::field, 'cs) cs_prims"
  assumes alloc_constraints: "num_alloc C v cs = Ok (n, cs') \<Longrightarrow> satisfied C \<sigma> cs' \<longleftrightarrow> satisfied C \<sigma> cs"
    and enforce_constraints: "satisfied C \<sigma> (enforce C a b c cs) \<longleftrightarrow>
      satisfied C \<sigma> cs \<and> (\<Sum>x\<leftarrow>a. \<sigma> x) * (\<Sum>x\<leftarrow>b. \<sigma> x) = (\<Sum>x\<leftarrow>c. \<sigma> x)"
begin

text \<open>
  The circuit adds two constraints and no other: the count goes up by one, and the state by one more than the variable of the
  owner's data. That variable is in no other constraint.
\<close>

lemma synthesize_constraints:
  assumes "synthesize C c cs z = Ok (out, cs')" and "\<sigma> (cs_one C) = 1"
  shows "\<exists>new_count owner_data new_state. out = [new_count, new_state] \<and>
    (satisfied C \<sigma> cs' \<longleftrightarrow> satisfied C \<sigma> cs \<and> \<sigma> (an_variable new_count) = \<sigma> (an_variable (z ! 0)) + 1 \<and>
       \<sigma> (an_variable new_state) = \<sigma> (an_variable (z ! 1)) + \<sigma> owner_data + 1)"
proof -
  obtain nc cs1 od cs2 ns cs3 where s:
      "num_alloc C (bindR (ok_or (an_value (z ! 0)) AssignmentMissing) (\<lambda>old. Ok (old + 1))) cs = Ok (nc, cs1)"
      "num_alloc C (Ok (of_nat (unat (new_owner_data c)))) (enforce C [an_variable nc] [cs_one C] [an_variable (z ! 0), cs_one C] cs1) = Ok (od, cs2)"
      "num_alloc C (bindR (ok_or (an_value (z ! 1)) AssignmentMissing)
        (\<lambda>old_state. Ok (old_state + of_nat (unat (new_owner_data c)) + 1))) cs2 = Ok (ns, cs3)"
      "out = [nc, ns]" "cs' = enforce C [an_variable ns] [cs_one C] [an_variable (z ! 1), an_variable od, cs_one C] cs3"
    using assms(1) by (auto simp: synthesize_def Let_def split: if_splits)
  show ?thesis
    using alloc_constraints [OF s(1)] alloc_constraints [OF s(2)] alloc_constraints [OF s(3)] assms(2)
    by (intro exI [of _ nc] exI [of _ "an_variable od"] exI [of _ ns]) (auto simp: s(4,5) enforce_constraints add.assoc)
qed

end

text \<open>A constraint system that keeps its constraints in a list and numbers its variables, zero for the constant one.\<close>

definition eval_lc :: "(nat \<Rightarrow> 'f::field) \<Rightarrow> nat list \<Rightarrow> 'f" where
  "eval_lc \<sigma> xs = (\<Sum>x\<leftarrow>xs. \<sigma> x)"

definition list_cs :: "(nat, 'f::field, nat \<times> (nat list \<times> nat list \<times> nat list) list) cs_prims" where
  "list_cs = \<lparr>num_alloc = (\<lambda>v (n, cs). bindR v (\<lambda>x. Ok (\<lparr>an_variable = Suc n, an_value = Some x\<rparr>, (Suc n, cs)))),
     enforce = (\<lambda>a b c (n, cs). (n, (a, b, c) # cs)), cs_one = 0,
     satisfied = (\<lambda>\<sigma> (n, cs). list_all (\<lambda>(a, b, c). eval_lc \<sigma> a * eval_lc \<sigma> b = eval_lc \<sigma> c) cs)\<rparr>"

interpretation list_cs: constraint_system "list_cs :: (nat, 'f::field, nat \<times> (nat list \<times> nat list \<times> nat list) list) cs_prims"
  by unfold_locales (auto simp: list_cs_def eval_lc_def split: prod.splits)

section \<open>What an accepted proof shows\<close>

text \<open>One step of the circuit between values: the constraints have an assignment with these inputs and outputs.\<close>

definition step_holds :: "'f::field list \<Rightarrow> 'f list \<Rightarrow> bool" where
  "step_holds z z' \<longleftrightarrow> (\<exists>c out cs' \<sigma>.
     synthesize list_cs c (2, []) [\<lparr>an_variable = 1, an_value = Some (z ! 0)\<rparr>, \<lparr>an_variable = 2, an_value = Some (z ! 1)\<rparr>] = Ok (out, cs') \<and>
     \<sigma> (0 :: nat) = 1 \<and> \<sigma> 1 = z ! 0 \<and> \<sigma> 2 = z ! 1 \<and> satisfied list_cs \<sigma> cs' \<and> z' = map (\<lambda>n. \<sigma> (an_variable n)) out)"

text \<open>The state of the output is unconstrained: the owner's data is a free witness, so every state follows every state.\<close>

lemma step_holds_iff: "step_holds z z' \<longleftrightarrow> length z' = 2 \<and> z' ! 0 = z ! 0 + 1"
proof
  assume "step_holds z z'"
  then obtain c out cs' \<sigma> where s:
      "synthesize list_cs c (2, []) [\<lparr>an_variable = 1, an_value = Some (z ! 0)\<rparr>, \<lparr>an_variable = 2, an_value = Some (z ! 1)\<rparr>] = Ok (out, cs')"
      "\<sigma> (0 :: nat) = 1" "\<sigma> 1 = z ! 0" "satisfied list_cs \<sigma> cs'" "z' = map (\<lambda>n. \<sigma> (an_variable n)) out"
    by (auto simp: step_holds_def)
  from list_cs.synthesize_constraints [OF s(1), of \<sigma>] s(2-5) show "length z' = 2 \<and> z' ! 0 = z ! 0 + 1"
    by (auto simp: list_cs_def)
next
  assume z': "length z' = 2 \<and> z' ! 0 = z ! 0 + 1"
  define \<sigma> :: "nat \<Rightarrow> 'a" where "\<sigma> = (\<lambda>i. [1, z ! 0, z ! 1, z' ! 0, z' ! 1 - z ! 1 - 1, z' ! 1] ! i)"
  have "z' = [z' ! 0, z' ! 1]" using z' by (auto simp: list_eq_iff_nth_eq less_2_cases_iff)
  moreover have "\<sigma> 0 = 1" "\<sigma> (Suc 0) = z ! 0" "\<sigma> 2 = z ! Suc 0" "\<sigma> 3 = z' ! 0" "\<sigma> 4 = z' ! 1 - z ! 1 - 1" "\<sigma> 5 = z' ! 1"
    by (simp_all add: \<sigma>_def)
  ultimately have "\<exists>\<sigma> :: nat \<Rightarrow> 'a. \<sigma> 0 = 1 \<and> \<sigma> (Suc 0) = z ! 0 \<and> \<sigma> 2 = z ! Suc 0 \<and> \<sigma> 5 * \<sigma> 0 = \<sigma> 2 + (\<sigma> 4 + \<sigma> 0) \<and>
      \<sigma> 3 * \<sigma> 0 = \<sigma> (Suc 0) + \<sigma> 0 \<and> z' = [\<sigma> 3, \<sigma> 5]"
    using z' by (intro exI [of _ \<sigma>]) simp
  then show "step_holds z z'"
    unfolding step_holds_def
    by (intro exI [of _ circuit_blank]) (simp add: synthesize_def list_cs_def Let_def ok_or_def eval_lc_def)
qed

text \<open>Soundness of the third-party proof system: an accepted proof of \<open>n\<close> steps stands for a chain of \<open>n\<close> satisfied steps.\<close>

locale nova =
  fixes N :: "('pp, 'snark, 'f::field) nova_prims"
  assumes verify_sound: "rs_verify N pp snark n z0 = Some zn \<Longrightarrow>
    \<exists>zs. length zs = n + 1 \<and> zs ! 0 = z0 \<and> zs ! n = zn \<and> (\<forall>i<n. step_holds (zs ! i) (zs ! (i + 1)))"
begin

lemma chain_count:
  assumes "length zs = n + 1" and "\<forall>i<n. step_holds (zs ! i) (zs ! (i + 1))" and "k \<le> n"
  shows "zs ! k ! 0 = zs ! 0 ! 0 + of_nat k"
  using assms(3)
proof (induction k)
  case (Suc k)
  then have "zs ! (k + 1) ! 0 = zs ! k ! 0 + 1" using assms(2) step_holds_iff by (metis Suc_le_eq)
  with Suc show ?case by (simp add: algebra_simps)
qed simp

text \<open>An accepted proof fixes the count of the output, the initial count plus the number of steps, and nothing else of it.\<close>

lemma accepted_count:
  assumes "rs_verify N pp snark n [of_nat (unat c0), of_nat (unat h0)] = Some out"
  shows "out ! 0 = of_nat (unat c0) + of_nat n"
proof -
  obtain zs where zs: "length zs = n + 1" "zs ! 0 = [of_nat (unat c0), of_nat (unat h0)]" "zs ! n = out"
      "\<forall>i<n. step_holds (zs ! i) (zs ! (i + 1))"
    using verify_sound [OF assms] by blast
  from chain_count [OF zs(1,4), of n] zs(2,3) show ?thesis by simp
qed

end

text \<open>The proof system that keeps the whole chain of states and checks every step.\<close>

fun step_output :: "transfer_circuit \<Rightarrow> 'f::field list \<Rightarrow> 'f list" where
  "step_output c z = [z ! 0 + 1, z ! 1 + of_nat (unat (new_owner_data c)) + 1]"

definition chain_nova :: "(unit, 'f::field list list, 'f) nova_prims" where
  "chain_nova = \<lparr>pp_setup = (\<lambda>c. ()), rs_new = (\<lambda>pp c z0. Some [z0]),
     rs_prove_step = (\<lambda>pp zs c. (True, zs @ [step_output c (last zs)])),
     rs_verify = (\<lambda>pp zs n z0. if length zs = n + 1 \<and> zs ! 0 = z0 \<and>
         list_all (\<lambda>i. length (zs ! (i + 1)) = 2 \<and> zs ! (i + 1) ! 0 = zs ! i ! 0 + 1) [0..<n] then Some (zs ! n) else None)\<rparr>"

interpretation chain: nova "chain_nova :: (unit, 'f::field list list, 'f) nova_prims"
  by unfold_locales (auto simp: chain_nova_def step_holds_iff list_all_iff split: if_splits)

text \<open>The genesis proof runs one step already: a proof after it and \<open>k\<close> folds is accepted for \<open>k + 1\<close> steps.\<close>

lemma genesis_is_one_step:
  assumes "prove_genesis (chain_nova :: (unit, 'f::field list list, 'f) nova_prims) () c0 h0 = Ok snark"
  shows "nova_verify chain_nova () snark 1 c0 h0 \<and> \<not> nova_verify chain_nova () snark 0 c0 h0"
  using assms by (auto simp: prove_genesis_def chain_nova_def Let_def ok_or_def circuit_new_def nova_verify_def)

end
