(* ===== verification/Range_Proof.thy ===== *)
theory Range_Proof
  imports Pedersen
begin

text \<open>
  \<^verbatim>\<open>specter-primitives/src/range_proof.rs\<close>: the 64-bit range proof by bit decomposition. Every
  bit commitment carries a proof that it opens to 0 or to 1, and the weighted sum of the bit
  commitments must be the commitment itself. Completeness is shown for every value, blinding
  and random tape; soundness from openings of the bits, which two transcripts of a bit proof give.
\<close>

section \<open>Bit proofs\<close>

unbundle bit_operations_syntax

definition RANGE_BITS :: nat where
  "RANGE_BITS = 64"

record ('s, 'p) bit_or_proof =
  bop_a0 :: 'p
  bop_a1 :: 'p
  bop_c0 :: 's
  bop_c1 :: 's
  bop_r0 :: 's
  bop_r1 :: 's

record ('s, 'p) range_proof =
  bit_commits :: "'p list"
  bit_proofs :: "('s, 'p) bit_or_proof list"

definition or_challenge :: "('s, 'p) prims \<Rightarrow> 'p \<Rightarrow> 'p \<Rightarrow> 'p \<Rightarrow> 's" where
  "or_challenge R commitment a0 a1 =
     hash512 R (ascii ''specter-range-bit-or:'' @ compress R commitment @ compress R a0 @ compress R a1)"

definition prove_bit_or ::
  "('s::field, 'p::ab_group_add) prims \<Rightarrow> 'p pedersen_params \<Rightarrow> 'p \<Rightarrow> u64 \<Rightarrow> 's \<Rightarrow> rng \<Rightarrow>
     ('s, 'p) bit_or_proof \<times> rng" where
  "prove_bit_or R params commitment bit_val s g =
     (let (w, g) = random_scalar R g;
          a_real_point = smul R w (ped_h params);
          (c_sim, g) = random_scalar R g;
          (r_sim, g) = random_scalar R g
      in if bit_val = 0 then
           (let statement_1 = commitment - ped_g params;
                a1 = smul R r_sim (ped_h params) - smul R c_sim statement_1;
                a0 = a_real_point;
                c = or_challenge R commitment a0 a1;
                c0 = c - c_sim; c1 = c_sim; r0 = w + c0 * s; r1 = r_sim
            in (\<lparr>bop_a0 = a0, bop_a1 = a1, bop_c0 = c0, bop_c1 = c1, bop_r0 = r0, bop_r1 = r1\<rparr>, g))
         else
           (let statement_0 = commitment;
                a0 = smul R r_sim (ped_h params) - smul R c_sim statement_0;
                a1 = a_real_point;
                c = or_challenge R commitment a0 a1;
                c0 = c_sim; c1 = c - c_sim; r0 = r_sim; r1 = w + c1 * s
            in (\<lparr>bop_a0 = a0, bop_a1 = a1, bop_c0 = c0, bop_c1 = c1, bop_r0 = r0, bop_r1 = r1\<rparr>, g)))"

definition verify_bit_or ::
  "('s::field, 'p::ab_group_add) prims \<Rightarrow> 'p pedersen_params \<Rightarrow> 'p \<Rightarrow> ('s, 'p) bit_or_proof \<Rightarrow> bool" where
  "verify_bit_or R params commitment proof \<longleftrightarrow>
     (let c = or_challenge R commitment (bop_a0 proof) (bop_a1 proof)
      in if bop_c0 proof + bop_c1 proof \<noteq> c then False
         else if smul R (bop_r0 proof) (ped_h params) \<noteq> bop_a0 proof + smul R (bop_c0 proof) commitment
         then False
         else smul R (bop_r1 proof) (ped_h params) =
              bop_a1 proof + smul R (bop_c1 proof) (commitment - ped_g params))"

section \<open>The range proof\<close>

text \<open>The loop that accumulates \<open>\<Sum> 2^i * x_i\<close> and doubles the weight by addition.\<close>

definition weighted_scalars :: "'s::field list \<Rightarrow> 's \<times> 's" where
  "weighted_scalars ss =
     foldl (\<lambda>(accumulated, two_pow_i) s_i. (accumulated + two_pow_i * s_i, two_pow_i + two_pow_i)) (0, 1) ss"

definition weighted_points :: "('s::field, 'p::ab_group_add) prims \<Rightarrow> 'p list \<Rightarrow> 'p \<times> 's" where
  "weighted_points R Bs =
     foldl (\<lambda>(recomputed, two_pow_i) b_i. (recomputed + smul R two_pow_i b_i, two_pow_i + two_pow_i)) (0, 1) Bs"

definition bit_of :: "u64 \<Rightarrow> nat \<Rightarrow> u64" where
  "bit_of v i = drop_bit i v AND 1"

fun prove_bits ::
  "('s::field, 'p::ab_group_add) prims \<Rightarrow> 'p pedersen_params \<Rightarrow> u64 \<Rightarrow> 's list \<Rightarrow> nat list \<Rightarrow> rng \<Rightarrow>
     ('p \<times> ('s, 'p) bit_or_proof) list \<times> rng" where
  "prove_bits R params v bit_blindings [] g = ([], g)"
| "prove_bits R params v bit_blindings (i # is) g =
     (let bit_val = bit_of v i;
          b_scalar = scalar_of_u64 R bit_val;
          b_i = commit R params b_scalar (bit_blindings ! i);
          (proof, g) = prove_bit_or R params b_i bit_val (bit_blindings ! i) g;
          (rest, g) = prove_bits R params v bit_blindings is g
      in ((b_i, proof) # rest, g))"

definition prove_range_64 ::
  "('s::field, 'p::ab_group_add) prims \<Rightarrow> 'p pedersen_params \<Rightarrow> u64 \<Rightarrow> 's \<Rightarrow> rng \<Rightarrow>
     ('s, 'p) range_proof \<times> rng" where
  "prove_range_64 R params v r g =
     (let (blindings, g) = random_scalars R (RANGE_BITS - 1) g;
          (accumulated, two_pow_63) = weighted_scalars blindings;
          s_last = (r - accumulated) * inverse two_pow_63;
          bit_blindings = blindings @ [s_last];
          (bits, g) = prove_bits R params v bit_blindings [0..<RANGE_BITS] g
      in (\<lparr>bit_commits = map fst bits, bit_proofs = map snd bits\<rparr>, g))"

definition verify_range_64 ::
  "('s::field, 'p::ab_group_add) prims \<Rightarrow> 'p pedersen_params \<Rightarrow> 'p \<Rightarrow> ('s, 'p) range_proof \<Rightarrow> bool" where
  "verify_range_64 R params commitment proof \<longleftrightarrow>
     (if length (bit_commits proof) \<noteq> RANGE_BITS \<or> length (bit_proofs proof) \<noteq> RANGE_BITS then False
      else if \<not> list_all (\<lambda>i. verify_bit_or R params (bit_commits proof ! i) (bit_proofs proof ! i))
                [0..<length (bit_commits proof)] then False
      else fst (weighted_points R (bit_commits proof)) = commitment)"

section \<open>The knowledge extractor\<close>

text \<open>The specification side of soundness: what two answers to different challenges for the same
  announcements reveal. The branch whose challenge changed is the one that was not simulated; its
  two responses give the blinding of the bit, and the bits give the value and the blinding of the
  whole commitment.\<close>

definition extract_bit :: "('s::field, 'p) bit_or_proof \<Rightarrow> ('s, 'p) bit_or_proof \<Rightarrow> bool \<times> 's" where
  "extract_bit p p' =
     (if bop_c0 p \<noteq> bop_c0 p' then (False, (bop_r0 p - bop_r0 p') / (bop_c0 p - bop_c0 p'))
      else (True, (bop_r1 p - bop_r1 p') / (bop_c1 p - bop_c1 p')))"

definition extract_range :: "('s::field, 'p) range_proof \<Rightarrow> ('s, 'p) range_proof \<Rightarrow> u64 \<times> 's" where
  "extract_range pf pf' =
     (let xs = map2 extract_bit (bit_proofs pf) (bit_proofs pf')
      in (horner_sum of_bool 2 (map fst xs), fst (weighted_scalars (map snd xs))))"

text \<open>A second run of the verifier on the same bit commitments and announcements, in which the hash
  gives every bit another challenge.\<close>

definition forked :: "('s, 'p) prims \<Rightarrow> (bytes \<Rightarrow> bytes) \<Rightarrow> ('s, 'p) range_proof \<Rightarrow> ('s, 'p) range_proof \<Rightarrow> bool" where
  "forked R h pf pf' \<longleftrightarrow>
     bit_commits pf' = bit_commits pf \<and> map bop_a0 (bit_proofs pf') = map bop_a0 (bit_proofs pf) \<and>
     map bop_a1 (bit_proofs pf') = map bop_a1 (bit_proofs pf) \<and>
     list_all (\<lambda>(B, p). or_challenge (R\<lparr>sha512 := h\<rparr>) B (bop_a0 p) (bop_a1 p) \<noteq> or_challenge R B (bop_a0 p) (bop_a1 p))
       (zip (bit_commits pf) (bit_proofs pf))"

section \<open>Binary expansion\<close>

lemma unat_bit_of: "unat (bit_of v i) = of_bool (bit v i)"
  by (cases "odd (drop_bit i v)")
    (simp_all add: bit_of_def and_one_eq bit_iff_odd_drop_bit mod_2_eq_odd)

lemma weighted_scalars_eq:
  "weighted_scalars ss = ((\<Sum>i<length ss. 2 ^ i * ss ! i), 2 ^ length ss)"
proof -
  have "foldl (\<lambda>(accumulated, two_pow_i) s_i. (accumulated + two_pow_i * s_i, two_pow_i + two_pow_i)) (a, p) ss
      = (a + p * (\<Sum>i<length ss. 2 ^ i * ss ! i), p * 2 ^ length ss)" for a p
    by (induction ss arbitrary: a p)
      (auto simp: algebra_simps sum.lessThan_Suc_shift sum_distrib_left simp del: sum.lessThan_Suc)
  from this [of 0 1] show ?thesis by (simp add: weighted_scalars_def)
qed

lemma solve_last_weight: "p \<noteq> 0 \<Longrightarrow> a + p * ((r - a) * inverse p) = (r :: 'a::field)"
  by (simp add: field_simps)

lemma u64_bits_sum: "(\<Sum>i<64. 2 ^ i * of_nat (unat (bit_of v i))) = (of_nat (unat v) :: 'a::comm_semiring_1)"
proof -
  have "unat v = (\<Sum>i<64. of_bool (bit v i) * 2 ^ i)"
    using horner_sum_bit_eq_take_bit [of "unat v" 64] unsigned_less [of v, where ?'a = nat]
    by (simp add: horner_sum_eq_sum bit_unsigned_iff take_bit_nat_eq_self atLeast0LessThan)
  then have "of_nat (unat v) = (of_nat (\<Sum>i<64. of_bool (bit v i) * 2 ^ i) :: 'a)" by simp
  then show ?thesis by (simp add: unat_bit_of mult.commute)
qed

section \<open>Completeness and soundness\<close>

lemma prove_bits_nth:
  assumes "prove_bits R params v bl is g = (bits, g')"
  shows "length bits = length is \<and> (\<forall>k<length is. \<exists>h.
    bits ! k = (let B = commit R params (scalar_of_u64 R (bit_of v (is ! k))) (bl ! (is ! k))
                in (B, fst (prove_bit_or R params B (bit_of v (is ! k)) (bl ! (is ! k)) h))))"
  using assms
proof (induction "is" arbitrary: g bits g')
  case (Cons i "is")
  let ?B = "commit R params (scalar_of_u64 R (bit_of v i)) (bl ! i)"
  obtain p h rest where p: "prove_bit_or R params ?B (bit_of v i) (bl ! i) g = (p, h)"
      "prove_bits R params v bl is h = (rest, g')" "bits = (?B, p) # rest"
    using Cons.prems by (auto simp: Let_def split: prod.splits)
  have "fst (prove_bit_or R params ?B (bit_of v i) (bl ! i) g) = p" using p by simp
  with Cons.IH [OF p(2)] p(3) show ?case
    by (auto simp: nth_Cons Let_def split: nat.splits)
qed simp

lemma prove_bit_or_announcements:
  "bop_a0 (fst (prove_bit_or (R\<lparr>sha512 := h\<rparr>) params B b s g)) = bop_a0 (fst (prove_bit_or R params B b s g))"
  "bop_a1 (fst (prove_bit_or (R\<lparr>sha512 := h\<rparr>) params B b s g)) = bop_a1 (fst (prove_bit_or R params B b s g))"
  "snd (prove_bit_or (R\<lparr>sha512 := h\<rparr>) params B b s g) = snd (prove_bit_or R params B b s g)"
  by (simp_all add: prove_bit_or_def random_scalar_def Let_def split: prod.splits)

text \<open>The prover under another hash: the same commitments, and bit proofs from the same tapes.\<close>

lemma prove_bits_rehash:
  "\<exists>gs. length gs = length is \<and> (\<forall>h. fst (prove_bits (R\<lparr>sha512 := h\<rparr>) params v bl is g) =
     map2 (\<lambda>i g. let B = commit R params (scalar_of_u64 R (bit_of v i)) (bl ! i)
                 in (B, fst (prove_bit_or (R\<lparr>sha512 := h\<rparr>) params B (bit_of v i) (bl ! i) g))) is gs)"
proof (induction "is" arbitrary: g)
  case (Cons i "is")
  let ?B = "commit R params (scalar_of_u64 R (bit_of v i)) (bl ! i)"
  from Cons.IH [of "snd (prove_bit_or R params ?B (bit_of v i) (bl ! i) g)"] obtain gs where
    "length gs = length is" "\<forall>h. fst (prove_bits (R\<lparr>sha512 := h\<rparr>) params v bl is
        (snd (prove_bit_or R params ?B (bit_of v i) (bl ! i) g))) =
     map2 (\<lambda>i g. let B = commit R params (scalar_of_u64 R (bit_of v i)) (bl ! i)
                 in (B, fst (prove_bit_or (R\<lparr>sha512 := h\<rparr>) params B (bit_of v i) (bl ! i) g))) is gs"
    by blast
  then show ?case
    by (intro exI [of _ "g # gs"])
      (simp add: Let_def case_prod_beta prove_bit_or_announcements commit_def)
qed simp

lemma prove_range_64_rehash:
  "\<exists>ss gs. length ss = 64 \<and> length gs = 64 \<and> (\<forall>h. fst (prove_range_64 (R\<lparr>sha512 := h\<rparr>) params v r g) =
     (let Bs = map2 (\<lambda>i s. commit R params (scalar_of_u64 R (bit_of v i)) s) [0..<64] ss
      in \<lparr>bit_commits = Bs, bit_proofs = map (\<lambda>i.
           fst (prove_bit_or (R\<lparr>sha512 := h\<rparr>) params (Bs ! i) (bit_of v i) (ss ! i) (gs ! i))) [0..<64]\<rparr>))"
proof -
  obtain bl g1 where bl: "random_scalars R 63 g = (bl, g1)" by fastforce
  define ss where "ss = bl @ [(r - fst (weighted_scalars bl)) * inverse (snd (weighted_scalars bl))]"
  have len: "length ss = 64" using bl by (auto simp: ss_def)
  obtain gs where gs: "length gs = 64" "\<And>h. fst (prove_bits (R\<lparr>sha512 := h\<rparr>) params v ss [0..<64] g1) =
     map2 (\<lambda>i g. let B = commit R params (scalar_of_u64 R (bit_of v i)) (ss ! i)
       in (B, fst (prove_bit_or (R\<lparr>sha512 := h\<rparr>) params B (bit_of v i) (ss ! i) g))) [0..<64] gs"
    using prove_bits_rehash [of "[0..<64]" R params v ss g1] by auto
  have "fst (prove_range_64 (R\<lparr>sha512 := h\<rparr>) params v r g) =
     (let bits = fst (prove_bits (R\<lparr>sha512 := h\<rparr>) params v ss [0..<64] g1)
      in \<lparr>bit_commits = map fst bits, bit_proofs = map snd bits\<rparr>)" for h
    using bl by (simp add: prove_range_64_def RANGE_BITS_def ss_def case_prod_beta Let_def random_scalars_rehash)
  with gs len show ?thesis
    by (intro exI [of _ ss] exI [of _ gs]) (auto simp: Let_def intro!: nth_equalityI)
qed

context ristretto_group
begin

lemma weighted_points_sum: "fst (weighted_points R Bs) = (\<Sum>i<length Bs. smul R (2 ^ i) (Bs ! i))"
proof -
  have "fst (foldl (\<lambda>(recomputed, two_pow_i) b_i. (recomputed + smul R two_pow_i b_i, two_pow_i + two_pow_i)) (a, p) Bs)
      = a + smul R p (\<Sum>i<length Bs. smul R (2 ^ i) (Bs ! i))" for a p
  proof (induction Bs arbitrary: a p)
    case (Cons B Bs)
    let ?S = "\<Sum>i<length Bs. smul R (2 ^ i) (Bs ! i)"
    have "(\<Sum>i<length (B # Bs). smul R (2 ^ i) ((B # Bs) ! i))
        = B + (\<Sum>i<length Bs. smul R (2 ^ i + 2 ^ i) (Bs ! i))"
      by (simp only: length_Cons sum.lessThan_Suc_shift nth_Cons_0 nth_Cons_Suc power_0 smul_one power_Suc mult_2)
    also have "\<dots> = B + (?S + ?S)"
      by (simp only: smul_add_scalar sum.distrib)
    finally have "smul R p (\<Sum>i<length (B # Bs). smul R (2 ^ i) ((B # Bs) ! i)) = smul R p B + smul R (p + p) ?S"
      by (simp only: smul_add_point smul_add_scalar)
    then show ?case
      by (simp only: foldl.simps prod.case Cons.IH add.assoc)
  qed simp
  from this [of 0 1] show ?thesis by (simp add: weighted_points_def smul_one)
qed

lemma sum_commits:
  "(\<Sum>i<n. smul R (2 ^ i) (commit R params (b i) (s i))) =
     commit R params (\<Sum>i<n. 2 ^ i * b i) (\<Sum>i<n. 2 ^ i * s i)"
proof (induction n)
  case 0
  show ?case by (simp add: commit_eq)
next
  case (Suc n)
  then show ?case by (simp add: commit_smul commit_add)
qed

lemma two_pow_nonzero: "(2 :: 's) ^ i \<noteq> 0"
proof
  assume "(2 :: 's) ^ i = 0"
  then have "scalar_of_u64 R 2 = 0" by (simp add: scalar_of_u64_of_nat)
  then show False by (simp only: scalar_of_u64_zero_iff) simp
qed

lemma prove_bit_or_verifies:
  assumes "B = commit R params (scalar_of_u64 R (bit_of v i)) s"
  shows "verify_bit_or R params B (fst (prove_bit_or R params B (bit_of v i) s g))"
proof (cases "bit v i")
  case True
  then have "unat (bit_of v i) = 1" by (simp add: unat_bit_of)
  then have b: "bit_of v i = 1" by (metis unat_word_inject unsigned_1)
  have "B - ped_g params = smul R s (ped_h params)"
    by (simp add: assms b commit_eq scalar_of_u64_of_nat smul_one)
  with b show ?thesis
    by (simp add: prove_bit_or_def verify_bit_or_def Let_def smul_add_scalar smul_mult split: prod.splits)
next
  case False
  then have "unat (bit_of v i) = 0" by (simp add: unat_bit_of)
  then have b: "bit_of v i = 0" by (metis unat_word_inject unsigned_0)
  then have "B = smul R s (ped_h params)"
    by (simp add: assms commit_eq scalar_of_u64_of_nat)
  with b show ?thesis
    by (simp add: prove_bit_or_def verify_bit_or_def Let_def smul_add_scalar smul_mult split: prod.splits)
qed

lemma range_proof_complete:
  "verify_range_64 R params (commit R params (scalar_of_u64 R v) r) (fst (prove_range_64 R params v r g))"
proof -
  obtain bl g1 where bl: "random_scalars R 63 g = (bl, g1)" by fastforce
  define s where "s = bl @ [(r - fst (weighted_scalars bl)) * inverse (snd (weighted_scalars bl))]"
  obtain bits g2 where bits: "prove_bits R params v s [0..<64] g1 = (bits, g2)" by fastforce
  have len: "length bl = 63" using bl by simp
  have proof_eq: "fst (prove_range_64 R params v r g) = \<lparr>bit_commits = map fst bits, bit_proofs = map snd bits\<rparr>"
    using bl bits by (simp add: prove_range_64_def RANGE_BITS_def s_def case_prod_beta Let_def)
  have nth: "length bits = 64" "\<forall>k<64. \<exists>h. bits ! k =
      (let B = commit R params (scalar_of_u64 R (bit_of v k)) (s ! k)
       in (B, fst (prove_bit_or R params B (bit_of v k) (s ! k) h)))"
    using prove_bits_nth [OF bits] by auto
  have commits: "map fst bits ! k = commit R params (scalar_of_u64 R (bit_of v k)) (s ! k)" if "k < 64" for k
    using nth that by (metis Let_def fst_conv nth_map)
  have verified: "verify_bit_or R params (map fst bits ! k) (map snd bits ! k)" if k: "k < 64" for k
  proof -
    obtain h where "bits ! k = (let B = commit R params (scalar_of_u64 R (bit_of v k)) (s ! k)
       in (B, fst (prove_bit_or R params B (bit_of v k) (s ! k) h)))"
      using nth k by blast
    with k nth(1) show ?thesis by (simp add: Let_def prove_bit_or_verifies)
  qed
  have "(\<Sum>i<64. 2 ^ i * s ! i) = (\<Sum>i<63. 2 ^ i * s ! i) + 2 ^ 63 * s ! 63"
    using sum.lessThan_Suc [of "\<lambda>i. 2 ^ i * s ! i" 63] by (simp only: eval_nat_numeral BitM.simps)
  also have "(\<Sum>i<63. 2 ^ i * s ! i) = (\<Sum>i<63. 2 ^ i * bl ! i)"
    using len by (intro sum.cong) (auto simp: s_def nth_append)
  also have "s ! 63 = (r - (\<Sum>i<63. 2 ^ i * bl ! i)) * inverse (2 ^ 63)"
    using nth_append_length [of bl] len by (metis s_def weighted_scalars_eq fst_conv snd_conv)
  finally have blind: "(\<Sum>i<64. 2 ^ i * s ! i) = r"
    using solve_last_weight [OF two_pow_nonzero [of 63]] by metis
  have "(\<Sum>i<64. smul R (2 ^ i) (map fst bits ! i)) = commit R params (scalar_of_u64 R v) r"
    using commits blind u64_bits_sum [of v, where ?'a = 's]
    by (simp add: sum_commits scalar_of_u64_of_nat)
  then show ?thesis
    using nth(1) verified
    by (simp add: verify_range_64_def proof_eq RANGE_BITS_def list_all_iff weighted_points_sum)
qed

lemma extracted_bits_value:
  assumes "length xs = 64"
  shows "(\<Sum>i<64. 2 ^ i * of_bool (xs ! i)) = scalar_of_u64 R (horner_sum of_bool 2 xs)"
proof -
  let ?v = "horner_sum of_bool 2 xs :: u64"
  have "unat (bit_of ?v i) = of_bool (xs ! i)" if "i < 64" for i
    using that assms by (simp add: unat_bit_of bit_horner_sum_bit_word_iff)
  then have "(\<Sum>i<64. 2 ^ i * of_bool (xs ! i)) = (\<Sum>i<64. 2 ^ i * of_nat (unat (bit_of ?v i)) :: 's)"
    by (intro sum.cong) auto
  then show ?thesis by (simp only: scalar_of_u64_of_nat u64_bits_sum)
qed

lemma extract_bit_opens:
  assumes "verify_bit_or R params B p" and "verify_bit_or (R\<lparr>sha512 := h\<rparr>) params B p'"
    and "bop_a0 p' = bop_a0 p" and "bop_a1 p' = bop_a1 p"
    and "or_challenge (R\<lparr>sha512 := h\<rparr>) B (bop_a0 p) (bop_a1 p) \<noteq> or_challenge R B (bop_a0 p) (bop_a1 p)"
  shows "B = commit R params (of_bool (fst (extract_bit p p'))) (snd (extract_bit p p'))"
proof -
  have e0: "smul R (bop_r0 p) (ped_h params) = bop_a0 p + smul R (bop_c0 p) B"
      "smul R (bop_r0 p') (ped_h params) = bop_a0 p + smul R (bop_c0 p') B"
    and e1: "smul R (bop_r1 p) (ped_h params) = bop_a1 p + smul R (bop_c1 p) (B - ped_g params)"
      "smul R (bop_r1 p') (ped_h params) = bop_a1 p + smul R (bop_c1 p') (B - ped_g params)"
    and ne: "bop_c0 p + bop_c1 p \<noteq> bop_c0 p' + bop_c1 p'"
    using assms by (auto simp: verify_bit_or_def Let_def split: if_splits)
  show ?thesis
  proof (cases "bop_c0 p = bop_c0 p'")
    case False
    from value_proof_extract [OF e0 False] False show ?thesis
      by (simp add: commit_eq extract_bit_def)
  next
    case True
    with ne have "bop_c1 p \<noteq> bop_c1 p'" by simp
    from value_proof_extract [OF e1 this] True show ?thesis
      by (simp add: commit_eq extract_bit_def smul_one diff_eq_eq add.commute)
  qed
qed

lemma forked_bits_open:
  assumes "verify_range_64 R params c pf" and "verify_range_64 (R\<lparr>sha512 := h\<rparr>) params c pf'"
    and "forked R h pf pf'" and i: "i < 64"
  shows "bit_commits pf ! i = commit R params
    (of_bool (fst (extract_bit (bit_proofs pf ! i) (bit_proofs pf' ! i))))
    (snd (extract_bit (bit_proofs pf ! i) (bit_proofs pf' ! i)))"
proof (rule extract_bit_opens)
  have len: "length (bit_commits pf) = 64" "length (bit_proofs pf) = 64" "length (bit_proofs pf') = 64"
    and eq: "bit_commits pf' = bit_commits pf"
    using assms by (auto simp: verify_range_64_def RANGE_BITS_def forked_def split: if_splits)
  show "verify_bit_or R params (bit_commits pf ! i) (bit_proofs pf ! i)"
    using assms(1) i by (auto simp: verify_range_64_def RANGE_BITS_def list_all_iff split: if_splits)
  show "verify_bit_or (R\<lparr>sha512 := h\<rparr>) params (bit_commits pf ! i) (bit_proofs pf' ! i)"
    using assms(2) i eq by (auto simp: verify_range_64_def RANGE_BITS_def list_all_iff split: if_splits)
  show "bop_a0 (bit_proofs pf' ! i) = bop_a0 (bit_proofs pf ! i)"
       "bop_a1 (bit_proofs pf' ! i) = bop_a1 (bit_proofs pf ! i)"
    using assms(3) i len nth_map [of i "bit_proofs pf" bop_a0] nth_map [of i "bit_proofs pf'" bop_a0]
      nth_map [of i "bit_proofs pf" bop_a1] nth_map [of i "bit_proofs pf'" bop_a1]
    by (simp_all add: forked_def del: nth_map)
  show "or_challenge (R\<lparr>sha512 := h\<rparr>) (bit_commits pf ! i) (bop_a0 (bit_proofs pf ! i)) (bop_a1 (bit_proofs pf ! i))
      \<noteq> or_challenge R (bit_commits pf ! i) (bop_a0 (bit_proofs pf ! i)) (bop_a1 (bit_proofs pf ! i))"
    using assms(3) i len by (auto simp: forked_def list_all_length)
qed

lemma extract_range_opens:
  assumes "verify_range_64 R params c pf" and "verify_range_64 (R\<lparr>sha512 := h\<rparr>) params c pf'"
    and "forked R h pf pf'"
  shows "c = commit R params (scalar_of_u64 R (fst (extract_range pf pf'))) (snd (extract_range pf pf'))"
proof -
  let ?xs = "map2 extract_bit (bit_proofs pf) (bit_proofs pf')"
  have len: "length (bit_commits pf) = 64" "length (bit_proofs pf) = 64" "length (bit_proofs pf') = 64"
    using assms by (auto simp: verify_range_64_def RANGE_BITS_def split: if_splits)
  have "c = (\<Sum>i<64. smul R (2 ^ i) (bit_commits pf ! i))"
    using assms(1) by (simp add: verify_range_64_def weighted_points_sum RANGE_BITS_def split: if_splits)
  also have "\<dots> = (\<Sum>i<64. smul R (2 ^ i)
      (commit R params (of_bool (map fst ?xs ! i)) (map snd ?xs ! i)))"
    using len by (intro sum.cong) (simp_all add: forked_bits_open [OF assms])
  also have "\<dots> = commit R params (\<Sum>i<64. 2 ^ i * of_bool (map fst ?xs ! i)) (\<Sum>i<64. 2 ^ i * map snd ?xs ! i)"
    by (rule sum_commits)
  also have "(\<Sum>i<64. 2 ^ i * of_bool (map fst ?xs ! i)) = scalar_of_u64 R (fst (extract_range pf pf'))"
    using len extracted_bits_value [of "map fst ?xs"] by (simp add: extract_range_def Let_def)
  also have "(\<Sum>i<64. 2 ^ i * map snd ?xs ! i) = snd (extract_range pf pf')"
    using len by (simp add: extract_range_def Let_def weighted_scalars_eq)
  finally show ?thesis .
qed

lemma extract_honest_bit:
  assumes "or_challenge (R\<lparr>sha512 := h\<rparr>) B a0 a1 \<noteq> or_challenge R B a0 a1"
    and "a0 = bop_a0 (fst (prove_bit_or R params B (bit_of v i) s g))"
    and "a1 = bop_a1 (fst (prove_bit_or R params B (bit_of v i) s g))"
  shows "fst (extract_bit (fst (prove_bit_or R params B (bit_of v i) s g))
    (fst (prove_bit_or (R\<lparr>sha512 := h\<rparr>) params B (bit_of v i) s g))) = bit v i"
proof -
  have b: "bit_of v i = of_bool (bit v i)"
    using unat_bit_of [of v i] by (simp add: word_unat_eq_iff)
  show ?thesis
    using assms unfolding b
    by (cases "bit v i")
      (auto simp: prove_bit_or_def extract_bit_def random_scalar_def Let_def split: prod.splits)
qed

lemma honest_fork:
  assumes "\<And>bs. hash512 (R\<lparr>sha512 := h\<rparr>) bs \<noteq> hash512 R bs"
  shows "forked R h (fst (prove_range_64 R params v r g)) (fst (prove_range_64 (R\<lparr>sha512 := h\<rparr>) params v r g))"
    and "fst (extract_range (fst (prove_range_64 R params v r g))
      (fst (prove_range_64 (R\<lparr>sha512 := h\<rparr>) params v r g))) = v"
proof -
  have R: "R = R\<lparr>sha512 := sha512 R\<rparr>" by simp
  obtain ss gs where len: "length ss = 64" "length gs = 64"
    and pf: "\<And>h. fst (prove_range_64 (R\<lparr>sha512 := h\<rparr>) params v r g) =
     (let Bs = map2 (\<lambda>i s. commit R params (scalar_of_u64 R (bit_of v i)) s) [0..<64] ss
      in \<lparr>bit_commits = Bs, bit_proofs = map (\<lambda>i.
           fst (prove_bit_or (R\<lparr>sha512 := h\<rparr>) params (Bs ! i) (bit_of v i) (ss ! i) (gs ! i))) [0..<64]\<rparr>)"
    using prove_range_64_rehash [of R params v r g] by blast
  have ne: "or_challenge (R\<lparr>sha512 := h\<rparr>) B a0 a1 \<noteq> or_challenge R B a0 a1" for B a0 a1
    using assms by (simp add: or_challenge_def)
  note pfs = pf [of h] pf [of "sha512 R", folded R]
  show "forked R h (fst (prove_range_64 R params v r g)) (fst (prove_range_64 (R\<lparr>sha512 := h\<rparr>) params v r g))"
    unfolding pfs using len ne by (simp add: forked_def Let_def prove_bit_or_announcements list_all_length)
  let ?xs = "map2 extract_bit (bit_proofs (fst (prove_range_64 R params v r g)))
      (bit_proofs (fst (prove_range_64 (R\<lparr>sha512 := h\<rparr>) params v r g)))"
  have "map fst ?xs = map (bit v) [0..<64]"
    unfolding pfs by (rule nth_equalityI) (simp_all add: Let_def extract_honest_bit [OF ne])
  then have "fst (extract_range (fst (prove_range_64 R params v r g))
      (fst (prove_range_64 (R\<lparr>sha512 := h\<rparr>) params v r g))) = horner_sum of_bool 2 (map (bit v) [0..<64])"
    by (simp add: extract_range_def Let_def del: map_map)
  also have "\<dots> = v"
    by (simp add: horner_sum_bit_eq_take_bit take_bit_word_eq_self)
  finally show "fst (extract_range (fst (prove_range_64 R params v r g))
      (fst (prove_range_64 (R\<lparr>sha512 := h\<rparr>) params v r g))) = v" .
qed

end

section \<open>Properties\<close>

text \<open>\<^verbatim>\<open>verify_range_64\<close> accepts the proof \<^verbatim>\<open>prove_range_64\<close> makes, for every 64-bit value, every
  blinding factor and every random tape.\<close>

lemma range_proof_completeness:
  assumes "ristretto_group R"
  shows "verify_range_64 R params (commit R params (scalar_from_u64 R v) r)
    (fst (prove_range_64 R params v r g))"
  unfolding scalar_from_u64_def by (rule ristretto_group.range_proof_complete [OF assms])

lemma range_proof_completeness_witness:
  "verify_range_64 zp_prims (pedersen_new zp_prims)
     (commit zp_prims (pedersen_new zp_prims) (scalar_from_u64 zp_prims (- 1)) 9)
     (fst (prove_range_64 zp_prims (pedersen_new zp_prims) (- 1) 9 (\<lambda>_. 3)))"
  by (rule range_proof_completeness [OF zp.ristretto_group_axioms])

text \<open>C16: Soundness of the range proof by extraction. Take an accepted proof and a second accepted
  proof for the same bit commitments and announcements under a hash that gives every bit another
  challenge. Then \<open>extract_range\<close>, a function of the two proofs alone, computes a 64-bit value and a
  blinding factor that open the commitment, each bit commitment opens to the extracted bit, and any
  opening of the commitment to another value, in particular to one not below \<open>2 ^ 64\<close>, gives the
  discrete logarithm of one generator to the base of the other.\<close>

theorem range_proof_soundness:
  assumes "ristretto_group R"
    and "verify_range_64 R params c pf" and "verify_range_64 (R\<lparr>sha512 := h\<rparr>) params c pf'"
    and "forked R h pf pf'" and "extract_range pf pf' = (v, r)"
  shows "c = commit R params (scalar_from_u64 R v) r \<and>
    (\<forall>i<64. let (b, s) = extract_bit (bit_proofs pf ! i) (bit_proofs pf' ! i)
            in bit_commits pf ! i = commit R params (of_bool b) s \<and> b = bit v i) \<and>
    (\<forall>x s. verify_opening R params c x s \<and> x \<noteq> scalar_from_u64 R v \<longrightarrow>
       ped_g params = smul R ((s - r) / (scalar_from_u64 R v - x)) (ped_h params))"
proof (intro conjI allI impI)
  note open' = ristretto_group.extract_range_opens [OF assms(1-4)]
  show c: "c = commit R params (scalar_from_u64 R v) r"
    using open' assms(5) by (simp add: scalar_from_u64_def)
  have len: "length (bit_proofs pf) = 64" "length (bit_proofs pf') = 64"
    using assms(2,3) by (auto simp: verify_range_64_def RANGE_BITS_def split: if_splits)
  show "let (b, s) = extract_bit (bit_proofs pf ! i) (bit_proofs pf' ! i)
      in bit_commits pf ! i = commit R params (of_bool b) s \<and> b = bit v i" if "i < 64" for i
    using that len assms(5) ristretto_group.forked_bits_open [OF assms(1-4) that]
    by (auto simp: extract_range_def Let_def case_prod_beta bit_horner_sum_bit_word_iff)
  show "ped_g params = smul R ((s - r) / (scalar_from_u64 R v - x)) (ped_h params)"
    if "verify_opening R params c x s \<and> x \<noteq> scalar_from_u64 R v" for x s
    using that c ristretto_group.commit_binds [OF assms(1)]
    by (metis ristretto_group.verify_opening_iff [OF assms(1)])
qed

theorem range_proof_soundness_witness:
  "\<exists>pf pf' h r. let pp = \<lparr>ped_g = 1, ped_h = 2\<rparr>; c = commit zp_prims pp 5 9 in
     verify_range_64 zp_prims pp c pf \<and> verify_range_64 (zp_prims\<lparr>sha512 := h\<rparr>) pp c pf' \<and>
     forked zp_prims h pf pf' \<and> extract_range pf pf' = (5, r) \<and> c = commit zp_prims pp 5 r"
proof -
  let ?pp = "\<lparr>ped_g = 1, ped_h = 2\<rparr> :: zp pedersen_params"
  define h :: "bytes \<Rightarrow> bytes" where "h = (\<lambda>bs. nat_to_le 64 (if hash512 zp_prims bs = 0 then 1 else 0))"
  let ?pf = "fst (prove_range_64 zp_prims ?pp 5 9 (\<lambda>_. 3))"
  let ?pf' = "fst (prove_range_64 (zp_prims\<lparr>sha512 := h\<rparr>) ?pp 5 9 (\<lambda>_. 3))"
  have ne: "hash512 (zp_prims\<lparr>sha512 := h\<rparr>) bs \<noteq> hash512 zp_prims bs" for bs
    by (simp add: hash512_def h_def zp_prims_def zp_of_bytes_def zp_of_int_eq)
  have five: "scalar_of_u64 zp_prims 5 = 5" by (simp add: zp.scalar_of_u64_of_nat)
  have ok: "verify_range_64 zp_prims ?pp (commit zp_prims ?pp 5 9) ?pf"
    using zp.range_proof_complete [of ?pp 5 9 "\<lambda>_. 3"] by (simp add: five)
  have ok': "verify_range_64 (zp_prims\<lparr>sha512 := h\<rparr>) ?pp (commit zp_prims ?pp 5 9) ?pf'"
    using ristretto_group.range_proof_complete [OF zp.rehash [of h], of ?pp 5 9 "\<lambda>_. 3"]
    by (simp add: five commit_def)
  obtain r where r: "extract_range ?pf ?pf' = (5, r)"
    using zp.honest_fork(2) [OF ne, of ?pp 5 9 "\<lambda>_. 3"] by (metis prod.collapse)
  have fork: "forked zp_prims h ?pf ?pf'" by (rule zp.honest_fork(1) [OF ne])
  have "commit zp_prims ?pp 5 9 = commit zp_prims ?pp 5 r"
    using range_proof_soundness [OF zp.ristretto_group_axioms ok ok' fork r, THEN conjunct1]
    by (simp only: scalar_from_u64_def five)
  with ok ok' fork r show ?thesis
    unfolding Let_def by (intro exI conjI)
qed

end
