(* ===== verification/Consensus.thy ===== *)
theory Consensus
  imports Pedersen
begin

text \<open>
  \<^verbatim>\<open>specter-net/src/consensus.rs\<close>: blocks of nullifiers, authenticated votes and the state machine a validator runs, and
  the verification of hybrid votes of \<^verbatim>\<open>specter-net/src/pq_consensus.rs\<close>.
  The order in which \<^verbatim>\<open>HashSet::drain\<close> hands out the pending nullifiers and the ML-DSA verification are parameters.
  Additions the source does not check wrap, as in a release build.
\<close>

section \<open>Blocks and votes\<close>

type_synonym node_id = u64

record nullifier_block =
  blk_height :: u64
  blk_leader :: node_id
  blk_nullifiers :: "bytes list"
  blk_prev_hash :: bytes
  blk_hash :: bytes

definition block_compute_hash :: "('s, 'p) prims \<Rightarrow> u64 \<Rightarrow> node_id \<Rightarrow> bytes list \<Rightarrow> bytes \<Rightarrow> bytes" where
  "block_compute_hash R height leader nullifiers prev_hash =
     sha256 R (ascii ''specter-block:'' @ u64_le height @ u64_le leader @ prev_hash @ concat nullifiers)"

definition block_new :: "('s, 'p) prims \<Rightarrow> u64 \<Rightarrow> node_id \<Rightarrow> bytes list \<Rightarrow> bytes \<Rightarrow> nullifier_block" where
  "block_new R height leader nullifiers prev_hash =
     \<lparr>blk_height = height, blk_leader = leader, blk_nullifiers = nullifiers, blk_prev_hash = prev_hash,
      blk_hash = block_compute_hash R height leader nullifiers prev_hash\<rparr>"

record ('s, 'p) vote_signature =
  vs_r :: 'p
  vs_s :: 's

record ('s, 'p) vote =
  v_voter :: node_id
  v_block_height :: u64
  v_view :: u64
  v_block_hash :: bytes
  v_approve :: bool
  v_signature :: "('s, 'p) vote_signature"

record ('s, 'p) validator_key =
  vk_node_id :: node_id
  vk_public_key :: 'p
  vk_secret_key :: 's

definition validator_generate :: "('s, 'p) prims \<Rightarrow> node_id \<Rightarrow> rng \<Rightarrow> ('s, 'p) validator_key \<times> rng" where
  "validator_generate R node_id g =
     (let (secret_key, g) = random_scalar R g
      in (\<lparr>vk_node_id = node_id, vk_public_key = smul R secret_key (basepoint R), vk_secret_key = secret_key\<rparr>, g))"

definition canonical_vote_bytes :: "node_id \<Rightarrow> u64 \<Rightarrow> bytes \<Rightarrow> bool \<Rightarrow> u64 \<Rightarrow> bytes" where
  "canonical_vote_bytes voter height hash approve view =
     ascii ''specter-hybrid-vote:'' @ u64_le voter @ u64_le height @ u64_le view @ hash @ [if approve then 1 else 0]"

definition vote_message :: "node_id \<Rightarrow> u64 \<Rightarrow> bytes \<Rightarrow> bool \<Rightarrow> u64 \<Rightarrow> bytes" where
  "vote_message voter height hash approve view = canonical_vote_bytes voter height hash approve view"

definition vote_challenge :: "('s, 'p) prims \<Rightarrow> 'p \<Rightarrow> 'p \<Rightarrow> bytes \<Rightarrow> 's" where
  "vote_challenge R r pk msg =
     from_bytes_mod_order_wide R (sha512 R (ascii ''specter-vote-challenge:'' @ compress R r @ compress R pk @ msg))"

definition sign_vote_with_view ::
  "('s::field, 'p) prims \<Rightarrow> ('s, 'p) validator_key \<Rightarrow> u64 \<Rightarrow> bytes \<Rightarrow> bool \<Rightarrow> u64 \<Rightarrow> rng \<Rightarrow> ('s, 'p) vote \<times> rng" where
  "sign_vote_with_view R key block_height block_hash approve view g =
     (let msg = vote_message (vk_node_id key) block_height block_hash approve view;
          (k, g) = random_scalar R g;
          r = smul R k (basepoint R);
          e = vote_challenge R r (vk_public_key key) msg;
          s = k + e * vk_secret_key key
      in (\<lparr>v_voter = vk_node_id key, v_block_height = block_height, v_view = view, v_block_hash = block_hash,
           v_approve = approve, v_signature = \<lparr>vs_r = r, vs_s = s\<rparr>\<rparr>, g))"

definition sign_vote ::
  "('s::field, 'p) prims \<Rightarrow> ('s, 'p) validator_key \<Rightarrow> u64 \<Rightarrow> bytes \<Rightarrow> bool \<Rightarrow> u64 \<Rightarrow> rng \<Rightarrow> ('s, 'p) vote \<times> rng" where
  "sign_vote R key block_height block_hash approve view g = sign_vote_with_view R key block_height block_hash approve view g"

definition verify_vote_signature :: "('s::field, 'p::ab_group_add) prims \<Rightarrow> ('s, 'p) vote \<Rightarrow> 'p \<Rightarrow> bool" where
  "verify_vote_signature R vote voter_pubkey =
     (let msg = vote_message (v_voter vote) (v_block_height vote) (v_block_hash vote) (v_approve vote) (v_view vote);
          e = vote_challenge R (vs_r (v_signature vote)) voter_pubkey msg;
          lhs = smul R (vs_s (v_signature vote)) (basepoint R);
          rhs = vs_r (v_signature vote) + smul R e voter_pubkey
      in compress R lhs = compress R rhs)"

section \<open>The state machine\<close>

datatype consensus_mode = Production | Test

datatype consensus_error =
    NotLeader node_id node_id
  | InsufficientValidators nat nat
  | UnknownVoter node_id
  | InvalidVoteSignature node_id
  | DuplicateVote node_id
  | Equivocation node_id u64
  | WrongHeight u64 u64
  | WrongView u64 u64
  | InvalidBlockHash

record ('s, 'p) consensus_state =
  cs_node_id :: node_id
  cs_total_validators :: nat
  cs_max_faults :: nat
  cs_quorum_size :: nat
  cs_validators :: "node_id list"
  cs_validator_keys :: "(node_id \<times> 'p) list"
  cs_current_height :: u64
  cs_committed_blocks :: "nullifier_block list"
  cs_committed_nullifiers :: "bytes set"
  cs_pending_nullifiers :: "bytes set"
  cs_votes :: "(bytes \<times> ('s, 'p) vote list) list"
  cs_view :: u64
  cs_seen_proposals :: "((u64 \<times> node_id) \<times> bytes) list"

definition consensus_new ::
  "node_id \<Rightarrow> node_id list \<Rightarrow> (node_id \<times> 'p) list \<Rightarrow> consensus_mode \<Rightarrow> (('s, 'p) consensus_state, consensus_error) result" where
  "consensus_new node_id validators validator_keys mode =
     (let n = length validators
      in if n < 1 then Err (InsufficientValidators 4 0)
         else if mode = Production \<and> n < 4 then Err (InsufficientValidators 4 n)
         else
           let max_faults = (n - 1) div 3;
               quorum_size = (if n < 4 then n else 2 * max_faults + 1)
           in Ok \<lparr>cs_node_id = node_id, cs_total_validators = n, cs_max_faults = max_faults, cs_quorum_size = quorum_size,
                  cs_validators = validators, cs_validator_keys = validator_keys, cs_current_height = 0,
                  cs_committed_blocks = [], cs_committed_nullifiers = {}, cs_pending_nullifiers = {}, cs_votes = [],
                  cs_view = 0, cs_seen_proposals = []\<rparr>)"

definition current_leader :: "('s, 'p) consensus_state \<Rightarrow> (node_id, 'e) result" where
  "current_leader st =
     (let n = of_nat (length (cs_validators st)) :: u64
      in if n = 0 then Panic
         else
           let idx = unat ((cs_current_height st mod n + cs_view st mod n) mod n)
           in if idx < length (cs_validators st) then Ok (cs_validators st ! idx) else Panic)"

definition MAX_PENDING_NULLIFIERS :: nat where
  "MAX_PENDING_NULLIFIERS = 100000"

definition consensus_submit :: "bytes \<Rightarrow> ('s, 'p) consensus_state \<Rightarrow> ('s, 'p) consensus_state" where
  "consensus_submit nullifier st =
     (if MAX_PENDING_NULLIFIERS \<le> card (cs_pending_nullifiers st) then st
      else if nullifier \<notin> cs_committed_nullifiers st
      then st\<lparr>cs_pending_nullifiers := insert nullifier (cs_pending_nullifiers st)\<rparr>
      else st)"

definition propose_block ::
  "('s, 'p) prims \<Rightarrow> (bytes set \<Rightarrow> bytes list) \<Rightarrow> ('s, 'p) consensus_state \<Rightarrow>
     (nullifier_block, consensus_error) result \<times> ('s, 'p) consensus_state" where
  "propose_block R drain st =
     (case current_leader st of
        Panic \<Rightarrow> (Panic, st)
      | Err e \<Rightarrow> (Err e, st)
      | Ok leader \<Rightarrow>
          if leader \<noteq> cs_node_id st then (Err (NotLeader leader (cs_node_id st)), st)
          else
            let nullifiers = drain (cs_pending_nullifiers st);
                prev_hash = (if cs_committed_blocks st = [] then replicate 32 0 else blk_hash (last (cs_committed_blocks st)))
            in (Ok (block_new R (cs_current_height st) (cs_node_id st) nullifiers prev_hash),
                st\<lparr>cs_pending_nullifiers := {}\<rparr>))"

definition receive_proposal ::
  "nullifier_block \<Rightarrow> ('s, 'p) consensus_state \<Rightarrow> (unit, consensus_error) result \<times> ('s, 'p) consensus_state" where
  "receive_proposal block st =
     (let key = (blk_height block, blk_leader block)
      in case map_of (cs_seen_proposals st) key of
           Some prev \<Rightarrow>
             if prev \<noteq> blk_hash block then (Err (Equivocation (blk_leader block) (blk_height block)), st) else (Ok (), st)
         | None \<Rightarrow> (Ok (), st\<lparr>cs_seen_proposals := AList.update key (blk_hash block) (cs_seen_proposals st)\<rparr>))"

definition votes_for :: "('s, 'p) consensus_state \<Rightarrow> bytes \<Rightarrow> ('s, 'p) vote list" where
  "votes_for st h = (case map_of (cs_votes st) h of None \<Rightarrow> [] | Some vs \<Rightarrow> vs)"

definition receive_vote ::
  "('s::field, 'p::ab_group_add) prims \<Rightarrow> ('s, 'p) vote \<Rightarrow> ('s, 'p) consensus_state \<Rightarrow>
     (unit, consensus_error) result \<times> ('s, 'p) consensus_state" where
  "receive_vote R vote st =
     (case map_of (cs_validator_keys st) (v_voter vote) of
        None \<Rightarrow> (Err (UnknownVoter (v_voter vote)), st)
      | Some voter_pk \<Rightarrow>
          if v_block_height vote \<noteq> cs_current_height st
          then (Err (WrongHeight (cs_current_height st) (v_block_height vote)), st)
          else if v_view vote \<noteq> cs_view st then (Err (WrongView (cs_view st) (v_view vote)), st)
          else if \<not> verify_vote_signature R vote voter_pk then (Err (InvalidVoteSignature (v_voter vote)), st)
          else if list_ex (\<lambda>v. v_voter v = v_voter vote) (votes_for st (v_block_hash vote))
          then (Err (DuplicateVote (v_voter vote)), st)
          else (Ok (), st\<lparr>cs_votes := AList.update (v_block_hash vote) (votes_for st (v_block_hash vote) @ [vote]) (cs_votes st)\<rparr>))"

definition approvals :: "('s, 'p) consensus_state \<Rightarrow> bytes \<Rightarrow> ('s, 'p) vote list" where
  "approvals st h = filter v_approve (votes_for st h)"

definition try_commit ::
  "('s, 'p) prims \<Rightarrow> nullifier_block \<Rightarrow> ('s, 'p) consensus_state \<Rightarrow> (bool, consensus_error) result \<times> ('s, 'p) consensus_state" where
  "try_commit R block st =
     (if block_compute_hash R (blk_height block) (blk_leader block) (blk_nullifiers block) (blk_prev_hash block) \<noteq> blk_hash block
      then (Err InvalidBlockHash, st)
      else if cs_quorum_size st \<le> length (approvals st (blk_hash block))
      then (Ok True, st\<lparr>cs_committed_nullifiers := cs_committed_nullifiers st \<union> set (blk_nullifiers block),
                      cs_committed_blocks := cs_committed_blocks st @ [block],
                      cs_current_height := cs_current_height st + 1,
                      cs_votes := AList.delete (blk_hash block) (cs_votes st)\<rparr>)
      else (Ok False, st))"

definition is_committed :: "bytes \<Rightarrow> ('s, 'p) consensus_state \<Rightarrow> bool" where
  "is_committed nullifier st \<longleftrightarrow> nullifier \<in> cs_committed_nullifiers st"

definition block_count :: "('s, 'p) consensus_state \<Rightarrow> nat" where
  "block_count st = length (cs_committed_blocks st)"

definition current_view :: "('s, 'p) consensus_state \<Rightarrow> u64" where
  "current_view st = cs_view st"

definition nullifier_count :: "('s, 'p) consensus_state \<Rightarrow> nat" where
  "nullifier_count st = card (cs_committed_nullifiers st)"

definition trigger_view_change :: "('s, 'p) consensus_state \<Rightarrow> ('s, 'p) consensus_state" where
  "trigger_view_change st = st\<lparr>cs_view := cs_view st + 1, cs_votes := []\<rparr>"

section \<open>Hybrid votes\<close>

text \<open>\<open>verify_pq\<close> is the lattice verification: decode the signature bytes and check them under a key.\<close>

record ('s, 'p) hybrid_vote =
  hv_classical :: "('s, 'p) vote"
  hv_pq_signature :: bytes

definition hybrid_vote_new :: "('s, 'p) vote \<Rightarrow> bytes \<Rightarrow> ('s, 'p) hybrid_vote" where
  "hybrid_vote_new classical pq_signature = \<lparr>hv_classical = classical, hv_pq_signature = pq_signature\<rparr>"

definition canonical_vote_message :: "('s, 'p) vote \<Rightarrow> bytes" where
  "canonical_vote_message vote =
     canonical_vote_bytes (v_voter vote) (v_block_height vote) (v_block_hash vote) (v_approve vote) (v_view vote)"

record ('k, 'sig) ml_dsa_prims =
  decode_signature :: "bytes \<Rightarrow> 'sig option"
  decode_verifying_key :: "bytes \<Rightarrow> 'k option"
  ml_dsa_verify :: "'k \<Rightarrow> bytes \<Rightarrow> 'sig \<Rightarrow> bool"

definition hybrid_verify ::
  "('s::field, 'p::ab_group_add) prims \<Rightarrow> ('k, 'sig) ml_dsa_prims \<Rightarrow> ('s, 'p) hybrid_vote \<Rightarrow> 'p \<Rightarrow> 'k \<Rightarrow> bool" where
  "hybrid_verify R M hv classical_pk pq_vk =
     (if \<not> verify_vote_signature R (hv_classical hv) classical_pk then False
      else case decode_signature M (hv_pq_signature hv) of
             None \<Rightarrow> False
           | Some sig \<Rightarrow> ml_dsa_verify M pq_vk (canonical_vote_message (hv_classical hv)) sig)"

definition parse_pq_verifying_key :: "('k, 'sig) ml_dsa_prims \<Rightarrow> bytes \<Rightarrow> 'k option" where
  "parse_pq_verifying_key M encoded = decode_verifying_key M encoded"

section \<open>Quorums\<close>

text \<open>
  What voting relies on: two quorums of a committee share a member that is not faulty. The operations are those of a state: its
  members, the number of faults it tolerates and its quorum size, in the states that \<open>sized\<close> describes.
\<close>

locale quorum_system =
  fixes members :: "'st \<Rightarrow> 'n set" and faults :: "'st \<Rightarrow> nat" and quorum :: "'st \<Rightarrow> nat" and sized :: "'st \<Rightarrow> bool"
  assumes finite_members: "sized st \<Longrightarrow> finite (members st)"
    and overlap: "sized st \<Longrightarrow> card (members st) + faults st < 2 * quorum st"
begin

lemma quorum_intersection:
  assumes "sized st" and "Q \<subseteq> members st" and "Q' \<subseteq> members st" and "quorum st \<le> card Q" and "quorum st \<le> card Q'"
  shows "faults st < card (Q \<inter> Q')"
proof -
  have fin: "finite (members st)" using assms(1) by (rule finite_members)
  then have "finite Q" "finite Q'" using assms(2,3) finite_subset by blast+
  then have "card Q + card Q' = card (Q \<union> Q') + card (Q \<inter> Q')" by (rule card_Un_Int)
  moreover have "card (Q \<union> Q') \<le> card (members st)" using assms fin by (intro card_mono) auto
  ultimately show ?thesis using overlap [OF assms(1)] assms(4,5) by linarith
qed

lemma honest_in_both:
  assumes "sized st" and "Q \<subseteq> members st" and "Q' \<subseteq> members st" and "quorum st \<le> card Q" and "quorum st \<le> card Q'"
    and "card F \<le> faults st" and "finite F"
  shows "\<exists>i\<in>Q \<inter> Q'. i \<notin> F"
proof (rule ccontr)
  assume "\<not> ?thesis"
  then have "card (Q \<inter> Q') \<le> card F" using assms(7) by (intro card_mono) auto
  then show False using quorum_intersection [OF assms(1-5)] assms(6) by linarith
qed

end

definition quorum_of :: "nat \<Rightarrow> nat" where
  "quorum_of n = (if n < 4 then n else 2 * ((n - 1) div 3) + 1)"

text \<open>A committee of distinct validators whose size the quorum formula fits: below four, or one more than a multiple of three.\<close>

definition bft_sized :: "('s, 'p) consensus_state \<Rightarrow> bool" where
  "bft_sized st \<longleftrightarrow> (let n = length (cs_validators st) in
     distinct (cs_validators st) \<and> 0 < n \<and> (n < 4 \<or> n mod 3 = 1) \<and>
     cs_max_faults st = (n - 1) div 3 \<and> cs_quorum_size st = quorum_of n)"

lemma quorum_overlap_iff:
  assumes "0 < n"
  shows "n + (n - 1) div 3 < 2 * quorum_of n \<longleftrightarrow> n < 4 \<or> n mod 3 = 1"
proof (cases "n < 4")
  case True
  then have "n = 1 \<or> n = 2 \<or> n = 3" using assms by auto
  then show ?thesis by (auto simp: quorum_of_def)
next
  case False
  define d where "d = (n - 1) div 3"
  have "n mod 3 = 1 \<longleftrightarrow> n = 3 * d + 1" "3 * d + 1 \<le> n" "n < 3 * d + 4" unfolding d_def using False by presburger+
  then show ?thesis using False unfolding quorum_of_def d_def [symmetric] by auto
qed

interpretation bft: quorum_system "\<lambda>st. set (cs_validators st)" cs_max_faults cs_quorum_size bft_sized
proof
  fix st :: "('s, 'p) consensus_state"
  assume "bft_sized st"
  then show "card (set (cs_validators st)) + cs_max_faults st < 2 * cs_quorum_size st"
    using quorum_overlap_iff [of "length (cs_validators st)"] by (simp add: bft_sized_def Let_def distinct_card)
qed simp

section \<open>The votes a state holds\<close>

sublocale ristretto_group \<subseteq> vote_sig: schnorr R "vote_challenge R"
  by unfold_locales

lemma verify_vote_eq:
  "verify_vote_signature R vote pk \<longleftrightarrow>
     schnorr_accepts R (vote_challenge R (vs_r (v_signature vote)) pk (canonical_vote_message vote)) pk (vs_r (v_signature vote))
       (vs_s (v_signature vote))"
  by (simp add: verify_vote_signature_def schnorr_accepts_def Let_def canonical_vote_message_def vote_message_def)

definition key_ok :: "('s, 'p) prims \<Rightarrow> ('s, 'p) validator_key \<Rightarrow> bool" where
  "key_ok R key \<longleftrightarrow> vk_public_key key = smul R (vk_secret_key key) (basepoint R)"

lemma sign_vote_fields:
  assumes "sign_vote R key h hash a w g = (vote, g')"
  shows "v_voter vote = vk_node_id key" "v_block_height vote = h" "v_view vote = w" "v_block_hash vote = hash" "v_approve vote = a"
  using assms by (auto simp: sign_vote_def sign_vote_with_view_def Let_def split: prod.splits)

context ristretto_group
begin

lemma signed_vote_verifies:
  assumes "key_ok R key" and "sign_vote R key h hash a w g = (vote, g')"
  shows "verify_vote_signature R vote (vk_public_key key)"
proof -
  obtain k g1 where k: "random_scalar R g = (k, g1)" by fastforce
  let ?r = "smul R k (basepoint R)" and ?m = "canonical_vote_bytes (vk_node_id key) h hash a w"
  have "vote = \<lparr>v_voter = vk_node_id key, v_block_height = h, v_view = w, v_block_hash = hash, v_approve = a,
      v_signature = \<lparr>vs_r = ?r, vs_s = k + vote_challenge R ?r (vk_public_key key) ?m * vk_secret_key key\<rparr>\<rparr>"
    using assms(2) by (simp add: sign_vote_def sign_vote_with_view_def vote_message_def k Let_def)
  then show ?thesis
    using vote_sig.signed_accepts [of "vk_public_key key" "vk_secret_key key" ?r k ?m] assms(1)
    by (simp add: verify_vote_eq canonical_vote_message_def key_ok_def)
qed

end

text \<open>
  What every state keeps: the sizes fixed at the start; under each hash the votes of different known validators, for that hash
  and the current view, with valid signatures; and the committed nullifiers as those of the committed blocks.
\<close>

definition vote_ok :: "('s::field, 'p::ab_group_add) prims \<Rightarrow> ('s, 'p) consensus_state \<Rightarrow> bytes \<Rightarrow> ('s, 'p) vote \<Rightarrow> bool" where
  "vote_ok R st h v \<longleftrightarrow> v_block_hash v = h \<and> v_view v = cs_view st \<and>
     (\<exists>pk. map_of (cs_validator_keys st) (v_voter v) = Some pk \<and> verify_vote_signature R v pk)"

definition consensus_inv :: "('s::field, 'p::ab_group_add) prims \<Rightarrow> ('s, 'p) consensus_state \<Rightarrow> bool" where
  "consensus_inv R st \<longleftrightarrow>
     cs_quorum_size st = quorum_of (length (cs_validators st)) \<and> cs_max_faults st = (length (cs_validators st) - 1) div 3 \<and>
     (\<forall>h. distinct (map v_voter (votes_for st h)) \<and> (\<forall>v\<in>set (votes_for st h). vote_ok R st h v)) \<and>
     cs_committed_nullifiers st = (\<Union>b\<in>set (cs_committed_blocks st). set (blk_nullifiers b)) \<and>
     (\<forall>b\<in>set (cs_committed_blocks st).
        blk_hash b = block_compute_hash R (blk_height b) (blk_leader b) (blk_nullifiers b) (blk_prev_hash b)) \<and>
     cs_current_height st = of_nat (length (cs_committed_blocks st))"

inductive consensus_step ::
  "('s::field, 'p::ab_group_add) prims \<Rightarrow> (bytes set \<Rightarrow> bytes list) \<Rightarrow> ('s, 'p) consensus_state \<Rightarrow> ('s, 'p) consensus_state \<Rightarrow> bool"
  for R drain where
  submit: "consensus_step R drain st (consensus_submit n st)"
| propose: "propose_block R drain st = (r, st') \<Longrightarrow> consensus_step R drain st st'"
| proposal: "receive_proposal b st = (r, st') \<Longrightarrow> consensus_step R drain st st'"
| vote: "receive_vote R v st = (r, st') \<Longrightarrow> consensus_step R drain st st'"
| commit: "try_commit R b st = (r, st') \<Longrightarrow> consensus_step R drain st st'"
| view_change: "consensus_step R drain st (trigger_view_change st)"

inductive_cases consensus_stepE: "consensus_step R drain st st'"

lemma votes_for_update: "votes_for (st\<lparr>cs_votes := AList.update h vs (cs_votes st)\<rparr>) h' = (if h' = h then vs else votes_for st h')"
  by (simp add: votes_for_def update_conv')

lemma votes_for_delete: "votes_for (st\<lparr>cs_votes := AList.delete h (cs_votes st)\<rparr>) h' = (if h' = h then [] else votes_for st h')"
  by (simp add: votes_for_def delete_conv')

lemma votes_for_cong: "cs_votes st' = cs_votes st \<Longrightarrow> votes_for st' h = votes_for st h"
  by (simp add: votes_for_def)

lemma consensus_inv_same:
  assumes "consensus_inv R st" and "cs_votes st' = cs_votes st" and "cs_view st' = cs_view st" and "cs_validators st' = cs_validators st"
    and "cs_validator_keys st' = cs_validator_keys st" and "cs_quorum_size st' = cs_quorum_size st" and "cs_max_faults st' = cs_max_faults st"
    and "cs_committed_nullifiers st' = cs_committed_nullifiers st" and "cs_committed_blocks st' = cs_committed_blocks st"
    and "cs_current_height st' = cs_current_height st"
  shows "consensus_inv R st'"
  using assms by (simp add: consensus_inv_def vote_ok_def votes_for_cong [OF assms(2)])

lemma receive_vote_inv:
  assumes inv: "consensus_inv R st" and r: "receive_vote R v st = (r, st')"
  shows "consensus_inv R st'"
proof (cases "st' = st")
  case False
  let ?h = "v_block_hash v"
  obtain pk where pk: "map_of (cs_validator_keys st) (v_voter v) = Some pk" "verify_vote_signature R v pk" "v_view v = cs_view st"
      "\<forall>w\<in>set (votes_for st ?h). v_voter w \<noteq> v_voter v"
      "st' = st\<lparr>cs_votes := AList.update ?h (votes_for st ?h @ [v]) (cs_votes st)\<rparr>"
    using r False by (auto simp: receive_vote_def list_ex_iff split: option.splits if_splits)
  then have "vote_ok R st ?h v" by (simp add: vote_ok_def)
  then show ?thesis
    using inv pk(4) unfolding consensus_inv_def pk(5) votes_for_update by (auto simp: vote_ok_def)
qed (use inv in simp)

lemma try_commit_inv:
  assumes inv: "consensus_inv R st" and r: "try_commit R b st = (r, st')"
  shows "consensus_inv R st'"
proof (cases "st' = st")
  case False
  let ?st = "st\<lparr>cs_votes := AList.delete (blk_hash b) (cs_votes st)\<rparr>"
  have st': "st' = ?st\<lparr>cs_committed_nullifiers := cs_committed_nullifiers st \<union> set (blk_nullifiers b),
      cs_committed_blocks := cs_committed_blocks st @ [b], cs_current_height := cs_current_height st + 1\<rparr>"
    and h: "blk_hash b = block_compute_hash R (blk_height b) (blk_leader b) (blk_nullifiers b) (blk_prev_hash b)"
    using r False by (auto simp: try_commit_def split: if_splits)
  have v: "votes_for st' h = (if h = blk_hash b then [] else votes_for st h)" for h
    using votes_for_cong [of st' ?st h] votes_for_delete [of "blk_hash b" st h] by (simp add: st')
  show ?thesis using inv h unfolding consensus_inv_def v by (auto simp: st' vote_ok_def)
qed (use inv in simp)

lemma consensus_step_inv: "consensus_step R drain st st' \<Longrightarrow> consensus_inv R st \<Longrightarrow> consensus_inv R st'"
proof (induction rule: consensus_step.induct)
  case (submit st n)
  then show ?case by (rule consensus_inv_same) (simp_all add: consensus_submit_def)
next
  case (propose st r st')
  then show ?case by (intro consensus_inv_same [of R st st']) (auto simp: propose_block_def Let_def split: result.splits if_splits)
next
  case (proposal b st r st')
  then show ?case by (intro consensus_inv_same [of R st st']) (auto simp: receive_proposal_def Let_def split: option.splits if_splits)
next
  case (view_change st)
  then show ?case by (simp add: consensus_inv_def trigger_view_change_def votes_for_def)
qed (auto intro: receive_vote_inv try_commit_inv)

lemma consensus_new_inv:
  assumes "consensus_new i vs keys mode = Ok (st :: ('s::field, 'p::ab_group_add) consensus_state)"
  shows "consensus_inv R st" "cs_validators st = vs" "cs_validator_keys st = keys" "vs \<noteq> []"
  using assms by (auto simp: consensus_new_def Let_def consensus_inv_def votes_for_def quorum_of_def split: if_splits)

text \<open>The steps change neither the committee nor what has been committed before.\<close>

definition committee_same :: "('s, 'p) consensus_state \<Rightarrow> ('s, 'p) consensus_state \<Rightarrow> bool" where
  "committee_same st st' \<longleftrightarrow> cs_validators st' = cs_validators st \<and> cs_validator_keys st' = cs_validator_keys st \<and>
     cs_quorum_size st' = cs_quorum_size st \<and> cs_max_faults st' = cs_max_faults st \<and>
     (\<exists>bs. cs_committed_blocks st' = cs_committed_blocks st @ bs)"

lemma consensus_step_same: "consensus_step R drain st st' \<Longrightarrow> committee_same st st'"
  by (induction rule: consensus_step.induct)
    (auto simp: committee_same_def consensus_submit_def propose_block_def receive_proposal_def receive_vote_def try_commit_def
      trigger_view_change_def Let_def split: result.splits option.splits if_splits)

lemma consensus_reach:
  assumes "(consensus_step R drain)\<^sup>*\<^sup>* st st'" and "consensus_inv R st"
  shows "consensus_inv R st' \<and> committee_same st st'"
  using assms
proof (induction rule: rtranclp_induct)
  case base
  then show ?case by (simp add: committee_same_def)
next
  case (step y z)
  then show ?case using consensus_step_inv [OF step(2)] consensus_step_same [OF step(2)] by (auto simp: committee_same_def)
qed

text \<open>A committed block has the approvals of a quorum of different validators.\<close>

lemma commit_quorum:
  assumes "consensus_inv R st" and "try_commit R b st = (Ok True, st')"
  obtains Q where "Q = v_voter ` set (approvals st (blk_hash b))" "Q \<subseteq> dom (map_of (cs_validator_keys st))"
    "cs_quorum_size st \<le> card Q"
proof -
  have d: "distinct (map v_voter (approvals st (blk_hash b)))" "\<forall>v\<in>set (approvals st (blk_hash b)). vote_ok R st (blk_hash b) v"
    using assms(1) by (simp_all add: consensus_inv_def approvals_def distinct_map_filter)
  have "card (v_voter ` set (approvals st (blk_hash b))) = length (approvals st (blk_hash b))"
    using distinct_card [OF d(1)] by simp
  then show thesis
    using that [OF refl] d(2) assms(2) by (force simp: try_commit_def vote_ok_def split: if_splits)
qed

section \<open>Collecting votes\<close>

text \<open>Validators sign an approval of one block each, at the height and view of the receiving state, and it receives them in turn.\<close>

definition cast :: "('s::field, 'p::ab_group_add) prims \<Rightarrow> (node_id \<Rightarrow> rng) \<Rightarrow> bytes \<Rightarrow> ('s, 'p) validator_key \<Rightarrow>
     ('s, 'p) consensus_state \<Rightarrow> ('s, 'p) consensus_state" where
  "cast R tape h key st =
     snd (receive_vote R (fst (sign_vote R key (cs_current_height st) h True (cs_view st) (tape (vk_node_id key)))) st)"

definition collect_votes where
  "collect_votes R tape h keys st = foldl (\<lambda>st key. cast R tape h key st) st keys"

context ristretto_group
begin

lemma cast_ok:
  assumes "key_ok R key" and "map_of (cs_validator_keys st) (vk_node_id key) = Some (vk_public_key key)"
    and "vk_node_id key \<notin> v_voter ` set (votes_for st h)"
  obtains v where "cast R tape h key st = st\<lparr>cs_votes := AList.update h (votes_for st h @ [v]) (cs_votes st)\<rparr>"
    "v_voter v = vk_node_id key" "v_approve v" "v_block_height v = cs_current_height st" "v_view v = cs_view st" "v_block_hash v = h"
proof -
  obtain v g' where v: "sign_vote R key (cs_current_height st) h True (cs_view st) (tape (vk_node_id key)) = (v, g')" by fastforce
  note f = sign_vote_fields [OF v]
  have "\<not> list_ex (\<lambda>w. v_voter w = v_voter v) (votes_for st h)" using assms(3) f(1) by (auto simp: list_ex_iff image_iff)
  then have "cast R tape h key st = st\<lparr>cs_votes := AList.update h (votes_for st h @ [v]) (cs_votes st)\<rparr>"
    using signed_vote_verifies [OF assms(1) v] assms(2) f by (simp add: cast_def v receive_vote_def)
  then show thesis using that f by blast
qed

lemma collect_votes_ok:
  assumes "\<forall>key\<in>set keys. key_ok R key \<and> map_of (cs_validator_keys st) (vk_node_id key) = Some (vk_public_key key)"
    and "distinct (map vk_node_id keys)" and "vk_node_id ` set keys \<inter> v_voter ` set (votes_for st h) = {}"
  shows "\<exists>vs. collect_votes R tape h keys st = st\<lparr>cs_votes := cs_votes (collect_votes R tape h keys st)\<rparr> \<and>
    votes_for (collect_votes R tape h keys st) h = votes_for st h @ vs \<and> map v_voter vs = map vk_node_id keys \<and>
    (\<forall>v\<in>set vs. v_approve v \<and> v_block_height v = cs_current_height st \<and> v_view v = cs_view st \<and> v_block_hash v = h)"
  using assms
proof (induction keys arbitrary: st)
  case (Cons key keys)
  have key: "key_ok R key" "map_of (cs_validator_keys st) (vk_node_id key) = Some (vk_public_key key)"
    "vk_node_id key \<notin> v_voter ` set (votes_for st h)" using Cons.prems by simp_all
  obtain v where v: "cast R tape h key st = st\<lparr>cs_votes := AList.update h (votes_for st h @ [v]) (cs_votes st)\<rparr>"
    "v_voter v = vk_node_id key" "v_approve v" "v_block_height v = cs_current_height st" "v_view v = cs_view st" "v_block_hash v = h"
    by (rule cast_ok [OF key])
  let ?st = "cast R tape h key st"
  have vf: "votes_for ?st h = votes_for st h @ [v]" by (simp add: v(1) votes_for_update)
  have same: "cs_validator_keys ?st = cs_validator_keys st" "cs_current_height ?st = cs_current_height st" "cs_view ?st = cs_view st"
    by (simp_all add: v(1))
  obtain vs where vs: "collect_votes R tape h keys ?st = ?st\<lparr>cs_votes := cs_votes (collect_votes R tape h keys ?st)\<rparr>"
    "votes_for (collect_votes R tape h keys ?st) h = votes_for ?st h @ vs" "map v_voter vs = map vk_node_id keys"
    "\<forall>v\<in>set vs. v_approve v \<and> v_block_height v = cs_current_height ?st \<and> v_view v = cs_view ?st \<and> v_block_hash v = h"
    using Cons.IH [of ?st] Cons.prems v(2) by (auto simp: same vf)
  have c: "collect_votes R tape h (key # keys) st = collect_votes R tape h keys ?st" by (simp add: collect_votes_def)
  have "collect_votes R tape h keys ?st = st\<lparr>cs_votes := cs_votes (collect_votes R tape h keys ?st)\<rparr>"
    using vs(1) by (subst vs(1)) (simp add: v(1))
  then show ?case
    unfolding c by (intro exI [of _ "v # vs"]) (use vs(2-4) v(2-6) in \<open>simp add: vf same\<close>)
qed (simp add: collect_votes_def)

end

section \<open>Properties\<close>

text \<open>Agreement. Two nodes with the same committee of distinct validators, of a size the quorum formula fits, reach by
  any sequence of operations states in the same view and each commits a block of the same height there. If at most
  \<open>(n - 1) / 3\<close> validators are faulty and the others approve at most one hash per height and view, and a
  block's hash only together with the block's own height, then both have committed the same block hash.\<close>

lemma consensus_agreement:
  assumes "consensus_new i vs keys mode = Ok s" and "consensus_new i' vs keys mode' = Ok s'"
    and "distinct vs" and "set vs = fst ` set keys" and "length vs < 4 \<or> length vs mod 3 = 1"
    and "(consensus_step R drain)\<^sup>*\<^sup>* s st" and "(consensus_step R drain')\<^sup>*\<^sup>* s' st'"
    and "try_commit R b st = (Ok True, t)" and "try_commit R b' st' = (Ok True, t')"
    and "cs_view st = cs_view st'" and "blk_height b = blk_height b'"
    and "finite faulty" and "card faulty \<le> (length vs - 1) div 3"
    and "\<forall>v\<in>set (approvals st (blk_hash b)) \<union> set (approvals st' (blk_hash b')).
      v_voter v \<notin> faulty \<longrightarrow> (v_block_height v, v_view v, v_block_hash v) \<in> approved (v_voter v)"
    and "\<forall>j h w x y. j \<notin> faulty \<and> (h, w, x) \<in> approved j \<and> (h, w, y) \<in> approved j \<longrightarrow> x = y"
    and "\<forall>j h w c. j \<notin> faulty \<and> (h, w, blk_hash c) \<in> approved j \<and> c \<in> {b, b'} \<longrightarrow> h = blk_height c"
  shows "blk_hash b = blk_hash b'"
proof -
  note n = consensus_new_inv(1) [OF assms(1), of R] consensus_new_inv(2-4) [OF assms(1)]
    and n' = consensus_new_inv(1) [OF assms(2), of R] consensus_new_inv(2-4) [OF assms(2)]
  have r: "consensus_inv R st" "cs_validators st = vs" "cs_validator_keys st = keys" "cs_quorum_size st = quorum_of (length vs)"
      "cs_max_faults st = (length vs - 1) div 3"
    using consensus_reach [OF assms(6) n(1)] n by (auto simp: committee_same_def consensus_inv_def)
  have r': "consensus_inv R st'" "cs_validator_keys st' = keys" "cs_quorum_size st' = quorum_of (length vs)"
    using consensus_reach [OF assms(7) n'(1)] n' by (auto simp: committee_same_def consensus_inv_def)
  obtain Q where Q: "Q = v_voter ` set (approvals st (blk_hash b))" "Q \<subseteq> dom (map_of keys)" "quorum_of (length vs) \<le> card Q"
    by (rule commit_quorum [OF r(1) assms(8)]) (simp add: r)
  obtain Q' where Q': "Q' = v_voter ` set (approvals st' (blk_hash b'))" "Q' \<subseteq> dom (map_of keys)" "quorum_of (length vs) \<le> card Q'"
    by (rule commit_quorum [OF r'(1) assms(9)]) (simp add: r')
  have "bft_sized st" using assms(3,5) r n(4) by (simp add: bft_sized_def Let_def)
  then obtain j where j: "j \<in> Q" "j \<in> Q'" "j \<notin> faulty"
    using bft.honest_in_both [of st Q Q' faulty] Q Q' r assms(4,12,13) by (auto simp: dom_map_of_conv_image_fst)
  then obtain v v' where v: "v \<in> set (approvals st (blk_hash b))" "v_voter v = j"
      "v' \<in> set (approvals st' (blk_hash b'))" "v_voter v' = j" using Q(1) Q'(1) by auto
  have "vote_ok R st (blk_hash b) v" "vote_ok R st' (blk_hash b') v'"
    using r(1) r'(1) v(1,3) by (simp_all add: consensus_inv_def approvals_def)
  moreover have "(v_block_height v, v_view v, v_block_hash v) \<in> approved j" "(v_block_height v', v_view v', v_block_hash v') \<in> approved j"
    using bspec [OF assms(14), of v] bspec [OF assms(14), of v'] v j(3) by simp_all
  ultimately have "(v_block_height v, cs_view st, blk_hash b) \<in> approved j" "(v_block_height v', cs_view st, blk_hash b') \<in> approved j"
    using assms(10) by (simp_all add: vote_ok_def)
  moreover from this have "v_block_height v = blk_height b" "v_block_height v' = blk_height b'"
    using assms(16) [rule_format, of j _ _ b] assms(16) [rule_format, of j _ _ b'] j(3) by simp_all
  then have "v_block_height v = v_block_height v'" using assms(11) by simp
  ultimately show ?thesis using assms(15) j(3) by metis
qed

text \<open>Four validators over the prime field; node one collects the approvals of the first three, node four those of the last three.\<close>

definition demo_key :: "node_id \<Rightarrow> (zp, zp) validator_key" where
  "demo_key j = \<lparr>vk_node_id = j, vk_public_key = smul zp_prims (of_nat (unat j)) (basepoint zp_prims), vk_secret_key = of_nat (unat j)\<rparr>"

definition demo_keys :: "(node_id \<times> zp) list" where
  "demo_keys = map (\<lambda>j. (j, vk_public_key (demo_key j))) [1, 2, 3, 4]"

definition demo_node :: "node_id \<Rightarrow> (zp, zp) consensus_state" where
  "demo_node i = (case consensus_new i [1, 2, 3, 4] demo_keys Production of Ok st \<Rightarrow> st)"

definition demo_block :: nullifier_block where
  "demo_block = block_new zp_prims 0 1 [replicate 32 9] (replicate 32 0)"

lemma demo_node_new: "consensus_new i [1, 2, 3, 4] demo_keys Production = Ok (demo_node i)"
  by (simp add: demo_node_def consensus_new_def)

lemma cast_step: "consensus_step R drain st (cast R tape h key st)"
  unfolding cast_def by (rule consensus_step.vote) (rule prod.collapse [symmetric])

lemma collect_votes_steps: "(consensus_step R drain)\<^sup>*\<^sup>* st (collect_votes R tape h keys st)"
proof (induction keys arbitrary: st)
  case (Cons key keys)
  from converse_rtranclp_into_rtranclp [OF cast_step Cons.IH] show ?case by (simp add: collect_votes_def)
qed (simp add: collect_votes_def)

lemma demo_collect:
  fixes i :: node_id
  assumes "distinct js" and "set js \<subseteq> {1, 2, 3, 4}" and "length js = 3"
  defines "st \<equiv> collect_votes zp_prims (\<lambda>_ _. 5) (blk_hash demo_block) (map demo_key js) (demo_node i)"
  shows "\<exists>t. try_commit zp_prims demo_block st = (Ok True, t)" and "cs_view st = 0"
    and "\<forall>v\<in>set (approvals st (blk_hash demo_block)). v_block_height v = 0 \<and> v_view v = 0 \<and> v_block_hash v = blk_hash demo_block"
proof -
  have node: "cs_validator_keys (demo_node i) = demo_keys" "cs_votes (demo_node i) = []" "cs_current_height (demo_node i) = 0"
      "cs_view (demo_node i) = 0" "cs_quorum_size (demo_node i) = 3"
    by (simp_all add: demo_node_def consensus_new_def Let_def)
  have "map_of demo_keys j = Some (vk_public_key (demo_key j))" if "j \<in> {1, 2, 3, 4}" for j
    using that by (auto simp: demo_keys_def)
  then have "\<forall>key\<in>set (map demo_key js). key_ok zp_prims key \<and>
      map_of (cs_validator_keys (demo_node i)) (vk_node_id key) = Some (vk_public_key key)"
    using assms(2) by (auto simp: node key_ok_def demo_key_def)
  from zp.collect_votes_ok [OF this, of "blk_hash demo_block" "\<lambda>_ _. 5"] assms(1)
  obtain vs where vs: "st = (demo_node i)\<lparr>cs_votes := cs_votes st\<rparr>" "votes_for st (blk_hash demo_block) = vs"
      "map v_voter vs = map vk_node_id (map demo_key js)"
      "\<forall>v\<in>set vs. v_approve v \<and> v_block_height v = 0 \<and> v_view v = 0 \<and> v_block_hash v = blk_hash demo_block"
    by (auto simp: st_def node votes_for_def demo_key_def o_def)
  have a: "approvals st (blk_hash demo_block) = vs" using vs(2,4) by (simp add: approvals_def filter_id_conv)
  have "length vs = 3" using arg_cong [OF vs(3), of length] assms(3) by simp
  moreover have "cs_quorum_size st = 3" by (subst vs(1)) (simp add: node)
  ultimately show "\<exists>t. try_commit zp_prims demo_block st = (Ok True, t)"
    using a by (simp add: try_commit_def demo_block_def block_new_def)
  show "cs_view st = 0" by (subst vs(1)) (simp add: node)
  show "\<forall>v\<in>set (approvals st (blk_hash demo_block)). v_block_height v = 0 \<and> v_view v = 0 \<and> v_block_hash v = blk_hash demo_block"
    using vs(4) by (simp add: a)
qed

lemma consensus_agreement_witness:
  "\<exists>st st' t t'. (consensus_step zp_prims (\<lambda>_. []))\<^sup>*\<^sup>* (demo_node 1) st \<and> (consensus_step zp_prims (\<lambda>_. []))\<^sup>*\<^sup>* (demo_node 4) st' \<and>
     try_commit zp_prims demo_block st = (Ok True, t) \<and> try_commit zp_prims demo_block st' = (Ok True, t') \<and>
     blk_hash demo_block = blk_hash demo_block"
proof -
  let ?c = "\<lambda>js. collect_votes zp_prims (\<lambda>_ _. 5) (blk_hash demo_block) (map demo_key js)"
  note a = demo_collect [of "[1, 2, 3]" 1, simplified] and b = demo_collect [of "[2, 3, 4]" 4, simplified]
  obtain t where t: "try_commit zp_prims demo_block (?c [1, 2, 3] (demo_node 1)) = (Ok True, t)" using a(1) by auto
  obtain t' where t': "try_commit zp_prims demo_block (?c [2, 3, 4] (demo_node 4)) = (Ok True, t')" using b(1) by auto
  note reach = collect_votes_steps [of zp_prims "\<lambda>_. []" _ "\<lambda>_ _. 5" "blk_hash demo_block"]
  have "blk_hash demo_block = blk_hash demo_block"
    by (rule consensus_agreement [OF demo_node_new demo_node_new _ _ _ reach reach t t', where faulty = "{}" and
        approved = "\<lambda>_. {(0, 0, blk_hash demo_block)}"])
      (use a(2,3) b(2,3) in \<open>simp_all add: ball_Un demo_keys_def demo_block_def block_new_def\<close>)
  with t t' reach show ?thesis by blast
qed

text \<open>C29: what every reachable state of a validator keeps, whatever it is sent: under each block hash it holds votes of
  different known validators only, each for that hash and the current view and with a valid signature; the committed nullifiers
  are exactly those of the committed blocks, whose hashes match their contents; the height counts the blocks; and commits are
  only ever appended.\<close>

theorem consensus_state_invariant:
  assumes "consensus_new i vs keys mode = Ok s" and "(consensus_step R drain)\<^sup>*\<^sup>* s st" and "(consensus_step R drain)\<^sup>*\<^sup>* st st'"
  shows "(\<forall>h. distinct (map v_voter (votes_for st h)) \<and>
      (\<forall>v\<in>set (votes_for st h). v_block_hash v = h \<and> v_view v = cs_view st \<and>
        (\<exists>pk. map_of keys (v_voter v) = Some pk \<and> verify_vote_signature R v pk))) \<and>
    cs_committed_nullifiers st = (\<Union>b\<in>set (cs_committed_blocks st). set (blk_nullifiers b)) \<and>
    (\<forall>b\<in>set (cs_committed_blocks st).
      blk_hash b = block_compute_hash R (blk_height b) (blk_leader b) (blk_nullifiers b) (blk_prev_hash b)) \<and>
    cs_current_height st = of_nat (length (cs_committed_blocks st)) \<and>
    (\<exists>bs. cs_committed_blocks st' = cs_committed_blocks st @ bs) \<and> cs_committed_nullifiers st \<subseteq> cs_committed_nullifiers st'"
proof -
  have st: "consensus_inv R st" "cs_validator_keys st = keys"
    using consensus_reach [OF assms(2) consensus_new_inv(1) [OF assms(1)]] consensus_new_inv(3) [OF assms(1)]
    by (auto simp: committee_same_def)
  have st': "consensus_inv R st'" "\<exists>bs. cs_committed_blocks st' = cs_committed_blocks st @ bs"
    using consensus_reach [OF assms(3) st(1)] by (auto simp: committee_same_def)
  have "cs_committed_nullifiers st \<subseteq> cs_committed_nullifiers st'"
    using st(1) st' by (auto simp: consensus_inv_def)
  moreover have "(\<forall>h. distinct (map v_voter (votes_for st h)) \<and>
      (\<forall>v\<in>set (votes_for st h). v_block_hash v = h \<and> v_view v = cs_view st \<and>
        (\<exists>pk. map_of keys (v_voter v) = Some pk \<and> verify_vote_signature R v pk)))"
    using st by (simp add: consensus_inv_def vote_ok_def)
  ultimately show ?thesis using st st'(2) unfolding consensus_inv_def by blast
qed

theorem consensus_state_invariant_witness:
  "distinct (map v_voter (votes_for (collect_votes zp_prims (\<lambda>_ _. 5) (blk_hash demo_block) [demo_key 1, demo_key 2, demo_key 3]
     (demo_node 1)) (blk_hash demo_block)))"
  using consensus_state_invariant [OF demo_node_new collect_votes_steps rtranclp.rtrancl_refl] by blast

text \<open>C30: when the quorum size of a committee is enough. Any two quorums of a committee of distinct validators share more
  members than the faults it claims to tolerate exactly when it has fewer than four validators or one more than a multiple of
  three; for all other sizes there are two quorums whose common members could all be faulty.\<close>

theorem quorum_overlap_exact:
  fixes st :: "('s::field, 'p::ab_group_add) consensus_state"
  assumes "consensus_new i vs keys mode = Ok st" and "distinct vs"
  shows "(\<forall>Q Q'. Q \<subseteq> set vs \<and> Q' \<subseteq> set vs \<and> cs_quorum_size st \<le> card Q \<and> cs_quorum_size st \<le> card Q' \<longrightarrow>
      cs_max_faults st < card (Q \<inter> Q')) \<longleftrightarrow> length vs < 4 \<or> length vs mod 3 = 1"
    (is "?safe \<longleftrightarrow> ?size")
proof
  have st: "cs_quorum_size st = quorum_of (length vs)" "cs_max_faults st = (length vs - 1) div 3" "cs_validators st = vs" "vs \<noteq> []"
    using consensus_new_inv [OF assms(1)] unfolding consensus_inv_def by simp_all
  show ?safe if ?size
  proof -
    have "bft_sized st" using st that assms(2) by (simp add: bft_sized_def Let_def)
    from bft.quorum_intersection [OF this] show ?thesis using st(3) by auto
  qed
  show ?size if ?safe
  proof -
    let ?q = "quorum_of (length vs)"
    define Q Q' where "Q = set (take ?q vs)" and "Q' = set (drop (length vs - ?q) vs)"
    have q: "?q \<le> length vs" by (auto simp: quorum_of_def)
    have card: "card Q = ?q" "card Q' = ?q"
      using q assms(2) by (simp_all add: Q_def Q'_def distinct_card)
    have "Q \<union> Q' \<subseteq> set vs" using set_take_subset set_drop_subset by (fastforce simp: Q_def Q'_def)
    then have "cs_max_faults st < card (Q \<inter> Q')" using that card st(1) by auto
    moreover have "length vs \<le> 2 * ?q"
    proof (rule ccontr)
      assume "\<not> ?thesis"
      then have "Q \<inter> Q' = {}" unfolding Q_def Q'_def by (intro set_take_disj_set_drop_if_distinct assms(2)) simp
      then show False using \<open>cs_max_faults st < card (Q \<inter> Q')\<close> by simp
    qed
    then have "set (drop ?q vs) \<subseteq> Q'" unfolding Q'_def by (intro set_drop_subset_set_drop) simp
    then have "Q \<union> Q' = set vs"
      using \<open>Q \<union> Q' \<subseteq> set vs\<close> set_append [of "take ?q vs" "drop ?q vs"] by (auto simp: Q_def)
    then have "card (Q \<union> Q') = length vs" using assms(2) by (simp add: distinct_card)
    ultimately have "length vs + (length vs - 1) div 3 < 2 * ?q"
      using card_Un_Int [of Q Q'] card st(2) by (auto simp: Q_def Q'_def)
    then show ?thesis using quorum_overlap_iff [of "length vs"] st(4) by simp
  qed
qed

theorem quorum_overlap_exact_witness:
  "\<not> (\<forall>Q Q'. Q \<subseteq> set [1, 2, 3, 4, 5, 6 :: node_id] \<and> Q' \<subseteq> set [1, 2, 3, 4, 5, 6 :: node_id] \<and>
      3 \<le> card Q \<and> 3 \<le> card Q' \<longrightarrow> 1 < card (Q \<inter> Q'))"
proof -
  obtain st :: "(zp, zp) consensus_state" where st: "consensus_new 1 [1, 2, 3, 4, 5, 6] [] Production = Ok st"
      "cs_quorum_size st = 3" "cs_max_faults st = 1"
    by (simp add: consensus_new_def)
  from quorum_overlap_exact [OF st(1)] show ?thesis unfolding st(2,3) by simp
qed

text \<open>C31: progress. If at least a quorum of different validators known to a node sign an approval of a block for the height and
  view the node is at, and it has no votes on that block yet, then after receiving them, in any order, it commits the block:
  the block's nullifiers are committed, the block is appended and the height goes up by one.\<close>

theorem quorum_commits:
  assumes "ristretto_group R"
    and "\<forall>key\<in>set ks. key_ok R key \<and> map_of (cs_validator_keys st) (vk_node_id key) = Some (vk_public_key key)"
    and "distinct (map vk_node_id ks)" and "votes_for st (blk_hash b) = []" and "cs_quorum_size st \<le> length ks"
    and "blk_hash b = block_compute_hash R (blk_height b) (blk_leader b) (blk_nullifiers b) (blk_prev_hash b)"
  shows "\<exists>st'. try_commit R b (collect_votes R tape (blk_hash b) ks st) = (Ok True, st') \<and>
    cs_committed_nullifiers st' = cs_committed_nullifiers st \<union> set (blk_nullifiers b) \<and>
    cs_committed_blocks st' = cs_committed_blocks st @ [b] \<and> cs_current_height st' = cs_current_height st + 1"
proof -
  let ?st = "collect_votes R tape (blk_hash b) ks st"
  obtain vs where vs: "?st = st\<lparr>cs_votes := cs_votes ?st\<rparr>" "votes_for ?st (blk_hash b) = vs" "map v_voter vs = map vk_node_id ks"
      "\<forall>v\<in>set vs. v_approve v"
    using ristretto_group.collect_votes_ok [OF assms(1,2,3), of "blk_hash b" tape] assms(4) by auto
  have "length (approvals ?st (blk_hash b)) = length ks"
    using vs(2,4) arg_cong [OF vs(3), of length] by (simp add: approvals_def filter_id_conv)
  moreover have f: "cs_quorum_size ?st = cs_quorum_size st" "cs_committed_nullifiers ?st = cs_committed_nullifiers st"
      "cs_committed_blocks ?st = cs_committed_blocks st" "cs_current_height ?st = cs_current_height st"
    by (subst vs(1), simp)+
  ultimately show ?thesis using assms(5,6) by (simp add: try_commit_def f)
qed

theorem quorum_commits_witness:
  "\<exists>st'. try_commit zp_prims demo_block (collect_votes zp_prims (\<lambda>_ _. 5) (blk_hash demo_block) [demo_key 4, demo_key 2, demo_key 1]
     (demo_node 3)) = (Ok True, st') \<and> cs_committed_nullifiers st' = {replicate 32 9} \<and> cs_current_height st' = 1"
proof -
  have n: "cs_validator_keys (demo_node 3) = demo_keys" "cs_votes (demo_node 3) = []" "cs_committed_nullifiers (demo_node 3) = {}"
    "cs_quorum_size (demo_node 3) = 3" "cs_current_height (demo_node 3) = 0"
    by (simp_all add: demo_node_def consensus_new_def Let_def)
  have "\<exists>st'. try_commit zp_prims demo_block (collect_votes zp_prims (\<lambda>_ _. 5) (blk_hash demo_block) [demo_key 4, demo_key 2, demo_key 1]
     (demo_node 3)) = (Ok True, st') \<and>
    cs_committed_nullifiers st' = cs_committed_nullifiers (demo_node 3) \<union> set (blk_nullifiers demo_block) \<and>
    cs_committed_blocks st' = cs_committed_blocks (demo_node 3) @ [demo_block] \<and>
    cs_current_height st' = cs_current_height (demo_node 3) + 1"
    by (rule quorum_commits [OF zp.ristretto_group_axioms])
      (simp_all add: n demo_keys_def demo_key_def key_ok_def votes_for_def demo_block_def block_new_def)
  then show ?thesis by (auto simp: n demo_block_def block_new_def)
qed

end
