(* ===== verification/Gossip.thy ===== *)
theory Gossip
  imports Consensus
begin

text \<open>
  \<^verbatim>\<open>specter-net/src/protocol.rs\<close>, \<^verbatim>\<open>gossip.rs\<close> and \<^verbatim>\<open>node.rs\<close>: the messages, the signed flooding of nullifiers and the node that joins
  it to the consensus.
\<close>

section \<open>Messages\<close>

datatype message =
    MintRequest node_id bytes
  | MintResponse node_id bytes
  | NullifierBroadcast (nb_nullifier: bytes) (nb_sender: node_id) (nb_signature_r: bytes) (nb_signature_s: bytes)
  | SyncRequest node_id u64
  | SyncResponse "bytes list" u64
  | ConsensusProposal node_id u64 "bytes list" bytes
  | ConsensusVote node_id u64 bytes bool
  | Ping node_id
  | Pong node_id

fun type_name :: "message \<Rightarrow> string" where
  "type_name (MintRequest _ _) = ''MintRequest''"
| "type_name (MintResponse _ _) = ''MintResponse''"
| "type_name (NullifierBroadcast _ _ _ _) = ''NullifierBroadcast''"
| "type_name (SyncRequest _ _) = ''SyncRequest''"
| "type_name (SyncResponse _ _) = ''SyncResponse''"
| "type_name (ConsensusProposal _ _ _ _) = ''ConsensusProposal''"
| "type_name (ConsensusVote _ _ _ _) = ''ConsensusVote''"
| "type_name (Ping _) = ''Ping''"
| "type_name (Pong _) = ''Pong''"

section \<open>Signed broadcasts\<close>

datatype gossip_error =
    UnknownSender node_id
  | InvalidSignature node_id
  | AtCapacity

definition MAX_OUTBOX_PER_PEER :: nat where
  "MAX_OUTBOX_PER_PEER = 10000"

definition MAX_KNOWN_NULLIFIERS :: nat where
  "MAX_KNOWN_NULLIFIERS = 1000000"

definition nullifier_sig_challenge :: "('s, 'p) prims \<Rightarrow> 'p \<Rightarrow> 'p \<Rightarrow> bytes \<times> node_id \<Rightarrow> 's" where
  "nullifier_sig_challenge R r pk = (\<lambda>(nullifier, sender).
     from_bytes_mod_order_wide R (sha512 R (ascii ''specter-gossip-sig:'' @ compress R r @ compress R pk @ nullifier @ u64_le sender)))"

definition sign_nullifier_broadcast ::
  "('s::field, 'p) prims \<Rightarrow> bytes \<Rightarrow> node_id \<Rightarrow> 's \<Rightarrow> 'p \<Rightarrow> rng \<Rightarrow> (bytes \<times> bytes) \<times> rng" where
  "sign_nullifier_broadcast R nullifier sender secret_key public_key g =
     (let (k, g) = random_scalar R g;
          r = smul R k (basepoint R);
          e = nullifier_sig_challenge R r public_key (nullifier, sender);
          s = k + e * secret_key
      in ((compress R r, scalar_bytes R s), g))"

definition verify_nullifier_broadcast ::
  "('s::field, 'p::ab_group_add) prims \<Rightarrow> bytes \<Rightarrow> node_id \<Rightarrow> bytes \<Rightarrow> bytes \<Rightarrow> 'p \<Rightarrow> bool" where
  "verify_nullifier_broadcast R nullifier sender signature_r signature_s public_key =
     (case decompress R signature_r of
        None \<Rightarrow> False
      | Some r \<Rightarrow>
          let s = from_bytes_mod_order R signature_s
          in if scalar_bytes R s \<noteq> signature_s then False
             else
               let e = nullifier_sig_challenge R r public_key (nullifier, sender);
                   lhs = smul R s (basepoint R);
                   rhs = r + smul R e public_key
               in compress R lhs = compress R rhs)"

record gossip_protocol =
  gp_node_id :: node_id
  gp_seen_nullifiers :: "bytes set"
  gp_peers :: "node_id list"
  gp_outbox :: "(node_id \<times> message list) list"

definition gossip_new :: "node_id \<Rightarrow> node_id list \<Rightarrow> gossip_protocol" where
  "gossip_new node_id peers =
     \<lparr>gp_node_id = node_id, gp_seen_nullifiers = {}, gp_peers = peers,
      gp_outbox = foldl (\<lambda>ob p. AList.update p [] ob) [] peers\<rparr>"

text \<open>The loop over the peers: a queue that is full, or missing, is passed over.\<close>

definition enqueue_one :: "message \<Rightarrow> (node_id \<times> message list) list \<Rightarrow> node_id \<Rightarrow> (node_id \<times> message list) list" where
  "enqueue_one msg outbox peer_id =
     (case map_of outbox peer_id of
        None \<Rightarrow> outbox
      | Some queue \<Rightarrow> if MAX_OUTBOX_PER_PEER \<le> length queue then outbox else AList.update peer_id (queue @ [msg]) outbox)"

definition enqueue :: "message \<Rightarrow> node_id list \<Rightarrow> (node_id \<times> message list) list \<Rightarrow> (node_id \<times> message list) list" where
  "enqueue msg peers outbox = foldl (enqueue_one msg) outbox peers"

definition broadcast_nullifier_signed :: "bytes \<Rightarrow> bytes \<Rightarrow> bytes \<Rightarrow> gossip_protocol \<Rightarrow> bool \<times> gossip_protocol" where
  "broadcast_nullifier_signed nullifier signature_r signature_s gp =
     (if MAX_KNOWN_NULLIFIERS \<le> card (gp_seen_nullifiers gp) then (False, gp)
      else if nullifier \<in> gp_seen_nullifiers gp then (False, gp)
      else
        let msg = NullifierBroadcast nullifier (gp_node_id gp) signature_r signature_s
        in (True, gp\<lparr>gp_seen_nullifiers := insert nullifier (gp_seen_nullifiers gp),
                    gp_outbox := enqueue msg (gp_peers gp) (gp_outbox gp)\<rparr>))"

definition handle_verified_broadcast ::
  "('s::field, 'p::ab_group_add) prims \<Rightarrow> bytes \<Rightarrow> node_id \<Rightarrow> bytes \<Rightarrow> bytes \<Rightarrow> (node_id \<times> 'p) list \<Rightarrow> gossip_protocol \<Rightarrow>
     (bool, gossip_error) result \<times> gossip_protocol" where
  "handle_verified_broadcast R nullifier sender signature_r signature_s validator_keys gp =
     (case map_of validator_keys sender of
        None \<Rightarrow> (Err (UnknownSender sender), gp)
      | Some pubkey \<Rightarrow>
          if \<not> verify_nullifier_broadcast R nullifier sender signature_r signature_s pubkey
          then (Err (InvalidSignature sender), gp)
          else if MAX_KNOWN_NULLIFIERS \<le> card (gp_seen_nullifiers gp) then (Err AtCapacity, gp)
          else if nullifier \<in> gp_seen_nullifiers gp then (Ok False, gp)
          else
            let msg = NullifierBroadcast nullifier sender signature_r signature_s
            in (Ok True, gp\<lparr>gp_seen_nullifiers := insert nullifier (gp_seen_nullifiers gp),
                           gp_outbox := enqueue msg (filter (\<lambda>p. p \<noteq> sender) (gp_peers gp)) (gp_outbox gp)\<rparr>))"

definition drain_messages_for :: "node_id \<Rightarrow> gossip_protocol \<Rightarrow> message list \<times> gossip_protocol" where
  "drain_messages_for peer_id gp =
     (case map_of (gp_outbox gp) peer_id of
        None \<Rightarrow> ([], gp)
      | Some q \<Rightarrow> (q, gp\<lparr>gp_outbox := AList.update peer_id [] (gp_outbox gp)\<rparr>))"

definition known_nullifiers :: "gossip_protocol \<Rightarrow> nat" where
  "known_nullifiers gp = card (gp_seen_nullifiers gp)"

definition has_nullifier :: "bytes \<Rightarrow> gossip_protocol \<Rightarrow> bool" where
  "has_nullifier nullifier gp \<longleftrightarrow> nullifier \<in> gp_seen_nullifiers gp"

section \<open>The node\<close>

record ('s, 'p) network_node =
  nn_id :: node_id
  nn_gossip :: gossip_protocol
  nn_consensus :: "('s, 'p) consensus_state"
  nn_validator_key :: "('s, 'p) validator_key"

definition network_node_new ::
  "node_id \<Rightarrow> node_id list \<Rightarrow> ('s, 'p) validator_key \<Rightarrow> node_id list \<Rightarrow> (node_id \<times> 'p) list \<Rightarrow> (('s, 'p) network_node, unit) result" where
  "network_node_new i peers own_key all_validators all_pubkeys =
     (case consensus_new i all_validators all_pubkeys Test of
        Ok consensus \<Rightarrow> Ok \<lparr>nn_id = i, nn_gossip = gossip_new i peers, nn_consensus = consensus, nn_validator_key = own_key\<rparr>
      | Err _ \<Rightarrow> Panic
      | Panic \<Rightarrow> Panic)"

definition node_submit_nullifier ::
  "('s::field, 'p) prims \<Rightarrow> bytes \<Rightarrow> ('s, 'p) network_node \<Rightarrow> rng \<Rightarrow> ('s, 'p) network_node \<times> rng" where
  "node_submit_nullifier R nullifier node g =
     (let ((sig_r, sig_s), g) = sign_nullifier_broadcast R nullifier (nn_id node) (vk_secret_key (nn_validator_key node))
            (vk_public_key (nn_validator_key node)) g;
          (_, gossip) = broadcast_nullifier_signed nullifier sig_r sig_s (nn_gossip node)
      in (node\<lparr>nn_gossip := gossip, nn_consensus := consensus_submit nullifier (nn_consensus node)\<rparr>, g))"

definition receive_nullifier_broadcast ::
  "('s::field, 'p::ab_group_add) prims \<Rightarrow> bytes \<Rightarrow> node_id \<Rightarrow> bytes \<Rightarrow> bytes \<Rightarrow> ('s, 'p) network_node \<Rightarrow>
     (bool, gossip_error) result \<times> ('s, 'p) network_node" where
  "receive_nullifier_broadcast R nullifier sender signature_r signature_s node =
     (let (r, gossip) = handle_verified_broadcast R nullifier sender signature_r signature_s
            (cs_validator_keys (nn_consensus node)) (nn_gossip node)
      in (r, node\<lparr>nn_gossip := gossip\<rparr>))"

definition is_nullifier_known :: "bytes \<Rightarrow> ('s, 'p) network_node \<Rightarrow> bool" where
  "is_nullifier_known nullifier node \<longleftrightarrow> has_nullifier nullifier (nn_gossip node) \<or> is_committed nullifier (nn_consensus node)"

definition node_sign_vote ::
  "('s::field, 'p) prims \<Rightarrow> u64 \<Rightarrow> bytes \<Rightarrow> bool \<Rightarrow> ('s, 'p) network_node \<Rightarrow> rng \<Rightarrow> ('s, 'p) vote \<times> rng" where
  "node_sign_vote R block_height block_hash approve node g =
     sign_vote R (nn_validator_key node) block_height block_hash approve (cs_view (nn_consensus node)) g"

record node_stats =
  ns_id :: node_id
  ns_gossip_nullifiers :: nat
  ns_committed_nullifiers :: nat
  ns_committed_blocks :: nat
  ns_current_height :: u64
  ns_is_leader :: bool

definition stats :: "('s, 'p) network_node \<Rightarrow> (node_stats, unit) result" where
  "stats node =
     bindR (current_leader (nn_consensus node)) (\<lambda>leader.
       Ok \<lparr>ns_id = nn_id node, ns_gossip_nullifiers = known_nullifiers (nn_gossip node),
           ns_committed_nullifiers = nullifier_count (nn_consensus node), ns_committed_blocks = block_count (nn_consensus node),
           ns_current_height = cs_current_height (nn_consensus node), ns_is_leader = (leader = nn_id node)\<rparr>)"

section \<open>What a queue holds\<close>

sublocale ristretto_group \<subseteq> gossip_sig: schnorr R "nullifier_sig_challenge R"
  by unfold_locales

text \<open>A message is authentic if its signature is accepted under the key registered for its sender.\<close>

fun authentic :: "('s::field, 'p::ab_group_add) prims \<Rightarrow> (node_id \<times> 'p) list \<Rightarrow> message \<Rightarrow> bool" where
  "authentic R keys (NullifierBroadcast n i sr ss) \<longleftrightarrow> (\<exists>pk. map_of keys i = Some pk \<and> verify_nullifier_broadcast R n i sr ss pk)"
| "authentic R keys _ \<longleftrightarrow> False"

definition queues_ok :: "(message \<Rightarrow> bool) \<Rightarrow> (node_id \<times> message list) list \<Rightarrow> bool" where
  "queues_ok P ob \<longleftrightarrow> (\<forall>p q. map_of ob p = Some q \<longrightarrow> length q \<le> MAX_OUTBOX_PER_PEER \<and> (\<forall>m\<in>set q. P m))"

lemma enqueue_ok: "queues_ok P ob \<Longrightarrow> P m \<Longrightarrow> queues_ok P (enqueue m peers ob)"
proof (induction peers arbitrary: ob)
  case (Cons p peers)
  have "queues_ok P (enqueue_one m ob p)"
    using Cons.prems by (auto simp: queues_ok_def enqueue_one_def update_conv' split: option.splits)
  with Cons show ?case by (simp add: enqueue_def)
qed (simp add: enqueue_def)

text \<open>What the loop does to each queue: one copy of the message for each time the peer is listed, as long as there is room.\<close>

lemma enqueue_queue:
  "map_of (enqueue m peers ob) p =
     map_option (\<lambda>q. q @ replicate (min (count_list peers p) (MAX_OUTBOX_PER_PEER - length q)) m) (map_of ob p)"
proof (induction peers arbitrary: ob)
  case (Cons a peers)
  have "map_of (enqueue_one m ob a) p =
      map_option (\<lambda>q. if a = p \<and> length q < MAX_OUTBOX_PER_PEER then q @ [m] else q) (map_of ob p)"
    by (cases "map_of ob p") (auto simp: enqueue_one_def update_conv' split: option.splits)
  moreover have "q @ m # replicate (min (count_list peers p) (MAX_OUTBOX_PER_PEER - Suc (length q))) m =
      q @ replicate (min (Suc (count_list peers p)) (MAX_OUTBOX_PER_PEER - length q)) m" if "length q < MAX_OUTBOX_PER_PEER" for q
    using that by (cases "MAX_OUTBOX_PER_PEER - length q") (auto simp: Suc_diff_Suc min_def)
  ultimately show ?case
    using Cons.IH [of "enqueue_one m ob a"] by (cases "map_of ob p") (auto simp: enqueue_def)
qed (simp add: enqueue_def option.map_ident)

lemma empty_queues:
  "\<forall>p q. map_of ob p = Some q \<longrightarrow> q = [] \<Longrightarrow> map_of (foldl (\<lambda>ob p. AList.update p [] ob) ob peers) p = Some q \<Longrightarrow> q = []"
proof (induction peers arbitrary: ob)
  case (Cons a peers)
  show ?case by (rule Cons.IH [of "AList.update a [] ob"]) (use Cons.prems in \<open>auto simp: update_conv'\<close>)
qed simp

lemma gossip_new_outbox: "queues_ok P (gp_outbox (gossip_new i peers))"
  using empty_queues [of "[]" peers] by (fastforce simp: queues_ok_def gossip_new_def)

context ristretto
begin

lemma signed_broadcast_verifies:
  assumes "pk = smul R sk (basepoint R)" and "sign_nullifier_broadcast R n i sk pk g = ((sr, ss), g')"
  shows "verify_nullifier_broadcast R n i sr ss pk"
proof -
  obtain k g1 where k: "random_scalar R g = (k, g1)" by fastforce
  let ?r = "smul R k (basepoint R)"
  have "sr = compress R ?r" "ss = scalar_bytes R (k + nullifier_sig_challenge R ?r pk (n, i) * sk)"
    using assms(2) by (auto simp: sign_nullifier_broadcast_def k Let_def)
  then show ?thesis
    using gossip_sig.signed_accepts [OF assms(1) refl, of k "(n, i)"]
    by (simp add: verify_nullifier_broadcast_def decompress_compress from_mod_order_scalar_bytes schnorr_accepts_def Let_def)
qed

end

section \<open>A running node\<close>

inductive node_step ::
  "('s::field, 'p::ab_group_add) prims \<Rightarrow> (bytes set \<Rightarrow> bytes list) \<Rightarrow> ('s, 'p) network_node \<Rightarrow> ('s, 'p) network_node \<Rightarrow> bool"
  for R drain where
  submit: "node_submit_nullifier R n node g = (node', g') \<Longrightarrow> node_step R drain node node'"
| receive: "receive_nullifier_broadcast R n i sr ss node = (r, node') \<Longrightarrow> node_step R drain node node'"
| send: "drain_messages_for p (nn_gossip node) = (ms, gp) \<Longrightarrow> node_step R drain node (node\<lparr>nn_gossip := gp\<rparr>)"
| agree: "consensus_step R drain (nn_consensus node) c \<Longrightarrow> node_step R drain node (node\<lparr>nn_consensus := c\<rparr>)"

definition node_inv :: "('s::field, 'p::ab_group_add) prims \<Rightarrow> ('s, 'p) network_node \<Rightarrow> bool" where
  "node_inv R node \<longleftrightarrow> key_ok R (nn_validator_key node) \<and> gp_node_id (nn_gossip node) = nn_id node \<and>
     map_of (cs_validator_keys (nn_consensus node)) (nn_id node) = Some (vk_public_key (nn_validator_key node)) \<and>
     queues_ok (authentic R (cs_validator_keys (nn_consensus node))) (gp_outbox (nn_gossip node)) \<and>
     finite (gp_seen_nullifiers (nn_gossip node)) \<and> card (gp_seen_nullifiers (nn_gossip node)) \<le> MAX_KNOWN_NULLIFIERS"

lemma drain_queues: "queues_ok P (gp_outbox gp) \<Longrightarrow> drain_messages_for p gp = (ms, gp') \<Longrightarrow>
    queues_ok P (gp_outbox gp') \<and> gp_node_id gp' = gp_node_id gp \<and> gp_seen_nullifiers gp' = gp_seen_nullifiers gp \<and> (\<forall>m\<in>set ms. P m)"
  by (auto simp: drain_messages_for_def queues_ok_def update_conv' split: option.splits if_splits)

context ristretto
begin

lemma node_step_inv:
  "node_step R drain node node' \<Longrightarrow> node_inv R node \<Longrightarrow>
     node_inv R node' \<and> cs_validator_keys (nn_consensus node') = cs_validator_keys (nn_consensus node)"
proof (induction rule: node_step.induct)
  case (submit n node g node' g')
  obtain sr ss g1 where s: "sign_nullifier_broadcast R n (nn_id node) (vk_secret_key (nn_validator_key node))
      (vk_public_key (nn_validator_key node)) g = ((sr, ss), g1)" by (metis surj_pair)
  have v: "verify_nullifier_broadcast R n (nn_id node) sr ss (vk_public_key (nn_validator_key node))"
    using submit(2) by (intro signed_broadcast_verifies [OF _ s]) (simp add: node_inv_def key_ok_def)
  let ?m = "NullifierBroadcast n (nn_id node) sr ss"
  have "queues_ok (authentic R (cs_validator_keys (nn_consensus node))) (enqueue ?m (gp_peers (nn_gossip node)) (gp_outbox (nn_gossip node)))"
    using submit(2) v by (intro enqueue_ok) (simp_all add: node_inv_def)
  moreover obtain b gp where gp: "broadcast_nullifier_signed n sr ss (nn_gossip node) = (b, gp)" by fastforce
  have node': "node' = node\<lparr>nn_gossip := gp, nn_consensus := consensus_submit n (nn_consensus node)\<rparr>"
    using submit(1) by (simp add: node_submit_nullifier_def s gp)
  have "cs_validator_keys (consensus_submit n (nn_consensus node)) = cs_validator_keys (nn_consensus node)"
    by (simp add: consensus_submit_def)
  ultimately show ?case
    using submit(2) gp unfolding node' by (auto simp: broadcast_nullifier_signed_def Let_def node_inv_def card_insert_if split: if_splits)
next
  case (receive n i sr ss node r node')
  let ?keys = "cs_validator_keys (nn_consensus node)" and ?gp = "nn_gossip node"
  show ?case
  proof (cases "node' = node")
    case False
    let ?m = "NullifierBroadcast n i sr ss"
    have new: "authentic R ?keys ?m" "\<not> MAX_KNOWN_NULLIFIERS \<le> card (gp_seen_nullifiers ?gp)"
      "node' = node\<lparr>nn_gossip := ?gp\<lparr>gp_seen_nullifiers := insert n (gp_seen_nullifiers ?gp),
                           gp_outbox := enqueue ?m (filter (\<lambda>p. p \<noteq> i) (gp_peers ?gp)) (gp_outbox ?gp)\<rparr>\<rparr>"
      using receive(1) False
      by (auto simp: receive_nullifier_broadcast_def handle_verified_broadcast_def Let_def split: option.splits if_splits)
    have "queues_ok (authentic R ?keys) (enqueue ?m (filter (\<lambda>p. p \<noteq> i) (gp_peers ?gp)) (gp_outbox ?gp))"
      using receive(2) new(1) by (intro enqueue_ok) (simp_all add: node_inv_def)
    then show ?thesis using receive(2) new(2,3) by (auto simp: node_inv_def card_insert_if)
  qed (use receive(2) in simp)
next
  case (send p node ms gp)
  then have "queues_ok (authentic R (cs_validator_keys (nn_consensus node))) (gp_outbox (nn_gossip node))" by (simp add: node_inv_def)
  from drain_queues [OF this send(1)] show ?case using send(2) by (simp add: node_inv_def)
next
  case (agree node c)
  then show ?case using consensus_step_same [OF agree(1)] by (simp add: node_inv_def committee_same_def)
qed

end

section \<open>Properties\<close>

text \<open>C32: gossip is authentic and bounded. Take a node whose own key is registered for it and let it submit, receive,
  send and take part in consensus in any order, on any input. Then every message waiting for a peer carries a
  signature of its sender that verifies under the registered key, no queue is longer than ten thousand messages and no more
  than a million nullifiers are kept; and a peer with the same registered keys that receives such a message never refuses it as
  unknown or forged, and knows the nullifier afterwards unless it is full.\<close>

theorem gossip_authentic:
  assumes "ristretto R" and "network_node_new i peers key vs keys = Ok node" and "key_ok R key"
    and "map_of keys i = Some (vk_public_key key)" and "(node_step R drain)\<^sup>*\<^sup>* node node'"
  shows "card (gp_seen_nullifiers (nn_gossip node')) \<le> 1000000 \<and>
    (\<forall>p q. map_of (gp_outbox (nn_gossip node')) p = Some q \<longrightarrow> length q \<le> 10000 \<and>
      (\<forall>m\<in>set q. \<exists>n j sr ss pk. m = NullifierBroadcast n j sr ss \<and> map_of keys j = Some pk \<and> verify_nullifier_broadcast R n j sr ss pk \<and>
        (\<forall>peer r peer'. cs_validator_keys (nn_consensus peer) = keys \<and> receive_nullifier_broadcast R n j sr ss peer = (r, peer') \<longrightarrow>
          (r = Ok True \<or> r = Ok False) \<and> is_nullifier_known n peer' \<or> r = Err AtCapacity)))"
proof -
  have new: "node_inv R node" "cs_validator_keys (nn_consensus node) = keys"
    using assms(2-4) gossip_new_outbox [of "authentic R keys" i peers]
    by (auto simp: network_node_new_def consensus_new_def node_inv_def gossip_new_def Let_def split: if_splits)
  have inv: "node_inv R node' \<and> cs_validator_keys (nn_consensus node') = keys"
    using assms(5) new
  proof (induction rule: rtranclp_induct)
    case (step y z)
    with ristretto.node_step_inv [OF assms(1) step(2)] show ?case by simp
  qed simp
  have accepted: "(r = Ok True \<or> r = Ok False) \<and> is_nullifier_known n peer' \<or> r = Err AtCapacity"
    if "map_of keys j = Some pk" "verify_nullifier_broadcast R n j sr ss pk" "cs_validator_keys (nn_consensus peer) = keys"
      "receive_nullifier_broadcast R n j sr ss peer = (r, peer')" for n j sr ss pk peer r peer'
    using that by (auto simp: receive_nullifier_broadcast_def handle_verified_broadcast_def is_nullifier_known_def has_nullifier_def Let_def
        split: if_splits)
  have "\<exists>n j sr ss pk. m = NullifierBroadcast n j sr ss \<and> map_of keys j = Some pk \<and> verify_nullifier_broadcast R n j sr ss pk"
    if "map_of (gp_outbox (nn_gossip node')) p = Some q" "m \<in> set q" for p q m
  proof -
    have "authentic R keys m" using inv that by (auto simp: node_inv_def queues_ok_def)
    then show ?thesis by (cases m) auto
  qed
  with inv accepted show ?thesis
    by (simp add: node_inv_def queues_ok_def MAX_OUTBOX_PER_PEER_def MAX_KNOWN_NULLIFIERS_def) metis
qed

theorem gossip_authentic_witness:
  "\<exists>node node'. network_node_new 1 [2] (demo_key 1) [1, 2, 3, 4] demo_keys = Ok node \<and> (node_step zp_prims (\<lambda>_. []))\<^sup>*\<^sup>* node node' \<and>
     (\<exists>q m. map_of (gp_outbox (nn_gossip node')) 2 = Some q \<and> m \<in> set q \<and> (\<exists>n j sr ss pk. m = NullifierBroadcast n j sr ss \<and>
        map_of demo_keys j = Some pk \<and> verify_nullifier_broadcast zp_prims n j sr ss pk))"
proof -
  obtain node where node: "network_node_new 1 [2] (demo_key 1) [1, 2, 3, 4] demo_keys = Ok node"
      "nn_gossip node = gossip_new 1 [2]"
    by (simp add: network_node_new_def consensus_new_def)
  obtain node' g' where s: "node_submit_nullifier zp_prims [7] node (\<lambda>_. 3) = (node', g')" by fastforce
  have reach: "(node_step zp_prims (\<lambda>_. []))\<^sup>*\<^sup>* node node'" using node_step.submit [OF s] by blast
  obtain m where m: "map_of (gp_outbox (nn_gossip node')) 2 = Some [m]"
    using s node(2) by (auto simp: node_submit_nullifier_def broadcast_nullifier_signed_def gossip_new_def enqueue_def enqueue_one_def
        MAX_KNOWN_NULLIFIERS_def MAX_OUTBOX_PER_PEER_def split: prod.splits)
  have "key_ok zp_prims (demo_key 1)" "map_of demo_keys 1 = Some (vk_public_key (demo_key 1))"
    by (simp_all add: key_ok_def demo_key_def demo_keys_def)
  from conjunct2 [OF gossip_authentic [OF zp.ristretto_axioms node(1) this reach], rule_format, OF m]
  have "\<exists>n j sr ss pk. m = NullifierBroadcast n j sr ss \<and> map_of demo_keys j = Some pk \<and> verify_nullifier_broadcast zp_prims n j sr ss pk"
    by (auto; blast)
  with node(1) reach m show ?thesis by (intro exI [of _ node] exI [of _ node'] exI [of _ "[m]"] conjI) auto
qed

end
