(* ===== verification/Bonds.thy ===== *)
theory Bonds
  imports Prime_Field
begin

text \<open>
  \<^verbatim>\<open>specter-offline/src/bonds.rs\<close>: collateral staked for offline payments. A bond covers the value its owner has outstanding
  offline, is forfeited when slashed, and is paid back after a lock period.
\<close>

section \<open>Bonds and the registry\<close>

record bond =
  bond_id :: bytes
  bond_owner_id :: bytes
  bond_amount :: u64
  bond_active :: bool
  bond_offline_exposure :: u64
  bond_withdrawal_requested_at :: u64

record bond_registry =
  br_bonds :: "(bytes \<times> bond) list"
  br_owner_bonds :: "(bytes \<times> bytes) list"
  br_lock_period_secs :: u64

datatype bond_error =
    NoBond
  | BondSlashed
  | InsufficientBond u64 u64
  | ExposureNotSettled u64
  | WithdrawalNotRequested
  | LockPeriodNotElapsed
  | AlreadyHasBond
  | InsufficientEvidence
  | InvalidAmount

definition bond_registry_new :: bond_registry where
  "bond_registry_new = \<lparr>br_bonds = [], br_owner_bonds = [], br_lock_period_secs = 604800\<rparr>"

definition MAX_BOND_AMOUNT :: u64 where
  "MAX_BOND_AMOUNT = (- 1) div 2"

definition get_bond :: "bytes \<Rightarrow> bond_registry \<Rightarrow> bond option" where
  "get_bond owner_id reg = Option.bind (map_of (br_owner_bonds reg) owner_id) (map_of (br_bonds reg))"

definition deposit ::
  "('s, 'p) prims \<Rightarrow> bytes \<Rightarrow> u64 \<Rightarrow> bond_registry \<Rightarrow> rng \<Rightarrow> (bond, bond_error) result \<times> bond_registry \<times> rng" where
  "deposit R owner_id amount reg g =
     (if amount = 0 then (Err InvalidAmount, reg, g)
      else if MAX_BOND_AMOUNT < amount then (Err InvalidAmount, reg, g)
      else if (case get_bond owner_id reg of Some existing \<Rightarrow> bond_active existing | None \<Rightarrow> False) then (Err AlreadyHasBond, reg, g)
      else
        let (nonce, g) = fill_bytes 16 g;
            i = sha256 R (ascii ''specter-bond:'' @ owner_id @ u64_le amount @ nonce);
            b = \<lparr>bond_id = i, bond_owner_id = owner_id, bond_amount = amount, bond_active = True,
                 bond_offline_exposure = 0, bond_withdrawal_requested_at = 0\<rparr>
        in (Ok b, reg\<lparr>br_bonds := AList.update i b (br_bonds reg),
                    br_owner_bonds := AList.update owner_id i (br_owner_bonds reg)\<rparr>, g))"

definition check_coverage :: "bytes \<Rightarrow> u64 \<Rightarrow> bond_registry \<Rightarrow> bool" where
  "check_coverage owner_id token_value reg =
     (case get_bond owner_id reg of
        None \<Rightarrow> False
      | Some b \<Rightarrow>
          if \<not> bond_active b then False
          else case checked_add (bond_offline_exposure b) token_value of
                 Some exposure \<Rightarrow> exposure \<le> bond_amount b
               | None \<Rightarrow> False)"

text \<open>The two look-ups every operation on an existing bond starts with, and the write through the mutable reference.\<close>

definition lookup_bond :: "bytes \<Rightarrow> bond_registry \<Rightarrow> (bytes \<times> bond, bond_error) result" where
  "lookup_bond owner_id reg =
     bindR (ok_or (map_of (br_owner_bonds reg) owner_id) NoBond) (\<lambda>i.
     bindR (ok_or (map_of (br_bonds reg) i) NoBond) (\<lambda>b. Ok (i, b)))"

definition put_bond :: "bytes \<Rightarrow> bond \<Rightarrow> bond_registry \<Rightarrow> bond_registry" where
  "put_bond i b reg = reg\<lparr>br_bonds := AList.update i b (br_bonds reg)\<rparr>"

definition register_offline_spend :: "bytes \<Rightarrow> u64 \<Rightarrow> bond_registry \<Rightarrow> (unit, bond_error) result \<times> bond_registry" where
  "register_offline_spend owner_id amount reg =
     (case lookup_bond owner_id reg of
        Err e \<Rightarrow> (Err e, reg)
      | Panic \<Rightarrow> (Panic, reg)
      | Ok (i, b) \<Rightarrow>
          if \<not> bond_active b then (Err BondSlashed, reg)
          else
            let short = InsufficientBond (saturating_sub (bond_amount b) (bond_offline_exposure b)) amount
            in case checked_add (bond_offline_exposure b) amount of
                 None \<Rightarrow> (Err short, reg)
               | Some total_exposure \<Rightarrow>
                   if bond_amount b < total_exposure then (Err short, reg)
                   else (Ok (), put_bond i (b\<lparr>bond_offline_exposure := total_exposure\<rparr>) reg))"

definition settle :: "bytes \<Rightarrow> u64 \<Rightarrow> bond_registry \<Rightarrow> (unit, bond_error) result \<times> bond_registry" where
  "settle owner_id amount reg =
     (case lookup_bond owner_id reg of
        Err e \<Rightarrow> (Err e, reg)
      | Panic \<Rightarrow> (Panic, reg)
      | Ok (i, b) \<Rightarrow>
          (Ok (), put_bond i (b\<lparr>bond_offline_exposure := saturating_sub (bond_offline_exposure b) amount\<rparr>) reg))"

definition slash :: "bytes \<Rightarrow> bytes \<Rightarrow> bytes \<Rightarrow> bond_registry \<Rightarrow> (u64, bond_error) result \<times> bond_registry" where
  "slash owner_id evidence_nullifier_a evidence_nullifier_b reg =
     (if evidence_nullifier_a = evidence_nullifier_b then (Err InsufficientEvidence, reg)
      else case lookup_bond owner_id reg of
        Err e \<Rightarrow> (Err e, reg)
      | Panic \<Rightarrow> (Panic, reg)
      | Ok (i, b) \<Rightarrow>
          if \<not> bond_active b then (Err BondSlashed, reg)
          else (Ok (bond_amount b), put_bond i (b\<lparr>bond_active := False\<rparr>) reg))"

definition request_withdrawal :: "bytes \<Rightarrow> u64 \<Rightarrow> bond_registry \<Rightarrow> (u64, bond_error) result \<times> bond_registry" where
  "request_withdrawal owner_id current_time reg =
     (case lookup_bond owner_id reg of
        Err e \<Rightarrow> (Err e, reg)
      | Panic \<Rightarrow> (Panic, reg)
      | Ok (i, b) \<Rightarrow>
          if \<not> bond_active b then (Err BondSlashed, reg)
          else if 0 < bond_offline_exposure b then (Err (ExposureNotSettled (bond_offline_exposure b)), reg)
          else (Ok (current_time + br_lock_period_secs reg), put_bond i (b\<lparr>bond_withdrawal_requested_at := current_time\<rparr>) reg))"

definition withdraw :: "bytes \<Rightarrow> u64 \<Rightarrow> bond_registry \<Rightarrow> (u64, bond_error) result \<times> bond_registry" where
  "withdraw owner_id current_time reg =
     (case lookup_bond owner_id reg of
        Err e \<Rightarrow> (Err e, reg)
      | Panic \<Rightarrow> (Panic, reg)
      | Ok (i, b) \<Rightarrow>
          if \<not> bond_active b then (Err BondSlashed, reg)
          else if bond_withdrawal_requested_at b = 0 then (Err WithdrawalNotRequested, reg)
          else case checked_add (bond_withdrawal_requested_at b) (br_lock_period_secs reg) of
                 None \<Rightarrow> (Err LockPeriodNotElapsed, reg)
               | Some unlock_time \<Rightarrow>
                   if current_time < unlock_time then (Err LockPeriodNotElapsed, reg)
                   else if 0 < bond_offline_exposure b then (Err (ExposureNotSettled (bond_offline_exposure b)), reg)
                   else (Ok (bond_amount b), reg\<lparr>br_bonds := AList.delete i (br_bonds reg),
                                               br_owner_bonds := AList.delete owner_id (br_owner_bonds reg)\<rparr>))"

definition active_count :: "bond_registry \<Rightarrow> nat" where
  "active_count reg = length (filter (bond_active \<circ> snd) (br_bonds reg))"

section \<open>Accounts\<close>

text \<open>A registry together with what has been paid in, forfeited and paid out so far.\<close>

record bond_accounts =
  ba_registry :: bond_registry
  ba_deposited :: nat
  ba_slashed :: nat
  ba_withdrawn :: nat

definition accounts_new :: bond_accounts where
  "accounts_new = \<lparr>ba_registry = bond_registry_new, ba_deposited = 0, ba_slashed = 0, ba_withdrawn = 0\<rparr>"

text \<open>
  One operation, with any outcome. A deposit draws an identifier that is not in use, which the random nonce under the
  hash is for.
\<close>

inductive bond_step :: "('s, 'p) prims \<Rightarrow> bond_accounts \<Rightarrow> bond_accounts \<Rightarrow> bool" for R where
  deposit: "deposit R ow a (ba_registry s) g = (Ok b, reg, g') \<Longrightarrow> bond_id b \<notin> fst ` set (br_bonds (ba_registry s)) \<Longrightarrow>
    bond_step R s (s\<lparr>ba_registry := reg, ba_deposited := ba_deposited s + unat a\<rparr>)"
| register: "register_offline_spend ow a (ba_registry s) = (r, reg) \<Longrightarrow> bond_step R s (s\<lparr>ba_registry := reg\<rparr>)"
| settle: "settle ow a (ba_registry s) = (r, reg) \<Longrightarrow> bond_step R s (s\<lparr>ba_registry := reg\<rparr>)"
| slash: "slash ow x y (ba_registry s) = (Ok a, reg) \<Longrightarrow>
    bond_step R s (s\<lparr>ba_registry := reg, ba_slashed := ba_slashed s + unat a\<rparr>)"
| request: "request_withdrawal ow t (ba_registry s) = (r, reg) \<Longrightarrow> bond_step R s (s\<lparr>ba_registry := reg\<rparr>)"
| withdraw: "withdraw ow t (ba_registry s) = (Ok a, reg) \<Longrightarrow>
    bond_step R s (s\<lparr>ba_registry := reg, ba_withdrawn := ba_withdrawn s + unat a\<rparr>)"
| refused: "(\<exists>e. fst (deposit R ow a (ba_registry s) g) = Err e \<and> reg = fst (snd (deposit R ow a (ba_registry s) g))) \<or>
    (\<exists>e. slash ow x y (ba_registry s) = (Err e, reg)) \<or> (\<exists>e. withdraw ow t (ba_registry s) = (Err e, reg)) \<Longrightarrow>
    bond_step R s (s\<lparr>ba_registry := reg\<rparr>)"

definition stake_of :: "bond \<Rightarrow> nat" where
  "stake_of b = (if bond_active b then unat (bond_amount b) else 0)"

definition total_stake :: "bond_registry \<Rightarrow> nat" where
  "total_stake reg = (\<Sum>(i, b)\<leftarrow>br_bonds reg. stake_of b)"

definition bond_ok :: "bond \<Rightarrow> bool" where
  "bond_ok b \<longleftrightarrow> 0 < bond_amount b \<and> bond_amount b \<le> MAX_BOND_AMOUNT \<and> bond_offline_exposure b \<le> bond_amount b"

definition accounts_inv :: "bond_accounts \<Rightarrow> bool" where
  "accounts_inv s \<longleftrightarrow> distinct (map fst (br_bonds (ba_registry s))) \<and> (\<forall>(i, b)\<in>set (br_bonds (ba_registry s)). bond_ok b) \<and>
     ba_deposited s = total_stake (ba_registry s) + ba_slashed s + ba_withdrawn s"

section \<open>Sums over an association list\<close>

lemma sum_update_new: "k \<notin> fst ` set xs \<Longrightarrow> (\<Sum>(i, b)\<leftarrow>AList.update k v xs. f b) = (\<Sum>(i, b)\<leftarrow>xs. f b) + (f v :: nat)"
  by (induction xs) auto

lemma sum_update_old: "map_of xs k = Some w \<Longrightarrow> (\<Sum>(i, b)\<leftarrow>AList.update k v xs. f b) + f w = (\<Sum>(i, b)\<leftarrow>xs. f b) + (f v :: nat)"
  by (induction xs) (auto split: if_splits)

lemma sum_delete: "distinct (map fst xs) \<Longrightarrow> map_of xs k = Some w \<Longrightarrow> (\<Sum>(i, b)\<leftarrow>AList.delete k xs. f b) + f w = (\<Sum>(i, b)\<leftarrow>xs. (f b :: nat))"
proof (induction xs)
  case (Cons x xs)
  then show ?case
  proof (cases "fst x = k")
    case True
    then have "AList.delete k xs = xs" using Cons.prems(1) by (intro delete_id) auto
    then show ?thesis using Cons.prems True by (auto simp: case_prod_beta)
  qed auto
qed simp

lemma update_set: "set (AList.update k v xs) \<subseteq> insert (k, v) (set xs)"
  by (induction xs) auto

lemma set_delete: "set (AList.delete k xs) \<subseteq> set xs"
  by (auto simp: AList.delete_eq)

lemma lookup_bond_Ok:
  "lookup_bond ow reg = Ok (i, b) \<longleftrightarrow> map_of (br_owner_bonds reg) ow = Some i \<and> map_of (br_bonds reg) i = Some b"
  by (auto simp: lookup_bond_def ok_or_def split: option.splits)

lemma lookup_bond_no_panic [simp]: "lookup_bond ow reg \<noteq> Panic"
  by (auto simp: lookup_bond_def ok_or_def split: option.splits)

section \<open>Every operation keeps the accounts\<close>

lemma accounts_same_registry:
  "accounts_inv s \<Longrightarrow> reg = ba_registry s \<Longrightarrow> accounts_inv (s\<lparr>ba_registry := reg\<rparr>)"
  by (simp add: accounts_inv_def)

lemma put_bond_inv:
  assumes "accounts_inv s" and "map_of (br_bonds (ba_registry s)) i = Some b" and "bond_ok b'"
    and "d + stake_of b = stake_of b'+ x"
  shows "accounts_inv (s\<lparr>ba_registry := put_bond i b' (ba_registry s), ba_deposited := ba_deposited s + d, ba_slashed := ba_slashed s + x\<rparr>)"
proof -
  have "total_stake (put_bond i b' (ba_registry s)) + stake_of b = total_stake (ba_registry s) + stake_of b'"
    using sum_update_old [OF assms(2), of stake_of b'] by (simp add: total_stake_def put_bond_def)
  moreover have "\<forall>(i, b)\<in>set (AList.update i b' (br_bonds (ba_registry s))). bond_ok b"
    using update_set [of i b' "br_bonds (ba_registry s)"] assms(1,3) by (fastforce simp: accounts_inv_def)
  ultimately show ?thesis
    using assms(1,4) by (simp add: accounts_inv_def put_bond_def distinct_update)
qed

lemmas put_bond_same = put_bond_inv [where d = 0 and x = 0, simplified]

lemma bond_ok_of: "accounts_inv s \<Longrightarrow> map_of (br_bonds (ba_registry s)) i = Some b \<Longrightarrow> bond_ok b"
  by (auto simp: accounts_inv_def dest!: map_of_SomeD)

lemma deposit_inv:
  assumes inv: "accounts_inv s" and d: "deposit R ow a (ba_registry s) g = (Ok b, reg, g')"
    and new: "bond_id b \<notin> fst ` set (br_bonds (ba_registry s))"
  shows "accounts_inv (s\<lparr>ba_registry := reg, ba_deposited := ba_deposited s + unat a\<rparr>)"
proof -
  have b: "br_bonds reg = AList.update (bond_id b) b (br_bonds (ba_registry s))" "bond_ok b" "stake_of b = unat a"
    using d by (auto simp: deposit_def Let_def bond_ok_def stake_of_def word_neq_0_conv not_less split: if_splits prod.splits)
  have "total_stake reg = total_stake (ba_registry s) + unat a"
    using sum_update_new [OF new, of stake_of b] b by (simp add: total_stake_def)
  moreover have "\<forall>(i, b)\<in>set (br_bonds reg). bond_ok b"
    using update_set [of "bond_id b" b "br_bonds (ba_registry s)"] inv b by (fastforce simp: accounts_inv_def)
  ultimately show ?thesis using inv b(1) by (simp add: accounts_inv_def distinct_update)
qed

lemma withdraw_Ok:
  assumes "withdraw ow t reg = (Ok a, reg')"
  obtains i b where "map_of (br_owner_bonds reg) ow = Some i" "map_of (br_bonds reg) i = Some b" "bond_active b" "bond_amount b = a"
    "bond_withdrawal_requested_at b \<noteq> 0" "unat (bond_withdrawal_requested_at b) + unat (br_lock_period_secs reg) \<le> unat t"
    "bond_offline_exposure b = 0"
    "reg' = reg\<lparr>br_bonds := AList.delete i (br_bonds reg), br_owner_bonds := AList.delete ow (br_owner_bonds reg)\<rparr>"
proof -
  have zero: "unat x = 0 \<longleftrightarrow> x = 0" for x :: u64 by (simp add: unat_eq_zero)
  show thesis
    using assms that
    by (auto simp: withdraw_def lookup_bond_Ok not_less word_le_nat_alt zero dest!: checked_add_unat
        split: result.splits if_splits option.splits)
qed

lemma withdraw_inv:
  assumes inv: "accounts_inv s" and w: "withdraw ow t (ba_registry s) = (Ok a, reg)"
  shows "accounts_inv (s\<lparr>ba_registry := reg, ba_withdrawn := ba_withdrawn s + unat a\<rparr>)"
proof -
  obtain i b where b: "map_of (br_bonds (ba_registry s)) i = Some b" "bond_active b" "bond_amount b = a"
      "br_bonds reg = AList.delete i (br_bonds (ba_registry s))"
    by (rule withdraw_Ok [OF w]) simp
  have "total_stake reg + unat a = total_stake (ba_registry s)"
    using sum_delete [OF _ b(1), of stake_of] inv b(2-4) by (simp add: accounts_inv_def total_stake_def stake_of_def)
  then show ?thesis
    using inv b(4) distinct_delete [of "br_bonds (ba_registry s)" i] set_delete [of i "br_bonds (ba_registry s)"]
    by (auto simp: accounts_inv_def)
qed

lemma register_inv:
  assumes inv: "accounts_inv s" and r: "register_offline_spend ow a (ba_registry s) = (r, reg)"
  shows "accounts_inv (s\<lparr>ba_registry := reg\<rparr>)"
proof (cases "reg = ba_registry s")
  case False
  then obtain i b t where b: "map_of (br_bonds (ba_registry s)) i = Some b" "t \<le> bond_amount b"
      "reg = put_bond i (b\<lparr>bond_offline_exposure := t\<rparr>) (ba_registry s)"
    using r by (auto simp: register_offline_spend_def lookup_bond_Ok not_less Let_def split: result.splits if_splits option.splits)
  with bond_ok_of [OF inv b(1)] show ?thesis
    by (auto intro!: put_bond_same [OF inv b(1)] simp: bond_ok_def stake_of_def)
qed (use inv in \<open>simp add: accounts_inv_def\<close>)

lemma bond_step_inv: "bond_step R s s' \<Longrightarrow> accounts_inv s \<Longrightarrow> accounts_inv s'"
proof (induction rule: bond_step.induct)
  case (settle ow a s r reg)
  show ?case
  proof (cases "reg = ba_registry s")
    case False
    then obtain i b where b: "map_of (br_bonds (ba_registry s)) i = Some b"
        "reg = put_bond i (b\<lparr>bond_offline_exposure := saturating_sub (bond_offline_exposure b) a\<rparr>) (ba_registry s)"
      using settle(1) by (auto simp: settle_def lookup_bond_Ok split: result.splits)
    have "saturating_sub (bond_offline_exposure b) a \<le> bond_offline_exposure b"
      by (auto simp: saturating_sub_def word_sub_le)
    with bond_ok_of [OF settle(2) b(1)] b(2) show ?thesis
      by (auto intro!: put_bond_same [OF settle(2) b(1)] simp: bond_ok_def stake_of_def)
  qed (use settle(2) in \<open>simp add: accounts_inv_def\<close>)
next
  case (slash ow x y s a reg)
  then obtain i b where b: "map_of (br_bonds (ba_registry s)) i = Some b" "bond_active b" "a = bond_amount b"
      "reg = put_bond i (b\<lparr>bond_active := False\<rparr>) (ba_registry s)"
    by (auto simp: slash_def lookup_bond_Ok split: result.splits if_splits)
  with bond_ok_of [OF slash(2) b(1)] show ?case
    using put_bond_inv [OF slash(2) b(1), of "b\<lparr>bond_active := False\<rparr>" 0 "unat a"] by (simp add: bond_ok_def stake_of_def)
next
  case (request ow t s r reg)
  show ?case
  proof (cases "reg = ba_registry s")
    case False
    then obtain i b where b: "map_of (br_bonds (ba_registry s)) i = Some b"
        "reg = put_bond i (b\<lparr>bond_withdrawal_requested_at := t\<rparr>) (ba_registry s)"
      using request(1) by (auto simp: request_withdrawal_def lookup_bond_Ok split: result.splits if_splits)
    with bond_ok_of [OF request(2) b(1)] show ?thesis
      by (auto intro!: put_bond_same [OF request(2) b(1)] simp: bond_ok_def stake_of_def)
  qed (use request(2) in \<open>simp add: accounts_inv_def\<close>)
next
  case (refused ow a s g reg x y t)
  then have "reg = ba_registry s"
    by (auto simp: deposit_def slash_def withdraw_def Let_def split: result.splits if_splits option.splits prod.splits)
  with refused(2) show ?case by (simp add: accounts_inv_def)
qed (auto intro: deposit_inv register_inv withdraw_inv)

lemma bond_steps_inv: "(bond_step R)\<^sup>*\<^sup>* s s' \<Longrightarrow> accounts_inv s \<Longrightarrow> accounts_inv s'"
  by (induction rule: rtranclp_induct) (auto intro: bond_step_inv)

lemma accounts_new_inv: "accounts_inv accounts_new"
  by (simp add: accounts_inv_def accounts_new_def bond_registry_new_def total_stake_def)

section \<open>Properties\<close>

text \<open>C8: the bond accounts balance. After any sequence of deposits, spends, settlements, slashings, requests and withdrawals,
  successful or refused, what was deposited is what active bonds hold plus what was slashed plus what was withdrawn; and no bond
  ever has more outstanding offline than its amount.\<close>

theorem bond_accounts_balance:
  assumes "(bond_step R)\<^sup>*\<^sup>* accounts_new s"
  shows "ba_deposited s = (\<Sum>(i, b)\<leftarrow>br_bonds (ba_registry s). if bond_active b then unat (bond_amount b) else 0) + ba_slashed s + ba_withdrawn s \<and>
    (\<forall>(i, b)\<in>set (br_bonds (ba_registry s)). 0 < bond_amount b \<and> bond_offline_exposure b \<le> bond_amount b)"
  using bond_steps_inv [OF assms accounts_new_inv]
  by (auto simp: accounts_inv_def total_stake_def stake_of_def bond_ok_def)

theorem bond_accounts_balance_witness:
  "\<exists>s. (bond_step zp_prims)\<^sup>*\<^sup>* accounts_new s \<and> ba_deposited s = 50 \<and> ba_slashed s = 50 \<and>
     (\<Sum>(i, b)\<leftarrow>br_bonds (ba_registry s). if bond_active b then unat (bond_amount b) else 0) = 0"
proof -
  obtain b reg g' where d: "deposit zp_prims [1] 50 bond_registry_new (\<lambda>_. 2) = (Ok b, reg, g')"
    by (cases "fill_bytes 16 (\<lambda>_. 2)") (simp add: deposit_def MAX_BOND_AMOUNT_def bond_registry_new_def get_bond_def Let_def)
  then have b: "get_bond [1] reg = Some b" "bond_active b" "bond_amount b = 50"
    by (auto simp: deposit_def bond_registry_new_def get_bond_def Let_def update_conv' split: prod.splits if_splits)
  let ?s = "accounts_new\<lparr>ba_registry := reg, ba_deposited := 50\<rparr>"
  have 1: "bond_step zp_prims accounts_new ?s"
    using bond_step.deposit [of zp_prims "[1]" 50 accounts_new "\<lambda>_. 2" b reg g'] d by (simp add: accounts_new_def bond_registry_new_def)
  obtain reg' where sl: "slash [1] [3] [4] reg = (Ok 50, reg')"
    using b by (auto simp: slash_def lookup_bond_def ok_or_def get_bond_def split: option.splits Option.bind_splits)
  let ?t = "?s\<lparr>ba_registry := reg', ba_slashed := 50\<rparr>"
  have "bond_step zp_prims ?s ?t"
    using bond_step.slash [of "[1]" "[3]" "[4]" ?s 50 reg' zp_prims] sl by (simp add: accounts_new_def)
  with 1 have r: "(bond_step zp_prims)\<^sup>*\<^sup>* accounts_new ?t" by (auto intro: rtranclp_trans)
  from bond_accounts_balance [OF r] r show ?thesis by (intro exI [of _ ?t]) (auto simp: accounts_new_def)
qed

end
