(* ===== verification/Networked.thy ===== *)
theory Networked
  imports Gossip Bonds Token_Transfer
begin

text \<open>
  \<^verbatim>\<open>specter-core/src/networked.rs\<close>: a node that mints, transfers and takes part in the network. It owns the mint, the network node, the
  bond registry and the set of nullifiers spent here.
\<close>

record ('s, 'p) networked_node =
  nw_mint :: "('s, 'p) mint"
  nw_network :: "('s, 'p) network_node"
  nw_bonds :: bond_registry
  nw_nullifier_set :: nullifier_set

text \<open>Byte arrays and errors as the formatting macros print them.\<close>

fun separated :: "string \<Rightarrow> string list \<Rightarrow> string" where
  "separated sep [] = []"
| "separated sep [x] = x"
| "separated sep (x # xs) = x @ sep @ separated sep xs"

definition show_byte_array :: "bytes \<Rightarrow> string" where
  "show_byte_array bs = ''['' @ separated '', '' (map (show_nat \<circ> unat) bs) @ '']''"

fun show_transfer_error :: "transfer_error \<Rightarrow> string" where
  "show_transfer_error (NeedsRenewal transfer_count bound) =
     ''token needs renewal: '' @ show_nat (unat transfer_count) @ ''/'' @ show_nat (unat bound) @ '' transfers used''"
| "show_transfer_error (DoubleSpend nullifier) = ''double-spend detected for nullifier '' @ show_byte_array nullifier"
| "show_transfer_error InvalidTokenValue = ''invalid token value: must be > 0''"
| "show_transfer_error (FoldFailed e) = ''fold failed: '' @ e"
| "show_transfer_error (VerificationFailed e) = ''pre-spend verification failed: '' @ e"

fun show_consensus_error :: "consensus_error \<Rightarrow> string" where
  "show_consensus_error (NotLeader leader self_id) =
     ''not the current leader: leader is '' @ show_nat (unat leader) @ '', self is '' @ show_nat (unat self_id)"
| "show_consensus_error (InsufficientValidators mn got) =
     ''insufficient validators: need at least '' @ show_nat mn @ '', got '' @ show_nat got"
| "show_consensus_error (UnknownVoter v) = ''unknown voter: '' @ show_nat (unat v)"
| "show_consensus_error (InvalidVoteSignature v) = ''invalid vote signature from voter '' @ show_nat (unat v)"
| "show_consensus_error (DuplicateVote v) = ''duplicate vote from voter '' @ show_nat (unat v)"
| "show_consensus_error (Equivocation leader height) =
     ''equivocation detected: leader '' @ show_nat (unat leader) @ '' proposed different blocks at height '' @ show_nat (unat height)"
| "show_consensus_error (WrongHeight expected got) =
     ''vote for wrong height: expected '' @ show_nat (unat expected) @ '', got '' @ show_nat (unat got)"
| "show_consensus_error (WrongView expected got) =
     ''vote for wrong view: expected '' @ show_nat (unat expected) @ '', got '' @ show_nat (unat got)"
| "show_consensus_error InvalidBlockHash = ''block hash mismatch: block contents do not match hash''"

section \<open>Operations\<close>

definition networked_new ::
  "('s::field, 'p) prims \<Rightarrow> node_id \<Rightarrow> node_id list \<Rightarrow> ('s, 'p) validator_key \<Rightarrow> node_id list \<Rightarrow> (node_id \<times> 'p) list \<Rightarrow> mint_config \<Rightarrow>
     rng \<Rightarrow> (('s, 'p) networked_node, unit) result \<times> rng" where
  "networked_new R i peers own_key all_validators all_pubkeys config g =
     (let (mint, g) = mint_setup R config g
      in (bindR mint (\<lambda>mint. bindR (network_node_new i peers own_key all_validators all_pubkeys) (\<lambda>network.
            Ok \<lparr>nw_mint = mint, nw_network = network, nw_bonds = bond_registry_new, nw_nullifier_set = nullifier_set_new\<rparr>)), g))"

definition mint_token ::
  "('s::field, 'p::ab_group_add) prims \<Rightarrow> u64 \<Rightarrow> signer_id list \<Rightarrow> attributes option \<Rightarrow> u64 option \<Rightarrow> bytes option \<Rightarrow>
     ('s, 'p) networked_node \<Rightarrow> rng \<Rightarrow> (('s, 'p) proof_carrying_token, string) result \<times> rng" where
  "mint_token R v signers attrs iterations bond node g =
     apfst (map_err show_mint_error) (issue_full R (nw_mint node) v signers attrs iterations bond g)"

definition transfer_token ::
  "('s::field, 'p::ab_group_add) prims \<Rightarrow> ('s, 'p) proof_carrying_token \<Rightarrow> ('s, 'p) networked_node \<Rightarrow> rng \<Rightarrow>
     (('s, 'p) transfer_result, string) result \<times> ('s, 'p) networked_node \<times> rng" where
  "transfer_token R tok node g =
     (case transfer R tok None (nw_nullifier_set node) g of
        (Err e, ns, g) \<Rightarrow> (Err (show_transfer_error e), node\<lparr>nw_nullifier_set := ns\<rparr>, g)
      | (Panic, ns, g) \<Rightarrow> (Panic, node\<lparr>nw_nullifier_set := ns\<rparr>, g)
      | (Ok res, ns, g) \<Rightarrow>
          let (tok, g) = refresh_credential R (tr_token res) (mint_issuer (nw_mint node)) g;
              (network, g) = node_submit_nullifier R (tr_spent_nullifier res) (nw_network node) g;
              network = network\<lparr>nn_consensus := consensus_submit (tr_spent_nullifier res) (nn_consensus network)\<rparr>
          in (Ok (res\<lparr>tr_token := tok\<rparr>), node\<lparr>nw_nullifier_set := ns, nw_network := network\<rparr>, g))"

definition networked_verify_token ::
  "('s::field, 'p::ab_group_add) prims \<Rightarrow> ('s, 'p) proof_carrying_token \<Rightarrow> u64 \<Rightarrow> ('s, 'p) networked_node \<Rightarrow>
     (verification_result, unit) result" where
  "networked_verify_token R tok current_time node =
     verify_token R tok (group_public_key (nw_mint node)) (mint_pedersen (nw_mint node)) (iss_pedersen (mint_issuer (nw_mint node))) current_time"

definition is_double_spend :: "bytes \<Rightarrow> ('s, 'p) networked_node \<Rightarrow> bool" where
  "is_double_spend nullifier node \<longleftrightarrow> is_nullifier_known nullifier (nw_network node)"

definition on_consensus ::
  "(('s, 'p) consensus_state \<Rightarrow> ('a, consensus_error) result \<times> ('s, 'p) consensus_state) \<Rightarrow> ('s, 'p) networked_node \<Rightarrow>
     ('a, string) result \<times> ('s, 'p) networked_node" where
  "on_consensus f node =
     (let (r, c) = f (nn_consensus (nw_network node))
      in (map_err show_consensus_error r, node\<lparr>nw_network := (nw_network node)\<lparr>nn_consensus := c\<rparr>\<rparr>))"

definition networked_propose_block where
  "networked_propose_block R drain = on_consensus (propose_block R drain)"

definition networked_sign_vote ::
  "('s::field, 'p) prims \<Rightarrow> nullifier_block \<Rightarrow> ('s, 'p) networked_node \<Rightarrow> rng \<Rightarrow> ('s, 'p) vote \<times> rng" where
  "networked_sign_vote R block node g = node_sign_vote R (blk_height block) (blk_hash block) True (nw_network node) g"

definition networked_try_commit where
  "networked_try_commit R block = on_consensus (try_commit R block)"

definition networked_receive_vote where
  "networked_receive_vote R vote = on_consensus (receive_vote R vote)"

section \<open>Properties\<close>

lemma transfer_token_Ok:
  assumes "transfer_token R tok node g = (Ok res, node', g')"
  obtains res1 ns g1 tok1 g2 net g3 where "transfer R tok None (nw_nullifier_set node) g = (Ok res1, ns, g1)"
    "refresh_credential R (tr_token res1) (mint_issuer (nw_mint node)) g1 = (tok1, g2)"
    "node_submit_nullifier R (tr_spent_nullifier res1) (nw_network node) g2 = (net, g3)"
    "res = res1\<lparr>tr_token := tok1\<rparr>"
    "node' = node\<lparr>nw_nullifier_set := ns, nw_network := net\<lparr>nn_consensus := consensus_submit (tr_spent_nullifier res1) (nn_consensus net)\<rparr>\<rparr>"
  using assms by (auto simp: transfer_token_def Let_def split: prod.splits result.splits)

lemma refresh_fields:
  assumes "refresh_credential R tok iss g = (tok', g')"
  shows "tok' = tok\<lparr>tok_credential := tok_credential tok', tok_presentation := tok_presentation tok'\<rparr>"
  using assms by (auto simp: refresh_credential_def Let_def split: option.splits prod.splits)

lemma issued_by_refresh:
  "issued_by R pk ped (tok\<lparr>tok_credential := c, tok_presentation := p\<rparr>) = issued_by R pk ped tok"
  "owned_chain R (tok\<lparr>tok_credential := c, tok_presentation := p\<rparr>) = owned_chain R tok"
  by (simp_all add: issued_by_def owned_chain_def)

lemma submitted_known:
  assumes "node_submit_nullifier R n net g = (net', g')"
  shows "has_nullifier n (nn_gossip net') \<or> MAX_KNOWN_NULLIFIERS \<le> card (gp_seen_nullifiers (nn_gossip net))"
  using assms by (auto simp: node_submit_nullifier_def broadcast_nullifier_signed_def has_nullifier_def Let_def split: prod.splits if_splits)

lemma insert_then_refused: "nullifier_insert w n ns = (True, ns') \<Longrightarrow> nullifier_insert w' n ns' = (False, ns')"
  by (auto simp: nullifier_insert_def split: if_splits option.splits)

text \<open>What a submission leaves in the gossip: nothing if it is full or knows the nullifier already; otherwise the nullifier, and a
  broadcast of it under this node's name for every listed peer whose queue has room.\<close>

definition announced ::
  "('s::field, 'p::ab_group_add) prims \<Rightarrow> bytes \<Rightarrow> ('s, 'p) network_node \<Rightarrow> ('s, 'p) network_node \<Rightarrow> bool" where
  "announced R n net net' \<longleftrightarrow>
     (let gp = nn_gossip net; gp' = nn_gossip net'
      in if MAX_KNOWN_NULLIFIERS \<le> card (gp_seen_nullifiers gp) \<or> has_nullifier n gp then gp' = gp
         else gp_seen_nullifiers gp' = insert n (gp_seen_nullifiers gp) \<and>
           (\<exists>sr ss. verify_nullifier_broadcast R n (nn_id net) sr ss (vk_public_key (nn_validator_key net)) \<and>
              (\<forall>p. map_of (gp_outbox gp') p = map_option (\<lambda>q.
                 q @ replicate (min (count_list (gp_peers gp) p) (MAX_OUTBOX_PER_PEER - length q)) (NullifierBroadcast n (nn_id net) sr ss))
                 (map_of (gp_outbox gp) p))))"

lemma submitted_announced:
  assumes "ristretto R" and "node_inv R net" and "node_submit_nullifier R n net g = (net', g')"
  shows "announced R n net net'"
proof -
  obtain sr ss g1 where s: "sign_nullifier_broadcast R n (nn_id net) (vk_secret_key (nn_validator_key net))
      (vk_public_key (nn_validator_key net)) g = ((sr, ss), g1)" by (metis surj_pair)
  have v: "verify_nullifier_broadcast R n (nn_id net) sr ss (vk_public_key (nn_validator_key net))"
    using assms(2) by (intro ristretto.signed_broadcast_verifies [OF assms(1) _ s]) (simp add: node_inv_def key_ok_def)
  obtain b gp where gp: "broadcast_nullifier_signed n sr ss (nn_gossip net) = (b, gp)" by fastforce
  have gp': "nn_gossip net' = gp" using assms(3) by (auto simp: node_submit_nullifier_def s gp)
  have id: "gp_node_id (nn_gossip net) = nn_id net" using assms(2) by (simp add: node_inv_def)
  show ?thesis
  proof (cases "MAX_KNOWN_NULLIFIERS \<le> card (gp_seen_nullifiers (nn_gossip net)) \<or> has_nullifier n (nn_gossip net)")
    case True
    then have "gp = nn_gossip net" using gp by (auto simp: broadcast_nullifier_signed_def has_nullifier_def split: if_splits)
    with True show ?thesis by (simp add: announced_def gp' Let_def)
  next
    case False
    then have "gp = (nn_gossip net)\<lparr>gp_seen_nullifiers := insert n (gp_seen_nullifiers (nn_gossip net)),
        gp_outbox := enqueue (NullifierBroadcast n (nn_id net) sr ss) (gp_peers (nn_gossip net)) (gp_outbox (nn_gossip net))\<rparr>"
      using gp id by (auto simp: broadcast_nullifier_signed_def has_nullifier_def Let_def split: if_splits)
    with False v have "gp_seen_nullifiers gp = insert n (gp_seen_nullifiers (nn_gossip net)) \<and>
        map_of (gp_outbox gp) p = map_option (\<lambda>q. q @ replicate (min (count_list (gp_peers (nn_gossip net)) p)
          (MAX_OUTBOX_PER_PEER - length q)) (NullifierBroadcast n (nn_id net) sr ss)) (map_of (gp_outbox (nn_gossip net)) p)" for p
      by (simp add: enqueue_queue)
    with False v show ?thesis unfolding announced_def gp' Let_def by (simp only: if_False) blast
  qed
qed

lemma submitted_pending:
  assumes "node_submit_nullifier R n net g = (net', g')"
  shows "n \<in> cs_pending_nullifiers (nn_consensus net') \<or> is_committed n (nn_consensus net') \<or>
    MAX_PENDING_NULLIFIERS \<le> card (cs_pending_nullifiers (nn_consensus net))"
  using assms by (auto simp: node_submit_nullifier_def consensus_submit_def is_committed_def split: prod.splits if_splits)


text \<open>The example mint at the first of the four validators.\<close>

definition demo_networked :: "(zp, zp) networked_node" where
  "demo_networked = \<lparr>nw_mint = demo_mint,
     nw_network = \<lparr>nn_id = 1, nn_gossip = gossip_new 1 [2, 3, 4], nn_consensus = demo_node 1, nn_validator_key = demo_key 1\<rparr>,
     nw_bonds = bond_registry_new, nw_nullifier_set = nullifier_set_new\<rparr>"

lemma demo_networked_inv: "node_inv zp_prims (nw_network demo_networked)"
  using gossip_new_outbox [of _ 1 "[2, 3, 4]"] demo_node_new [of 1]
  by (auto simp: node_inv_def demo_networked_def key_ok_def demo_key_def demo_keys_def consensus_new_def gossip_new_def Let_def
      dest!: sym [of _ "demo_node 1"] split: if_splits)

lemma transfer_other_credential:
  "is_ok (fst (transfer R (tok\<lparr>tok_credential := c, tok_credential_pool := p\<rparr>) w ns g)) = is_ok (fst (transfer R tok w ns g))"
  by (simp add: transfer_def needs_renewal_def token_nullifier_def Let_def split: prod.split result.split option.split)

lemma demo_networked_transfer:
  assumes "token_of zp_prims demo_mint 0 tok" and "tok_transfer_count tok = 0" and "tok_recursion_bound tok = 2"
  obtains res node' g' where
    "transfer_token zp_prims (tok\<lparr>tok_credential := c, tok_credential_pool := p\<rparr>) demo_networked (\<lambda>_. 6) = (Ok res, node', g')"
proof -
  let ?tok = "tok\<lparr>tok_credential := c, tok_credential_pool := p\<rparr>"
  have "tok_transfer_count tok < tok_recursion_bound tok" using assms(2,3) by simp
  then have "is_ok (fst (transfer zp_prims tok None nullifier_set_new (\<lambda>_. 6)))"
    using zp.transfer_outcome [OF assms(1) _ insert_fresh, of "\<lambda>_. 6"] by auto
  then obtain r ns g1 where t: "transfer zp_prims ?tok None nullifier_set_new (\<lambda>_. 6) = (Ok r, ns, g1)"
    using transfer_other_credential [where R = zp_prims and tok = tok and c = c and p = p and w = None and ns = nullifier_set_new and g = "\<lambda>_. 6"] by (auto simp: is_ok_iff) (metis surjective_pairing)
  obtain tok1 g2 where c: "refresh_credential zp_prims (tr_token r) (mint_issuer demo_mint) g1 = (tok1, g2)" by fastforce
  obtain net g3 where n: "node_submit_nullifier zp_prims (tr_spent_nullifier r) (nw_network demo_networked) g2 = (net, g3)" by fastforce
  have "nw_mint demo_networked = demo_mint" "nw_nullifier_set demo_networked = nullifier_set_new" by (simp_all add: demo_networked_def)
  then show thesis using that t c n by (simp add: transfer_token_def Let_def)
qed


text \<open>The credential of a transferred token is never checked before it is issued again. After a transfer at a networked
  node the token carries a credential with the very attributes of the one it came with, whatever that one's signature
  was, and the new one is signed by this node's issuer: attributes a holder has made up come back certified.\<close>

lemma transfer_certifies_any_attributes:
  assumes "ristretto_group R" and "mint_ok R (nw_mint node)" and "transfer_token R tok node g = (Ok res, node', g')"
    and "tok_credential_pool tok = []" and "tok_credential tok = Some c"
  shows "\<exists>c'. tok_credential (tr_token res) = Some c' \<and> cred_attributes c' = cred_attributes c \<and>
    cred_issuer_pk c' = iss_public (mint_issuer (nw_mint node)) \<and> verify_credential_signature R c'"
proof -
  obtain res1 ns g1 tok1 g2 where t: "transfer R tok None (nw_nullifier_set node) g = (Ok res1, ns, g1)"
      "refresh_credential R (tr_token res1) (mint_issuer (nw_mint node)) g1 = (tok1, g2)" "tr_token res = tok1"
    by (rule transfer_token_Ok [OF assms(3)]) simp
  let ?iss = "mint_issuer (nw_mint node)"
  have "tok_credential (tr_token res1) = Some c" using transfer_Ok [OF t(1)] assms(4,5) by (auto simp: pop_credential_def)
  then have c': "tok_credential tok1 = Some (fst (issue_credential R ?iss (cred_attributes c) g1))"
    using t(2) by (auto simp: refresh_credential_def Let_def split: prod.splits)
  moreover have "cred_attributes (fst (issue_credential R ?iss a h)) = a" "cred_issuer_pk (fst (issue_credential R ?iss a h)) = iss_public ?iss" for a h
    by (simp_all add: issue_credential_def Let_def split: prod.split)
  moreover have "verify_credential_signature R (fst (issue_credential R ?iss a h))" for a h
    using ristretto_group.issued_signature [OF assms(1)] assms(2) by (simp add: mint_ok_def)
  ultimately show ?thesis using t(3) by simp
qed

lemma transfer_certifies_any_attributes_witness:
  "\<exists>tok c res node' g' c'. tok_credential tok = Some c \<and> \<not> verify_credential_signature zp_prims c \<and>
     transfer_token zp_prims tok demo_networked (\<lambda>_. 6) = (Ok res, node', g') \<and> tok_credential (tr_token res) = Some c' \<and>
     cred_attributes c' = cred_attributes c \<and> verify_credential_signature zp_prims c'"
proof -
  obtain tok where tok: "token_of zp_prims demo_mint 0 tok" "tok_transfer_count tok = 0" "tok_recursion_bound tok = 2"
    by (rule demo_token) simp
  let ?e = "hash_credential_challenge zp_prims (smul zp_prims 0 (basepoint zp_prims)) 0 0"
  define c where "c = (\<lparr>cred_commitment = 0, cred_blinding = 0,
     cred_attributes = \<lparr>kyc_passed = True, not_sanctioned = True, jurisdiction = ''EU'', age_over_18 = True, expires_at = 0\<rparr>,
     cred_signature_s = 0, cred_signature_e = ?e + 1, cred_issuer_pk = 0\<rparr> :: (zp, zp) credential)"
  have bad: "\<not> verify_credential_signature zp_prims c"
    by (simp add: c_def verify_credential_signature_def Let_def)
  let ?tok = "tok\<lparr>tok_credential := Some c, tok_credential_pool := []\<rparr>"
  obtain res node' g' where r: "transfer_token zp_prims ?tok demo_networked (\<lambda>_. 6) = (Ok res, node', g')"
    by (rule demo_networked_transfer [OF tok])
  from transfer_certifies_any_attributes [OF zp.ristretto_group_axioms _ r] demo_mint_ok(1)
  obtain c' where "tok_credential (tr_token res) = Some c'" "cred_attributes c' = cred_attributes c" "verify_credential_signature zp_prims c'"
    by (auto simp: demo_networked_def)
  with bad r show ?thesis by (intro exI [of _ ?tok]) auto
qed

end
