(* ===== verification/Cluster.thy ===== *)
theory Cluster
  imports Networked
begin

text \<open>
  The nodes of \<^verbatim>\<open>specter-core/src/networked.rs\<close> as a network: every validator runs the operations of its own node, in any order, and the
  votes and broadcasts they hand over are lost, repeated, delayed and reordered at will. The validators in \<open>F\<close> are faulty:
  nothing of their state is modelled and whatever they can sign is sent. What an honest validator has signed cannot be forged.
  The last three fields are a history of the run: what was signed, spent and committed where.
\<close>

section \<open>The network\<close>

record ('s, 'p) cluster =
  cl_nodes :: "node_id \<Rightarrow> ('s, 'p) networked_node"
  cl_votes :: "('s, 'p) vote set"
  cl_gossip :: "message set"
  cl_signed :: "(node_id \<times> u64 \<times> nullifier_block) set"
  cl_spent :: "(node_id \<times> bytes) set"
  cl_commits :: "(node_id \<times> u64 \<times> nullifier_block) set"

abbreviation cl_consensus :: "('s, 'p) cluster \<Rightarrow> node_id \<Rightarrow> ('s, 'p) consensus_state" where
  "cl_consensus c i \<equiv> nn_consensus (nw_network (cl_nodes c i))"

definition cluster_init ::
  "('s::field, 'p) prims \<Rightarrow> node_id set \<Rightarrow> node_id list \<Rightarrow> (node_id \<times> 'p) list \<Rightarrow> (node_id \<Rightarrow> ('s, 'p) validator_key) \<Rightarrow>
     ('s, 'p) cluster \<Rightarrow> bool" where
  "cluster_init R F vs keys key c \<longleftrightarrow>
     (\<forall>i. i \<notin> F \<longrightarrow> vk_node_id (key i) = i \<and>
        (\<exists>peers config g g'. networked_new R i peers (key i) vs keys config g = (Ok (cl_nodes c i), g'))) \<and>
     cl_votes c = {} \<and> cl_gossip c = {} \<and> cl_signed c = {} \<and> cl_spent c = {} \<and> cl_commits c = {}"

text \<open>
  A vote on the wire is backed if, should it be accepted as an honest validator's approval, that validator has signed it;
  a broadcast, if the honest validator it names has spent the nullifier.
\<close>

definition vote_backed ::
  "('s::field, 'p::ab_group_add) prims \<Rightarrow> node_id set \<Rightarrow> (node_id \<times> 'p) list \<Rightarrow> (node_id \<times> u64 \<times> nullifier_block) set \<Rightarrow>
     ('s, 'p) vote \<Rightarrow> bool" where
  "vote_backed R F keys sg v \<longleftrightarrow>
     (v_voter v \<notin> F \<and> v_approve v \<and> (\<exists>pk. map_of keys (v_voter v) = Some pk \<and> verify_vote_signature R v pk) \<longrightarrow>
      (\<exists>b. (v_voter v, v_view v, b) \<in> sg \<and> blk_height b = v_block_height v \<and> blk_hash b = v_block_hash v))"

fun gossip_backed ::
  "('s::field, 'p::ab_group_add) prims \<Rightarrow> node_id set \<Rightarrow> (node_id \<times> 'p) list \<Rightarrow> (node_id \<times> bytes) set \<Rightarrow> message \<Rightarrow> bool" where
  "gossip_backed R F keys spent (NullifierBroadcast n j sr ss) \<longleftrightarrow>
     (j \<notin> F \<and> (\<exists>pk. map_of keys j = Some pk \<and> verify_nullifier_broadcast R n j sr ss pk) \<longrightarrow> (j, n) \<in> spent)"
| "gossip_backed R F keys spent _ \<longleftrightarrow> True"

inductive cluster_step ::
  "('s::field, 'p::ab_group_add) prims \<Rightarrow> (bytes set \<Rightarrow> bytes list) \<Rightarrow> node_id set \<Rightarrow> (node_id \<times> 'p) list \<Rightarrow>
     ('s, 'p) cluster \<Rightarrow> ('s, 'p) cluster \<Rightarrow> bool" for R drain F keys where
  transfer: "i \<notin> F \<Longrightarrow> transfer_token R tok (cl_nodes c i) g = (r, node', g') \<Longrightarrow>
     cluster_step R drain F keys c (c\<lparr>cl_nodes := (cl_nodes c)(i := node'),
       cl_spent := (case r of Ok res \<Rightarrow> insert (i, tr_spent_nullifier res) (cl_spent c) | _ \<Rightarrow> cl_spent c)\<rparr>)"
| send: "i \<notin> F \<Longrightarrow> drain_messages_for p (nn_gossip (nw_network (cl_nodes c i))) = (ms, gp) \<Longrightarrow>
     cluster_step R drain F keys c (c\<lparr>cl_nodes := (cl_nodes c)(i := (cl_nodes c i)\<lparr>nw_network := (nw_network (cl_nodes c i))\<lparr>nn_gossip := gp\<rparr>\<rparr>),
       cl_gossip := cl_gossip c \<union> set ms\<rparr>)"
| receive: "i \<notin> F \<Longrightarrow> NullifierBroadcast n j sr ss \<in> cl_gossip c \<Longrightarrow>
     receive_nullifier_broadcast R n j sr ss (nw_network (cl_nodes c i)) = (r, net) \<Longrightarrow>
     cluster_step R drain F keys c (c\<lparr>cl_nodes := (cl_nodes c)(i := (cl_nodes c i)\<lparr>nw_network := net\<rparr>)\<rparr>)"
| propose: "i \<notin> F \<Longrightarrow> networked_propose_block R drain (cl_nodes c i) = (r, node') \<Longrightarrow>
     cluster_step R drain F keys c (c\<lparr>cl_nodes := (cl_nodes c)(i := node')\<rparr>)"
| proposal: "i \<notin> F \<Longrightarrow> on_consensus (receive_proposal b) (cl_nodes c i) = (r, node') \<Longrightarrow>
     cluster_step R drain F keys c (c\<lparr>cl_nodes := (cl_nodes c)(i := node')\<rparr>)"
| sign: "i \<notin> F \<Longrightarrow> networked_sign_vote R b (cl_nodes c i) g = (v, g') \<Longrightarrow>
     cluster_step R drain F keys c (c\<lparr>cl_votes := insert v (cl_votes c), cl_signed := insert (i, cs_view (cl_consensus c i), b) (cl_signed c)\<rparr>)"
| deliver: "i \<notin> F \<Longrightarrow> v \<in> cl_votes c \<Longrightarrow> networked_receive_vote R v (cl_nodes c i) = (r, node') \<Longrightarrow>
     cluster_step R drain F keys c (c\<lparr>cl_nodes := (cl_nodes c)(i := node')\<rparr>)"
| commit: "i \<notin> F \<Longrightarrow> networked_try_commit R b (cl_nodes c i) = (r, node') \<Longrightarrow>
     cluster_step R drain F keys c (c\<lparr>cl_nodes := (cl_nodes c)(i := node'),
       cl_commits := (if r = Ok True then insert (i, cs_view (cl_consensus c i), b) (cl_commits c) else cl_commits c)\<rparr>)"
| view_change: "i \<notin> F \<Longrightarrow> on_consensus (\<lambda>st. (Ok (), trigger_view_change st)) (cl_nodes c i) = (r, node') \<Longrightarrow>
     cluster_step R drain F keys c (c\<lparr>cl_nodes := (cl_nodes c)(i := node')\<rparr>)"
| inject_vote: "vote_backed R F keys (cl_signed c) v \<Longrightarrow>
     cluster_step R drain F keys c (c\<lparr>cl_votes := insert v (cl_votes c)\<rparr>)"
| inject_gossip: "gossip_backed R F keys (cl_spent c) m \<Longrightarrow>
     cluster_step R drain F keys c (c\<lparr>cl_gossip := insert m (cl_gossip c)\<rparr>)"

text \<open>
  What the operators of honest validators have to see to, since no operation of a node checks it: a validator approves
  one hash only for each height and view, and the blocks that are approved or committed are told apart by their hashes (which
  holds if a block is approved only after its hash is recomputed, and the hash has no collisions).
\<close>

definition votes_once :: "('s, 'p) cluster \<Rightarrow> bool" where
  "votes_once c \<longleftrightarrow> (\<forall>(i, w, b)\<in>cl_signed c. \<forall>(i', w', b')\<in>cl_signed c.
     i = i' \<and> w = w' \<and> blk_height b = blk_height b' \<longrightarrow> blk_hash b = blk_hash b')"

definition run_blocks :: "('s, 'p) cluster \<Rightarrow> nullifier_block set" where
  "run_blocks c = (snd \<circ> snd) ` (cl_signed c \<union> cl_commits c)"

definition hashes_tell_apart :: "('s, 'p) cluster \<Rightarrow> bool" where
  "hashes_tell_apart c \<longleftrightarrow> inj_on blk_hash (run_blocks c)"

section \<open>What a run keeps\<close>

definition consensus_fine where
  "consensus_fine R F vs keys sg st \<longleftrightarrow> consensus_inv R st \<and> cs_validators st = vs \<and> cs_validator_keys st = keys \<and>
     (\<forall>h. \<forall>v\<in>set (votes_for st h). vote_backed R F keys sg v)"

definition known_backed where
  "known_backed R F keys spent wire n \<longleftrightarrow> (\<exists>j. j \<notin> F \<and> (j, n) \<in> spent) \<or>
     (\<exists>j\<in>F. \<exists>sr ss pk. NullifierBroadcast n j sr ss \<in> wire \<and> map_of keys j = Some pk \<and> verify_nullifier_broadcast R n j sr ss pk)"

definition gossip_fine where
  "gossip_fine R F keys spent wire i gp \<longleftrightarrow> gp_node_id gp = i \<and> queues_ok (gossip_backed R F keys spent) (gp_outbox gp) \<and>
     (\<forall>n\<in>gp_seen_nullifiers gp. known_backed R F keys spent wire n)"

definition node_fine where
  "node_fine R F vs keys sg spent wire i node \<longleftrightarrow> nn_id (nw_network node) = i \<and> vk_node_id (nn_validator_key (nw_network node)) = i \<and>
     consensus_fine R F vs keys sg (nn_consensus (nw_network node)) \<and> gossip_fine R F keys spent wire i (nn_gossip (nw_network node))"

text \<open>A commit is backed by a quorum of validators of which every honest one has signed a block of that hash in that view.\<close>

definition commit_backed where
  "commit_backed F vs keys sg = (\<lambda>(i, w, b). i \<notin> F \<and>
     (\<exists>Q. Q \<subseteq> dom (map_of keys) \<and> quorum_of (length vs) \<le> card Q \<and>
       (\<forall>j\<in>Q. j \<notin> F \<longrightarrow> (\<exists>b'. (j, w, b') \<in> sg \<and> blk_hash b' = blk_hash b))))"

definition cluster_inv where
  "cluster_inv R F vs keys c \<longleftrightarrow>
     (\<forall>i. i \<notin> F \<longrightarrow> node_fine R F vs keys (cl_signed c) (cl_spent c) (cl_gossip c) i (cl_nodes c i) \<and>
        (\<forall>b\<in>set (cs_committed_blocks (cl_consensus c i)). \<exists>w. (i, w, b) \<in> cl_commits c)) \<and>
     (\<forall>v\<in>cl_votes c. vote_backed R F keys (cl_signed c) v) \<and> (\<forall>m\<in>cl_gossip c. gossip_backed R F keys (cl_spent c) m) \<and>
     (\<forall>x\<in>cl_commits c. commit_backed F vs keys (cl_signed c) x)"

text \<open>The histories only grow, and nothing that is backed stops being so.\<close>

lemma vote_backed_mono: "vote_backed R F keys sg v \<Longrightarrow> sg \<subseteq> sg' \<Longrightarrow> vote_backed R F keys sg' v"
  unfolding vote_backed_def by blast

lemma gossip_backed_mono: "gossip_backed R F keys spent m \<Longrightarrow> spent \<subseteq> spent' \<Longrightarrow> gossip_backed R F keys spent' m"
  by (cases m) auto

lemma known_backed_mono: "known_backed R F keys spent wire n \<Longrightarrow> spent \<subseteq> spent' \<Longrightarrow> wire \<subseteq> wire' \<Longrightarrow> known_backed R F keys spent' wire' n"
  unfolding known_backed_def by blast

lemma commit_backed_mono: "commit_backed F vs keys sg x \<Longrightarrow> sg \<subseteq> sg' \<Longrightarrow> commit_backed F vs keys sg' x"
  unfolding commit_backed_def by (cases x) fastforce

lemma consensus_fine_mono: "consensus_fine R F vs keys sg st \<Longrightarrow> sg \<subseteq> sg' \<Longrightarrow> consensus_fine R F vs keys sg' st"
  unfolding consensus_fine_def using vote_backed_mono by blast

lemma gossip_fine_mono:
  assumes "gossip_fine R F keys spent wire i gp" and "spent \<subseteq> spent'" and "wire \<subseteq> wire'"
  shows "gossip_fine R F keys spent' wire' i gp"
  using assms(1) gossip_backed_mono [where R = R, OF _ assms(2)] known_backed_mono [where R = R, OF _ assms(2,3)]
  unfolding gossip_fine_def queues_ok_def by blast

lemma node_fine_mono:
  assumes "node_fine R F vs keys sg spent wire i node" and "sg \<subseteq> sg'" and "spent \<subseteq> spent'" and "wire \<subseteq> wire'"
  shows "node_fine R F vs keys sg' spent' wire' i node"
  using assms(1) by (auto simp: node_fine_def intro: consensus_fine_mono [OF _ assms(2)] gossip_fine_mono [OF _ assms(3,4)])

section \<open>The operations of a node\<close>

lemma consensus_fine_step:
  assumes "consensus_fine R F vs keys sg st" and "consensus_step R drain st st'"
    and "\<And>h. set (votes_for st' h) \<subseteq> set (votes_for st h) \<union> {v. vote_backed R F keys sg v}"
  shows "consensus_fine R F vs keys sg st'"
  using assms(1,3) consensus_step_inv [OF assms(2)] consensus_step_same [OF assms(2)]
  unfolding consensus_fine_def committee_same_def by blast

lemma on_consensusE:
  assumes "on_consensus f node = (r, node')"
  obtains r0 st where "f (nn_consensus (nw_network node)) = (r0, st)" "r = map_err show_consensus_error r0"
    "node' = node\<lparr>nw_network := (nw_network node)\<lparr>nn_consensus := st\<rparr>\<rparr>"
  using assms by (auto simp: on_consensus_def split: prod.splits)

lemma node_fine_consensus:
  assumes "node_fine R F vs keys sg spent wire i node" and "consensus_step R drain (nn_consensus (nw_network node)) st"
    and "\<And>h. set (votes_for st h) \<subseteq> set (votes_for (nn_consensus (nw_network node)) h) \<union> {v. vote_backed R F keys sg v}"
  shows "node_fine R F vs keys sg spent wire i (node\<lparr>nw_network := (nw_network node)\<lparr>nn_consensus := st\<rparr>\<rparr>)"
  using assms(1) consensus_fine_step [OF _ assms(2,3), of vs] by (simp add: node_fine_def)

text \<open>Only the receipt of a vote adds to the votes a state holds.\<close>

lemma votes_for_steps:
  "votes_for (consensus_submit n st) h = votes_for st h"
  "propose_block R drain st = (r, st1) \<Longrightarrow> votes_for st1 h = votes_for st h"
  "receive_proposal b st = (r', st2) \<Longrightarrow> votes_for st2 h = votes_for st h"
  "receive_vote R' v st = (r3, st3) \<Longrightarrow> set (votes_for st3 h) \<subseteq> insert v (set (votes_for st h))"
  "try_commit R'' b st = (r4, st4) \<Longrightarrow> set (votes_for st4 h) \<subseteq> set (votes_for st h)"
  "votes_for (trigger_view_change st) h = []"
  by (auto simp: consensus_submit_def propose_block_def receive_proposal_def receive_vote_def try_commit_def trigger_view_change_def Let_def
      votes_for_def update_conv' delete_conv' split: result.splits if_splits option.splits)

text \<open>Only a commit adds to the committed blocks.\<close>

lemma committed_steps:
  "cs_committed_blocks (consensus_submit n st) = cs_committed_blocks st"
  "propose_block R drain st = (r, st1) \<Longrightarrow> cs_committed_blocks st1 = cs_committed_blocks st"
  "receive_proposal b st = (r', st2) \<Longrightarrow> cs_committed_blocks st2 = cs_committed_blocks st"
  "receive_vote R' v st = (r3, st3) \<Longrightarrow> cs_committed_blocks st3 = cs_committed_blocks st"
  "try_commit R'' b st = (r4, st4) \<Longrightarrow> cs_committed_blocks st4 = cs_committed_blocks st @ (if r4 = Ok True then [b] else [])"
  "cs_committed_blocks (trigger_view_change st) = cs_committed_blocks st"
  by (auto simp: consensus_submit_def propose_block_def receive_proposal_def receive_vote_def try_commit_def trigger_view_change_def Let_def
      split: result.splits if_splits option.splits)

lemma gossip_fine_broadcast:
  assumes "gossip_fine R F keys spent wire i gp" and "broadcast_nullifier_signed n sr ss gp = (r, gp')" and "i \<notin> F"
  shows "gossip_fine R F keys (insert (i, n) spent) wire i gp'"
proof -
  have f: "gossip_fine R F keys (insert (i, n) spent) wire i gp" using gossip_fine_mono [OF assms(1)] by blast
  then have "queues_ok (gossip_backed R F keys (insert (i, n) spent)) (enqueue (NullifierBroadcast n i sr ss) (gp_peers gp) (gp_outbox gp))"
    by (intro enqueue_ok) (simp_all add: gossip_fine_def)
  moreover have "known_backed R F keys (insert (i, n) spent) wire n" using assms(3) by (auto simp: known_backed_def)
  ultimately show ?thesis
    using f assms(2) by (auto simp: gossip_fine_def broadcast_nullifier_signed_def Let_def split: if_splits)
qed

lemma gossip_fine_receive:
  assumes "gossip_fine R F keys spent wire i gp" and "handle_verified_broadcast R n j sr ss keys gp = (r, gp')"
    and "gossip_backed R F keys spent (NullifierBroadcast n j sr ss)" and "NullifierBroadcast n j sr ss \<in> wire"
  shows "gossip_fine R F keys spent wire i gp'"
proof (cases "gp' = gp")
  case False
  then obtain pk where new: "map_of keys j = Some pk" "verify_nullifier_broadcast R n j sr ss pk"
      "gp' = gp\<lparr>gp_seen_nullifiers := insert n (gp_seen_nullifiers gp),
        gp_outbox := enqueue (NullifierBroadcast n j sr ss) (filter (\<lambda>p. p \<noteq> j) (gp_peers gp)) (gp_outbox gp)\<rparr>"
    using assms(2) by (auto simp: handle_verified_broadcast_def Let_def split: option.splits if_splits)
  have "queues_ok (gossip_backed R F keys spent) (gp_outbox gp')"
    unfolding new(3) using assms(1,3) by (simp del: gossip_backed.simps add: enqueue_ok gossip_fine_def)
  moreover have "known_backed R F keys spent wire n" using assms(3,4) new(1,2) by (cases "j \<in> F") (auto simp: known_backed_def)
  ultimately show ?thesis using assms(1) new(3) by (auto simp: gossip_fine_def)
qed (use assms(1) in simp)

lemma node_fine_transfer:
  assumes "node_fine R F vs keys sg spent wire i node" and "transfer_token R tok node g = (r, node', g')" and "i \<notin> F"
  shows "node_fine R F vs keys sg (case r of Ok res \<Rightarrow> insert (i, tr_spent_nullifier res) spent | _ \<Rightarrow> spent) wire i node'"
    and "cs_committed_blocks (nn_consensus (nw_network node')) = cs_committed_blocks (nn_consensus (nw_network node))"
proof -
  have "node_fine R F vs keys sg (case r of Ok res \<Rightarrow> insert (i, tr_spent_nullifier res) spent | _ \<Rightarrow> spent) wire i node' \<and>
    cs_committed_blocks (nn_consensus (nw_network node')) = cs_committed_blocks (nn_consensus (nw_network node))"
  proof (cases r)
    case (Ok res)
    obtain res1 ns g1 tok1 g2 net g3 where t: "transfer R tok None (nw_nullifier_set node) g = (Ok res1, ns, g1)"
        "node_submit_nullifier R (tr_spent_nullifier res1) (nw_network node) g2 = (net, g3)" "res = res1\<lparr>tr_token := tok1\<rparr>"
        "node' = node\<lparr>nw_nullifier_set := ns, nw_network := net\<lparr>nn_consensus := consensus_submit (tr_spent_nullifier res1) (nn_consensus net)\<rparr>\<rparr>"
      by (rule transfer_token_Ok [OF assms(2) [unfolded Ok]])
    let ?n = "tr_spent_nullifier res" and ?net = "nw_network node"
    have n: "tr_spent_nullifier res1 = ?n" by (simp add: t(3))
    obtain sr ss b gp where b: "broadcast_nullifier_signed ?n sr ss (nn_gossip ?net) = (b, gp)"
        "net = ?net\<lparr>nn_gossip := gp, nn_consensus := consensus_submit ?n (nn_consensus ?net)\<rparr>"
      using t(2) unfolding n by (auto simp: node_submit_nullifier_def split: prod.splits)
    let ?st = "nn_consensus ?net"
    have c: "consensus_fine R F vs keys sg ?st" "gossip_fine R F keys spent wire i (nn_gossip ?net)"
      using assms(1) by (simp_all add: node_fine_def)
    have "consensus_fine R F vs keys sg (consensus_submit ?n st)" if "consensus_fine R F vs keys sg st" for st
      by (rule consensus_fine_step [OF that consensus_step.submit]) (simp add: votes_for_steps(1))
    then have "consensus_fine R F vs keys sg (consensus_submit ?n (consensus_submit ?n ?st))" using c(1) by blast
    moreover have "gossip_fine R F keys (insert (i, ?n) spent) wire i gp" by (rule gossip_fine_broadcast [OF c(2) b(1) assms(3)])
    ultimately show ?thesis using assms(1) by (simp add: Ok t(4) b(2) n node_fine_def committed_steps(1))
  qed (use assms(1,2) in \<open>auto simp: transfer_token_def node_fine_def Let_def split: prod.splits result.splits\<close>)
  then show "node_fine R F vs keys sg (case r of Ok res \<Rightarrow> insert (i, tr_spent_nullifier res) spent | _ \<Rightarrow> spent) wire i node'"
    and "cs_committed_blocks (nn_consensus (nw_network node')) = cs_committed_blocks (nn_consensus (nw_network node))" by simp_all
qed

lemma node_fine_commit:
  assumes "node_fine R F vs keys sg spent wire i node" and "networked_try_commit R b node = (Ok True, node')" and "i \<notin> F"
  shows "commit_backed F vs keys sg (i, cs_view (nn_consensus (nw_network node)), b)"
proof -
  let ?st = "nn_consensus (nw_network node)"
  obtain st where t: "try_commit R b ?st = (Ok True, st)"
    using assms(2) unfolding networked_try_commit_def by (auto elim!: on_consensusE dest!: sym [of "Ok True"])
  have f: "consensus_inv R ?st" "cs_validators ?st = vs" "cs_validator_keys ?st = keys"
      "\<forall>h. \<forall>v\<in>set (votes_for ?st h). vote_backed R F keys sg v"
    using assms(1) by (simp_all add: node_fine_def consensus_fine_def)
  obtain Q where Q: "Q = v_voter ` set (approvals ?st (blk_hash b))" "Q \<subseteq> dom (map_of keys)" "quorum_of (length vs) \<le> card Q"
    by (rule commit_quorum [OF f(1) t]) (use f in \<open>simp add: consensus_inv_def\<close>)
  have "\<exists>b'. (j, cs_view ?st, b') \<in> sg \<and> blk_hash b' = blk_hash b" if j: "j \<in> Q" "j \<notin> F" for j
  proof -
    obtain v where v: "v \<in> set (votes_for ?st (blk_hash b))" "v_approve v" "v_voter v = j"
      using j(1) by (auto simp: Q(1) approvals_def)
    then have "vote_ok R ?st (blk_hash b) v" "vote_backed R F keys sg v" using f by (simp_all add: consensus_inv_def)
    then show ?thesis using v(2,3) j(2) f(3) by (auto simp: vote_ok_def vote_backed_def)
  qed
  with Q assms(3) show ?thesis by (auto simp: commit_backed_def)
qed

section \<open>Reachable networks\<close>

text \<open>A step of one node: its own state changes, the histories and the wires grow.\<close>

lemma cluster_inv_node:
  assumes "cluster_inv R F vs keys c" and "cl_nodes c' = (cl_nodes c)(i := node')"
    and "cl_signed c \<subseteq> cl_signed c'" and "cl_spent c \<subseteq> cl_spent c'" and "cl_gossip c \<subseteq> cl_gossip c'" and "cl_commits c \<subseteq> cl_commits c'"
    and "i \<notin> F \<Longrightarrow> node_fine R F vs keys (cl_signed c') (cl_spent c') (cl_gossip c') i node'"
    and "i \<notin> F \<Longrightarrow> \<forall>b\<in>set (cs_committed_blocks (nn_consensus (nw_network node'))). b \<in> set (cs_committed_blocks (cl_consensus c i)) \<or>
      (\<exists>w. (i, w, b) \<in> cl_commits c')"
    and "\<forall>v\<in>cl_votes c' - cl_votes c. vote_backed R F keys (cl_signed c') v"
    and "\<forall>m\<in>cl_gossip c' - cl_gossip c. gossip_backed R F keys (cl_spent c') m"
    and "\<forall>x\<in>cl_commits c' - cl_commits c. commit_backed F vs keys (cl_signed c') x"
  shows "cluster_inv R F vs keys c'"
  unfolding cluster_inv_def
proof (intro conjI allI impI ballI)
  fix j assume j: "j \<notin> F"
  then have old: "node_fine R F vs keys (cl_signed c) (cl_spent c) (cl_gossip c) j (cl_nodes c j)"
      "\<forall>b\<in>set (cs_committed_blocks (cl_consensus c j)). \<exists>w. (j, w, b) \<in> cl_commits c"
    using assms(1) by (simp_all add: cluster_inv_def)
  show "node_fine R F vs keys (cl_signed c') (cl_spent c') (cl_gossip c') j (cl_nodes c' j)"
    using assms(2,7) j node_fine_mono [OF old(1) assms(3,4,5)] by auto
  show "\<exists>w. (j, w, b) \<in> cl_commits c'" if "b \<in> set (cs_committed_blocks (cl_consensus c' j))" for b
    using that assms(2,6,8) j old(2) by (cases "j = i") (simp_all, blast+)
next
  show "vote_backed R F keys (cl_signed c') v" if "v \<in> cl_votes c'" for v
    using that assms(1,9) vote_backed_mono [OF _ assms(3), of R] by (auto simp: cluster_inv_def)
next
  show "gossip_backed R F keys (cl_spent c') m" if "m \<in> cl_gossip c'" for m
    using that assms(1,10) gossip_backed_mono [OF _ assms(4), of R] by (auto simp: cluster_inv_def)
next
  show "commit_backed F vs keys (cl_signed c') x" if "x \<in> cl_commits c'" for x
    using that assms(1,11) commit_backed_mono [OF _ assms(3)] unfolding cluster_inv_def by blast
qed

lemma cluster_inv_consensus:
  assumes "cluster_inv R F vs keys c" and "i \<notin> F" and "on_consensus f (cl_nodes c i) = (r, node')"
    and "\<And>r0 st. f (cl_consensus c i) = (r0, st) \<Longrightarrow> consensus_step R drain (cl_consensus c i) st \<and>
      cs_committed_blocks st = cs_committed_blocks (cl_consensus c i) \<and>
      (\<forall>h. set (votes_for st h) \<subseteq> set (votes_for (cl_consensus c i) h) \<union> {v. vote_backed R F keys (cl_signed c) v})"
  shows "cluster_inv R F vs keys (c\<lparr>cl_nodes := (cl_nodes c)(i := node')\<rparr>)"
proof -
  obtain r0 st where f: "f (cl_consensus c i) = (r0, st)"
      "node' = (cl_nodes c i)\<lparr>nw_network := (nw_network (cl_nodes c i))\<lparr>nn_consensus := st\<rparr>\<rparr>"
    by (rule on_consensusE [OF assms(3)])
  have st: "consensus_step R drain (cl_consensus c i) st" "cs_committed_blocks st = cs_committed_blocks (cl_consensus c i)"
      "set (votes_for st h) \<subseteq> set (votes_for (cl_consensus c i) h) \<union> {v. vote_backed R F keys (cl_signed c) v}" for h
    using assms(4) [OF f(1)] by simp_all
  have "node_fine R F vs keys (cl_signed c) (cl_spent c) (cl_gossip c) i (cl_nodes c i)"
    using assms(1,2) by (simp add: cluster_inv_def)
  from node_fine_consensus [OF this st(1,3)] show ?thesis
    by (intro cluster_inv_node [OF assms(1), of _ i node']) (simp_all add: f(2) st(2))
qed

lemma sign_backed:
  assumes "node_fine R F vs keys sg spent wire i node" and "networked_sign_vote R b node g = (v, g')"
  shows "vote_backed R F keys (insert (i, cs_view (nn_consensus (nw_network node)), b) sg) v"
  using assms(1) sign_vote_fields [OF assms(2) [unfolded networked_sign_vote_def node_sign_vote_def]]
  by (auto simp: vote_backed_def node_fine_def)

lemma cluster_inv_send:
  assumes inv: "cluster_inv R F vs keys c" and i: "i \<notin> F" and d: "drain_messages_for p (nn_gossip (nw_network (cl_nodes c i))) = (ms, gp)"
  shows "cluster_inv R F vs keys (c\<lparr>cl_nodes := (cl_nodes c)(i := (cl_nodes c i)\<lparr>nw_network := (nw_network (cl_nodes c i))\<lparr>nn_gossip := gp\<rparr>\<rparr>),
    cl_gossip := cl_gossip c \<union> set ms\<rparr>)"
proof -
  let ?gp = "nn_gossip (nw_network (cl_nodes c i))"
  have n: "node_fine R F vs keys (cl_signed c) (cl_spent c) (cl_gossip c) i (cl_nodes c i)" using inv i by (simp add: cluster_inv_def)
  then have "queues_ok (gossip_backed R F keys (cl_spent c)) (gp_outbox ?gp)" by (simp add: node_fine_def gossip_fine_def)
  from drain_queues [OF this d] show ?thesis
    by (intro cluster_inv_node [OF inv, of _ i "(cl_nodes c i)\<lparr>nw_network := (nw_network (cl_nodes c i))\<lparr>nn_gossip := gp\<rparr>\<rparr>"])
      (use node_fine_mono [OF n subset_refl subset_refl Un_upper1 [of _ "set ms"]] in \<open>auto simp: node_fine_def gossip_fine_def\<close>)
qed

lemma cluster_inv_receive:
  assumes inv: "cluster_inv R F vs keys c" and i: "i \<notin> F" and m: "NullifierBroadcast n j sr ss \<in> cl_gossip c"
    and r: "receive_nullifier_broadcast R n j sr ss (nw_network (cl_nodes c i)) = (r, net)"
  shows "cluster_inv R F vs keys (c\<lparr>cl_nodes := (cl_nodes c)(i := (cl_nodes c i)\<lparr>nw_network := net\<rparr>)\<rparr>)"
proof -
  have f: "node_fine R F vs keys (cl_signed c) (cl_spent c) (cl_gossip c) i (cl_nodes c i)"
      "gossip_backed R F keys (cl_spent c) (NullifierBroadcast n j sr ss)"
    using inv i m by (simp_all add: cluster_inv_def del: gossip_backed.simps)
  then have g: "gossip_fine R F keys (cl_spent c) (cl_gossip c) i (nn_gossip (nw_network (cl_nodes c i)))" "cs_validator_keys (cl_consensus c i) = keys"
    by (simp_all add: node_fine_def consensus_fine_def)
  obtain gp where gp: "handle_verified_broadcast R n j sr ss keys (nn_gossip (nw_network (cl_nodes c i))) = (r, gp)"
      "net = (nw_network (cl_nodes c i))\<lparr>nn_gossip := gp\<rparr>"
    using r unfolding receive_nullifier_broadcast_def g(2) by (auto split: prod.splits)
  from gossip_fine_receive [OF g(1) gp(1) f(2) m] show ?thesis
    by (intro cluster_inv_node [OF inv, of _ i "(cl_nodes c i)\<lparr>nw_network := net\<rparr>"]) (use f(1) in \<open>auto simp: node_fine_def gp(2)\<close>)
qed

lemma cluster_inv_commit:
  assumes inv: "cluster_inv R F vs keys c" and i: "i \<notin> F" and r: "networked_try_commit R b (cl_nodes c i) = (r, node')"
  shows "cluster_inv R F vs keys (c\<lparr>cl_nodes := (cl_nodes c)(i := node'),
    cl_commits := (if r = Ok True then insert (i, cs_view (cl_consensus c i), b) (cl_commits c) else cl_commits c)\<rparr>)"
proof -
  have n: "node_fine R F vs keys (cl_signed c) (cl_spent c) (cl_gossip c) i (cl_nodes c i)" using inv i by (simp add: cluster_inv_def)
  obtain r0 st where t: "try_commit R b (cl_consensus c i) = (r0, st)" "r = map_err show_consensus_error r0"
      "node' = (cl_nodes c i)\<lparr>nw_network := (nw_network (cl_nodes c i))\<lparr>nn_consensus := st\<rparr>\<rparr>"
    using r unfolding networked_try_commit_def by (rule on_consensusE)
  have "node_fine R F vs keys (cl_signed c) (cl_spent c) (cl_gossip c) i node'"
    unfolding t(3) by (rule node_fine_consensus [OF n consensus_step.commit [OF t(1)]]) (use votes_for_steps(5) [OF t(1)] in blast)
  moreover have "commit_backed F vs keys (cl_signed c) (i, cs_view (cl_consensus c i), b)" if "r = Ok True"
    using node_fine_commit [OF n _ i] r that by blast
  ultimately show ?thesis
    by (intro cluster_inv_node [OF inv, of _ i node']) (auto simp: t(2,3) committed_steps(5) [OF t(1)])
qed

text \<open>What the network may send is backed.\<close>

lemma cluster_inv_wire:
  assumes "cluster_inv R F vs keys c"
  shows "vote_backed R F keys (cl_signed c) v \<Longrightarrow> cluster_inv R F vs keys (c\<lparr>cl_votes := insert v (cl_votes c)\<rparr>)"
    and "gossip_backed R F keys (cl_spent c) m \<Longrightarrow> cluster_inv R F vs keys (c\<lparr>cl_gossip := insert m (cl_gossip c)\<rparr>)"
  using assms node_fine_mono [OF _ subset_refl subset_refl subset_insertI] unfolding cluster_inv_def by (simp, fastforce)

lemma cluster_step_inv:
  "cluster_step R drain F keys c c' \<Longrightarrow> cluster_inv R F vs keys c \<Longrightarrow> cluster_inv R F vs keys c'"
proof (induction rule: cluster_step.induct)
  case (transfer i tok c g r node' g')
  then have "node_fine R F vs keys (cl_signed c) (cl_spent c) (cl_gossip c) i (cl_nodes c i)" by (simp add: cluster_inv_def)
  note t = node_fine_transfer [OF this transfer(2,1)]
  show ?case by (rule cluster_inv_node [OF transfer(3), of _ i node']) (use t in \<open>auto split: result.splits\<close>)
next
  case (propose i c r node')
  then show ?case
    by (intro cluster_inv_consensus [OF propose(3,1), where drain = drain and f = "propose_block R drain"])
      (auto simp: networked_propose_block_def votes_for_steps committed_steps intro: consensus_step.propose)
next
  case (proposal i b c r node')
  then show ?case
    by (intro cluster_inv_consensus [OF proposal(3,1), where drain = drain and f = "receive_proposal b"])
      (auto simp: votes_for_steps committed_steps intro: consensus_step.proposal)
next
  case (sign i b c g v g')
  then have "node_fine R F vs keys (cl_signed c) (cl_spent c) (cl_gossip c) i (cl_nodes c i)" by (simp add: cluster_inv_def)
  from sign_backed [OF this sign(2)] node_fine_mono [OF this subset_insertI subset_refl subset_refl] show ?case
    by (intro cluster_inv_node [OF sign(3), of _ i "cl_nodes c i"]) auto
next
  case (deliver i v c r node')
  then have "vote_backed R F keys (cl_signed c) v" by (simp add: cluster_inv_def)
  with deliver show ?case
    by (intro cluster_inv_consensus [OF deliver(4,1), where drain = drain and f = "receive_vote R v"])
      (auto simp: networked_receive_vote_def committed_steps dest: subsetD [OF votes_for_steps(4)] intro: consensus_step.vote)
next
  case (view_change i c r node')
  then show ?case
    by (intro cluster_inv_consensus [OF view_change(3,1,2), where drain = drain])
      (auto simp: votes_for_steps committed_steps intro: consensus_step.view_change)
qed (rule cluster_inv_send cluster_inv_receive cluster_inv_commit cluster_inv_wire; assumption)+

lemma cluster_init_inv:
  assumes "cluster_init R F vs keys key c"
  shows "cluster_inv R F vs keys c"
proof -
  have "node_fine R F vs keys {} {} {} i (cl_nodes c i) \<and> cs_committed_blocks (cl_consensus c i) = []" if "i \<notin> F" for i
  proof -
    obtain peers config g g' where "networked_new R i peers (key i) vs keys config g = (Ok (cl_nodes c i), g')" "vk_node_id (key i) = i"
      using assms \<open>i \<notin> F\<close> unfolding cluster_init_def by blast
    then obtain net where net: "network_node_new i peers (key i) vs keys = Ok net" "nw_network (cl_nodes c i) = net" "vk_node_id (key i) = i"
      by (auto simp: networked_new_def dest!: sym [of _ "cl_nodes c i"] split: prod.splits)
    then obtain st where st: "consensus_new i vs keys Test = Ok st"
        "net = \<lparr>nn_id = i, nn_gossip = gossip_new i peers, nn_consensus = st, nn_validator_key = key i\<rparr>"
      by (auto simp: network_node_new_def split: result.splits)
    have "cs_votes st = []" "cs_committed_blocks st = []" using st(1) by (auto simp: consensus_new_def Let_def split: if_splits)
    then show ?thesis
      using consensus_new_inv [OF st(1)] net(3) gossip_new_outbox [of "gossip_backed R F keys {}" i peers]
      by (simp add: node_fine_def consensus_fine_def gossip_fine_def net(2) st(2) votes_for_def gossip_new_def)
  qed
  then show ?thesis using assms by (auto simp: cluster_inv_def cluster_init_def)
qed

lemma cluster_reach_inv:
  assumes "cluster_init R F vs keys key c0" and "(cluster_step R drain F keys)\<^sup>*\<^sup>* c0 c"
  shows "cluster_inv R F vs keys c"
  using assms(2) by (induction rule: rtranclp_induct) (auto intro: cluster_init_inv [OF assms(1)] cluster_step_inv)

section \<open>A round of votes\<close>

text \<open>Validators sign a block one after the other and one node receives each vote, then commits.\<close>

abbreviation with_consensus :: "('s, 'p) networked_node \<Rightarrow> ('s, 'p) consensus_state \<Rightarrow> ('s, 'p) networked_node" where
  "with_consensus node st \<equiv> node\<lparr>nw_network := (nw_network node)\<lparr>nn_consensus := st\<rparr>\<rparr>"

abbreviation cl_key :: "('s, 'p) cluster \<Rightarrow> node_id \<Rightarrow> ('s, 'p) validator_key" where
  "cl_key c j \<equiv> nn_validator_key (nw_network (cl_nodes c j))"

lemma cast_keeps: "cs_view (cast R tape h key st) = cs_view st" "cs_current_height (cast R tape h key st) = cs_current_height st"
  by (simp_all add: cast_def receive_vote_def split: option.split)

lemma sign_deliver:
  assumes "i \<notin> F" and "j \<notin> F" and "cs_view (cl_consensus c j) = cs_view (cl_consensus c i)"
    and "blk_height b = cs_current_height (cl_consensus c i)"
  obtains c' where "(cluster_step R drain F keys)\<^sup>*\<^sup>* c c'"
    "cl_nodes c' = (cl_nodes c)(i := with_consensus (cl_nodes c i) (cast R tape (blk_hash b) (cl_key c j) (cl_consensus c i)))"
    "cl_signed c' = insert (j, cs_view (cl_consensus c i), b) (cl_signed c)" "cl_commits c' = cl_commits c"
proof -
  obtain v g' where v: "networked_sign_vote R b (cl_nodes c j) (tape (vk_node_id (cl_key c j))) = (v, g')" by fastforce
  let ?c = "c\<lparr>cl_votes := insert v (cl_votes c), cl_signed := insert (j, cs_view (cl_consensus c j), b) (cl_signed c)\<rparr>"
  obtain r node' where d: "networked_receive_vote R v (cl_nodes c i) = (r, node')" by fastforce
  have s: "cluster_step R drain F keys c ?c" by (rule cluster_step.sign [OF assms(2) v])
  have "networked_receive_vote R v (cl_nodes ?c i) = (r, node')" using d by simp
  from cluster_step.deliver [OF assms(1) _ this, of drain keys]
  have "cluster_step R drain F keys ?c (?c\<lparr>cl_nodes := (cl_nodes c)(i := node')\<rparr>)" by simp
  moreover have "node' = with_consensus (cl_nodes c i) (cast R tape (blk_hash b) (cl_key c j) (cl_consensus c i))"
    using d v assms(3,4)
    by (auto simp: networked_receive_vote_def on_consensus_def networked_sign_vote_def node_sign_vote_def cast_def split: prod.splits)
  ultimately show thesis
    using s assms(3) by (intro that [of "?c\<lparr>cl_nodes := (cl_nodes c)(i := node')\<rparr>"]) auto
qed

lemma gather:
  assumes "i \<notin> F" and "\<forall>j\<in>set js. j \<notin> F \<and> cs_view (cl_consensus c j) = cs_view (cl_consensus c i)"
    and "blk_height b = cs_current_height (cl_consensus c i)"
  shows "\<exists>c'. (cluster_step R drain F keys)\<^sup>*\<^sup>* c c' \<and>
    cl_nodes c' = (cl_nodes c)(i := with_consensus (cl_nodes c i) (collect_votes R tape (blk_hash b) (map (cl_key c) js) (cl_consensus c i))) \<and>
    cl_signed c' = (\<lambda>j. (j, cs_view (cl_consensus c i), b)) ` set js \<union> cl_signed c \<and> cl_commits c' = cl_commits c"
  using assms(2,3)
proof (induction js arbitrary: c)
  case Nil
  then show ?case by (intro exI [of _ c]) (simp add: collect_votes_def)
next
  case (Cons j js)
  obtain c1 where c1: "(cluster_step R drain F keys)\<^sup>*\<^sup>* c c1"
    "cl_nodes c1 = (cl_nodes c)(i := with_consensus (cl_nodes c i) (cast R tape (blk_hash b) (cl_key c j) (cl_consensus c i)))"
    "cl_signed c1 = insert (j, cs_view (cl_consensus c i), b) (cl_signed c)" "cl_commits c1 = cl_commits c"
    by (rule sign_deliver [OF assms(1), of j c b]) (use Cons.prems in auto)
  have k: "cl_key c1 = cl_key c" "\<forall>j\<in>set js. j \<notin> F \<and> cs_view (cl_consensus c1 j) = cs_view (cl_consensus c1 i)"
      "cs_view (cl_consensus c1 i) = cs_view (cl_consensus c i)" "blk_height b = cs_current_height (cl_consensus c1 i)"
    using Cons.prems by (auto simp: c1(2) cast_keeps)
  obtain c2 where "(cluster_step R drain F keys)\<^sup>*\<^sup>* c1 c2"
    "cl_nodes c2 = (cl_nodes c1)(i := with_consensus (cl_nodes c1 i) (collect_votes R tape (blk_hash b) (map (cl_key c) js) (cl_consensus c1 i)))"
    "cl_signed c2 = (\<lambda>j. (j, cs_view (cl_consensus c i), b)) ` set js \<union> cl_signed c1" "cl_commits c2 = cl_commits c1"
    using Cons.IH [OF k(2,4)] unfolding k(1,3) by blast
  with c1 show ?case by (intro exI [of _ c2]) (auto simp: collect_votes_def)
qed

lemma gather_commit:
  assumes "ristretto_group R" and "i \<notin> F" and "\<forall>j\<in>set js. j \<notin> F \<and> cs_view (cl_consensus c j) = cs_view (cl_consensus c i)"
    and "\<forall>j\<in>set js. key_ok R (cl_key c j) \<and> vk_node_id (cl_key c j) = j \<and>
      map_of (cs_validator_keys (cl_consensus c i)) j = Some (vk_public_key (cl_key c j))"
    and "distinct js" and "cs_quorum_size (cl_consensus c i) \<le> length js" and "votes_for (cl_consensus c i) (blk_hash b) = []"
    and "blk_height b = cs_current_height (cl_consensus c i)"
    and "blk_hash b = block_compute_hash R (blk_height b) (blk_leader b) (blk_nullifiers b) (blk_prev_hash b)"
  obtains c' where "(cluster_step R drain F keys)\<^sup>*\<^sup>* c c'" "\<And>j. j \<noteq> i \<Longrightarrow> cl_nodes c' j = cl_nodes c j"
    "\<And>j. cl_key c' j = cl_key c j \<and> cs_view (cl_consensus c' j) = cs_view (cl_consensus c j)"
    "cl_signed c' = (\<lambda>j. (j, cs_view (cl_consensus c i), b)) ` set js \<union> cl_signed c"
    "cl_commits c' = insert (i, cs_view (cl_consensus c i), b) (cl_commits c)"
proof -
  let ?ks = "map (cl_key c) js" and ?st = "cl_consensus c i" and ?h = "blk_hash b"
  define st where "st = collect_votes R (\<lambda>_ _. 5) ?h ?ks ?st"
  obtain c1 where c1: "(cluster_step R drain F keys)\<^sup>*\<^sup>* c c1" "cl_nodes c1 = (cl_nodes c)(i := with_consensus (cl_nodes c i) st)"
    "cl_signed c1 = (\<lambda>j. (j, cs_view ?st, b)) ` set js \<union> cl_signed c" "cl_commits c1 = cl_commits c"
    using gather [OF assms(2,3,8), where R = R and tape = "\<lambda>_ _. 5"] unfolding st_def by blast
  have "\<forall>key\<in>set ?ks. key_ok R key \<and> map_of (cs_validator_keys ?st) (vk_node_id key) = Some (vk_public_key key)"
      "distinct (map vk_node_id ?ks)" "vk_node_id ` set ?ks \<inter> v_voter ` set (votes_for ?st ?h) = {}"
    using assms(4,5,7) by (auto simp: distinct_map inj_on_def)
  from ristretto_group.collect_votes_ok [OF assms(1) this, where tape = "\<lambda>_ _. 5"]
  obtain vs where vs: "st = ?st\<lparr>cs_votes := cs_votes st\<rparr>" "votes_for st ?h = vs" "map v_voter vs = map vk_node_id ?ks"
      "\<forall>v\<in>set vs. v_approve v"
    unfolding st_def [symmetric] assms(7) by auto
  have q: "cs_quorum_size st \<le> length (approvals st ?h)" "cs_view st = cs_view ?st"
    using assms(6) vs(2,4) arg_cong [OF vs(3), of length] arg_cong [OF vs(1), of cs_quorum_size] arg_cong [OF vs(1), of cs_view]
    by (simp_all add: approvals_def filter_id_conv)
  then obtain node' where n: "networked_try_commit R b (cl_nodes c1 i) = (Ok True, node')"
      "nn_validator_key (nw_network node') = cl_key c i" "cs_view (nn_consensus (nw_network node')) = cs_view ?st"
    using assms(9) by (auto simp: networked_try_commit_def on_consensus_def try_commit_def c1(2))
  from cluster_step.commit [OF assms(2) n(1), of drain keys] q(2) c1(2)
  have "cluster_step R drain F keys c1 (c1\<lparr>cl_nodes := (cl_nodes c1)(i := node'), cl_commits := insert (i, cs_view ?st, b) (cl_commits c1)\<rparr>)"
    by simp
  with c1(1) have "(cluster_step R drain F keys)\<^sup>*\<^sup>* c (c1\<lparr>cl_nodes := (cl_nodes c1)(i := node'), cl_commits := insert (i, cs_view ?st, b) (cl_commits c1)\<rparr>)"
    by simp
  then show thesis by (rule that) (simp_all add: c1 n)
qed

lemma view_changes:
  assumes "set js \<inter> F = {}" and "distinct js"
  obtains c' where "(cluster_step R drain F keys)\<^sup>*\<^sup>* c c'" "cl_signed c' = cl_signed c" "cl_commits c' = cl_commits c"
    "\<And>j. cl_nodes c' j = (if j \<in> set js then with_consensus (cl_nodes c j) (trigger_view_change (cl_consensus c j)) else cl_nodes c j)"
  using assms
proof (induction js arbitrary: c thesis)
  case Nil
  show ?case by (rule Nil.prems(1) [of c]) simp_all
next
  case (Cons i js)
  let ?n = "with_consensus (cl_nodes c i) (trigger_view_change (cl_consensus c i))" and ?c = "c\<lparr>cl_nodes := (cl_nodes c)(i :=
      with_consensus (cl_nodes c i) (trigger_view_change (cl_consensus c i)))\<rparr>"
  have "on_consensus (\<lambda>st. (Ok (), trigger_view_change st)) (cl_nodes c i) = (Ok (), ?n)" by (simp add: on_consensus_def)
  then have "cluster_step R drain F keys c ?c" using Cons.prems(2) by (intro cluster_step.view_change) auto
  moreover obtain c' where "(cluster_step R drain F keys)\<^sup>*\<^sup>* ?c c'" "cl_signed c' = cl_signed ?c" "cl_commits c' = cl_commits ?c"
    "\<And>j. cl_nodes c' j = (if j \<in> set js then with_consensus (cl_nodes ?c j) (trigger_view_change (cl_consensus ?c j)) else cl_nodes ?c j)"
    by (rule Cons.IH [of ?c]) (use Cons.prems in auto)
  ultimately show ?case using Cons.prems(3) by (intro Cons.prems(1) [of c']) auto
qed

section \<open>Four validators\<close>

definition demo_member :: "node_id \<Rightarrow> (zp, zp) networked_node" where
  "demo_member i = \<lparr>nw_mint = demo_mint,
     nw_network = \<lparr>nn_id = i, nn_gossip = gossip_new i (filter (\<lambda>j. j \<noteq> i) [1, 2, 3, 4]), nn_consensus = demo_node i, nn_validator_key = demo_key i\<rparr>,
     nw_bonds = bond_registry_new, nw_nullifier_set = nullifier_set_new\<rparr>"

definition demo_cluster :: "(zp, zp) cluster" where
  "demo_cluster = \<lparr>cl_nodes = demo_member, cl_votes = {}, cl_gossip = {}, cl_signed = {}, cl_spent = {}, cl_commits = {}\<rparr>"

text \<open>The block the leader of the second view proposes while nothing is committed at its node.\<close>

definition demo_other_block :: nullifier_block where
  "demo_other_block = block_new zp_prims 0 2 [replicate 32 8] (replicate 32 0)"

lemma demo_cluster_init: "cluster_init zp_prims F [1, 2, 3, 4] demo_keys demo_key demo_cluster"
proof -
  let ?cfg = "\<lparr>cfg_threshold = 2, cfg_total_signers = 3, cfg_recursion_bound = 2\<rparr>"
  obtain m g' where m: "mint_setup zp_prims ?cfg (\<lambda>_. 9) = (Ok m, g')"
    using zp.setup_ok [of ?cfg "\<lambda>_. 9"] by (auto simp: prod_eq_iff)
  then have "m = demo_mint" by (simp add: demo_mint_def)
  moreover have "consensus_new i [1, 2, 3, 4] demo_keys Test = Ok (demo_node i)" for i
    by (simp add: demo_node_def consensus_new_def)
  ultimately have "networked_new zp_prims i (filter (\<lambda>j. j \<noteq> i) [1, 2, 3, 4]) (demo_key i) [1, 2, 3, 4] demo_keys ?cfg (\<lambda>_. 9) =
      (Ok (cl_nodes demo_cluster i), g')" for i
    using m by (simp add: networked_new_def network_node_new_def demo_cluster_def demo_member_def)
  then have "\<exists>peers config g g'. networked_new zp_prims i peers (demo_key i) [1, 2, 3, 4] demo_keys config g = (Ok (cl_nodes demo_cluster i), g')" for i
    by blast
  then show ?thesis by (simp add: cluster_init_def demo_cluster_def demo_key_def)
qed

text \<open>The sum the example digest takes, from a position on.\<close>

primrec digest_sum :: "nat \<Rightarrow> bytes \<Rightarrow> nat" where
  "digest_sum k [] = 0"
| "digest_sum k (b # bs) = (k + 1) * (unat b + 1) + digest_sum (k + 1) bs"

lemma digest_sum_eq: "sum_list (map2 (\<lambda>i b. (i + 1) * (unat b + 1)) [k..<k + length bs] bs) = digest_sum k bs"
proof (induction bs arbitrary: k)
  case (Cons b bs)
  have "[k..<k + length (b # bs)] = k # [k + 1..<k + 1 + length bs]" by (simp add: upt_conv_Cons del: upt_Suc)
  then show ?case using Cons.IH [of "k + 1"] by simp
qed simp

lemma digest_sum_append: "digest_sum k (xs @ ys) = digest_sum k xs + digest_sum (k + length xs) ys"
  by (induction xs arbitrary: k) (simp_all add: add.assoc)

lemma digest_sum_replicate: "digest_sum k (replicate n b) = (unat b + 1) * (\<Sum>i<n. k + 1 + i)"
  by (induction n arbitrary: k) (simp_all add: algebra_simps sum.lessThan_Suc_shift del: sum.lessThan_Suc)

lemma zp_sha256: "sha256 zp_prims bs = nat_to_le 32 (digest_sum 0 bs)"
  using digest_sum_eq [of 0 bs] by (simp add: zp_prims_def zp_digest_def)

lemma u64_le_small: "u64_le 1 = 1 # nat_to_le 7 0" "u64_le 2 = 2 # nat_to_le 7 0"
  using nat_to_le.simps(2) [of 7 1] nat_to_le.simps(2) [of 7 2] by (simp_all add: u64_le_def)

lemma demo_hashes: "blk_hash demo_block \<noteq> blk_hash demo_other_block"
proof
  let ?p = "ascii ''specter-block:'' @ u64_le 0"
  define a b where "a = ?p @ u64_le 1 @ replicate 32 0 @ replicate 32 9" and "b = ?p @ u64_le 2 @ replicate 32 0 @ replicate 32 8"
  assume "blk_hash demo_block = blk_hash demo_other_block"
  then have "nat_to_le 32 (digest_sum 0 a) = nat_to_le 32 (digest_sum 0 b)"
    by (simp add: demo_block_def demo_other_block_def block_new_def block_compute_hash_def zp_sha256 a_def b_def)
  then have "digest_sum 0 a mod 256 ^ 32 = digest_sum 0 b mod 256 ^ 32" by (metis le_to_nat_nat_to_le)
  moreover have "(\<Sum>i<32. 63 + i) = (2512 :: nat)" by (simp add: sum.distrib Sum_Ico_nat lessThan_atLeast0)
  then have "digest_sum 0 a = digest_sum 0 b + 2489"
    by (simp add: a_def b_def digest_sum_append u64_le_small digest_sum_replicate ascii_def)
  ultimately have "(256 ^ 32 :: nat) dvd 2489" by (metis diff_add_inverse le_add1 mod_eq_dvd_iff_nat)
  then show False by (auto dest: dvd_imp_le)
qed
lemma demo_node_fields:
  "cs_validator_keys (demo_node i) = demo_keys" "cs_votes (demo_node i) = []" "cs_current_height (demo_node i) = 0"
  "cs_view (demo_node i) = 0" "cs_quorum_size (demo_node i) = 3"
  by (simp_all add: demo_node_def consensus_new_def Let_def)

text \<open>A round of the first view, at a node that has seen nothing yet.\<close>

lemma demo_round:
  assumes "i \<notin> F" and "set js \<inter> F = {}" and "set js \<subseteq> {1, 2, 3, 4}" and "distinct js" and "length js = 3"
    and "\<forall>j\<in>set js. cl_key c j = demo_key j \<and> cs_view (cl_consensus c j) = w"
    and "cl_consensus c i = (demo_node i)\<lparr>cs_view := w\<rparr>"
    and "b \<in> {demo_block, demo_other_block}"
  obtains c' where "(cluster_step zp_prims drain F demo_keys)\<^sup>*\<^sup>* c c'" "\<And>j. j \<noteq> i \<Longrightarrow> cl_nodes c' j = cl_nodes c j"
    "\<And>j. cl_key c' j = cl_key c j \<and> cs_view (cl_consensus c' j) = cs_view (cl_consensus c j)"
    "cl_signed c' = (\<lambda>j. (j, w, b)) ` set js \<union> cl_signed c" "cl_commits c' = insert (i, w, b) (cl_commits c)"
proof -
  have "map_of demo_keys j = Some (vk_public_key (demo_key j))" if "j \<in> set js" for j
    using that assms(3) by (auto simp: demo_keys_def)
  then have k: "\<forall>j\<in>set js. key_ok zp_prims (cl_key c j) \<and> vk_node_id (cl_key c j) = j \<and>
      map_of (cs_validator_keys (cl_consensus c i)) j = Some (vk_public_key (cl_key c j))"
    using assms(6,7) by (simp add: demo_node_fields) (simp add: demo_key_def key_ok_def)
  have i: "cs_view (cl_consensus c i) = w" "cs_quorum_size (cl_consensus c i) \<le> length js" "votes_for (cl_consensus c i) (blk_hash b) = []"
      "cs_current_height (cl_consensus c i) = 0"
    unfolding assms(7) by (simp_all add: demo_node_fields votes_for_def assms(5))
  have b: "blk_height b = 0" "blk_hash b = block_compute_hash zp_prims (blk_height b) (blk_leader b) (blk_nullifiers b) (blk_prev_hash b)"
    using assms(8) by (auto simp: demo_block_def demo_other_block_def block_new_def)
  have js: "\<forall>j\<in>set js. j \<notin> F \<and> cs_view (cl_consensus c j) = cs_view (cl_consensus c i)"
    using assms(2,6) i(1) by auto
  have h: "blk_height b = cs_current_height (cl_consensus c i)" using b(1) i(4) by simp
  show thesis
    by (rule gather_commit [OF zp.ristretto_group_axioms assms(1) js k assms(4) i(2,3) h b(2), where drain = drain and keys = demo_keys])
      (rule that, unfold i(1))
qed

lemma demo_cluster_fields:
  "cl_consensus demo_cluster i = demo_node i" "cl_key demo_cluster i = demo_key i" "cl_signed demo_cluster = {}" "cl_commits demo_cluster = {}"
  by (simp_all add: demo_cluster_def demo_member_def)

section \<open>Properties\<close>

lemma quorums_share_honest:
  fixes vs :: "node_id list"
  assumes "distinct vs" and "vs \<noteq> []" and "length vs < 4 \<or> length vs mod 3 = 1" and "finite F" and "card F \<le> (length vs - 1) div 3"
    and "Q \<subseteq> set vs" and "Q' \<subseteq> set vs" and "quorum_of (length vs) \<le> card Q" and "quorum_of (length vs) \<le> card Q'"
  obtains j where "j \<in> Q" "j \<in> Q'" "j \<notin> F"
proof -
  let ?st = "(undefined :: (zp, zp) consensus_state)\<lparr>cs_validators := vs, cs_max_faults := (length vs - 1) div 3,
     cs_quorum_size := quorum_of (length vs)\<rparr>"
  have "bft_sized ?st" using assms(1-3) by (simp add: bft_sized_def)
  from bft.honest_in_both [OF this, of Q Q' F] show thesis using assms(4-9) that by auto
qed

text \<open>C3: agreement within a view, in a network with faulty validators. The committee has fewer than four members, or its size \<open>n\<close> is one more
  than a multiple of three: for other sizes the quorum of the code is too small and the statement is false. Up to \<open>(n - 1) / 3\<close> of the
  validators may send anything they can sign, and the network may lose, repeat, delay and reorder everything. Two things are assumed of the
  honest validators' operators, since no operation of a node checks them: each approves one hash only for each height and view
  (\<open>votes_once\<close>), and hashes tell the blocks of the run apart (\<open>hashes_tell_apart\<close>). Then honest nodes that commit blocks of one height in one
  view commit the same block, with the same nullifiers, and every commit has the approval of an honest validator.\<close>

theorem cluster_agreement:
  assumes "cluster_init R F vs keys key c0" and "(cluster_step R drain F keys)\<^sup>*\<^sup>* c0 c"
    and "distinct vs" and "vs \<noteq> []" and "set vs = fst ` set keys" and "length vs < 4 \<or> length vs mod 3 = 1"
    and "finite F" and "card F \<le> (length vs - 1) div 3" and "votes_once c" and "hashes_tell_apart c"
  shows "(\<forall>i w b j b'. (i, w, b) \<in> cl_commits c \<and> (j, w, b') \<in> cl_commits c \<and> blk_height b = blk_height b' \<longrightarrow> b = b') \<and>
    (\<forall>i w b. (i, w, b) \<in> cl_commits c \<longrightarrow> (\<exists>j\<in>set vs - F. (j, w, b) \<in> cl_signed c)) \<and>
    (\<forall>i b. i \<notin> F \<and> b \<in> set (cs_committed_blocks (cl_consensus c i)) \<longrightarrow> (\<exists>w. (i, w, b) \<in> cl_commits c))"
proof -
  have inv: "cluster_inv R F vs keys c" by (rule cluster_reach_inv [OF assms(1,2)])
  have d: "dom (map_of keys) = set vs" using assms(5) by (simp add: dom_map_of_conv_image_fst)
  have same: "x = y" if "x \<in> run_blocks c" "y \<in> run_blocks c" "blk_hash x = blk_hash y" for x y
    using inj_onD [OF assms(10) [unfolded hashes_tell_apart_def] that(3,1,2)] .
  have blocks: "(i, w, b) \<in> cl_signed c \<union> cl_commits c \<Longrightarrow> b \<in> run_blocks c" for i w b
    unfolding run_blocks_def by force
  have quorum: "\<exists>Q. Q \<subseteq> set vs \<and> quorum_of (length vs) \<le> card Q \<and> (\<forall>j\<in>Q. j \<notin> F \<longrightarrow> (j, w, b) \<in> cl_signed c)"
    if x: "(i, w, b) \<in> cl_commits c" for i w b
  proof -
    from x inv have "commit_backed F vs keys (cl_signed c) (i, w, b)" unfolding cluster_inv_def by blast
    then obtain Q where Q: "Q \<subseteq> set vs" "quorum_of (length vs) \<le> card Q"
        "\<forall>j\<in>Q. j \<notin> F \<longrightarrow> (\<exists>b'. (j, w, b') \<in> cl_signed c \<and> blk_hash b' = blk_hash b)"
      by (auto simp: commit_backed_def d)
    have "(j, w, b) \<in> cl_signed c" if "j \<in> Q" "j \<notin> F" for j
      using Q(3) that same [of _ b] blocks x by blast
    with Q(1,2) show ?thesis by blast
  qed
  have "b = b'" if x: "(i, w, b) \<in> cl_commits c" "(j, w, b') \<in> cl_commits c" "blk_height b = blk_height b'" for i w b j b'
  proof -
    obtain Q Q' where Q: "Q \<subseteq> set vs" "quorum_of (length vs) \<le> card Q" "\<forall>k\<in>Q. k \<notin> F \<longrightarrow> (k, w, b) \<in> cl_signed c"
        "Q' \<subseteq> set vs" "quorum_of (length vs) \<le> card Q'" "\<forall>k\<in>Q'. k \<notin> F \<longrightarrow> (k, w, b') \<in> cl_signed c"
      using quorum [OF x(1)] quorum [OF x(2)] by blast
    obtain k where "k \<in> Q" "k \<in> Q'" "k \<notin> F" by (rule quorums_share_honest [OF assms(3,4,6,7,8) Q(1,4,2,5)])
    then have s: "(k, w, b) \<in> cl_signed c" "(k, w, b') \<in> cl_signed c" using Q(3,6) by auto
    then have "blk_hash b = blk_hash b'" using assms(9) x(3) unfolding votes_once_def by fast
    then show ?thesis using same [of b b'] blocks s by blast
  qed
  moreover have "\<exists>j\<in>set vs - F. (j, w, b) \<in> cl_signed c" if x: "(i, w, b) \<in> cl_commits c" for i w b
  proof -
    obtain Q where Q: "Q \<subseteq> set vs" "quorum_of (length vs) \<le> card Q" "\<forall>k\<in>Q. k \<notin> F \<longrightarrow> (k, w, b) \<in> cl_signed c"
      using quorum [OF x] by blast
    obtain k where "k \<in> Q" "k \<notin> F" by (rule quorums_share_honest [OF assms(3,4,6,7,8) Q(1,1,2,2)])
    with Q(1,3) show ?thesis by blast
  qed
  moreover have "\<exists>w. (i, w, b) \<in> cl_commits c" if "i \<notin> F" "b \<in> set (cs_committed_blocks (cl_consensus c i))" for i b
    using inv that unfolding cluster_inv_def by blast
  ultimately show ?thesis by blast
qed

theorem cluster_agreement_witness:
  "\<exists>c. (cluster_step zp_prims (\<lambda>_. []) {4} demo_keys)\<^sup>*\<^sup>* demo_cluster c \<and> (1, 0, demo_block) \<in> cl_commits c \<and>
     (2, 0, demo_block) \<in> cl_commits c \<and> (\<exists>j\<in>{1, 2, 3}. (j, 0, demo_block) \<in> cl_signed c)"
proof -
  let ?d = "\<lambda>_ :: bytes set. [] :: bytes list" and ?b = demo_block
  note f = demo_cluster_fields demo_node_fields
  obtain c1 where c1: "(cluster_step zp_prims ?d {4} demo_keys)\<^sup>*\<^sup>* demo_cluster c1" "\<And>j. j \<noteq> 1 \<Longrightarrow> cl_nodes c1 j = cl_nodes demo_cluster j"
    "\<And>j. cl_key c1 j = cl_key demo_cluster j \<and> cs_view (cl_consensus c1 j) = cs_view (cl_consensus demo_cluster j)"
    "cl_signed c1 = (\<lambda>j. (j, 0, ?b)) ` set [1, 2, 3] \<union> cl_signed demo_cluster" "cl_commits c1 = insert (1, 0, ?b) (cl_commits demo_cluster)"
    by (rule demo_round [where i = 1 and F = "{4}" and js = "[1, 2, 3]" and c = demo_cluster and w = 0 and b = ?b and drain = ?d])
      (simp_all add: f)
  have "cl_consensus c1 2 = (demo_node 2)\<lparr>cs_view := 0\<rparr>" using c1(2) [of 2] demo_node_fields(4) [of 2] by (simp add: f)
  then obtain c where c: "(cluster_step zp_prims ?d {4} demo_keys)\<^sup>*\<^sup>* c1 c"
    "cl_signed c = (\<lambda>j. (j, 0, ?b)) ` set [1, 2, 3] \<union> cl_signed c1" "cl_commits c = insert (2, 0, ?b) (cl_commits c1)"
    by (rule_tac demo_round [where i = 2 and F = "{4}" and js = "[1, 2, 3]" and c = c1 and w = 0 and b = ?b and drain = ?d])
      (simp_all add: c1(3) f)
  have "(1, 0, demo_block) \<in> cl_commits c" "(2, 0, demo_block) \<in> cl_commits c" by (simp_all add: c c1)
  moreover have reach: "(cluster_step zp_prims ?d {4} demo_keys)\<^sup>*\<^sup>* demo_cluster c" using c1(1) c(1) by simp
  moreover have once: "votes_once c" "hashes_tell_apart c"
    by (auto simp: votes_once_def hashes_tell_apart_def run_blocks_def inj_on_def c c1 f)
  have "set [1, 2, 3, 4] = fst ` set demo_keys" by (simp add: demo_keys_def)
  from cluster_agreement [OF demo_cluster_init reach _ _ this _ _ _ once] calculation(1)
  have "\<exists>j\<in>set [1, 2, 3, 4] - {4}. (j, 0, demo_block) \<in> cl_signed c" by simp
  ultimately show ?thesis by (intro exI [of _ c]) auto
qed

text \<open>C12: agreement ends with the view. All four validators are honest, none approves two hashes at one height and view, and
  hashes tell the blocks apart; still there is a run in which node 1 commits the block of the first leader and, after
  a change of view at the others, node 2 commits another block of the same height with other nullifiers. A validator keeps nothing of
  what it approved in an earlier view, and a node that has missed the votes cannot find out what was committed.\<close>

theorem views_can_disagree:
  "\<exists>c. (cluster_step zp_prims (\<lambda>_. []) {} demo_keys)\<^sup>*\<^sup>* demo_cluster c \<and> votes_once c \<and> hashes_tell_apart c \<and>
     (1, 0, demo_block) \<in> cl_commits c \<and> (2, 1, demo_other_block) \<in> cl_commits c \<and>
     blk_height demo_block = blk_height demo_other_block \<and> blk_prev_hash demo_block = blk_prev_hash demo_other_block \<and>
     blk_nullifiers demo_block \<noteq> blk_nullifiers demo_other_block"
proof -
  let ?d = "\<lambda>_ :: bytes set. [] :: bytes list" and ?b = demo_block and ?b' = demo_other_block
  note f = demo_cluster_fields demo_node_fields
  obtain c1 where c1: "(cluster_step zp_prims ?d {} demo_keys)\<^sup>*\<^sup>* demo_cluster c1" "\<And>j. j \<noteq> 1 \<Longrightarrow> cl_nodes c1 j = cl_nodes demo_cluster j"
    "cl_signed c1 = (\<lambda>j. (j, 0, ?b)) ` set [1, 2, 3] \<union> cl_signed demo_cluster" "cl_commits c1 = insert (1, 0, ?b) (cl_commits demo_cluster)"
    by (rule demo_round [where i = 1 and F = "{}" and js = "[1, 2, 3]" and c = demo_cluster and w = 0 and b = ?b and drain = ?d])
      (simp_all add: f)
  obtain c2 where c2: "(cluster_step zp_prims ?d {} demo_keys)\<^sup>*\<^sup>* c1 c2" "cl_signed c2 = cl_signed c1" "cl_commits c2 = cl_commits c1"
      "\<And>j. cl_nodes c2 j = (if j \<in> {2, 3, 4} then with_consensus (cl_nodes c1 j) (trigger_view_change (cl_consensus c1 j)) else cl_nodes c1 j)"
    by (rule view_changes [of "[2, 3, 4]" "{}", where c = c1 and R = zp_prims and drain = ?d and keys = demo_keys]) simp_all
  have n: "cl_consensus c2 j = (demo_node j)\<lparr>cs_view := 1\<rparr>" "cl_key c2 j = demo_key j" if "j \<in> {2, 3, 4}" for j
    using that c1(2) [of j] by (auto simp: c2(4) f trigger_view_change_def)
  obtain c where c: "(cluster_step zp_prims ?d {} demo_keys)\<^sup>*\<^sup>* c2 c"
    "cl_signed c = (\<lambda>j. (j, 1, ?b')) ` set [2, 3, 4] \<union> cl_signed c2" "cl_commits c = insert (2, 1, ?b') (cl_commits c2)"
    by (rule demo_round [where i = 2 and F = "{}" and js = "[2, 3, 4]" and c = c2 and w = 1 and b = ?b' and drain = ?d])
      (simp_all add: n)
  have "votes_once c" "hashes_tell_apart c"
    using demo_hashes by (auto simp: votes_once_def hashes_tell_apart_def run_blocks_def inj_on_def c c1 c2 f)
  moreover have "(cluster_step zp_prims ?d {} demo_keys)\<^sup>*\<^sup>* demo_cluster c" using c1(1) c2(1) c(1) by (meson rtranclp_trans)
  ultimately show ?thesis
    by (intro exI [of _ c]) (simp add: c c1 c2 demo_block_def demo_other_block_def block_new_def)
qed

text \<open>C13: what it takes to be called a double spend. If a node that is not faulty reports a nullifier as spent,
  then a transfer at an honest node spent it, or the network carried a broadcast of this nullifier that names a faulty validator and is
  signed under the key registered for it, or it is in a block that this node has committed. A message on the wire that is not
  signed by the validator it names makes no node report anything.\<close>

theorem double_spend_reports_backed:
  assumes "cluster_init R F vs keys key c0" and "(cluster_step R drain F keys)\<^sup>*\<^sup>* c0 c" and "i \<notin> F"
    and "is_double_spend n (cl_nodes c i)"
  shows "(\<exists>j. j \<notin> F \<and> (j, n) \<in> cl_spent c) \<or>
    (\<exists>j\<in>F. \<exists>sr ss pk. NullifierBroadcast n j sr ss \<in> cl_gossip c \<and> map_of keys j = Some pk \<and>
       verify_nullifier_broadcast R n j sr ss pk) \<or>
    (\<exists>w b. (i, w, b) \<in> cl_commits c \<and> n \<in> set (blk_nullifiers b))"
proof -
  have inv: "cluster_inv R F vs keys c" by (rule cluster_reach_inv [OF assms(1,2)])
  then have n: "node_fine R F vs keys (cl_signed c) (cl_spent c) (cl_gossip c) i (cl_nodes c i)"
      "\<forall>b\<in>set (cs_committed_blocks (cl_consensus c i)). \<exists>w. (i, w, b) \<in> cl_commits c"
    using assms(3) by (simp_all add: cluster_inv_def)
  then have "consensus_inv R (cl_consensus c i)" by (simp add: node_fine_def consensus_fine_def)
  then have "cs_committed_nullifiers (cl_consensus c i) = (\<Union>b\<in>set (cs_committed_blocks (cl_consensus c i)). set (blk_nullifiers b))"
    by (simp add: consensus_inv_def)
  moreover have "\<forall>n\<in>gp_seen_nullifiers (nn_gossip (nw_network (cl_nodes c i))). known_backed R F keys (cl_spent c) (cl_gossip c) n"
    using n(1) by (simp add: node_fine_def gossip_fine_def)
  ultimately show ?thesis
    using assms(4) n(2) by (auto simp: is_double_spend_def is_nullifier_known_def has_nullifier_def is_committed_def known_backed_def)
qed

theorem double_spend_reports_backed_witness:
  "\<exists>c n. (cluster_step zp_prims (\<lambda>_. []) {} demo_keys)\<^sup>*\<^sup>* demo_cluster c \<and> is_double_spend n (cl_nodes c 1) \<and>
     ((\<exists>j. (j, n) \<in> cl_spent c) \<or> (\<exists>w b. (1, w, b) \<in> cl_commits c))"
proof -
  obtain tok where tok: "token_of zp_prims demo_mint 0 tok" "tok_transfer_count tok = 0" "tok_recursion_bound tok = 2"
    by (rule demo_token) simp
  obtain res node' g' where r: "transfer_token zp_prims tok demo_networked (\<lambda>_. 6) = (Ok res, node', g')"
    by (rule demo_networked_transfer [OF tok, where c = "tok_credential tok" and p = "tok_credential_pool tok"]) simp
  have one: "cl_nodes demo_cluster 1 = demo_networked" by (simp add: demo_cluster_def demo_member_def demo_networked_def)
  define c where "c = demo_cluster\<lparr>cl_nodes := (cl_nodes demo_cluster)(1 := node'), cl_spent := insert (1, tr_spent_nullifier res) (cl_spent demo_cluster)\<rparr>"
  have "cluster_step zp_prims (\<lambda>_. []) {} demo_keys demo_cluster c"
    using cluster_step.transfer [of 1 "{}" zp_prims tok demo_cluster "\<lambda>_. 6" "Ok res" node' g' "\<lambda>_. []" demo_keys] r one
    by (simp add: c_def)
  then have reach: "(cluster_step zp_prims (\<lambda>_. []) {} demo_keys)\<^sup>*\<^sup>* demo_cluster c" by blast
  have "is_double_spend (tr_spent_nullifier res) node'"
  proof (rule transfer_token_Ok [OF r])
    fix res1 ns g1 tok1 g2 net g3
    assume n: "node_submit_nullifier zp_prims (tr_spent_nullifier res1) (nw_network demo_networked) g2 = (net, g3)"
      "res = res1\<lparr>tr_token := tok1\<rparr>"
      "node' = demo_networked\<lparr>nw_nullifier_set := ns, nw_network := net\<lparr>nn_consensus := consensus_submit (tr_spent_nullifier res1) (nn_consensus net)\<rparr>\<rparr>"
    from submitted_known [OF n(1)] show ?thesis
      by (simp add: n(2,3) is_double_spend_def is_nullifier_known_def demo_networked_def gossip_new_def MAX_KNOWN_NULLIFIERS_def)
  qed
  then have d: "is_double_spend (tr_spent_nullifier res) (cl_nodes c 1)" by (simp add: c_def)
  from double_spend_reports_backed [OF demo_cluster_init reach _ d] reach d show ?thesis by blast
qed

end
