(* ===== verification/Attestation.thy ===== *)
theory Attestation
  imports Pedersen
begin

text \<open>
  \<^verbatim>\<open>specter-net/src/attestation.rs\<close>: signed records of offline transfers, chained by hashes, and the comparison of two chains that
  is meant to find a double spender.
\<close>

section \<open>Attestations\<close>

record ('s, 'p) attestation_sig =
  as_r :: 'p
  as_s :: 's

record ('s, 'p) attestation =
  att_token_id :: bytes
  att_sender_hash :: bytes
  att_sender_pubkey :: 'p
  att_receiver_hash :: bytes
  att_chain_position :: u32
  att_prev_hash :: bytes
  att_hash :: bytes
  att_signature :: "('s, 'p) attestation_sig"

definition attestation_sig_challenge :: "('s, 'p) prims \<Rightarrow> 'p \<Rightarrow> 'p \<Rightarrow> bytes \<Rightarrow> 's" where
  "attestation_sig_challenge R r pk msg =
     from_bytes_mod_order_wide R (sha512 R (ascii ''specter-attestation-sig:'' @ compress R r @ compress R pk @ msg))"

definition attestation_compute_hash :: "('s, 'p) prims \<Rightarrow> bytes \<Rightarrow> bytes \<Rightarrow> 'p \<Rightarrow> bytes \<Rightarrow> u32 \<Rightarrow> bytes \<Rightarrow> bytes" where
  "attestation_compute_hash R token_id sender sender_pubkey receiver position prev =
     sha256 R (ascii ''specter-attestation-v3:'' @ token_id @ sender @ compress R sender_pubkey @ receiver @ u32_le position @ prev)"

definition new_signed ::
  "('s::field, 'p) prims \<Rightarrow> bytes \<Rightarrow> bytes \<Rightarrow> 's \<Rightarrow> 'p \<Rightarrow> bytes \<Rightarrow> u32 \<Rightarrow> bytes \<Rightarrow> rng \<Rightarrow> ('s, 'p) attestation \<times> rng" where
  "new_signed R token_id sender_hash sender_secret sender_pubkey receiver_hash chain_position prev_hash g =
     (let hash = attestation_compute_hash R token_id sender_hash sender_pubkey receiver_hash chain_position prev_hash;
          (k, g) = random_scalar R g;
          r = smul R k (basepoint R);
          challenge = attestation_sig_challenge R r sender_pubkey hash;
          s = k + challenge * sender_secret
      in (\<lparr>att_token_id = token_id, att_sender_hash = sender_hash, att_sender_pubkey = sender_pubkey,
           att_receiver_hash = receiver_hash, att_chain_position = chain_position, att_prev_hash = prev_hash, att_hash = hash,
           att_signature = \<lparr>as_r = r, as_s = s\<rparr>\<rparr>, g))"

definition verify_attestation :: "('s::field, 'p::ab_group_add) prims \<Rightarrow> ('s, 'p) attestation \<Rightarrow> bool" where
  "verify_attestation R att =
     (let expected_hash = attestation_compute_hash R (att_token_id att) (att_sender_hash att) (att_sender_pubkey att)
            (att_receiver_hash att) (att_chain_position att) (att_prev_hash att)
      in if expected_hash \<noteq> att_hash att then False
         else
           let challenge = attestation_sig_challenge R (as_r (att_signature att)) (att_sender_pubkey att) (att_hash att);
               lhs = smul R (as_s (att_signature att)) (basepoint R);
               rhs = as_r (att_signature att) + smul R challenge (att_sender_pubkey att)
           in compress R lhs = compress R rhs)"

section \<open>Chains\<close>

datatype attestation_error = ChainTooLong

record ('s, 'p) attestation_chain =
  ac_token_id :: bytes
  ac_attestations :: "('s, 'p) attestation list"

definition attestation_chain_new :: "bytes \<Rightarrow> ('s, 'p) attestation_chain" where
  "attestation_chain_new token_id = \<lparr>ac_token_id = token_id, ac_attestations = []\<rparr>"

definition add_transfer ::
  "('s::field, 'p) prims \<Rightarrow> bytes \<Rightarrow> 's \<Rightarrow> 'p \<Rightarrow> bytes \<Rightarrow> ('s, 'p) attestation_chain \<Rightarrow> rng \<Rightarrow>
     (unit, attestation_error) result \<times> ('s, 'p) attestation_chain \<times> rng" where
  "add_transfer R sender_hash sender_secret sender_pubkey receiver_hash chain g =
     (let n = length (ac_attestations chain)
      in if 2 ^ 32 \<le> n then (Err ChainTooLong, chain, g)
         else
           let position = of_nat n;
               prev_hash = (if ac_attestations chain = [] then replicate 32 0 else att_hash (last (ac_attestations chain)));
               (attestation, g) = new_signed R (ac_token_id chain) sender_hash sender_secret sender_pubkey receiver_hash position prev_hash g
           in (Ok (), chain\<lparr>ac_attestations := ac_attestations chain @ [attestation]\<rparr>, g))"

text \<open>The loop of \<^verbatim>\<open>verify_integrity\<close> from index \<open>i\<close>, with the hash of the attestation before it.\<close>

fun integrity_from ::
  "('s::field, 'p::ab_group_add) prims \<Rightarrow> bytes \<Rightarrow> nat \<Rightarrow> bytes \<Rightarrow> ('s, 'p) attestation list \<Rightarrow> bool" where
  "integrity_from R token_id i prev [] = True"
| "integrity_from R token_id i prev (att # atts) =
     (if att_chain_position att \<noteq> of_nat i then False
      else if att_prev_hash att \<noteq> prev then False
      else if att_token_id att \<noteq> token_id then False
      else if \<not> verify_attestation R att then False
      else integrity_from R token_id (i + 1) (att_hash att) atts)"

definition verify_integrity :: "('s::field, 'p::ab_group_add) prims \<Rightarrow> ('s, 'p) attestation_chain \<Rightarrow> bool" where
  "verify_integrity R chain = integrity_from R (ac_token_id chain) 0 (replicate 32 0) (ac_attestations chain)"

definition witness_count :: "('s, 'p) attestation_chain \<Rightarrow> nat" where
  "witness_count chain = length (ac_attestations chain)"

datatype chain_comparison =
    Consistent
  | Conflict u32 bytes
  | DifferentTokens

fun first_conflict :: "nat \<Rightarrow> ('s, 'p) attestation list \<Rightarrow> ('s, 'p) attestation list \<Rightarrow> chain_comparison" where
  "first_conflict i (a # as) (b # bs) =
     (if att_hash a \<noteq> att_hash b then Conflict (of_nat i) (att_sender_hash a) else first_conflict (i + 1) as bs)"
| "first_conflict i _ _ = Consistent"

definition detect_double_spend :: "('s, 'p) attestation_chain \<Rightarrow> ('s, 'p) attestation_chain \<Rightarrow> chain_comparison" where
  "detect_double_spend chain_a chain_b =
     (if ac_token_id chain_a \<noteq> ac_token_id chain_b then DifferentTokens
      else first_conflict 0 (ac_attestations chain_a) (ac_attestations chain_b))"

section \<open>Lemmas\<close>

sublocale ristretto_group \<subseteq> attest_sig: schnorr R "attestation_sig_challenge R"
  by unfold_locales

lemma new_signed_fields:
  assumes "new_signed R tid sh sk pk rh pos prev g = (att, g')"
  shows "att_token_id att = tid" "att_sender_hash att = sh" "att_sender_pubkey att = pk" "att_receiver_hash att = rh"
    "att_chain_position att = pos" "att_prev_hash att = prev" "att_hash att = attestation_compute_hash R tid sh pk rh pos prev"
  using assms by (auto simp: new_signed_def Let_def split: prod.splits)

lemma integrity_append:
  "integrity_from R tid i prev (atts @ [att]) \<longleftrightarrow> integrity_from R tid i prev atts \<and> att_chain_position att = of_nat (i + length atts) \<and>
     att_prev_hash att = (if atts = [] then prev else att_hash (last atts)) \<and> att_token_id att = tid \<and> verify_attestation R att"
  by (induction atts arbitrary: i prev) auto

lemma integrity_nth:
  assumes "integrity_from R tid i prev atts" and "j < length atts"
  shows "verify_attestation R (atts ! j) \<and> att_token_id (atts ! j) = tid \<and> att_chain_position (atts ! j) = of_nat (i + j) \<and>
    att_prev_hash (atts ! j) = (if j = 0 then prev else att_hash (atts ! (j - 1)))"
  using assms
proof (induction atts arbitrary: i prev j)
  case (Cons a atts)
  show ?case
  proof (cases j)
    case (Suc k)
    moreover have "integrity_from R tid (i + 1) (att_hash a) atts" using Cons.prems(1) by (simp split: if_splits)
    ultimately show ?thesis using Cons.IH [of "i + 1" "att_hash a" k] Cons.prems(2) by (auto simp: nth_Cons')
  qed (use Cons.prems in \<open>auto split: if_splits\<close>)
qed simp

lemma first_conflict_Conflict:
  assumes "first_conflict i as bs = Conflict p h" and "i + length as \<le> 2 ^ 32"
  shows "\<exists>j < min (length as) (length bs). unat p = i + j \<and> h = att_sender_hash (as ! j) \<and> att_hash (as ! j) \<noteq> att_hash (bs ! j) \<and>
    (\<forall>k < j. att_hash (as ! k) = att_hash (bs ! k))"
  using assms
proof (induction i as bs rule: first_conflict.induct)
  case (1 i a as b bs)
  show ?case
  proof (cases "att_hash a = att_hash b")
    case True
    with 1 obtain j where "j < min (length as) (length bs)" "unat p = i + 1 + j" "h = att_sender_hash (as ! j)"
        "att_hash (as ! j) \<noteq> att_hash (bs ! j)" "\<forall>k < j. att_hash (as ! k) = att_hash (bs ! k)" by auto
    with True show ?thesis by (intro exI [of _ "j + 1"]) (auto simp: nth_Cons')
  next
    case False
    with 1 show ?thesis by (intro exI [of _ 0]) (auto simp: unat_of_nat)
  qed
qed simp_all

lemma first_conflict_Consistent:
  "first_conflict i as bs = Consistent \<longleftrightarrow> (\<forall>j < min (length as) (length bs). att_hash (as ! j) = att_hash (bs ! j))"
proof (induction i as bs rule: first_conflict.induct)
  case (1 i a as b bs)
  then show ?case by (auto simp: nth_Cons' less_Suc_eq_0_disj)
qed simp_all

context ristretto_group
begin

lemma new_signed_verifies:
  assumes "pk = smul R sk (basepoint R)" and "new_signed R tid sh sk pk rh pos prev g = (att, g')"
  shows "verify_attestation R att"
proof -
  obtain k g1 where k: "random_scalar R g = (k, g1)" by fastforce
  let ?r = "smul R k (basepoint R)" and ?h = "attestation_compute_hash R tid sh pk rh pos prev"
  have "att_signature att = \<lparr>as_r = ?r, as_s = k + attestation_sig_challenge R ?r pk ?h * sk\<rparr>"
    using assms(2) by (auto simp: new_signed_def k Let_def)
  then show ?thesis
    using attest_sig.signed_accepts [OF assms(1) refl, of k ?h] new_signed_fields [OF assms(2)]
    by (simp add: verify_attestation_def schnorr_accepts_def)
qed

lemma add_transfer_integrity:
  assumes "verify_integrity R chain" and "pk = smul R sk (basepoint R)" and "add_transfer R sh sk pk rh chain g = (Ok (), chain', g')"
  obtains att where "ac_attestations chain' = ac_attestations chain @ [att]" "ac_token_id chain' = ac_token_id chain"
    "verify_integrity R chain'" "att_sender_hash att = sh" "att_receiver_hash att = rh" "att_sender_pubkey att = pk"
proof -
  let ?n = "of_nat (length (ac_attestations chain)) :: u32"
  let ?prev = "if ac_attestations chain = [] then replicate 32 0 else att_hash (last (ac_attestations chain))"
  obtain att g1 where a: "new_signed R (ac_token_id chain) sh sk pk rh ?n ?prev g = (att, g1)" by fastforce
  have c: "chain' = chain\<lparr>ac_attestations := ac_attestations chain @ [att]\<rparr>"
    using assms(3) a by (auto simp: add_transfer_def Let_def split: if_splits)
  note f = new_signed_fields [OF a] and v = new_signed_verifies [OF assms(2) a]
  have "verify_integrity R chain'" using assms(1) f v by (simp add: verify_integrity_def c integrity_append)
  then show thesis using that [of att] c f by simp
qed

end

section \<open>Properties\<close>

text \<open>C34: chains of attestations. Extending a chain whose links verify with the sender's own key keeps it verifying. Comparing two
  chains of one token finds no conflict exactly when they agree on their common length; and when it reports a conflict
  between two chains that verify, both attestations at the reported position carry valid signatures under the
  keys they name, for the same token, position and predecessor, but different contents, so that the pair is
  evidence that the position was used twice.\<close>

theorem attestation_conflict_evidence:
  assumes "ristretto_group R" and "verify_integrity R a" and "verify_integrity R b" and "ac_token_id a = ac_token_id b"
    and "length (ac_attestations a) \<le> 2 ^ 32"
  shows "(\<forall>sh sk rh g a' g'. add_transfer R sh sk (smul R sk (basepoint R)) rh a g = (Ok (), a', g') \<longrightarrow> verify_integrity R a') \<and>
    (detect_double_spend a b = Consistent \<longleftrightarrow> (\<forall>j < min (length (ac_attestations a)) (length (ac_attestations b)).
      att_hash (ac_attestations a ! j) = att_hash (ac_attestations b ! j))) \<and>
    (\<forall>p h. detect_double_spend a b = Conflict p h \<longrightarrow> (\<exists>x y. x = ac_attestations a ! unat p \<and> y = ac_attestations b ! unat p \<and>
      unat p < length (ac_attestations a) \<and> unat p < length (ac_attestations b) \<and> h = att_sender_hash x \<and>
      verify_attestation R x \<and> verify_attestation R y \<and> att_token_id x = att_token_id y \<and> att_chain_position x = att_chain_position y \<and>
      att_prev_hash x = att_prev_hash y \<and> att_hash x \<noteq> att_hash y \<and>
      (att_sender_hash x, att_sender_pubkey x, att_receiver_hash x) \<noteq> (att_sender_hash y, att_sender_pubkey y, att_receiver_hash y)))"
proof (intro conjI allI impI)
  fix sh sk rh g a' g' assume "add_transfer R sh sk (smul R sk (basepoint R)) rh a g = (Ok (), a', g')"
  then show "verify_integrity R a'" using ristretto_group.add_transfer_integrity [OF assms(1,2) refl] by metis
next
  show "detect_double_spend a b = Consistent \<longleftrightarrow> (\<forall>j < min (length (ac_attestations a)) (length (ac_attestations b)).
      att_hash (ac_attestations a ! j) = att_hash (ac_attestations b ! j))"
    using assms(4) by (simp add: detect_double_spend_def first_conflict_Consistent)
next
  fix p h assume "detect_double_spend a b = Conflict p h"
  then have "first_conflict 0 (ac_attestations a) (ac_attestations b) = Conflict p h" using assms(4) by (simp add: detect_double_spend_def)
  from first_conflict_Conflict [OF this] assms(5) obtain j where j: "j < length (ac_attestations a)" "j < length (ac_attestations b)" "unat p = j"
      "h = att_sender_hash (ac_attestations a ! j)" "att_hash (ac_attestations a ! j) \<noteq> att_hash (ac_attestations b ! j)"
      "\<forall>k < j. att_hash (ac_attestations a ! k) = att_hash (ac_attestations b ! k)" by auto
  note x = integrity_nth [OF assms(2) [unfolded verify_integrity_def] j(1)] and y = integrity_nth [OF assms(3) [unfolded verify_integrity_def] j(2)]
  let ?x = "ac_attestations a ! j" and ?y = "ac_attestations b ! j"
  have prev: "att_prev_hash ?x = att_prev_hash ?y" using x y j(6) by (cases j) auto
  have "att_hash ?x = attestation_compute_hash R (att_token_id ?x) (att_sender_hash ?x) (att_sender_pubkey ?x) (att_receiver_hash ?x)
      (att_chain_position ?x) (att_prev_hash ?x)"
    "att_hash ?y = attestation_compute_hash R (att_token_id ?y) (att_sender_hash ?y) (att_sender_pubkey ?y) (att_receiver_hash ?y)
      (att_chain_position ?y) (att_prev_hash ?y)"
    using x y by (auto simp: verify_attestation_def Let_def split: if_splits)
  then have "(att_sender_hash ?x, att_sender_pubkey ?x, att_receiver_hash ?x) \<noteq> (att_sender_hash ?y, att_sender_pubkey ?y, att_receiver_hash ?y)"
    using x y j(5) prev assms(4) by auto
  then show "\<exists>x y. x = ac_attestations a ! unat p \<and> y = ac_attestations b ! unat p \<and>
      unat p < length (ac_attestations a) \<and> unat p < length (ac_attestations b) \<and> h = att_sender_hash x \<and>
      verify_attestation R x \<and> verify_attestation R y \<and> att_token_id x = att_token_id y \<and> att_chain_position x = att_chain_position y \<and>
      att_prev_hash x = att_prev_hash y \<and> att_hash x \<noteq> att_hash y \<and>
      (att_sender_hash x, att_sender_pubkey x, att_receiver_hash x) \<noteq> (att_sender_hash y, att_sender_pubkey y, att_receiver_hash y)"
    using x y j prev assms(4) by (intro exI [of _ ?x] exI [of _ ?y]) auto
qed

text \<open>Two chains of one attestation each over the prime field, by one sender to two receivers.\<close>

lemma zp_digest_differs:
  assumes "unat c = unat b + 1" and "length xs < 1000"
  shows "zp_digest 32 (xs @ b # ys) \<noteq> zp_digest 32 (xs @ c # ys)"
proof -
  let ?S = "\<lambda>bs. sum_list (map2 (\<lambda>i b. (i + 1) * (unat b + 1)) [0..<length bs] bs)"
  have S: "?S bs = (\<Sum>i<length bs. (i + 1) * (unat (bs ! i) + 1))" for bs :: bytes
    by (simp add: sum_list_sum_nth atLeast0LessThan)
  let ?n = "length xs + length ys + 1"
  have "?S (xs @ c # ys) = ?S (xs @ b # ys) + (length xs + 1)"
  proof -
    have i: "length xs < ?n" by simp
    have "(\<Sum>i<?n. (i + 1) * (unat ((xs @ c # ys) ! i) + 1)) = (length xs + 1) * (unat c + 1) +
        (\<Sum>i\<in>{..<?n} - {length xs}. (i + 1) * (unat ((xs @ c # ys) ! i) + 1))"
      using i by (subst sum.remove [of _ "length xs"]) simp_all
    moreover have "(\<Sum>i<?n. (i + 1) * (unat ((xs @ b # ys) ! i) + 1)) = (length xs + 1) * (unat b + 1) +
        (\<Sum>i\<in>{..<?n} - {length xs}. (i + 1) * (unat ((xs @ b # ys) ! i) + 1))"
      using i by (subst sum.remove [of _ "length xs"]) simp_all
    moreover have "(\<Sum>i\<in>{..<?n} - {length xs}. (i + 1) * (unat ((xs @ c # ys) ! i) + 1)) =
        (\<Sum>i\<in>{..<?n} - {length xs}. (i + 1) * (unat ((xs @ b # ys) ! i) + 1))"
      by (rule sum.cong) (auto simp: nth_append nth_Cons')
    moreover have "(length xs + 1) * (unat c + 1) = (length xs + 1) * (unat b + 1) + (length xs + 1)" using assms(1) by simp
    moreover have "length (xs @ v # ys) = ?n" for v by simp
    ultimately show ?thesis unfolding S by (simp only:)
  qed
  moreover have "(s + (length xs + 1)) mod 256 ^ 32 \<noteq> s mod 256 ^ 32" for s
  proof
    assume "(s + (length xs + 1)) mod 256 ^ 32 = s mod 256 ^ 32"
    then have "256 ^ 32 dvd length xs + 1" using mod_eq_dvd_iff_nat [of s "s + (length xs + 1)" "256 ^ 32"] by simp
    then show False using assms(2) by (auto dest: dvd_imp_le)
  qed
  ultimately show ?thesis unfolding zp_digest_def by (metis le_to_nat_nat_to_le)
qed

definition demo_chain :: "u8 \<Rightarrow> (zp, zp) attestation_chain" where
  "demo_chain r = fst (snd (add_transfer zp_prims (replicate 32 4) 3 3 (r # replicate 31 0) (attestation_chain_new (replicate 32 5)) (\<lambda>_. 8)))"

lemma demo_chain_facts:
  "ac_token_id (demo_chain r) = replicate 32 5" "verify_integrity zp_prims (demo_chain r)"
  "\<exists>att. ac_attestations (demo_chain r) = [att] \<and> att_sender_hash att = replicate 32 4 \<and> att_hash att =
     attestation_compute_hash zp_prims (replicate 32 5) (replicate 32 4) 3 (r # replicate 31 0) 0 (replicate 32 0)"
proof -
  let ?c = "attestation_chain_new (replicate 32 5) :: (zp, zp) attestation_chain"
  obtain att g1 where a: "new_signed zp_prims (replicate 32 5) (replicate 32 4) 3 3 (r # replicate 31 0) 0 (replicate 32 0) (\<lambda>_. 8) = (att, g1)"
    by fastforce
  have d: "add_transfer zp_prims (replicate 32 4) 3 3 (r # replicate 31 0) ?c (\<lambda>_. 8) = (Ok (), ?c\<lparr>ac_attestations := [att]\<rparr>, g1)"
    using a by (simp add: add_transfer_def attestation_chain_new_def)
  then have c: "demo_chain r = ?c\<lparr>ac_attestations := [att]\<rparr>" by (simp add: demo_chain_def)
  show "ac_token_id (demo_chain r) = replicate 32 5" by (simp add: c attestation_chain_new_def)
  have three: "(3 :: zp) = smul zp_prims 3 (basepoint zp_prims)" by (simp add: zp_prims_def)
  have "verify_integrity zp_prims ?c" by (simp add: verify_integrity_def attestation_chain_new_def)
  from zp.add_transfer_integrity [OF this three d] show "verify_integrity zp_prims (demo_chain r)" by (metis c)
  show "\<exists>att. ac_attestations (demo_chain r) = [att] \<and> att_sender_hash att = replicate 32 4 \<and> att_hash att =
     attestation_compute_hash zp_prims (replicate 32 5) (replicate 32 4) 3 (r # replicate 31 0) 0 (replicate 32 0)"
    using new_signed_fields [OF a] by (simp add: c)
qed

lemma demo_chain_conflict: "detect_double_spend (demo_chain 1) (demo_chain 2) = Conflict 0 (replicate 32 4)"
proof -
  obtain a b where ab: "ac_attestations (demo_chain 1) = [a]" "ac_attestations (demo_chain 2) = [b]" "att_sender_hash a = replicate 32 4"
      "att_hash a = attestation_compute_hash zp_prims (replicate 32 5) (replicate 32 4) 3 (1 # replicate 31 0) 0 (replicate 32 0)"
      "att_hash b = attestation_compute_hash zp_prims (replicate 32 5) (replicate 32 4) 3 (2 # replicate 31 0) 0 (replicate 32 0)"
    using demo_chain_facts(3) [of 1] demo_chain_facts(3) [of 2] by blast
  have "att_hash a \<noteq> att_hash b"
    using zp_digest_differs [of 2 1 "ascii ''specter-attestation-v3:'' @ replicate 32 5 @ replicate 32 4 @ compress zp_prims 3"
        "replicate 31 0 @ u32_le 0 @ replicate 32 0"]
    by (simp add: ab attestation_compute_hash_def zp_prims_def length_zp_bytes ascii_def)
  then show ?thesis by (simp add: detect_double_spend_def demo_chain_facts(1) ab)
qed

theorem attestation_conflict_evidence_witness:
  "\<exists>x y. verify_attestation zp_prims x \<and> verify_attestation zp_prims y \<and> att_token_id x = att_token_id y \<and> att_hash x \<noteq> att_hash y \<and>
     x = ac_attestations (demo_chain 1) ! 0 \<and> y = ac_attestations (demo_chain 2) ! 0"
proof -
  have "length (ac_attestations (demo_chain 1)) \<le> 2 ^ 32" using demo_chain_facts(3) [of 1] by auto
  from conjunct2 [OF conjunct2 [OF attestation_conflict_evidence [OF zp.ristretto_group_axioms demo_chain_facts(2) demo_chain_facts(2) _ this]],
      rule_format, OF _ demo_chain_conflict]
  show ?thesis by (auto simp: demo_chain_facts(1))
qed

text \<open>A conflict does not show who cheated. Against any verifying chain and any position in it, somebody with a key of their
  own can make a verifying chain that agrees with it up to there and goes on to a receiver of their choice; comparing
  the two blames the sender of the first chain, who signed only one transfer. (The made-up attestation must not collide
  with the genuine hash.)\<close>

lemma attestation_framing:
  assumes "ristretto_group R" and "verify_integrity R a" and "j < length (ac_attestations a)" and "length (ac_attestations a) \<le> 2 ^ 32"
    and "attestation_compute_hash R (ac_token_id a) sh (smul R sk (basepoint R)) rh (of_nat j) (att_prev_hash (ac_attestations a ! j))
      \<noteq> att_hash (ac_attestations a ! j)"
  shows "\<exists>b. ac_token_id b = ac_token_id a \<and> verify_integrity R b \<and> take j (ac_attestations b) = take j (ac_attestations a) \<and>
    att_sender_pubkey (ac_attestations b ! j) = smul R sk (basepoint R) \<and>
    detect_double_spend a b = Conflict (of_nat j) (att_sender_hash (ac_attestations a ! j))"
proof -
  let ?as = "ac_attestations a" and ?pk = "smul R sk (basepoint R)"
  define c where "c = a\<lparr>ac_attestations := take j ?as\<rparr>"
  have "integrity_from R tid i prev (take n atts)" if "integrity_from R tid i prev atts" for tid i prev n and atts :: "('a, 'b) attestation list"
    using that by (induction atts arbitrary: i prev n) (auto simp: take_Cons' split: if_splits)
  then have c: "verify_integrity R c" using assms(2) by (simp add: c_def verify_integrity_def)
  obtain r b g where b: "add_transfer R sh sk ?pk rh c (\<lambda>_. 0) = (r, b, g)" by (metis surj_pair)
  have "length (ac_attestations c) = j" "j < 2 ^ 32" using assms(3,4) by (simp_all add: c_def)
  then have "r = Ok ()" using b by (auto simp: add_transfer_def Let_def split: prod.splits)
  then obtain att where att: "ac_attestations b = take j ?as @ [att]" "ac_token_id b = ac_token_id a" "verify_integrity R b"
      "att_sender_hash att = sh" "att_receiver_hash att = rh" "att_sender_pubkey att = ?pk"
    using ristretto_group.add_transfer_integrity [OF assms(1) c refl, of sh sk rh "\<lambda>_. 0" b g] b by (auto simp: c_def)
  have bj: "ac_attestations b ! j = att" "length (ac_attestations b) = j + 1" using att(1) assms(3) by (simp_all add: nth_append)
  note x = integrity_nth [OF assms(2) [unfolded verify_integrity_def] assms(3)]
    and y = integrity_nth [OF att(3) [unfolded verify_integrity_def], of j, unfolded bj]
  have "att_prev_hash att = att_prev_hash (?as ! j)" using x y att(1) assms(3) by (auto simp: nth_append)
  then have "att_hash att = attestation_compute_hash R (ac_token_id a) sh ?pk rh (of_nat j) (att_prev_hash (?as ! j))"
    using y att by (auto simp: verify_attestation_def Let_def split: if_splits)
  then have ne: "att_hash (?as ! j) \<noteq> att_hash att" using assms(5) by metis
  have "first_conflict i (xs @ x # xs') (xs @ [z]) = Conflict (of_nat (i + length xs)) (att_sender_hash x)"
    if "att_hash x \<noteq> att_hash z" for i xs x xs' and z :: "('a, 'b) attestation"
    using that by (induction xs arbitrary: i) simp_all
  from this [OF ne, of 0 "take j ?as" "drop (Suc j) ?as"]
  have "detect_double_spend a b = Conflict (of_nat j) (att_sender_hash (?as ! j))"
    using assms(3) att(1,2) id_take_nth_drop [OF assms(3)] by (simp add: detect_double_spend_def)
  then show ?thesis using att bj(1) assms(3) by (intro exI [of _ b]) simp
qed

lemma attestation_framing_witness:
  "\<exists>b. verify_integrity zp_prims b \<and> att_sender_pubkey (ac_attestations b ! 0) = smul zp_prims 3 (basepoint zp_prims) \<and>
     detect_double_spend (demo_chain 1) b = Conflict 0 (replicate 32 4)"
proof -
  obtain a where a: "ac_attestations (demo_chain 1) = [a]" "att_sender_hash a = replicate 32 4"
      "att_hash a = attestation_compute_hash zp_prims (replicate 32 5) (replicate 32 4) 3 (1 # replicate 31 0) 0 (replicate 32 0)"
    using demo_chain_facts(3) [of 1] by blast
  have "att_prev_hash a = replicate 32 0"
    using demo_chain_facts(2) [of 1] by (simp add: verify_integrity_def a split: if_splits)
  moreover have "attestation_compute_hash zp_prims (replicate 32 5) (replicate 32 4) 3 (2 # replicate 31 0) 0 (replicate 32 0) \<noteq> att_hash a"
    using zp_digest_differs [of 2 1 "ascii ''specter-attestation-v3:'' @ replicate 32 5 @ replicate 32 4 @ compress zp_prims 3"
        "replicate 31 0 @ u32_le 0 @ replicate 32 0"]
    by (simp add: a attestation_compute_hash_def zp_prims_def length_zp_bytes ascii_def)
  moreover have "smul zp_prims 3 (basepoint zp_prims) = 3" by (simp add: zp_prims_def)
  ultimately show ?thesis
    using attestation_framing [OF zp.ristretto_group_axioms demo_chain_facts(2) [of 1], of 0 "replicate 32 4" 3 "2 # replicate 31 0"]
    by (auto simp: a demo_chain_facts(1))
qed

end
