(* ===== verification/Sbt_Oprf.thy ===== *)
theory Sbt_Oprf
  imports Threshold
begin

text \<open>
  \<^verbatim>\<open>specter-sbt/src/transcript.rs\<close>, \<^verbatim>\<open>proof.rs\<close> and \<^verbatim>\<open>oprf.rs\<close>: the hash transcript, the proof that two points have one discrete
  logarithm, the proof of an opening bound to a tag, and the threshold oblivious pseudorandom function.

  \<^verbatim>\<open>Scalar::random\<close> is a parameter \<open>draw\<close> on the tape of random bytes. A nonce is redrawn while it is zero, which need not
  end on every tape; the operations that draw one return an option, with \<open>None\<close> for a run that does not return.
\<close>

section \<open>Transcript\<close>

datatype sbt_error =
    DdhEqualityFailed u32
  | Insufficient nat nat
  | DuplicateIndex u32
  | TokenProofFailed
  | IdentityPoint
  | ZeroDenominator
  | InvalidIndex u32
  | SessionTooShort
  | SessionMismatch
  | StateRequestMismatch
  | EmptyDomain
  | TagOriginMismatch
  | AggregateMismatch
  | TagOriginCheckRequired

record sbt_transcript =
  st_absorbed :: bytes

definition SBT_TRANSCRIPT_TAG :: bytes where
  "SBT_TRANSCRIPT_TAG = ascii ''SPECTER-SBT-TRANSCRIPT-v1/''"

definition sbt_transcript_new :: "string \<Rightarrow> sbt_transcript" where
  "sbt_transcript_new label = \<lparr>st_absorbed = SBT_TRANSCRIPT_TAG @ len_be (ascii label) @ ascii label\<rparr>"

definition append_bytes :: "string \<Rightarrow> bytes \<Rightarrow> sbt_transcript \<Rightarrow> sbt_transcript" where
  "append_bytes tag bs tr = tr\<lparr>st_absorbed := st_absorbed tr @ len_be (ascii tag) @ ascii tag @ len_be bs @ bs\<rparr>"

definition append_point :: "('s, 'p) prims \<Rightarrow> string \<Rightarrow> 'p \<Rightarrow> sbt_transcript \<Rightarrow> sbt_transcript" where
  "append_point R tag point tr = append_bytes tag (compress R point) tr"

definition append_compressed :: "string \<Rightarrow> bytes \<Rightarrow> sbt_transcript \<Rightarrow> sbt_transcript" where
  "append_compressed tag c tr = append_bytes tag c tr"

definition challenge_scalar :: "('s, 'p) prims \<Rightarrow> string \<Rightarrow> sbt_transcript \<Rightarrow> 's \<times> sbt_transcript" where
  "challenge_scalar R tag tr =
     (let tr = append_bytes tag [] tr;
          buf = shake256 R (st_absorbed tr) 64
      in (from_bytes_mod_order_wide R buf, tr\<lparr>st_absorbed := st_absorbed tr @ ascii ''__cs_mix__'' @ len_be buf @ buf\<rparr>))"

definition challenge_bytes :: "('s, 'p) prims \<Rightarrow> nat \<Rightarrow> string \<Rightarrow> sbt_transcript \<Rightarrow> bytes \<times> sbt_transcript" where
  "challenge_bytes R n tag tr =
     (let tr = append_bytes tag [] tr;
          out = shake256 R (st_absorbed tr) n
      in (out, tr\<lparr>st_absorbed := st_absorbed tr @ ascii ''__cb_mix__'' @ len_be out @ out\<rparr>))"

section \<open>Proofs\<close>

partial_function (option) nonzero_scalar :: "(rng \<Rightarrow> 's::zero \<times> rng) \<Rightarrow> rng \<Rightarrow> ('s \<times> rng) option" where
  "nonzero_scalar draw g = (let (w, g) = draw g in if w = 0 then nonzero_scalar draw g else Some (w, g))"

record ('s, 'p) ddh_equality_proof =
  ddh_t_g :: 'p
  ddh_t_h :: 'p
  ddh_z :: 's

datatype ddh_equality_error = Ddh_VerifyFailed | Ddh_IdentityInput

definition ddh_challenge :: "('s, 'p) prims \<Rightarrow> bytes \<Rightarrow> u32 \<Rightarrow> 'p \<Rightarrow> 'p \<Rightarrow> 'p \<Rightarrow> 'p \<Rightarrow> 'p \<Rightarrow> 'p \<Rightarrow> 's" where
  "ddh_challenge R session_id trustee_index g h a b t_g t_h =
     (let tr = sbt_transcript_new ''sbt-ddh-eq'';
          tr = append_bytes ''session'' session_id tr;
          tr = append_bytes ''trustee'' (u32_be trustee_index) tr;
          tr = append_point R ''G'' g tr;
          tr = append_point R ''H'' h tr;
          tr = append_point R ''A'' a tr;
          tr = append_point R ''B'' b tr;
          tr = append_point R ''T_G'' t_g tr;
          tr = append_point R ''T_H'' t_h tr
      in fst (challenge_scalar R ''c'' tr))"

definition ddh_prove ::
  "('s::field, 'p) prims \<Rightarrow> (rng \<Rightarrow> 's \<times> rng) \<Rightarrow> 's \<Rightarrow> 'p \<Rightarrow> 'p \<Rightarrow> 'p \<Rightarrow> 'p \<Rightarrow> bytes \<Rightarrow> u32 \<Rightarrow> rng \<Rightarrow>
     (('s, 'p) ddh_equality_proof \<times> rng) option" where
  "ddh_prove R draw x g h a b session_id trustee_index rng =
     (case nonzero_scalar draw rng of
        None \<Rightarrow> None
      | Some (w, rng) \<Rightarrow>
          let t_g = smul R w g;
              t_h = smul R w h;
              c = ddh_challenge R session_id trustee_index g h a b t_g t_h;
              z = w + c * x
          in Some (\<lparr>ddh_t_g = t_g, ddh_t_h = t_h, ddh_z = z\<rparr>, rng))"

definition ddh_verify ::
  "('s::field, 'p::ab_group_add) prims \<Rightarrow> ('s, 'p) ddh_equality_proof \<Rightarrow> 'p \<Rightarrow> 'p \<Rightarrow> 'p \<Rightarrow> 'p \<Rightarrow> bytes \<Rightarrow> u32 \<Rightarrow>
     (unit, ddh_equality_error) result" where
  "ddh_verify R pf g h a b session_id trustee_index =
     (if g = 0 \<or> h = 0 \<or> a = 0 \<or> b = 0 \<or> ddh_t_g pf = 0 \<or> ddh_t_h pf = 0 then Err Ddh_IdentityInput
      else
        let c = ddh_challenge R session_id trustee_index g h a b (ddh_t_g pf) (ddh_t_h pf);
            lhs_g = smul R (ddh_z pf) g;
            rhs_g = ddh_t_g pf + smul R c a;
            lhs_h = smul R (ddh_z pf) h;
            rhs_h = ddh_t_h pf + smul R c b
        in if compress R lhs_g = compress R rhs_g \<and> compress R lhs_h = compress R rhs_h then Ok () else Err Ddh_VerifyFailed)"

record ('s, 'p) token_proof =
  tp_t :: 'p
  tp_z_s :: 's
  tp_z_r :: 's

datatype token_proof_error = Token_VerifyFailed | Token_IdentityInput

definition token_proof_challenge ::
  "('s, 'p) prims \<Rightarrow> 'p pedersen_params \<Rightarrow> bytes \<Rightarrow> 'p \<Rightarrow> 'p \<Rightarrow> 'p \<Rightarrow> 'p \<Rightarrow> 'p \<Rightarrow> 's" where
  "token_proof_challenge R params ctx y commitment p tag t =
     (let tr = sbt_transcript_new ''sbt-token-pok-v2'';
          tr = append_bytes ''ctx'' ctx tr;
          tr = append_point R ''gen_g'' (ped_g params) tr;
          tr = append_point R ''gen_h'' (ped_h params) tr;
          tr = append_point R ''Y'' y tr;
          tr = append_point R ''C'' commitment tr;
          tr = append_point R ''P'' p tr;
          tr = append_point R ''T'' tag tr;
          tr = append_point R ''t'' t tr
      in fst (challenge_scalar R ''c'' tr))"

definition token_prove ::
  "('s::field, 'p::ab_group_add) prims \<Rightarrow> (rng \<Rightarrow> 's \<times> rng) \<Rightarrow> 'p pedersen_params \<Rightarrow> 'p \<Rightarrow> 'p \<Rightarrow> 'p \<Rightarrow> 's \<Rightarrow> 's \<Rightarrow> bytes \<Rightarrow> 'p \<Rightarrow> rng \<Rightarrow>
     (('s, 'p) token_proof \<times> rng) option" where
  "token_prove R draw params commitment p tag s r ctx y rng =
     (case nonzero_scalar draw rng of
        None \<Rightarrow> None
      | Some (w_s, rng) \<Rightarrow>
          (case nonzero_scalar draw rng of
             None \<Rightarrow> None
           | Some (w_r, rng) \<Rightarrow>
               let t = smul R w_s (ped_g params) + smul R w_r (ped_h params);
                   c = token_proof_challenge R params ctx y commitment p tag t;
                   z_s = w_s + c * s;
                   z_r = w_r + c * r
               in Some (\<lparr>tp_t = t, tp_z_s = z_s, tp_z_r = z_r\<rparr>, rng)))"

definition token_verify ::
  "('s::field, 'p::ab_group_add) prims \<Rightarrow> ('s, 'p) token_proof \<Rightarrow> 'p pedersen_params \<Rightarrow> 'p \<Rightarrow> 'p \<Rightarrow> 'p \<Rightarrow> bytes \<Rightarrow> 'p \<Rightarrow>
     (unit, token_proof_error) result" where
  "token_verify R pf params commitment p tag ctx y =
     (if commitment = 0 \<or> p = 0 \<or> tag = 0 \<or> y = 0 \<or> tp_t pf = 0 then Err Token_IdentityInput
      else
        let c = token_proof_challenge R params ctx y commitment p tag (tp_t pf);
            lhs = smul R (tp_z_s pf) (ped_g params) + smul R (tp_z_r pf) (ped_h params);
            rhs = tp_t pf + smul R c commitment
        in if compress R lhs = compress R rhs then Ok () else Err Token_VerifyFailed)"

section \<open>The oblivious pseudorandom function\<close>

definition public_key_validate :: "'p::zero \<Rightarrow> (unit, sbt_error) result" where
  "public_key_validate y = (if y = 0 then Err IdentityPoint else Ok ())"

record 's oprf_secret_share =
  sh_index :: u32
  sh_scalar :: 's

record 'p oprf_server_commit =
  sc_index :: u32
  sc_commit :: 'p

definition commit_validate :: "'p::zero oprf_server_commit \<Rightarrow> (unit, sbt_error) result" where
  "commit_validate c = (if sc_index c = 0 then Err (InvalidIndex 0) else if sc_commit c = 0 then Err IdentityPoint else Ok ())"

record ('s, 'p) oprf_blinding =
  ob_alpha :: 's
  ob_alpha_inv :: 's
  ob_base :: 'p

definition blinded_of :: "('s, 'p) prims \<Rightarrow> ('s, 'p) oprf_blinding \<Rightarrow> 'p" where
  "blinded_of R state = smul R (ob_alpha state) (ob_base state)"

record ('s, 'p) oprf_evaluation =
  ev_index :: u32
  ev_point :: 'p
  ev_proof :: "('s, 'p) ddh_equality_proof"

definition evaluation_validate :: "('s, 'p::zero) oprf_evaluation \<Rightarrow> (unit, sbt_error) result" where
  "evaluation_validate e = (if ev_index e = 0 then Err (InvalidIndex 0) else if ev_point e = 0 then Err IdentityPoint else Ok ())"

definition hash_to_curve :: "('s, 'p) prims \<Rightarrow> bytes \<Rightarrow> bytes \<Rightarrow> 'p" where
  "hash_to_curve R domain message =
     hash_from_bytes R (sha512 R (ascii ''specter-sbt-h2c/'' @ len_be domain @ domain @ len_be message @ message))"

definition oprf_blind ::
  "('s::field, 'p::ab_group_add) prims \<Rightarrow> (rng \<Rightarrow> 's \<times> rng) \<Rightarrow> bytes \<Rightarrow> bytes \<Rightarrow> rng \<Rightarrow>
     ((('s, 'p) oprf_blinding \<times> 'p, sbt_error) result \<times> rng) option" where
  "oprf_blind R draw domain message rng =
     (let base = hash_to_curve R domain message
      in if base = 0 then Some (Err IdentityPoint, rng)
         else case nonzero_scalar draw rng of
           None \<Rightarrow> None
         | Some (alpha, rng) \<Rightarrow>
             let state = \<lparr>ob_alpha = alpha, ob_alpha_inv = inverse alpha, ob_base = base\<rparr>
             in Some (Ok (state, blinded_of R state), rng))"

definition evaluate_server ::
  "('s::field, 'p::ab_group_add) prims \<Rightarrow> (rng \<Rightarrow> 's \<times> rng) \<Rightarrow> 's oprf_secret_share \<Rightarrow> 'p oprf_server_commit \<Rightarrow> 'p \<Rightarrow> bytes \<Rightarrow> rng \<Rightarrow>
     ((('s, 'p) oprf_evaluation, sbt_error) result \<times> rng) option" where
  "evaluate_server R draw share cm blinded session_id rng =
     (if sh_index share \<noteq> sc_index cm then Some (Err (InvalidIndex (sh_index share)), rng)
      else if sh_index share = 0 then Some (Err (InvalidIndex 0), rng)
      else if blinded = 0 then Some (Err IdentityPoint, rng)
      else if sc_commit cm = 0 then Some (Err IdentityPoint, rng)
      else
        let point = smul R (sh_scalar share) blinded
        in case ddh_prove R draw (sh_scalar share) (basepoint R) blinded (sc_commit cm) point session_id (sh_index share) rng of
             None \<Rightarrow> None
           | Some (pf, rng) \<Rightarrow> Some (Ok \<lparr>ev_index = sh_index share, ev_point = point, ev_proof = pf\<rparr>, rng))"

definition sbt_lagrange_coefficient :: "('s::field, 'p) prims \<Rightarrow> u32 \<Rightarrow> u32 list \<Rightarrow> ('s, sbt_error) result" where
  "sbt_lagrange_coefficient R i indices =
     (if i = 0 then Err (InvalidIndex 0)
      else if list_ex (\<lambda>j. j = 0) indices then Err (InvalidIndex 0)
      else
        let x = (\<lambda>j. scalar_of_u64 R (ucast j));
            num = foldl (\<lambda>num j. if j = i then num else num * - x j) 1 indices;
            den = foldl (\<lambda>den j. if j = i then den else den * (x i - x j)) 1 indices
        in if den = 0 then Err ZeroDenominator else Ok (num * inverse den))"

fun check_indices :: "('s, 'p) oprf_evaluation list \<Rightarrow> u32 set \<Rightarrow> (unit, sbt_error) result" where
  "check_indices [] seen = Ok ()"
| "check_indices (e # es) seen =
     (if ev_index e = 0 then Err (InvalidIndex 0)
      else if ev_index e \<in> seen then Err (DuplicateIndex (ev_index e))
      else check_indices es (insert (ev_index e) seen))"

fun check_evaluations ::
  "('s::field, 'p::ab_group_add) prims \<Rightarrow> 'p oprf_server_commit list \<Rightarrow> 'p \<Rightarrow> bytes \<Rightarrow> ('s, 'p) oprf_evaluation list \<Rightarrow>
     (unit, sbt_error) result" where
  "check_evaluations R commits blinded session_id [] = Ok ()"
| "check_evaluations R commits blinded session_id (e # es) =
     (if ev_point e = 0 then Err IdentityPoint
      else bindR (ok_or (List.find (\<lambda>c. sc_index c = ev_index e) commits) (DdhEqualityFailed (ev_index e))) (\<lambda>cm.
        if sc_commit cm = 0 then Err IdentityPoint
        else bindR (map_err (\<lambda>_. DdhEqualityFailed (ev_index e))
              (ddh_verify R (ev_proof e) (basepoint R) blinded (sc_commit cm) (ev_point e) session_id (ev_index e))) (\<lambda>_.
          check_evaluations R commits blinded session_id es)))"

text \<open>The loop \<^verbatim>\<open>acc += point * lambda\<close> over indexed points, for evaluations and for commitments.\<close>

fun lagrange_sum ::
  "('s::field, 'p::ab_group_add) prims \<Rightarrow> u32 list \<Rightarrow> (u32 \<times> 'p) list \<Rightarrow> 'p \<Rightarrow> ('p, sbt_error) result" where
  "lagrange_sum R indices [] acc = Ok acc"
| "lagrange_sum R indices ((i, P) # rest) acc =
     bindR (sbt_lagrange_coefficient R i indices) (\<lambda>lambda. lagrange_sum R indices rest (acc + smul R lambda P))"

definition combine_evaluations ::
  "('s::field, 'p::ab_group_add) prims \<Rightarrow> nat \<Rightarrow> 'p oprf_server_commit list \<Rightarrow> ('s, 'p) oprf_evaluation list \<Rightarrow> 'p \<Rightarrow> bytes \<Rightarrow>
     ('p, sbt_error) result" where
  "combine_evaluations R threshold commits evaluations blinded session_id =
     (if length evaluations \<noteq> threshold then Err (Insufficient (length evaluations) threshold)
      else if blinded = 0 then Err IdentityPoint
      else bindR (check_indices evaluations {}) (\<lambda>_.
           bindR (check_evaluations R commits blinded session_id evaluations) (\<lambda>_.
             lagrange_sum R (map ev_index evaluations) (map (\<lambda>e. (ev_index e, ev_point e)) evaluations) 0)))"

definition oprf_unblind :: "('s, 'p) prims \<Rightarrow> ('s, 'p) oprf_blinding \<Rightarrow> 'p \<Rightarrow> 'p" where
  "oprf_unblind R state bk = smul R (ob_alpha_inv state) bk"


section \<open>Nonces and the proof of equal logarithms\<close>

lemma nonzero_scalar_step:
  "nonzero_scalar draw g = (if fst (draw g) = 0 then nonzero_scalar draw (snd (draw g)) else Some (draw g))"
  by (subst nonzero_scalar.simps) (simp add: case_prod_unfold Let_def)

text \<open>The loop returns exactly when one of the draws is not zero, and returns the first such draw.\<close>

lemma nonzero_scalar_first:
  assumes "fst (draw (((snd \<circ> draw) ^^ n) g)) \<noteq> 0" and "\<And>m. m < n \<Longrightarrow> fst (draw (((snd \<circ> draw) ^^ m) g)) = 0"
  shows "nonzero_scalar draw g = Some (draw (((snd \<circ> draw) ^^ n) g))"
  using assms
proof (induction n arbitrary: g)
  case 0
  then show ?case by (subst nonzero_scalar_step) simp
next
  case (Suc n)
  have "nonzero_scalar draw (snd (draw g)) = Some (draw (((snd \<circ> draw) ^^ n) (snd (draw g))))"
    using Suc.prems(1) Suc.prems(2) [of "Suc m" for m]
    by (intro Suc.IH) (simp_all add: funpow_Suc_right del: funpow.simps)
  with Suc.prems(2) [of 0] show ?case
    by (subst nonzero_scalar_step) (simp add: funpow_Suc_right del: funpow.simps)
qed

lemma nonzero_scalar_draw:
  assumes "nonzero_scalar draw g = Some r"
  shows "\<exists>n. r = draw (((snd \<circ> draw) ^^ n) g) \<and> fst r \<noteq> 0"
proof (rule nonzero_scalar.raw_induct [OF _ assms])
  fix rec draw g r
  assume 1: "\<And>draw g r. rec draw g = Some r \<Longrightarrow> \<exists>n. r = draw (((snd \<circ> draw) ^^ n) g) \<and> fst r \<noteq> 0"
    "(let (w, g) = draw g in if w = 0 then rec draw g else Some (w, g)) = Some r"
  show "\<exists>n. r = draw (((snd \<circ> draw) ^^ n) g) \<and> fst r \<noteq> 0"
  proof (cases "fst (draw g) = 0")
    case True
    with 1(2) obtain n where "r = draw (((snd \<circ> draw) ^^ n) (snd (draw g))) \<and> fst r \<noteq> 0"
      using 1(1) [of draw "snd (draw g)" r] by (simp only: case_prod_unfold Let_def if_True simp_thms) blast
    then have "r = draw (((snd \<circ> draw) ^^ Suc n) g) \<and> fst r \<noteq> 0"
      unfolding funpow_Suc_right comp_apply .
    then show ?thesis by blast
  next
    case False
    with 1(2) have "r = draw (((snd \<circ> draw) ^^ 0) g) \<and> fst r \<noteq> 0"
      by (auto simp: case_prod_unfold split: if_splits)
    then show ?thesis by blast
  qed
qed

lemma nonzero_scalar_nonzero: "nonzero_scalar draw g = Some (w, g') \<Longrightarrow> w \<noteq> 0"
  using nonzero_scalar_draw by fastforce

lemma nonzero_scalar_returns_iff:
  "(\<exists>r. nonzero_scalar draw g = Some r) \<longleftrightarrow> (\<exists>n. fst (draw (((snd \<circ> draw) ^^ n) g)) \<noteq> 0)"
proof
  assume "\<exists>n. fst (draw (((snd \<circ> draw) ^^ n) g)) \<noteq> 0"
  then show "\<exists>r. nonzero_scalar draw g = Some r"
    using nonzero_scalar_first [of draw "LEAST n. fst (draw (((snd \<circ> draw) ^^ n) g)) \<noteq> 0" g]
    by (metis (mono_tags, lifting) LeastI_ex not_less_Least)
qed (use nonzero_scalar_draw in blast)

context ristretto_group
begin

lemma ddh_complete:
  assumes "ddh_prove R draw x P Q (smul R x P) (smul R x Q) sid i g = Some (pf, g')"
    and "x \<noteq> 0" and "P \<noteq> 0" and "Q \<noteq> 0"
  shows "ddh_verify R pf P Q (smul R x P) (smul R x Q) sid i = Ok ()"
  using assms nonzero_scalar_nonzero
  by (fastforce simp: ddh_prove_def ddh_verify_def Let_def smul_eq_zero_iff smul_add_scalar smul_mult split: option.splits)

text \<open>
  Special soundness: one pair of nonce points answered under two different challenges, here those of two sessions or
  two trustees, gives the common discrete logarithm.
\<close>

lemma ddh_extract:
  assumes "ddh_verify R pf P Q A B sid i = Ok ()" and "ddh_verify R pf' P Q A B sid' i' = Ok ()"
    and "ddh_t_g pf' = ddh_t_g pf" and "ddh_t_h pf' = ddh_t_h pf"
    and "ddh_challenge R sid i P Q A B (ddh_t_g pf) (ddh_t_h pf) \<noteq> ddh_challenge R sid' i' P Q A B (ddh_t_g pf) (ddh_t_h pf)"
  shows "\<exists>x. A = smul R x P \<and> B = smul R x Q"
proof -
  define c c' where "c = ddh_challenge R sid i P Q A B (ddh_t_g pf) (ddh_t_h pf)"
    and "c' = ddh_challenge R sid' i' P Q A B (ddh_t_g pf) (ddh_t_h pf)"
  have eqs: "smul R (ddh_z pf) P = ddh_t_g pf + smul R c A" "smul R (ddh_z pf) Q = ddh_t_h pf + smul R c B"
    "smul R (ddh_z pf') P = ddh_t_g pf + smul R c' A" "smul R (ddh_z pf') Q = ddh_t_h pf + smul R c' B"
    using assms(1-4) by (auto simp: ddh_verify_def Let_def c_def c'_def split: if_splits)
  have ne: "c - c' \<noteq> 0" using assms(5) by (simp add: c_def c'_def)
  have solve: "T = smul R (inverse (c - c') * (ddh_z pf - ddh_z pf')) S"
    if "smul R (ddh_z pf) S - smul R (ddh_z pf') S = smul R c T - smul R c' T" for S T
    using that ne by (simp add: smul_diff_scalar [symmetric] smul_mult) (simp add: smul_mult [symmetric] smul_one)
  show ?thesis using solve [of P A] solve [of Q B] eqs by auto
qed

text \<open>For a nonzero base every point is its blinding under exactly one scalar: the blinded point hides the base.\<close>

lemma blinding_hides: "P \<noteq> 0 \<Longrightarrow> \<exists>!a. smul R a P = B"
proof -
  assume "P \<noteq> 0"
  obtain p b where pb: "P = smul R p (basepoint R)" "B = smul R b (basepoint R)"
    using base_generates by metis
  with \<open>P \<noteq> 0\<close> have "p \<noteq> 0" by auto
  then have "smul R (b * inverse p) P = B" by (simp add: pb smul_mult [symmetric] mult.assoc)
  then show ?thesis using smul_cancel \<open>P \<noteq> 0\<close> by blast
qed

end

section \<open>Combining evaluations\<close>

abbreviation index_scalar :: "('s, 'p) prims \<Rightarrow> u32 \<Rightarrow> 's" where
  "index_scalar R j \<equiv> scalar_of_u64 R (ucast j)"

lemma check_indices_Ok:
  "check_indices es seen = Ok () \<longleftrightarrow> distinct (map ev_index es) \<and> 0 \<notin> ev_index ` set es \<and> ev_index ` set es \<inter> seen = {}"
  by (induction es arbitrary: seen) auto

lemma u32_ucast: "ucast (i :: u32) = (ucast j :: u64) \<longleftrightarrow> i = j"
  by (auto dest!: arg_cong [where f = "ucast :: u64 \<Rightarrow> u32"] simp: ucast_up_ucast_id is_up)

context ristretto_group
begin

lemma index_scalar_inj: "inj_on (index_scalar R) A"
  by (rule inj_onI) (simp add: u32_ucast)

lemma sbt_lagrange_Ok:
  assumes "distinct is" and "0 \<notin> set is" and "i \<in> set is"
  shows "sbt_lagrange_coefficient R i is = Ok (lagrange (index_scalar R ` set is) (index_scalar R i) 0)"
proof -
  let ?x = "index_scalar R :: u32 \<Rightarrow> 's"
  have "(\<Prod>j\<in>set is - {i}. ?x i - ?x j) \<noteq> 0"
    using index_scalar_inj [of "set is"] assms(3) by (auto simp: inj_on_def)
  moreover have "(\<Prod>j\<in>set is - {i}. - ?x j) * inverse (\<Prod>j\<in>set is - {i}. ?x i - ?x j) = lagrange (?x ` set is) (?x i) 0"
    using lagrange_zero_image [OF index_scalar_inj [of "set is"] assms(3)] by (simp only: prod.distrib prod_inversef [symmetric] o_def)
  ultimately show ?thesis
    using assms by (auto simp: sbt_lagrange_coefficient_def Let_def list_ex_iff eq_commute [of _ i] foldl_mult_skip)
qed

text \<open>Points \<open>f(i) B\<close> at distinct nonzero indices recombine to \<open>f(0) B\<close>.\<close>

lemma lagrange_sum_terms:
  assumes "\<And>i. i \<in> fst ` set ps \<Longrightarrow> sbt_lagrange_coefficient R i is = Ok (l i)"
  shows "lagrange_sum R is ps acc = Ok (acc + (\<Sum>(i, P)\<leftarrow>ps. smul R (l i) P))"
  using assms by (induction R "is" ps acc rule: lagrange_sum.induct) (auto simp: add.assoc)

lemma lagrange_sum_secret:
  assumes "distinct (map fst ps)" and "0 \<notin> fst ` set ps" and "length cs \<le> length ps"
    and "\<And>i P. (i, P) \<in> set ps \<Longrightarrow> P = smul R (poly_eval cs (index_scalar R i)) B"
  shows "lagrange_sum R (map fst ps) ps 0 = Ok (smul R (poly_eval cs 0) B)"
proof -
  define A where "A = fst ` set ps"
  let ?x = "index_scalar R :: u32 \<Rightarrow> 's"
  have "lagrange_sum R (map fst ps) ps 0 = Ok (0 + (\<Sum>(i, P)\<leftarrow>ps. smul R (lagrange (?x ` A) (?x i) 0) P))"
    using sbt_lagrange_Ok [of "map fst ps"] assms(1,2) by (intro lagrange_sum_terms) (simp add: A_def)
  also have "(\<Sum>(i, P)\<leftarrow>ps. smul R (lagrange (?x ` A) (?x i) 0) P)
      = (\<Sum>i\<leftarrow>map fst ps. smul R (lagrange (?x ` A) (?x i) 0 * poly_eval cs (?x i)) B)"
    using assms(4) by (auto simp: smul_mult o_def intro!: arg_cong [where f = sum_list] map_cong)
  also have "\<dots> = smul R (\<Sum>i\<leftarrow>map fst ps. lagrange (?x ` A) (?x i) 0 * poly_eval cs (?x i)) B"
    by (simp add: smul_sum_list_scalar o_def)
  also have "(\<Sum>i\<leftarrow>map fst ps. lagrange (?x ` A) (?x i) 0 * poly_eval cs (?x i))
      = (\<Sum>a\<in>?x ` A. poly_eval cs a * lagrange (?x ` A) a 0)"
    by (simp only: sum_list_distinct_conv_sum_set assms(1))
      (simp add: A_def sum.reindex index_scalar_inj mult.commute)
  also have "\<dots> = poly_eval cs 0"
    using assms(3) distinct_card [OF assms(1)] card_image [OF index_scalar_inj [of A]]
    by (intro interpolation [of "length cs"]) (auto simp: A_def)
  finally show ?thesis by simp
qed

end

section \<open>Honest trustees\<close>

text \<open>Commitments and shares on one polynomial, and the answers a trustee holding such a share gives.\<close>

definition commits_on :: "('s::field, 'p) prims \<Rightarrow> 's list \<Rightarrow> 'p oprf_server_commit list \<Rightarrow> bool" where
  "commits_on R cs cms \<longleftrightarrow>
     list_all (\<lambda>c. sc_commit c = smul R (poly_eval cs (index_scalar R (sc_index c))) (basepoint R)) cms"

definition honest_evaluation ::
  "('s::field, 'p::ab_group_add) prims \<Rightarrow> (rng \<Rightarrow> 's \<times> rng) \<Rightarrow> 's list \<Rightarrow> 'p oprf_server_commit list \<Rightarrow> 'p \<Rightarrow> bytes \<Rightarrow>
     ('s, 'p) oprf_evaluation \<Rightarrow> bool" where
  "honest_evaluation R draw cs cms B sid e \<longleftrightarrow>
     (\<exists>sh c g g'. c \<in> set cms \<and> sh_scalar sh = poly_eval cs (index_scalar R (sh_index sh)) \<and>
        evaluate_server R draw sh c B sid g = Some (Ok e, g'))"

context ristretto_group
begin

lemma honest_evaluation_checks:
  assumes "commits_on R cs cms" and "honest_evaluation R draw cs cms B sid e"
  shows "ev_index e \<noteq> 0" and "B \<noteq> 0" and "ev_point e = smul R (poly_eval cs (index_scalar R (ev_index e))) B"
    and "ev_point e \<noteq> 0" and "\<exists>c \<in> set cms. sc_index c = ev_index e"
    and "ddh_verify R (ev_proof e) (basepoint R) B (smul R (poly_eval cs (index_scalar R (ev_index e))) (basepoint R))
           (ev_point e) sid (ev_index e) = Ok ()"
proof -
  obtain sh c g g' where c: "c \<in> set cms" and sh: "sh_scalar sh = poly_eval cs (index_scalar R (sh_index sh))"
    and ev: "evaluate_server R draw sh c B sid g = Some (Ok e, g')"
    using assms(2) by (auto simp: honest_evaluation_def)
  have cm: "sc_commit c = smul R (poly_eval cs (index_scalar R (sc_index c))) (basepoint R)"
    using assms(1) c by (auto simp: commits_on_def list_all_iff)
  obtain pf where g: "sh_index sh = sc_index c" "sh_index sh \<noteq> 0" "B \<noteq> 0" "sc_commit c \<noteq> 0"
    and pf: "ddh_prove R draw (sh_scalar sh) (basepoint R) B (sc_commit c) (smul R (sh_scalar sh) B) sid (sh_index sh) g
      = Some (pf, g')"
    and e: "e = \<lparr>ev_index = sh_index sh, ev_point = smul R (sh_scalar sh) B, ev_proof = pf\<rparr>"
    using ev by (auto simp: evaluate_server_def Let_def split: if_splits option.splits)
  have nz: "sh_scalar sh \<noteq> 0" using cm g(1,4) sh by auto
  show "ev_index e \<noteq> 0" and "B \<noteq> 0" and "ev_point e = smul R (poly_eval cs (index_scalar R (ev_index e))) B"
    and "ev_point e \<noteq> 0" and "\<exists>c \<in> set cms. sc_index c = ev_index e"
    using e g sh nz c by (auto simp: smul_eq_zero_iff)
  show "ddh_verify R (ev_proof e) (basepoint R) B (smul R (poly_eval cs (index_scalar R (ev_index e))) (basepoint R))
           (ev_point e) sid (ev_index e) = Ok ()"
    using ddh_complete [OF _ nz basepoint_nonzero g(3)] pf cm g(1) sh e by simp
qed

lemma check_evaluations_honest:
  assumes "commits_on R cs cms" and "\<And>e. e \<in> set es \<Longrightarrow> honest_evaluation R draw cs cms B sid e"
  shows "check_evaluations R cms B sid es = Ok ()"
  using assms(2)
proof (induction es)
  case (Cons e es)
  note h = honest_evaluation_checks [OF assms(1) Cons.prems [of e], simplified]
  obtain c where c: "List.find (\<lambda>c. sc_index c = ev_index e) cms = Some c"
    using h(5) by (metis (mono_tags, lifting) find_None_iff not_None_eq)
  then have "c \<in> set cms" "sc_index c = ev_index e" by (auto simp: find_Some_iff)
  then have cm: "sc_commit c = smul R (poly_eval cs (index_scalar R (ev_index e))) (basepoint R)"
    using assms(1) by (auto simp: commits_on_def list_all_iff)
  then have "sc_commit c \<noteq> 0" using h(3,4) basepoint_nonzero by (auto simp: smul_eq_zero_iff)
  then show ?case using c cm h Cons by simp
qed simp

lemma combine_honest:
  assumes "commits_on R cs cms" and "length cs \<le> t" and "length es = t" and "B \<noteq> 0"
    and "distinct (map ev_index es)" and "\<And>e. e \<in> set es \<Longrightarrow> honest_evaluation R draw cs cms B sid e"
  shows "combine_evaluations R t cms es B sid = Ok (smul R (poly_eval cs 0) B)"
proof -
  note h = honest_evaluation_checks [OF assms(1) assms(6)]
  have "check_indices es {} = Ok ()" using assms(5) h(1) by (auto simp: check_indices_Ok)
  moreover have "lagrange_sum R (map fst (map (\<lambda>e. (ev_index e, ev_point e)) es)) (map (\<lambda>e. (ev_index e, ev_point e)) es) 0
      = Ok (smul R (poly_eval cs 0) B)"
  proof (rule lagrange_sum_secret)
    show "P = smul R (poly_eval cs (index_scalar R i)) B" if "(i, P) \<in> set (map (\<lambda>e. (ev_index e, ev_point e)) es)" for i P
      using that h(3) by auto
  qed (use assms(2,3,5) h(1) in \<open>auto simp: o_def\<close>)
  ultimately show ?thesis
    using check_evaluations_honest [OF assms(1,6)] assms(3,4) by (simp add: combine_evaluations_def o_def)
qed

lemma unblind_blinded:
  assumes "oprf_blind R draw d m g = Some (Ok (st, B), g')"
  shows "oprf_unblind R st (smul R k B) = smul R k (hash_to_curve R d m)" and "B = blinded_of R st" and "B \<noteq> 0"
    and "hash_to_curve R d m \<noteq> 0"
proof -
  obtain a where a: "a \<noteq> 0" "st = \<lparr>ob_alpha = a, ob_alpha_inv = inverse a, ob_base = hash_to_curve R d m\<rparr>"
    and h: "hash_to_curve R d m \<noteq> 0" and B: "B = blinded_of R st"
    using assms by (auto simp: oprf_blind_def Let_def dest: nonzero_scalar_nonzero split: option.splits if_splits)
  have "smul R (inverse a) (smul R k (smul R a P)) = smul R k P" for P
    using a(1) by (simp add: smul_mult [symmetric] field_simps)
  with a B show "oprf_unblind R st (smul R k B) = smul R k (hash_to_curve R d m)"
    by (simp add: oprf_unblind_def blinded_of_def)
  show "B = blinded_of R st" and "hash_to_curve R d m \<noteq> 0" by (fact B, fact h)
  show "B \<noteq> 0" using a h B by (simp add: blinded_of_def smul_eq_zero_iff)
qed

end

end
