(* ===== verification/Sbt_Scheme.thy ===== *)
theory Sbt_Scheme
  imports Sbt_Oprf
begin

text \<open>
  \<^verbatim>\<open>specter-sbt/src/scheme.rs\<close>: the blind token scheme built on the pseudorandom function. \<open>sbt_scheme\<close> is the validated
  configuration \<^verbatim>\<open>SbtScheme::new\<close> returns; \<open>sbt_prepare\<close> and \<open>sbt_finalize\<close> are the client's two steps of a mint,
  \<open>sbt_verify_token\<close> and \<open>sbt_verify_tag_threshold\<close> the two full verifications of a spend.

  The theorems: a scheme that \<open>new\<close> accepts is well formed; an honest mint with any quorum gives the tag \<open>f(0) H2C(C)\<close>
  and a token that passes verification; the nullifier of a payload does not depend on quorum or randomness.
\<close>

section \<open>Configuration\<close>

definition MIN_SESSION_ID_LEN :: nat where "MIN_SESSION_ID_LEN = 16"

definition SBT_KDF_TAG :: bytes where "SBT_KDF_TAG = ascii ''SPECTER-SBT-KDF-v2/''"

record ('s, 'p) sbt_scheme_config =
  cfg_pedersen :: "'p pedersen_params"
  cfg_commits :: "'p oprf_server_commit list"
  cfg_threshold :: nat
  cfg_h2c_domain :: bytes
  cfg_session_id :: bytes
  cfg_client_secret :: bytes
  cfg_expected_public_key :: "'p option"
  cfg_secret_key :: "'s option"

record ('s, 'p) sbt_scheme =
  sch_pedersen :: "'p pedersen_params"
  sch_commits :: "'p oprf_server_commit list"
  sch_threshold :: nat
  sch_h2c_domain :: bytes
  sch_session_id :: bytes
  sch_public_key :: 'p
  sch_client_secret :: bytes
  sch_secret_key :: "'s option"

definition can_verify_tag_origin :: "('s, 'p) sbt_scheme \<Rightarrow> bool" where
  "can_verify_tag_origin sch \<longleftrightarrow> sch_secret_key sch \<noteq> None"

fun check_commits :: "'p::zero oprf_server_commit list \<Rightarrow> u32 set \<Rightarrow> (unit, sbt_error) result" where
  "check_commits [] seen = Ok ()"
| "check_commits (c # cs) seen = bindR (commit_validate c) (\<lambda>_.
     if sc_index c \<in> seen then Err (DuplicateIndex (sc_index c))
     else check_commits cs (insert (sc_index c) seen))"

definition aggregate_over_quorum ::
  "('s::field, 'p::ab_group_add) prims \<Rightarrow> 'p oprf_server_commit list \<Rightarrow> ('p, sbt_error) result" where
  "aggregate_over_quorum R quorum =
     lagrange_sum R (map sc_index quorum) (map (\<lambda>c. (sc_index c, sc_commit c)) quorum) 0"

definition sbt_new ::
  "('s::field, 'p::ab_group_add) prims \<Rightarrow> ('s, 'p) sbt_scheme_config \<Rightarrow> (('s, 'p) sbt_scheme, sbt_error) result" where
  "sbt_new R config =
     (let commits = cfg_commits config; threshold = cfg_threshold config
      in if threshold = 0 \<or> length commits < threshold then Err (Insufficient (length commits) threshold)
         else if length (cfg_session_id config) < MIN_SESSION_ID_LEN then Err SessionTooShort
         else if cfg_h2c_domain config = [] then Err EmptyDomain
         else bindR (check_commits commits {}) (\<lambda>_.
           bindR (aggregate_over_quorum R (take threshold commits)) (\<lambda>agg1.
             let has_disjoint_quorum = 2 * threshold \<le> length commits
             in bindR (if has_disjoint_quorum
                   then bindR (aggregate_over_quorum R (take threshold (drop threshold commits))) (\<lambda>agg2.
                          if agg1 \<noteq> agg2 then Err AggregateMismatch else Ok ())
                   else Ok ()) (\<lambda>_.
                if \<not> has_disjoint_quorum \<and> cfg_expected_public_key config = None then Err AggregateMismatch
                else if agg1 = 0 then Err IdentityPoint
                else if (case cfg_expected_public_key config of None \<Rightarrow> False | Some expected \<Rightarrow> expected \<noteq> agg1)
                then Err AggregateMismatch
                else if (case cfg_secret_key config of None \<Rightarrow> False | Some sk \<Rightarrow> smul R sk (basepoint R) \<noteq> agg1)
                then Err AggregateMismatch
                else Ok \<lparr>sch_pedersen = cfg_pedersen config, sch_commits = commits, sch_threshold = threshold,
                         sch_h2c_domain = cfg_h2c_domain config, sch_session_id = cfg_session_id config,
                         sch_public_key = agg1, sch_client_secret = cfg_client_secret config,
                         sch_secret_key = cfg_secret_key config\<rparr>))))"

section \<open>Requests and tokens\<close>

record ('s, 'p) sbt_client_state =
  cst_s :: 's
  cst_r :: 's
  cst_commitment :: 'p
  cst_oprf_state :: "('s, 'p) oprf_blinding"

record 'p sbt_request =
  req_commitment :: 'p
  req_blinded :: 'p
  req_session_id :: bytes

definition request_validate :: "'p::zero sbt_request \<Rightarrow> (unit, sbt_error) result" where
  "request_validate req =
     (if req_commitment req = 0 \<or> req_blinded req = 0 then Err IdentityPoint
      else if length (req_session_id req) < MIN_SESSION_ID_LEN then Err SessionTooShort
      else Ok ())"

record ('s, 'p) spend_token =
  spt_commitment :: 'p
  spt_tag :: 'p
  spt_proof :: "('s, 'p) token_proof"
  spt_session_id :: bytes

definition sbt_nullifier :: "('s, 'p) prims \<Rightarrow> ('s, 'p) spend_token \<Rightarrow> bytes" where
  "sbt_nullifier R token =
     (let tag_bytes = compress R (spt_tag token)
      in shake256 R (ascii ''SPECTER-SBT-NULL-v1/'' @ len_be tag_bytes @ tag_bytes) 32)"

definition spend_token_validate :: "('s, 'p::zero) spend_token \<Rightarrow> (unit, sbt_error) result" where
  "spend_token_validate token =
     (if spt_tag token = 0 \<or> spt_commitment token = 0 then Err IdentityPoint
      else if length (spt_session_id token) < MIN_SESSION_ID_LEN then Err SessionTooShort
      else Ok ())"

definition derive_scalar :: "('s, 'p) prims \<Rightarrow> string \<Rightarrow> bytes \<Rightarrow> bytes \<Rightarrow> 's" where
  "derive_scalar R domain client_secret payload =
     from_bytes_mod_order_wide R (shake256 R
       (SBT_KDF_TAG @ len_be (ascii domain) @ ascii domain @ len_be client_secret @ client_secret @ len_be payload @ payload) 64)"

section \<open>Mint\<close>

definition sbt_prepare ::
  "('s::field, 'p::ab_group_add) prims \<Rightarrow> (rng \<Rightarrow> 's \<times> rng) \<Rightarrow> ('s, 'p) sbt_scheme \<Rightarrow> bytes \<Rightarrow> rng \<Rightarrow>
     ((('s, 'p) sbt_client_state \<times> 'p sbt_request, sbt_error) result \<times> rng) option" where
  "sbt_prepare R draw sch payload rng =
     (let s = derive_scalar R ''sbt-payload-s'' (sch_client_secret sch) payload;
          r = derive_scalar R ''sbt-payload-r'' (sch_client_secret sch) payload;
          commitment = smul R s (ped_g (sch_pedersen sch)) + smul R r (ped_h (sch_pedersen sch));
          c_bytes = compress R commitment
      in case oprf_blind R draw (sch_h2c_domain sch) c_bytes rng of
           None \<Rightarrow> None
         | Some (res, rng) \<Rightarrow> Some (bindR res (\<lambda>(oprf_state, blinded).
             let state = \<lparr>cst_s = s, cst_r = r, cst_commitment = commitment, cst_oprf_state = oprf_state\<rparr>;
                 req = \<lparr>req_commitment = commitment, req_blinded = blinded, req_session_id = sch_session_id sch\<rparr>
             in bindR (request_validate req) (\<lambda>_. Ok (state, req))), rng))"

fun validate_responses :: "('s, 'p::zero) oprf_evaluation list \<Rightarrow> (unit, sbt_error) result" where
  "validate_responses [] = Ok ()"
| "validate_responses (r # rs) = bindR (evaluation_validate r) (\<lambda>_. validate_responses rs)"

text \<open>The part of \<^verbatim>\<open>finalize\<close> before the proof is made: the checks, the combination and the unblinding.\<close>

definition finalize_tag ::
  "('s::field, 'p::ab_group_add) prims \<Rightarrow> ('s, 'p) sbt_scheme \<Rightarrow> ('s, 'p) sbt_client_state \<Rightarrow> 'p sbt_request \<Rightarrow>
     ('s, 'p) oprf_evaluation list \<Rightarrow> ('p, sbt_error) result" where
  "finalize_tag R sch state request responses =
     bindR (request_validate request) (\<lambda>_.
       if req_session_id request \<noteq> sch_session_id sch then Err SessionMismatch
       else if req_commitment request \<noteq> cst_commitment state then Err StateRequestMismatch
       else if req_blinded request \<noteq> blinded_of R (cst_oprf_state state) then Err StateRequestMismatch
       else bindR (validate_responses responses) (\<lambda>_.
         bindR (combine_evaluations R (sch_threshold sch) (sch_commits sch) responses (req_blinded request) (sch_session_id sch)) (\<lambda>bk.
           let tag = oprf_unblind R (cst_oprf_state state) bk
           in if tag = 0 then Err IdentityPoint else Ok tag)))"

definition sbt_finalize ::
  "('s::field, 'p::ab_group_add) prims \<Rightarrow> (rng \<Rightarrow> 's \<times> rng) \<Rightarrow> ('s, 'p) sbt_scheme \<Rightarrow> ('s, 'p) sbt_client_state \<Rightarrow> 'p sbt_request \<Rightarrow>
     ('s, 'p) oprf_evaluation list \<Rightarrow> rng \<Rightarrow> ((('s, 'p) spend_token, sbt_error) result \<times> rng) option" where
  "sbt_finalize R draw sch state request responses rng =
     (case finalize_tag R sch state request responses of
        Ok tag \<Rightarrow>
          let p = hash_to_curve R (sch_h2c_domain sch) (compress R (cst_commitment state))
          in (case token_prove R draw (sch_pedersen sch) (cst_commitment state) p tag (cst_s state) (cst_r state)
                     (sch_session_id sch) (sch_public_key sch) rng of
                None \<Rightarrow> None
              | Some (pf, rng) \<Rightarrow>
                  Some (Ok \<lparr>spt_commitment = cst_commitment state, spt_tag = tag, spt_proof = pf,
                            spt_session_id = sch_session_id sch\<rparr>, rng))
      | Err e \<Rightarrow> Some (Err e, rng)
      | Panic \<Rightarrow> Some (Panic, rng))"

section \<open>Verification\<close>

definition verify_client_proof_internal ::
  "('s::field, 'p::ab_group_add) prims \<Rightarrow> ('s, 'p) sbt_scheme \<Rightarrow> ('s, 'p) spend_token \<Rightarrow> (unit, sbt_error) result" where
  "verify_client_proof_internal R sch token =
     (let p = hash_to_curve R (sch_h2c_domain sch) (compress R (spt_commitment token))
      in if p = 0 then Err IdentityPoint
         else map_err (\<lambda>_. TokenProofFailed)
           (token_verify R (spt_proof token) (sch_pedersen sch) (spt_commitment token) p (spt_tag token)
              (sch_session_id sch) (sch_public_key sch)))"

definition verify_client_proof ::
  "('s::field, 'p::ab_group_add) prims \<Rightarrow> ('s, 'p) sbt_scheme \<Rightarrow> ('s, 'p) spend_token \<Rightarrow> (unit, sbt_error) result" where
  "verify_client_proof R sch token =
     bindR (spend_token_validate token) (\<lambda>_.
       if spt_session_id token \<noteq> sch_session_id sch then Err SessionMismatch
       else verify_client_proof_internal R sch token)"

definition verify_tag_with_secret_key ::
  "('s::field, 'p::ab_group_add) prims \<Rightarrow> ('s, 'p) sbt_scheme \<Rightarrow> ('s, 'p) spend_token \<Rightarrow> 's \<Rightarrow> (unit, sbt_error) result" where
  "verify_tag_with_secret_key R sch token k =
     bindR (spend_token_validate token) (\<lambda>_.
       let p = hash_to_curve R (sch_h2c_domain sch) (compress R (spt_commitment token));
           expected = smul R k p
       in if compress R expected \<noteq> compress R (spt_tag token) then Err TagOriginMismatch else Ok ())"

definition sbt_verify_token ::
  "('s::field, 'p::ab_group_add) prims \<Rightarrow> ('s, 'p) sbt_scheme \<Rightarrow> ('s, 'p) spend_token \<Rightarrow> (unit, sbt_error) result" where
  "sbt_verify_token R sch token =
     (case sch_secret_key sch of
        None \<Rightarrow> Err TagOriginCheckRequired
      | Some k \<Rightarrow>
          let structural = is_ok (spend_token_validate token);
              session_ok = (spt_session_id token = sch_session_id sch);
              proof_ok = is_ok (verify_client_proof_internal R sch token);
              tag_ok = is_ok (verify_tag_with_secret_key R sch token k)
          in if structural \<and> session_ok \<and> proof_ok \<and> tag_ok then Ok () else Err TokenProofFailed)"

definition verify_tag_threshold ::
  "('s::field, 'p::ab_group_add) prims \<Rightarrow> ('s, 'p) sbt_scheme \<Rightarrow> ('s, 'p) spend_token \<Rightarrow> ('s, 'p) oprf_evaluation list \<Rightarrow> bytes \<Rightarrow>
     (unit, sbt_error) result" where
  "verify_tag_threshold R sch token evaluations spend_session_id =
     bindR (spend_token_validate token) (\<lambda>_.
       if length spend_session_id < MIN_SESSION_ID_LEN then Err SessionTooShort
       else if spend_session_id = sch_session_id sch then Err SessionMismatch
       else if spt_session_id token \<noteq> sch_session_id sch then Err SessionMismatch
       else bindR (verify_client_proof_internal R sch token) (\<lambda>_.
         let p = hash_to_curve R (sch_h2c_domain sch) (compress R (spt_commitment token))
         in if p = 0 then Err IdentityPoint
            else bindR (combine_evaluations R (sch_threshold sch) (sch_commits sch) evaluations p spend_session_id) (\<lambda>t_prime.
              if compress R t_prime \<noteq> compress R (spt_tag token) then Err TagOriginMismatch else Ok ())))"

definition evaluate_for_spend ::
  "('s::field, 'p::ab_group_add) prims \<Rightarrow> (rng \<Rightarrow> 's \<times> rng) \<Rightarrow> ('s, 'p) spend_token \<Rightarrow> 's oprf_secret_share \<Rightarrow>
     'p oprf_server_commit \<Rightarrow> bytes \<Rightarrow> bytes \<Rightarrow> rng \<Rightarrow> ((('s, 'p) oprf_evaluation, sbt_error) result \<times> rng) option" where
  "evaluate_for_spend R draw token share cm h2c_domain spend_session_id rng =
     (let p = hash_to_curve R h2c_domain (compress R (spt_commitment token))
      in if p = 0 then Some (Err IdentityPoint, rng) else evaluate_server R draw share cm p spend_session_id rng)"

section \<open>Accepted configurations\<close>

definition commits_wf :: "'p::zero oprf_server_commit list \<Rightarrow> bool" where
  "commits_wf cms \<longleftrightarrow> distinct (map sc_index cms) \<and> 0 \<notin> sc_index ` set cms \<and> 0 \<notin> sc_commit ` set cms"

lemma check_commits_Ok: "check_commits cms seen = Ok () \<longleftrightarrow> commits_wf cms \<and> sc_index ` set cms \<inter> seen = {}"
  by (induction cms arbitrary: seen) (auto simp: commits_wf_def commit_validate_def)

lemma commits_wf_part: "commits_wf cms \<Longrightarrow> commits_wf (take n cms)" "commits_wf cms \<Longrightarrow> commits_wf (drop n cms)"
  by (auto simp: commits_wf_def take_map [symmetric] drop_map [symmetric] image_iff dest: in_set_takeD in_set_dropD)

lemma commits_on_part: "commits_on R cs cms \<Longrightarrow> commits_on R cs (take n cms)" "commits_on R cs cms \<Longrightarrow> commits_on R cs (drop n cms)"
  by (auto simp: commits_on_def list_all_iff dest: in_set_takeD in_set_dropD)

lemma validate_responses_Ok: "validate_responses rs = Ok () \<longleftrightarrow> (\<forall>r \<in> set rs. ev_index r \<noteq> 0 \<and> ev_point r \<noteq> 0)"
  by (induction rs) (auto simp: evaluation_validate_def)

text \<open>What every scheme that \<^verbatim>\<open>SbtScheme::new\<close> returns satisfies, from any commitments.\<close>

definition scheme_wf :: "('s::field, 'p::ab_group_add) prims \<Rightarrow> ('s, 'p) sbt_scheme \<Rightarrow> bool" where
  "scheme_wf R sch \<longleftrightarrow>
     0 < sch_threshold sch \<and> sch_threshold sch \<le> length (sch_commits sch) \<and> commits_wf (sch_commits sch) \<and>
     MIN_SESSION_ID_LEN \<le> length (sch_session_id sch) \<and> sch_h2c_domain sch \<noteq> [] \<and> sch_public_key sch \<noteq> 0 \<and>
     aggregate_over_quorum R (take (sch_threshold sch) (sch_commits sch)) = Ok (sch_public_key sch) \<and>
     (case sch_secret_key sch of None \<Rightarrow> True | Some k \<Rightarrow> smul R k (basepoint R) = sch_public_key sch)"

text \<open>Acceptance for any commitments: the first quorum fixes a polynomial, and a second disjoint one has to have the same constant term.\<close>

definition quorums_agree :: "('s::field, 'p::ab_group_add) prims \<Rightarrow> ('s, 'p) sbt_scheme_config \<Rightarrow> 's \<Rightarrow> bool" where
  "quorums_agree R cfg k \<longleftrightarrow>
     (let t = cfg_threshold cfg; cms = cfg_commits cfg
      in (\<exists>cs. length cs = t \<and> commits_on R cs (take t cms) \<and> poly_eval cs 0 = k) \<and>
         (2 * t \<le> length cms \<longrightarrow> (\<exists>cs. length cs = t \<and> commits_on R cs (take t (drop t cms)) \<and> poly_eval cs 0 = k)))"

lemma new_wf: "sbt_new R cfg = Ok sch \<Longrightarrow> scheme_wf R sch"
  by (auto simp: sbt_new_def Let_def scheme_wf_def check_commits_Ok not_less split: if_splits option.splits)

lemma new_fields:
  "sbt_new R cfg = Ok sch \<Longrightarrow> sch_commits sch = cfg_commits cfg \<and> sch_threshold sch = cfg_threshold cfg \<and>
     sch_secret_key sch = cfg_secret_key cfg \<and> sch_client_secret sch = cfg_client_secret cfg \<and>
     sch_pedersen sch = cfg_pedersen cfg \<and> sch_h2c_domain sch = cfg_h2c_domain cfg \<and> sch_session_id sch = cfg_session_id cfg"
  by (auto simp: sbt_new_def Let_def split: if_splits option.splits)

lemma new_checked:
  assumes "0 < cfg_threshold cfg" "cfg_threshold cfg \<le> length (cfg_commits cfg)"
    and "MIN_SESSION_ID_LEN \<le> length (cfg_session_id cfg)" "cfg_h2c_domain cfg \<noteq> []" "check_commits (cfg_commits cfg) {} = Ok ()"
    and "aggregate_over_quorum R (take (cfg_threshold cfg) (cfg_commits cfg)) = Ok A"
    and "2 * cfg_threshold cfg \<le> length (cfg_commits cfg) \<Longrightarrow>
      aggregate_over_quorum R (take (cfg_threshold cfg) (drop (cfg_threshold cfg) (cfg_commits cfg))) = Ok A'"
  shows "is_ok (sbt_new R cfg) \<longleftrightarrow>
      (if 2 * cfg_threshold cfg \<le> length (cfg_commits cfg) then A = A' else cfg_expected_public_key cfg \<noteq> None) \<and> A \<noteq> 0 \<and>
      (case cfg_expected_public_key cfg of None \<Rightarrow> True | Some Y \<Rightarrow> Y = A) \<and>
      (case cfg_secret_key cfg of None \<Rightarrow> True | Some k \<Rightarrow> smul R k (basepoint R) = A)"
  using assms by (simp add: sbt_new_def Let_def split: option.split)

context ristretto_group
begin

lemma base_eq_iff: "smul R a (basepoint R) = smul R b (basepoint R) \<longleftrightarrow> a = b"
  using base_inject by blast

lemma aggregate_secret:
  assumes "commits_wf cms" and "commits_on R cs cms" and "length cs \<le> length cms"
  shows "aggregate_over_quorum R cms = Ok (smul R (poly_eval cs 0) (basepoint R))"
proof -
  have "lagrange_sum R (map fst (map (\<lambda>c. (sc_index c, sc_commit c)) cms)) (map (\<lambda>c. (sc_index c, sc_commit c)) cms) 0
      = Ok (smul R (poly_eval cs 0) (basepoint R))"
    using assms by (intro lagrange_sum_secret) (auto simp: commits_wf_def commits_on_def list_all_iff o_def)
  then show ?thesis by (simp add: aggregate_over_quorum_def o_def)
qed

text \<open>Any well-formed commitments lie on a polynomial with as many coefficients.\<close>

lemma quorum_polynomial:
  assumes "commits_wf cms"
  shows "\<exists>cs. length cs = length cms \<and> commits_on R cs cms"
proof -
  let ?x = "\<lambda>c. index_scalar R (sc_index c)" and ?S = "set cms"
  have "\<forall>c :: 'p oprf_server_commit. \<exists>a. sc_commit c = smul R a (basepoint R)" using base_generates by blast
  from choice [OF this] obtain y where y: "\<And>c :: 'p oprf_server_commit. sc_commit c = smul R (y c) (basepoint R)" by blast
  have inj: "inj_on ?x ?S"
    using assms index_scalar_inj [of "sc_index ` ?S"] by (auto simp: commits_wf_def distinct_map inj_on_def)
  obtain cs where cs: "length cs = card (?x ` ?S)" "\<forall>a\<in>?x ` ?S. poly_eval cs a = y (inv_into ?S ?x a)"
    using interpolation_exists [of "?x ` ?S" "\<lambda>a. y (inv_into ?S ?x a)"] by auto
  have "card (?x ` ?S) = length cms"
    using assms inj by (simp add: card_image distinct_card commits_wf_def distinct_map)
  moreover have "sc_commit c = smul R (poly_eval cs (?x c)) (basepoint R)" if "c \<in> ?S" for c
    using that y [of c] cs(2) inv_into_f_f [OF inj that] by simp
  ultimately show ?thesis using cs(1) by (auto simp: commits_on_def list_all_iff)
qed

lemma new_exact:
  "is_ok (sbt_new R cfg) \<longleftrightarrow>
     0 < cfg_threshold cfg \<and> cfg_threshold cfg \<le> length (cfg_commits cfg) \<and> MIN_SESSION_ID_LEN \<le> length (cfg_session_id cfg) \<and>
     cfg_h2c_domain cfg \<noteq> [] \<and> commits_wf (cfg_commits cfg) \<and>
     (length (cfg_commits cfg) < 2 * cfg_threshold cfg \<longrightarrow> cfg_expected_public_key cfg \<noteq> None) \<and>
     (\<exists>k. quorums_agree R cfg k \<and> k \<noteq> 0 \<and>
        (\<forall>Y. cfg_expected_public_key cfg = Some Y \<longrightarrow> Y = smul R k (basepoint R)) \<and>
        (\<forall>k'. cfg_secret_key cfg = Some k' \<longrightarrow> k' = k))"
    (is "_ \<longleftrightarrow> ?ok")
proof -
  let ?cms = "cfg_commits cfg" and ?t = "cfg_threshold cfg" and ?B = "basepoint R"
  show ?thesis
  proof (cases "0 < ?t \<and> ?t \<le> length ?cms \<and> MIN_SESSION_ID_LEN \<le> length (cfg_session_id cfg) \<and>
      cfg_h2c_domain cfg \<noteq> [] \<and> commits_wf ?cms")
    case True
    have agg: "\<exists>k. aggregate_over_quorum R q = Ok (smul R k ?B) \<and> (\<forall>k'. (\<exists>cs. length cs = ?t \<and> commits_on R cs q \<and> poly_eval cs 0 = k') \<longleftrightarrow> k' = k)"
      if q: "commits_wf q" "length q = ?t" for q
    proof -
      obtain cs where cs: "length cs = ?t" "commits_on R cs q" using quorum_polynomial [OF q(1)] q(2) by auto
      have "aggregate_over_quorum R q = Ok (smul R (poly_eval cs' 0) ?B)" if "length cs' = ?t" "commits_on R cs' q" for cs'
        using aggregate_secret [OF q(1) that(2)] that(1) q(2) by simp
      then show ?thesis using cs by (intro exI [of _ "poly_eval cs 0"]) (metis base_eq_iff result.inject(1))
    qed
    obtain k where k: "aggregate_over_quorum R (take ?t ?cms) = Ok (smul R k ?B)"
        "\<And>k'. (\<exists>cs. length cs = ?t \<and> commits_on R cs (take ?t ?cms) \<and> poly_eval cs 0 = k') \<longleftrightarrow> k' = k"
      using agg [OF commits_wf_part(1), of ?cms ?t] True by auto
    obtain k2 where k2: "2 * ?t \<le> length ?cms \<Longrightarrow> aggregate_over_quorum R (take ?t (drop ?t ?cms)) = Ok (smul R k2 ?B) \<and>
        (\<forall>k'. (\<exists>cs. length cs = ?t \<and> commits_on R cs (take ?t (drop ?t ?cms)) \<and> poly_eval cs 0 = k') \<longleftrightarrow> k' = k2)"
      using agg [OF commits_wf_part(1) [OF commits_wf_part(2)], of ?cms ?t ?t] True by (cases "2 * ?t \<le> length ?cms") auto
    have new: "is_ok (sbt_new R cfg) \<longleftrightarrow>
        (if 2 * ?t \<le> length ?cms then smul R k ?B = smul R k2 ?B else cfg_expected_public_key cfg \<noteq> None) \<and> smul R k ?B \<noteq> 0 \<and>
        (case cfg_expected_public_key cfg of None \<Rightarrow> True | Some Y \<Rightarrow> Y = smul R k ?B) \<and>
        (case cfg_secret_key cfg of None \<Rightarrow> True | Some k' \<Rightarrow> smul R k' ?B = smul R k ?B)"
      using True k(1) k2 by (intro new_checked) (simp_all add: check_commits_Ok)
    have "quorums_agree R cfg k' \<longleftrightarrow> k' = k \<and> (2 * ?t \<le> length ?cms \<longrightarrow> k = k2)" for k'
      unfolding quorums_agree_def Let_def k(2) using k2 by auto
    then show ?thesis
      using True new by (cases "cfg_expected_public_key cfg"; cases "cfg_secret_key cfg")
        (auto simp: base_eq_iff smul_eq_zero_iff basepoint_nonzero not_less)
  next
    case False
    have "\<not> is_ok (sbt_new R cfg)"
    proof
      assume "is_ok (sbt_new R cfg)"
      then obtain sch where "sbt_new R cfg = Ok sch" by (auto simp: is_ok_iff)
      from new_wf [OF this] new_fields [OF this] False show False by (simp add: scheme_wf_def)
    qed
    with False show ?thesis by blast
  qed
qed

lemma new_public_key:
  assumes "sbt_new R cfg = Ok sch" and "quorums_agree R cfg k"
  shows "sch_public_key sch = smul R k (basepoint R)"
proof -
  note wf = new_wf [OF assms(1)] and f = new_fields [OF assms(1)]
  obtain cs where cs: "length cs = cfg_threshold cfg" "commits_on R cs (take (cfg_threshold cfg) (cfg_commits cfg))" "poly_eval cs 0 = k"
    using assms(2) unfolding quorums_agree_def Let_def by blast
  have "aggregate_over_quorum R (take (cfg_threshold cfg) (cfg_commits cfg)) = Ok (smul R k (basepoint R))"
    using aggregate_secret [OF _ cs(2)] cs wf f commits_wf_part by (auto simp: scheme_wf_def)
  then show ?thesis using wf f by (simp add: scheme_wf_def)
qed

lemma new_accepts:
  assumes "commits_on R cs (cfg_commits cfg)" and "length cs \<le> cfg_threshold cfg"
  shows "is_ok (sbt_new R cfg) \<longleftrightarrow>
      0 < cfg_threshold cfg \<and> cfg_threshold cfg \<le> length (cfg_commits cfg) \<and> MIN_SESSION_ID_LEN \<le> length (cfg_session_id cfg) \<and>
      cfg_h2c_domain cfg \<noteq> [] \<and> commits_wf (cfg_commits cfg) \<and> poly_eval cs 0 \<noteq> 0 \<and>
      (length (cfg_commits cfg) < 2 * cfg_threshold cfg \<longrightarrow> cfg_expected_public_key cfg \<noteq> None) \<and>
      (\<forall>Y. cfg_expected_public_key cfg = Some Y \<longrightarrow> Y = smul R (poly_eval cs 0) (basepoint R)) \<and>
      (\<forall>k. cfg_secret_key cfg = Some k \<longrightarrow> k = poly_eval cs 0)"
    (is "_ \<longleftrightarrow> ?ok")
proof -
  let ?cms = "cfg_commits cfg" and ?t = "cfg_threshold cfg"
  have agg: "aggregate_over_quorum R (take ?t ?cms) = Ok (smul R (poly_eval cs 0) (basepoint R))"
    if "commits_wf ?cms" "?t \<le> length ?cms"
    using that assms by (intro aggregate_secret commits_wf_part commits_on_part) simp_all
  have agg2: "aggregate_over_quorum R (take ?t (drop ?t ?cms)) = Ok (smul R (poly_eval cs 0) (basepoint R))"
    if "commits_wf ?cms" "2 * ?t \<le> length ?cms"
    using that assms by (intro aggregate_secret commits_wf_part commits_on_part) simp_all
  show ?thesis
  proof (cases "0 < ?t \<and> ?t \<le> length ?cms \<and> MIN_SESSION_ID_LEN \<le> length (cfg_session_id cfg) \<and>
      cfg_h2c_domain cfg \<noteq> [] \<and> commits_wf ?cms")
    case True
    then have "is_ok (sbt_new R cfg) \<longleftrightarrow>
        (if 2 * ?t \<le> length ?cms then smul R (poly_eval cs 0) (basepoint R) = smul R (poly_eval cs 0) (basepoint R)
         else cfg_expected_public_key cfg \<noteq> None) \<and>
        smul R (poly_eval cs 0) (basepoint R) \<noteq> 0 \<and>
        (case cfg_expected_public_key cfg of None \<Rightarrow> True | Some Y \<Rightarrow> Y = smul R (poly_eval cs 0) (basepoint R)) \<and>
        (case cfg_secret_key cfg of None \<Rightarrow> True | Some k \<Rightarrow> smul R k (basepoint R) = smul R (poly_eval cs 0) (basepoint R))"
      using agg agg2 by (intro new_checked) (simp_all add: check_commits_Ok)
    with True show ?thesis
      by (cases "cfg_expected_public_key cfg"; cases "cfg_secret_key cfg")
        (simp_all add: base_eq_iff smul_eq_zero_iff basepoint_nonzero not_less conj_ac)
  next
    case False
    have "\<not> is_ok (sbt_new R cfg)"
    proof
      assume "is_ok (sbt_new R cfg)"
      then obtain sch where "sbt_new R cfg = Ok sch" by (auto simp: is_ok_iff)
      from new_wf [OF this] new_fields [OF this] False show False by (simp add: scheme_wf_def)
    qed
    with False show ?thesis by blast
  qed
qed

end

section \<open>Mint and spend\<close>

text \<open>The commitment and the base of a payload: functions of the client's secret and the payload alone.\<close>

definition payload_commitment :: "('s, 'p::plus) prims \<Rightarrow> ('s, 'p) sbt_scheme \<Rightarrow> bytes \<Rightarrow> 'p" where
  "payload_commitment R sch payload =
     smul R (derive_scalar R ''sbt-payload-s'' (sch_client_secret sch) payload) (ped_g (sch_pedersen sch))
     + smul R (derive_scalar R ''sbt-payload-r'' (sch_client_secret sch) payload) (ped_h (sch_pedersen sch))"

definition payload_base :: "('s, 'p::plus) prims \<Rightarrow> ('s, 'p) sbt_scheme \<Rightarrow> bytes \<Rightarrow> 'p" where
  "payload_base R sch payload = hash_to_curve R (sch_h2c_domain sch) (compress R (payload_commitment R sch payload))"

text \<open>An honest quorum for a blinded point: the threshold of distinct trustees whose shares lie on \<open>cs\<close>.\<close>

definition honest_quorum ::
  "('s::field, 'p::ab_group_add) prims \<Rightarrow> (rng \<Rightarrow> 's \<times> rng) \<Rightarrow> 's list \<Rightarrow> ('s, 'p) sbt_scheme \<Rightarrow> 'p \<Rightarrow> bytes \<Rightarrow>
     ('s, 'p) oprf_evaluation list \<Rightarrow> bool" where
  "honest_quorum R draw cs sch B sid es \<longleftrightarrow>
     length es = sch_threshold sch \<and> distinct (map ev_index es) \<and>
     list_all (honest_evaluation R draw cs (sch_commits sch) B sid) es"

lemma prepare_Ok:
  assumes "sbt_prepare R draw sch payload g = Some (Ok (st, req), g')"
  shows "oprf_blind R draw (sch_h2c_domain sch) (compress R (payload_commitment R sch payload)) g
      = Some (Ok (cst_oprf_state st, req_blinded req), g')"
    and "st = \<lparr>cst_s = derive_scalar R ''sbt-payload-s'' (sch_client_secret sch) payload,
               cst_r = derive_scalar R ''sbt-payload-r'' (sch_client_secret sch) payload,
               cst_commitment = payload_commitment R sch payload, cst_oprf_state = cst_oprf_state st\<rparr>"
    and "req = \<lparr>req_commitment = payload_commitment R sch payload, req_blinded = req_blinded req,
                req_session_id = sch_session_id sch\<rparr>"
    and "request_validate req = Ok ()"
  using assms by (auto simp: sbt_prepare_def Let_def payload_commitment_def split: option.splits)

context ristretto_group
begin

lemma honest_combine:
  assumes "scheme_wf R sch" and "commits_on R cs (sch_commits sch)" and "length cs \<le> sch_threshold sch"
    and "honest_quorum R draw cs sch B sid es" and "B \<noteq> 0"
  shows "combine_evaluations R (sch_threshold sch) (sch_commits sch) es B sid = Ok (smul R (poly_eval cs 0) B)"
    and "validate_responses es = Ok ()"
  using assms honest_evaluation_checks(1,4) [OF assms(2)] combine_honest [OF assms(2,3), of es B draw sid]
  by (auto simp: honest_quorum_def list_all_iff validate_responses_Ok)

lemma wf_public_key:
  assumes "scheme_wf R sch" and "commits_on R cs (sch_commits sch)" and "length cs \<le> sch_threshold sch"
  shows "sch_public_key sch = smul R (poly_eval cs 0) (basepoint R)" and "poly_eval cs 0 \<noteq> 0"
    and "sch_secret_key sch = Some k \<Longrightarrow> k = poly_eval cs 0"
proof -
  have "aggregate_over_quorum R (take (sch_threshold sch) (sch_commits sch)) = Ok (smul R (poly_eval cs 0) (basepoint R))"
    using assms by (intro aggregate_secret commits_wf_part commits_on_part) (simp_all add: scheme_wf_def)
  then show pk: "sch_public_key sch = smul R (poly_eval cs 0) (basepoint R)"
    using assms(1) by (simp add: scheme_wf_def)
  then show "poly_eval cs 0 \<noteq> 0" using assms(1) by (auto simp: scheme_wf_def)
  show "k = poly_eval cs 0" if "sch_secret_key sch = Some k"
    using pk assms(1) that base_inject by (auto simp: scheme_wf_def)
qed

text \<open>
  An honest mint: the tag is \<open>f(0)\<close> times the base of the payload, whichever quorum answers, and \<open>finalize\<close> fails in
  no other way than by drawing zeros for ever.
\<close>

lemma mint_tag:
  assumes wf: "scheme_wf R sch" and on: "commits_on R cs (sch_commits sch)" and len: "length cs \<le> sch_threshold sch"
    and prep: "sbt_prepare R draw sch payload g = Some (Ok (st, req), g1)"
    and q: "honest_quorum R draw cs sch (req_blinded req) (sch_session_id sch) es"
  shows "finalize_tag R sch st req es = Ok (smul R (poly_eval cs 0) (payload_base R sch payload))"
    and "payload_base R sch payload \<noteq> 0" and "payload_commitment R sch payload \<noteq> 0"
proof -
  note p = prepare_Ok [OF prep]
  note u = unblind_blinded [OF p(1)]
  show nz: "payload_base R sch payload \<noteq> 0" using u(4) by (simp add: payload_base_def)
  show "payload_commitment R sch payload \<noteq> 0"
    using p(3,4) by (metis request_validate_def sbt_request.select_convs(1) result.distinct(1))
  have "oprf_unblind R (cst_oprf_state st) (smul R (poly_eval cs 0) (req_blinded req))
      = smul R (poly_eval cs 0) (payload_base R sch payload)"
    using u(1) by (simp add: payload_base_def)
  moreover have "req_session_id req = sch_session_id sch" "req_commitment req = cst_commitment st"
    by (subst p(3), simp) (subst p(2), subst p(3), simp)
  ultimately show "finalize_tag R sch st req es = Ok (smul R (poly_eval cs 0) (payload_base R sch payload))"
    using p(4) u(2) honest_combine [OF wf on len q u(3)] nz wf_public_key(2) [OF wf on len]
    by (simp add: finalize_tag_def Let_def smul_eq_zero_iff)
qed

lemma token_complete:
  assumes "token_prove R draw pp C P T s r ctx Y g = Some (pf, g')"
    and "C = smul R s (ped_g pp) + smul R r (ped_h pp)" and "C \<noteq> 0" "P \<noteq> 0" "T \<noteq> 0" "Y \<noteq> 0"
  shows "token_verify R pf pp C P T ctx Y = (if tp_t pf = 0 then Err Token_IdentityInput else Ok ())"
proof -
  obtain a b where ab: "tp_t pf = smul R a (ped_g pp) + smul R b (ped_h pp)"
    "tp_z_s pf = a + token_proof_challenge R pp ctx Y C P T (tp_t pf) * s"
    "tp_z_r pf = b + token_proof_challenge R pp ctx Y C P T (tp_t pf) * r"
    using assms(1) by (auto simp: token_prove_def Let_def split: option.splits)
  define c where "c = token_proof_challenge R pp ctx Y C P T (tp_t pf)"
  have "smul R (tp_z_s pf) (ped_g pp) + smul R (tp_z_r pf) (ped_h pp) = tp_t pf + smul R c C"
    unfolding ab(2,3) c_def [symmetric] by (simp add: ab(1) assms(2) smul_add_scalar smul_add_point smul_mult)
  then show ?thesis using assms(3-) by (simp add: token_verify_def Let_def c_def)
qed

end

definition honest_spend ::
  "('s::field, 'p::ab_group_add) prims \<Rightarrow> (rng \<Rightarrow> 's \<times> rng) \<Rightarrow> 's list \<Rightarrow> ('s, 'p) sbt_scheme \<Rightarrow> ('s, 'p) spend_token \<Rightarrow> bytes \<Rightarrow>
     ('s, 'p) oprf_evaluation list \<Rightarrow> bool" where
  "honest_spend R draw cs sch tok sid es \<longleftrightarrow>
     length es = sch_threshold sch \<and> distinct (map ev_index es) \<and>
     list_all (\<lambda>e. \<exists>sh c g g'. c \<in> set (sch_commits sch) \<and> sh_scalar sh = poly_eval cs (index_scalar R (sh_index sh)) \<and>
        evaluate_for_spend R draw tok sh c (sch_h2c_domain sch) sid g = Some (Ok e, g')) es"

lemma honest_spend_quorum:
  "honest_spend R draw cs sch tok sid es \<Longrightarrow>
     honest_quorum R draw cs sch (hash_to_curve R (sch_h2c_domain sch) (compress R (spt_commitment tok))) sid es"
  unfolding honest_spend_def honest_quorum_def honest_evaluation_def evaluate_for_spend_def Let_def list_all_iff
  by (fastforce split: if_splits)

text \<open>
  A token every verifier accepts: the client proof check, the verification with the secret key where the scheme holds it, and
  the threshold verification with any quorum's answers under any session other than the mint's.
\<close>

definition spendable ::
  "('s::field, 'p::ab_group_add) prims \<Rightarrow> (rng \<Rightarrow> 's \<times> rng) \<Rightarrow> 's list \<Rightarrow> ('s, 'p) sbt_scheme \<Rightarrow> ('s, 'p) spend_token \<Rightarrow> bool" where
  "spendable R draw cs sch tok \<longleftrightarrow>
     verify_client_proof R sch tok = Ok () \<and>
     (can_verify_tag_origin sch \<longrightarrow> sbt_verify_token R sch tok = Ok ()) \<and>
     (\<forall>sid es. MIN_SESSION_ID_LEN \<le> length sid \<longrightarrow> sid \<noteq> sch_session_id sch \<longrightarrow>
        honest_spend R draw cs sch tok sid es \<longrightarrow> verify_tag_threshold R sch tok es sid = Ok ())"

text \<open>The first draws of a fair source are not all zero.\<close>

definition fair_draw :: "(rng \<Rightarrow> 's::zero \<times> rng) \<Rightarrow> bool" where
  "fair_draw draw \<longleftrightarrow> (\<forall>g. \<exists>n. fst (draw (((snd \<circ> draw) ^^ n) g)) \<noteq> 0)"

lemma fair_nonzero_scalar: "fair_draw draw \<Longrightarrow> \<exists>w g'. nonzero_scalar draw g = Some (w, g')"
  using nonzero_scalar_returns_iff [of draw g] by (auto simp: fair_draw_def)

context ristretto_group
begin

lemma prepare_returns:
  assumes "fair_draw draw" and "scheme_wf R sch" and "payload_base R sch payload \<noteq> 0" and "payload_commitment R sch payload \<noteq> 0"
  shows "\<exists>st req g1. sbt_prepare R draw sch payload g = Some (Ok (st, req), g1)"
proof -
  obtain a g1 where a: "nonzero_scalar draw g = Some (a, g1)" using fair_nonzero_scalar [OF assms(1)] by blast
  then have "a \<noteq> 0" by (rule nonzero_scalar_nonzero)
  then have "smul R a (payload_base R sch payload) \<noteq> 0" using assms(3) by (simp add: smul_eq_zero_iff)
  with a assms(2-) show ?thesis
    by (simp add: sbt_prepare_def Let_def oprf_blind_def blinded_of_def request_validate_def scheme_wf_def
        flip: payload_commitment_def)
      (simp add: payload_base_def)
qed

lemma token_prove_returns: "fair_draw draw \<Longrightarrow> \<exists>pf g'. token_prove R draw pp C P T s r ctx Y g = Some (pf, g')"
proof -
  assume f: "fair_draw draw"
  obtain a g1 where a: "nonzero_scalar draw g = Some (a, g1)" using fair_nonzero_scalar [OF f] by blast
  obtain b g2 where "nonzero_scalar draw g1 = Some (b, g2)" using fair_nonzero_scalar [OF f] by blast
  with a show ?thesis by (simp add: token_prove_def Let_def)
qed

lemma mint_returns:
  assumes wf: "scheme_wf R sch" and on: "commits_on R cs (sch_commits sch)" and len: "length cs \<le> sch_threshold sch"
    and f: "fair_draw draw" and prep: "sbt_prepare R draw sch payload g = Some (Ok (st, req), g1)"
    and q: "honest_quorum R draw cs sch (req_blinded req) (sch_session_id sch) es"
  shows "\<exists>tok g3. sbt_finalize R draw sch st req es g2 = Some (Ok tok, g3) \<and>
      spt_commitment tok = payload_commitment R sch payload \<and>
      spt_tag tok = smul R (poly_eval cs 0) (payload_base R sch payload) \<and> spt_session_id tok = sch_session_id sch \<and>
      token_verify R (spt_proof tok) (sch_pedersen sch) (spt_commitment tok) (payload_base R sch payload) (spt_tag tok)
        (sch_session_id sch) (sch_public_key sch) = (if tp_t (spt_proof tok) = 0 then Err Token_IdentityInput else Ok ())"
proof -
  let ?P = "payload_base R sch payload" and ?C = "payload_commitment R sch payload"
  note m = mint_tag [OF wf on len prep q] and st = prepare_Ok(2) [OF prep] and k = wf_public_key [OF wf on len]
  have C: "cst_commitment st = ?C" by (subst st) simp
  have C': "?C = smul R (cst_s st) (ped_g (sch_pedersen sch)) + smul R (cst_r st) (ped_h (sch_pedersen sch))"
    by (subst st, subst st) (simp add: payload_commitment_def)
  obtain pf g3 where pf: "token_prove R draw (sch_pedersen sch) ?C ?P (smul R (poly_eval cs 0) ?P) (cst_s st) (cst_r st)
      (sch_session_id sch) (sch_public_key sch) g2 = Some (pf, g3)"
    using token_prove_returns [OF f] by blast
  have "smul R (poly_eval cs 0) ?P \<noteq> 0" "sch_public_key sch \<noteq> 0"
    using m(2) k(2) wf by (auto simp: smul_eq_zero_iff scheme_wf_def)
  from token_complete [OF pf C' m(3,2) this] pf show ?thesis
    by (simp add: sbt_finalize_def m(1) C payload_base_def [symmetric])
qed

lemma minted_accepted:
  assumes wf: "scheme_wf R sch" and on: "commits_on R cs (sch_commits sch)" and len: "length cs \<le> sch_threshold sch"
    and C: "spt_commitment tok = payload_commitment R sch payload" "spt_commitment tok \<noteq> 0"
    and P: "payload_base R sch payload \<noteq> 0"
    and T: "spt_tag tok = smul R (poly_eval cs 0) (payload_base R sch payload)" and S: "spt_session_id tok = sch_session_id sch"
    and V: "token_verify R (spt_proof tok) (sch_pedersen sch) (spt_commitment tok) (payload_base R sch payload) (spt_tag tok)
        (sch_session_id sch) (sch_public_key sch) = Ok ()"
  shows "spendable R draw cs sch tok"
proof -
  note k = wf_public_key [OF wf on len]
  have val: "spend_token_validate tok = Ok ()"
    using wf C(2) T P S k(2) by (simp add: spend_token_validate_def scheme_wf_def smul_eq_zero_iff)
  have base: "hash_to_curve R (sch_h2c_domain sch) (compress R (spt_commitment tok)) = payload_base R sch payload"
    by (simp add: payload_base_def C(1))
  have cp: "verify_client_proof_internal R sch tok = Ok ()"
    using V P by (simp add: verify_client_proof_internal_def Let_def base)
  have "verify_client_proof R sch tok = Ok ()" using val S cp by (simp add: verify_client_proof_def)
  moreover have "sbt_verify_token R sch tok = Ok ()" if "can_verify_tag_origin sch"
    using that k(3) val S cp T
    by (auto simp: sbt_verify_token_def can_verify_tag_origin_def verify_tag_with_secret_key_def base)
  moreover have "verify_tag_threshold R sch tok es sid = Ok ()"
    if "MIN_SESSION_ID_LEN \<le> length sid" "sid \<noteq> sch_session_id sch" "honest_spend R draw cs sch tok sid es" for sid es
    using honest_combine(1) [OF wf on len honest_spend_quorum [OF that(3)]] that val S cp P T
    by (simp add: verify_tag_threshold_def base)
  ultimately show ?thesis unfolding spendable_def by blast
qed

text \<open>Every trustee of a well-formed scheme answers a nonzero point, so every quorum does.\<close>

lemma honest_quorum_exists:
  assumes f: "fair_draw draw" and wf: "scheme_wf R sch" and on: "commits_on R cs (sch_commits sch)" and B: "B \<noteq> 0"
  shows "\<exists>es. honest_quorum R draw cs sch B sid es"
proof -
  have "\<exists>e. honest_evaluation R draw cs (sch_commits sch) B sid e \<and> ev_index e = sc_index c" if c: "c \<in> set (sch_commits sch)" for c
  proof -
    obtain w g' where w: "nonzero_scalar draw (\<lambda>_. 0) = Some (w, g')" using fair_nonzero_scalar [OF f] by blast
    define sh where "sh = \<lparr>sh_index = sc_index c, sh_scalar = poly_eval cs (index_scalar R (sc_index c))\<rparr>"
    have "sc_index c \<noteq> 0" "sc_commit c \<noteq> 0" using c wf by (force simp: scheme_wf_def commits_wf_def)+
    with w B obtain e where "evaluate_server R draw sh c B sid (\<lambda>_. 0) = Some (Ok e, g')" "ev_index e = sc_index c"
      by (auto simp: evaluate_server_def ddh_prove_def Let_def sh_def)
    moreover have "sh_scalar sh = poly_eval cs (index_scalar R (sh_index sh))" by (simp add: sh_def)
    ultimately show ?thesis using c unfolding honest_evaluation_def by blast
  qed
  then obtain ev where ev: "\<And>c. c \<in> set (sch_commits sch) \<Longrightarrow>
      honest_evaluation R draw cs (sch_commits sch) B sid (ev c) \<and> ev_index (ev c) = sc_index c"
    by metis
  let ?es = "map ev (take (sch_threshold sch) (sch_commits sch))"
  have "map ev_index ?es = map sc_index (take (sch_threshold sch) (sch_commits sch))"
    using ev by (auto dest: in_set_takeD)
  moreover have "commits_wf (take (sch_threshold sch) (sch_commits sch))"
    using wf commits_wf_part(1) by (auto simp: scheme_wf_def)
  ultimately have "distinct (map ev_index ?es)" by (simp only: commits_wf_def)
  then have "honest_quorum R draw cs sch B sid ?es"
    using wf ev by (auto simp: honest_quorum_def list_all_iff scheme_wf_def dest!: in_set_takeD)
  then show ?thesis ..
qed

end

lemma finalize_nonce:
  assumes "sbt_finalize R draw sch st req es g = Some (Ok tok, g')"
  obtains a b where "a \<noteq> 0" "b \<noteq> 0"
    "tp_t (spt_proof tok) = smul R a (ped_g (sch_pedersen sch)) + smul R b (ped_h (sch_pedersen sch))"
  using assms
  by (auto simp: sbt_finalize_def token_prove_def Let_def dest!: nonzero_scalar_nonzero split: result.splits option.splits)

section \<open>Properties\<close>

text \<open>C36: exactly which configurations \<^verbatim>\<open>SbtScheme::new\<close> accepts, for arbitrary commitments. The threshold is between one and their
  number, the session identifier is long enough and the domain not empty, the commitments have distinct nonzero indices and no
  identity point, a public key is given when there is no second disjoint quorum, and there is a key \<open>k\<close>, not zero, such that the first
  \<open>threshold\<close> commitments lie on a polynomial of \<open>threshold\<close> coefficients with constant term \<open>k\<close>, the second \<open>threshold\<close>, if there are that many,
  lie on one with the same constant term, and the given public and secret keys are those of \<open>k\<close>. Nothing is asked of the
  other commitments, nor that the two polynomials be one. Without a public key and with fewer than \<open>2 threshold\<close> commitments the configuration is
  refused, where the comment on the field says that the aggregate is then trusted unconditionally. Every scheme returned is well formed and has
  the public key of \<open>k\<close>. For commitments that do lie on one polynomial the condition is that of the honest case.\<close>

theorem sbt_new_accepts:
  assumes "ristretto_group R"
  shows "(is_ok (sbt_new R cfg) \<longleftrightarrow>
      0 < cfg_threshold cfg \<and> cfg_threshold cfg \<le> length (cfg_commits cfg) \<and> MIN_SESSION_ID_LEN \<le> length (cfg_session_id cfg) \<and>
      cfg_h2c_domain cfg \<noteq> [] \<and> commits_wf (cfg_commits cfg) \<and>
      (length (cfg_commits cfg) < 2 * cfg_threshold cfg \<longrightarrow> cfg_expected_public_key cfg \<noteq> None) \<and>
      (\<exists>k. quorums_agree R cfg k \<and> k \<noteq> 0 \<and>
         (\<forall>Y. cfg_expected_public_key cfg = Some Y \<longrightarrow> Y = smul R k (basepoint R)) \<and>
         (\<forall>k'. cfg_secret_key cfg = Some k' \<longrightarrow> k' = k))) \<and>
    (\<forall>sch. sbt_new R cfg = Ok sch \<longrightarrow> scheme_wf R sch \<and>
      (\<forall>k. quorums_agree R cfg k \<longrightarrow> sch_public_key sch = smul R k (basepoint R))) \<and>
    (\<forall>cs. commits_on R cs (cfg_commits cfg) \<longrightarrow> length cs \<le> cfg_threshold cfg \<longrightarrow>
     (is_ok (sbt_new R cfg) \<longleftrightarrow>
        0 < cfg_threshold cfg \<and> cfg_threshold cfg \<le> length (cfg_commits cfg) \<and> MIN_SESSION_ID_LEN \<le> length (cfg_session_id cfg) \<and>
        cfg_h2c_domain cfg \<noteq> [] \<and> commits_wf (cfg_commits cfg) \<and> poly_eval cs 0 \<noteq> 0 \<and>
        (length (cfg_commits cfg) < 2 * cfg_threshold cfg \<longrightarrow> cfg_expected_public_key cfg \<noteq> None) \<and>
        (\<forall>Y. cfg_expected_public_key cfg = Some Y \<longrightarrow> Y = smul R (poly_eval cs 0) (basepoint R)) \<and>
        (\<forall>k. cfg_secret_key cfg = Some k \<longrightarrow> k = poly_eval cs 0)))"
proof (intro conjI allI impI)
  show "sch_public_key sch = smul R k (basepoint R)" if "sbt_new R cfg = Ok sch" "quorums_agree R cfg k" for sch k
    by (rule ristretto_group.new_public_key [OF assms that])
qed (rule ristretto_group.new_exact [OF assms] new_wf ristretto_group.new_accepts [OF assms]; assumption)+

definition zp_const :: "(zp, zp) prims" where
  "zp_const = zp_prims\<lparr>hash_from_bytes := (\<lambda>_. 1), from_bytes_mod_order_wide := (\<lambda>_. 1)\<rparr>"

lemma zp_const_group: "ristretto_group zp_const"
  using zp.ristretto_group_axioms by (simp add: ristretto_group_def zp_const_def)

lemma zp_const_simps [simp]:
  "smul zp_const = (*)" "basepoint zp_const = 1" "scalar_of_u64 zp_const v = of_nat (unat v)"
  "hash_from_bytes zp_const bs = 1" "from_bytes_mod_order_wide zp_const bs = 1"
  by (simp_all add: zp_const_def zp_prims_def)

definition demo_config :: "(zp, zp) sbt_scheme_config" where
  "demo_config = \<lparr>cfg_pedersen = \<lparr>ped_g = 1, ped_h = 0\<rparr>,
     cfg_commits = map (\<lambda>i. \<lparr>sc_index = i, sc_commit = 1 + of_nat (unat i)\<rparr>) [1, 2, 3], cfg_threshold = 2, cfg_h2c_domain = [7],
     cfg_session_id = replicate 16 5, cfg_client_secret = replicate 32 9, cfg_expected_public_key = Some 1, cfg_secret_key = Some 1\<rparr>"

lemma zp_small_nonzero [simp]: "(2 :: zp) \<noteq> 0" "(3 :: zp) \<noteq> 0" "(4 :: zp) \<noteq> 0" "(0 :: zp) \<noteq> 2" "(0 :: zp) \<noteq> 3" "(0 :: zp) \<noteq> 4" "(2 :: zp) \<noteq> 1"
  using zp.scalar_of_u64_zero_iff [of 2] zp.scalar_of_u64_zero_iff [of 3] zp.scalar_of_u64_zero_iff [of 4] zp.scalar_of_u64_inject [of 2 1]
  by (auto simp: zp_prims_def)

lemma demo_config_on: "commits_on zp_const [1, 1] (cfg_commits demo_config)"
  by (simp add: commits_on_def demo_config_def)

lemma demo_new: "is_ok (sbt_new zp_const demo_config)"
  using ristretto_group.new_accepts [OF zp_const_group demo_config_on]
  by (simp add: demo_config_def MIN_SESSION_ID_LEN_def commits_wf_def)

text \<open>The example, and the example with a third commitment off the polynomial, are accepted; without the public key it is refused.\<close>

theorem sbt_new_accepts_witness:
  "is_ok (sbt_new zp_const demo_config) \<and>
   is_ok (sbt_new zp_const (demo_config\<lparr>cfg_commits := take 2 (cfg_commits demo_config) @ [\<lparr>sc_index = 3, sc_commit = 1\<rparr>]\<rparr>)) \<and>
   \<not> is_ok (sbt_new zp_const (demo_config\<lparr>cfg_expected_public_key := None\<rparr>))"
proof (intro conjI)
  let ?c = "demo_config\<lparr>cfg_commits := take 2 (cfg_commits demo_config) @ [\<lparr>sc_index = 3, sc_commit = 1\<rparr>]\<rparr>"
  show "is_ok (sbt_new zp_const demo_config)"
    using sbt_new_accepts [OF zp_const_group, of demo_config, THEN conjunct2, THEN conjunct2] demo_config_on
    by (auto simp: demo_config_def MIN_SESSION_ID_LEN_def commits_wf_def)
  have "quorums_agree zp_const ?c 1"
    unfolding quorums_agree_def Let_def by (auto simp: demo_config_def commits_on_def intro!: exI [of _ "[1, 1]"])
  then show "is_ok (sbt_new zp_const ?c)"
    using sbt_new_accepts [OF zp_const_group, of ?c, THEN conjunct1]
    by (simp add: demo_config_def MIN_SESSION_ID_LEN_def commits_wf_def)
  show "\<not> is_ok (sbt_new zp_const (demo_config\<lparr>cfg_expected_public_key := None\<rparr>))"
    using sbt_new_accepts [OF zp_const_group, of "demo_config\<lparr>cfg_expected_public_key := None\<rparr>", THEN conjunct1]
    by (simp add: demo_config_def)
qed

text \<open>C9: An honest mint returns and its token spends. With commitments and shares on one polynomial \<open>f\<close> and a source of
  randomness that does not draw zero for ever, \<^verbatim>\<open>prepare\<close> succeeds for every payload whose commitment and base are not the
  identity, \<^verbatim>\<open>finalize\<close> succeeds with the answers of any quorum of the threshold's size, the tag is \<open>f(0)\<close> times the hash of
  the commitment, and, unless the nonce point of the client's proof is the identity, the token passes the client proof check, the
  verification with the secret key, and the threshold verification with the answers of any quorum under any other session.\<close>

theorem sbt_mint_spend:
  assumes "ristretto_group R" and "sbt_new R cfg = Ok sch" and "commits_on R cs (cfg_commits cfg)"
    and "length cs \<le> cfg_threshold cfg" and "fair_draw draw"
    and "payload_base R sch payload \<noteq> 0" and "payload_commitment R sch payload \<noteq> 0"
  shows "\<exists>st req g1. sbt_prepare R draw sch payload g = Some (Ok (st, req), g1) \<and>
    (\<forall>es g2. honest_quorum R draw cs sch (req_blinded req) (sch_session_id sch) es \<longrightarrow>
      (\<exists>tok g3. sbt_finalize R draw sch st req es g2 = Some (Ok tok, g3) \<and>
        spt_tag tok = smul R (poly_eval cs 0) (payload_base R sch payload) \<and>
        (tp_t (spt_proof tok) \<noteq> 0 \<longrightarrow> spendable R draw cs sch tok)))"
proof -
  note wf = new_wf [OF assms(2)] and fields = new_fields [OF assms(2)]
  have on: "commits_on R cs (sch_commits sch)" and len: "length cs \<le> sch_threshold sch" using assms(3,4) fields by auto
  obtain st req g1 where prep: "sbt_prepare R draw sch payload g = Some (Ok (st, req), g1)"
    using ristretto_group.prepare_returns [OF assms(1,5) wf assms(6,7)] by blast
  show ?thesis
    using ristretto_group.mint_returns [OF assms(1) wf on len assms(5) prep]
      ristretto_group.minted_accepted [OF assms(1) wf on len _ _ assms(6)] assms(7) prep by metis
qed

lemma demo_draw: "fair_draw (\<lambda>g. (1 :: zp, g))"
  by (simp add: fair_draw_def)

lemma demo_payload:
  assumes "sbt_new zp_const demo_config = Ok sch"
  shows "payload_base zp_const sch payload = 1" and "payload_commitment zp_const sch payload = 1"
    and "can_verify_tag_origin sch" and "sch_pedersen sch = \<lparr>ped_g = 1, ped_h = 0\<rparr>"
  using new_fields [OF assms]
  by (simp_all add: payload_base_def payload_commitment_def hash_to_curve_def derive_scalar_def can_verify_tag_origin_def
      demo_config_def)

theorem sbt_mint_spend_witness:
  "\<exists>sch st req g1 es tok g2. sbt_new zp_const demo_config = Ok sch \<and>
     sbt_prepare zp_const (\<lambda>g. (1, g)) sch [1, 2, 3] (\<lambda>_. 0) = Some (Ok (st, req), g1) \<and>
     honest_quorum zp_const (\<lambda>g. (1, g)) [1, 1] sch (req_blinded req) (sch_session_id sch) es \<and>
     sbt_finalize zp_const (\<lambda>g. (1, g)) sch st req es (\<lambda>_. 0) = Some (Ok tok, g2) \<and>
     spt_tag tok = 1 \<and> sbt_verify_token zp_const sch tok = Ok ()"
proof -
  obtain sch where sch: "sbt_new zp_const demo_config = Ok sch" using demo_new by (auto simp: is_ok_iff)
  note pay = demo_payload [OF sch]
  have on: "commits_on zp_const [1, 1] (sch_commits sch)" using new_fields [OF sch] demo_config_on by simp
  have len: "length [1, 1 :: zp] \<le> cfg_threshold demo_config" by (simp add: demo_config_def)
  obtain st req g1 where p: "sbt_prepare zp_const (\<lambda>g. (1, g)) sch [1, 2, 3] (\<lambda>_. 0) = Some (Ok (st, req), g1)"
    and f: "\<And>es g2. honest_quorum zp_const (\<lambda>g. (1, g)) [1, 1] sch (req_blinded req) (sch_session_id sch) es \<Longrightarrow>
      \<exists>tok g3. sbt_finalize zp_const (\<lambda>g. (1, g)) sch st req es g2 = Some (Ok tok, g3) \<and> spt_tag tok = 1 \<and>
        (tp_t (spt_proof tok) \<noteq> 0 \<longrightarrow> spendable zp_const (\<lambda>g. (1, g)) [1, 1] sch tok)"
    using sbt_mint_spend [OF zp_const_group sch demo_config_on len demo_draw, where payload = "[1, 2, 3]" and g = "\<lambda>_. 0"]
    by (simp add: pay) blast
  have "req_blinded req \<noteq> 0"
    using ristretto_group.unblind_blinded(3) [OF zp_const_group prepare_Ok(1) [OF p]] .
  then obtain es where es: "honest_quorum zp_const (\<lambda>g. (1, g)) [1, 1] sch (req_blinded req) (sch_session_id sch) es"
    using ristretto_group.honest_quorum_exists [OF zp_const_group demo_draw new_wf [OF sch] on] by blast
  from f [OF es] obtain tok g3 where t: "sbt_finalize zp_const (\<lambda>g. (1, g)) sch st req es (\<lambda>_. 0) = Some (Ok tok, g3)"
    "spt_tag tok = 1" "tp_t (spt_proof tok) \<noteq> 0 \<longrightarrow> spendable zp_const (\<lambda>g. (1, g)) [1, 1] sch tok" by blast
  moreover have "tp_t (spt_proof tok) \<noteq> 0" using pay(4) by (rule_tac finalize_nonce [OF t(1)]) simp
  ultimately show ?thesis using sch p es pay(3) by (auto simp: spendable_def)
qed

text \<open>C35: What an accepted token is. A scheme without the secret key accepts no token: \<^verbatim>\<open>verify_token\<close> always answers that the tag's origin
  has to be checked. With the key \<open>k\<close> it accepts exactly the tokens of the scheme's session with a valid client proof and the tag
  \<open>k H2C(C)\<close>; so two accepted tokens of one scheme with the same commitment have the same nullifier, whoever made them and
  whatever their proofs, and tokens with different commitment hashes have different tags. And for every \<open>k'\<close>, not zero, and every opening of
  a commitment, the token that anybody can make with the tag \<open>k' H2C(C)\<close> passes \<^verbatim>\<open>verify_client_proof\<close>, but passes \<^verbatim>\<open>verify_token\<close> only if
  \<open>k'\<close> is the key. The comments of the module and of the trait describe \<^verbatim>\<open>verify_token\<close> as the client-side check that such a token passes.\<close>

theorem sbt_accepted_tokens:
  assumes "ristretto_group R" and "sbt_new R cfg = Ok sch"
  defines "H \<equiv> \<lambda>C. hash_to_curve R (sch_h2c_domain sch) (compress R C)"
  shows "(cfg_secret_key cfg = None \<longrightarrow> sbt_verify_token R sch tok = Err TagOriginCheckRequired) \<and>
    (\<forall>k. cfg_secret_key cfg = Some k \<longrightarrow>
      (sbt_verify_token R sch tok = Ok () \<longleftrightarrow>
        spt_tag tok = smul R k (H (spt_commitment tok)) \<and> spt_session_id tok = sch_session_id sch \<and>
        token_verify R (spt_proof tok) (sch_pedersen sch) (spt_commitment tok) (H (spt_commitment tok)) (spt_tag tok)
          (sch_session_id sch) (sch_public_key sch) = Ok ()) \<and>
      (sbt_verify_token R sch tok = Ok () \<longrightarrow> sbt_verify_token R sch tok' = Ok () \<longrightarrow>
        (spt_commitment tok = spt_commitment tok' \<longrightarrow> sbt_nullifier R tok = sbt_nullifier R tok') \<and>
        (spt_tag tok = spt_tag tok' \<longleftrightarrow> H (spt_commitment tok) = H (spt_commitment tok')))) \<and>
    (\<forall>k' a r draw g pf g'.
      let C = smul R a (ped_g (sch_pedersen sch)) + smul R r (ped_h (sch_pedersen sch));
          forged = \<lparr>spt_commitment = C, spt_tag = smul R k' (H C), spt_proof = pf, spt_session_id = sch_session_id sch\<rparr>
      in k' \<noteq> 0 \<and> C \<noteq> 0 \<and> H C \<noteq> 0 \<and> tp_t pf \<noteq> 0 \<and>
         token_prove R draw (sch_pedersen sch) C (H C) (smul R k' (H C)) a r (sch_session_id sch) (sch_public_key sch) g = Some (pf, g') \<longrightarrow>
         verify_client_proof R sch forged = Ok () \<and> (sbt_verify_token R sch forged = Ok () \<longleftrightarrow> cfg_secret_key cfg = Some k'))"
proof -
  note wf = new_wf [OF assms(2)] and group = assms(1)
  have sk: "sch_secret_key sch = cfg_secret_key cfg" using new_fields [OF assms(2)] by simp
  have none: "sbt_verify_token R sch tok = Err TagOriginCheckRequired" if "cfg_secret_key cfg = None" for tok
    using that by (simp add: sbt_verify_token_def sk)
  have acc: "sbt_verify_token R sch tok = Ok () \<longleftrightarrow>
      spt_tag tok = smul R k (H (spt_commitment tok)) \<and> spt_session_id tok = sch_session_id sch \<and>
      token_verify R (spt_proof tok) (sch_pedersen sch) (spt_commitment tok) (H (spt_commitment tok)) (spt_tag tok)
        (sch_session_id sch) (sch_public_key sch) = Ok ()" if k: "cfg_secret_key cfg = Some k" for tok k
    using wf ristretto_group.compress_inject [OF group]
    by (auto simp: sbt_verify_token_def sk k Let_def is_ok_iff verify_client_proof_internal_def verify_tag_with_secret_key_def
        spend_token_validate_def token_verify_def H_def scheme_wf_def split: if_splits)
  have inj: "smul R k P = smul R k Q \<longleftrightarrow> P = Q" if k: "cfg_secret_key cfg = Some k" for k P Q
  proof -
    have "k \<noteq> 0" using wf k sk ristretto_group.smul_zero_scalar [OF group] by (auto simp: scheme_wf_def)
    then show ?thesis
      using ristretto_group.smul_diff_point [OF group, of k P Q] ristretto_group.smul_eq_zero_iff [OF group, of k "P - Q"] by auto
  qed
  have forged: "verify_client_proof R sch tok = Ok () \<and> (sbt_verify_token R sch tok = Ok () \<longleftrightarrow> cfg_secret_key cfg = Some k')"
    if C: "C = smul R a (ped_g (sch_pedersen sch)) + smul R r (ped_h (sch_pedersen sch))"
      and tok: "tok = \<lparr>spt_commitment = C, spt_tag = smul R k' (H C), spt_proof = pf, spt_session_id = sch_session_id sch\<rparr>"
      and nz: "k' \<noteq> 0" "C \<noteq> 0" "H C \<noteq> 0" "tp_t pf \<noteq> 0"
      and pf: "token_prove R draw (sch_pedersen sch) C (H C) (smul R k' (H C)) a r (sch_session_id sch) (sch_public_key sch) g = Some (pf, g')"
    for tok C k' a r draw g pf g'
  proof -
    have T: "smul R k' (H C) \<noteq> 0" using nz ristretto_group.smul_eq_zero_iff [OF group] by simp
    have v: "token_verify R pf (sch_pedersen sch) C (H C) (smul R k' (H C)) (sch_session_id sch) (sch_public_key sch) = Ok ()"
      using ristretto_group.token_complete [OF group pf C nz(2,3) T] wf nz(4) by (simp add: scheme_wf_def)
    have "verify_client_proof R sch tok = Ok ()"
      using v nz T wf
      by (simp add: verify_client_proof_def verify_client_proof_internal_def spend_token_validate_def tok scheme_wf_def H_def Let_def)
    moreover have "smul R k' (H C) = smul R k (H C) \<longleftrightarrow> k' = k" for k
      using nz(3) ristretto_group.smul_cancel [OF group] by blast
    ultimately show ?thesis
      using acc [of _ tok] none [of tok] v by (cases "cfg_secret_key cfg") (auto simp: tok)
  qed
  show ?thesis
    unfolding Let_def
  proof (intro conjI allI impI)
    fix k assume k: "cfg_secret_key cfg = Some k"
    show "sbt_verify_token R sch tok = Ok () \<longleftrightarrow>
        spt_tag tok = smul R k (H (spt_commitment tok)) \<and> spt_session_id tok = sch_session_id sch \<and>
        token_verify R (spt_proof tok) (sch_pedersen sch) (spt_commitment tok) (H (spt_commitment tok)) (spt_tag tok)
          (sch_session_id sch) (sch_public_key sch) = Ok ()" by (rule acc [OF k])
    assume "sbt_verify_token R sch tok = Ok ()" "sbt_verify_token R sch tok' = Ok ()"
    then have T: "spt_tag tok = smul R k (H (spt_commitment tok))" "spt_tag tok' = smul R k (H (spt_commitment tok'))"
      using acc [OF k] by auto
    show "sbt_nullifier R tok = sbt_nullifier R tok'" if "spt_commitment tok = spt_commitment tok'"
      using T that by (simp add: sbt_nullifier_def)
    show "spt_tag tok = spt_tag tok' \<longleftrightarrow> H (spt_commitment tok) = H (spt_commitment tok')"
      using T inj [OF k] by simp
  qed (use none forged [OF refl refl] in blast)+
qed

definition demo_spend_token :: "zp \<Rightarrow> (zp, zp) spend_token" where
  "demo_spend_token tag = \<lparr>spt_commitment = 1, spt_tag = tag, spt_proof = \<lparr>tp_t = 1, tp_z_s = 2, tp_z_r = 2\<rparr>,
     spt_session_id = replicate 16 5\<rparr>"

theorem sbt_accepted_tokens_witness:
  "\<exists>sch. sbt_new zp_const demo_config = Ok sch \<and> sbt_verify_token zp_const sch (demo_spend_token 1) = Ok () \<and>
     verify_client_proof zp_const sch (demo_spend_token 2) = Ok () \<and> sbt_verify_token zp_const sch (demo_spend_token 2) \<noteq> Ok ()"
proof -
  obtain sch where sch: "sbt_new zp_const demo_config = Ok sch" using demo_new by (auto simp: is_ok_iff)
  note acc = sbt_accepted_tokens [OF zp_const_group sch, THEN conjunct2, THEN conjunct2, rule_format,
      where a = 1 and r = 1 and draw = "\<lambda>g. (1, g)" and g = "\<lambda>_. 0" and g' = "\<lambda>_. 0" and pf = "\<lparr>tp_t = 1, tp_z_s = 2, tp_z_r = 2\<rparr>"]
  have f: "sch_session_id sch = replicate 16 5" "cfg_secret_key demo_config = Some 1"
    using new_fields [OF sch] by (simp_all add: demo_config_def)
  show ?thesis
    using sch acc [of 1] acc [of 2] demo_payload(4) [OF sch]
    by (simp add: demo_spend_token_def f hash_to_curve_def token_prove_def token_proof_challenge_def challenge_scalar_def Let_def
        nonzero_scalar.simps zp_small_nonzero(7) [symmetric])
qed

end
