(* ===== verification/Signer.thy ===== *)
theory Signer
  imports Pedersen
begin

text \<open>
  \<^verbatim>\<open>specter-core/src/signer.rs\<close>: the interface of wallet signers, as a locale, with its three backends.
\<close>

record ('s, 'p) schnorr_sig =
  ss_r :: 'p
  ss_s :: 's

datatype signer_error =
    Unavailable string
  | Refused string
  | Unimplemented string

definition signer_challenge :: "('s, 'p) prims \<Rightarrow> 'p \<Rightarrow> 'p \<Rightarrow> bytes \<Rightarrow> 's" where
  "signer_challenge R r pk msg =
     from_bytes_mod_order_wide R (sha512 R (ascii ''specter-wallet-sig:'' @ compress R r @ compress R pk @ len_le msg @ msg))"

definition verify_schnorr :: "('s::field, 'p::ab_group_add) prims \<Rightarrow> 'p \<Rightarrow> bytes \<Rightarrow> ('s, 'p) schnorr_sig \<Rightarrow> bool" where
  "verify_schnorr R pk msg sig =
     (let e = signer_challenge R (ss_r sig) pk msg;
          lhs = smul R (ss_s sig) (basepoint R);
          rhs = ss_r sig + smul R e pk
      in compress R lhs = compress R rhs)"

definition signer_verify :: "('s::field, 'p::ab_group_add) prims \<Rightarrow> ('a \<Rightarrow> 'p) \<Rightarrow> 'a \<Rightarrow> bytes \<Rightarrow> ('s, 'p) schnorr_sig \<Rightarrow> bool" where
  "signer_verify R public x msg sig = verify_schnorr R (public x) msg sig"

text \<open>\<^verbatim>\<open>WalletSigner\<close>: whatever a backend signs, its own verifier accepts.\<close>

locale wallet_signer = ristretto_group R
  for R :: "('s::field, 'p::ab_group_add) prims" +
  fixes sign :: "'a \<Rightarrow> bytes \<Rightarrow> rng \<Rightarrow> (('s, 'p) schnorr_sig, signer_error) result \<times> rng"
    and public :: "'a \<Rightarrow> 'p" and valid :: "'a \<Rightarrow> bool"
  assumes signed_verifies: "valid x \<Longrightarrow> sign x msg g = (Ok sig, g') \<Longrightarrow> signer_verify R public x msg sig"
begin

text \<open>One backend that answers the same nonce point under two different challenges gives its key away.\<close>

lemma nonce_reuse:
  assumes "valid x" and "sign x m g = (Ok sig, g1)" and "sign x m' g' = (Ok sig', g1')" and "ss_r sig = ss_r sig'"
    and "signer_challenge R (ss_r sig) (public x) m \<noteq> signer_challenge R (ss_r sig) (public x) m'"
  shows "\<exists>sk. public x = smul R sk (basepoint R) \<and>
    sk = (ss_s sig - ss_s sig') / (signer_challenge R (ss_r sig) (public x) m - signer_challenge R (ss_r sig) (public x) m')"
proof -
  let ?e = "signer_challenge R (ss_r sig) (public x) m" and ?e' = "signer_challenge R (ss_r sig) (public x) m'"
  have "smul R (ss_s sig) (basepoint R) = ss_r sig + smul R ?e (public x)" "smul R (ss_s sig') (basepoint R) = ss_r sig + smul R ?e' (public x)"
    using signed_verifies [OF assms(1,2)] signed_verifies [OF assms(1,3)] assms(4) by (simp_all add: signer_verify_def verify_schnorr_def)
  then have "smul R (ss_s sig - ss_s sig') (basepoint R) = smul R (?e - ?e') (public x)" by (simp add: smul_diff_scalar)
  then have "public x = smul R ((ss_s sig - ss_s sig') / (?e - ?e')) (basepoint R)"
    using assms(5) by (metis divide_inverse mult.commute right_minus_eq smul_mult smul_one left_inverse)
  then show ?thesis by blast
qed

end

section \<open>Backends\<close>

record ('s, 'p) software_signer =
  sws_secret :: 's
  sws_public :: 'p

definition software_generate :: "('s, 'p) prims \<Rightarrow> rng \<Rightarrow> ('s, 'p) software_signer \<times> rng" where
  "software_generate R g =
     (let (secret, g) = random_scalar R g in (\<lparr>sws_secret = secret, sws_public = smul R secret (basepoint R)\<rparr>, g))"

definition software_from_secret :: "('s, 'p) prims \<Rightarrow> 's \<Rightarrow> ('s, 'p) software_signer" where
  "software_from_secret R secret = \<lparr>sws_secret = secret, sws_public = smul R secret (basepoint R)\<rparr>"

definition software_sign ::
  "('s::field, 'p) prims \<Rightarrow> ('s, 'p) software_signer \<Rightarrow> bytes \<Rightarrow> rng \<Rightarrow> (('s, 'p) schnorr_sig, signer_error) result \<times> rng" where
  "software_sign R x msg g =
     (let (k, g) = random_scalar R g;
          r = smul R k (basepoint R);
          e = signer_challenge R r (sws_public x) msg;
          s = k + e * sws_secret x
      in (Ok \<lparr>ss_r = r, ss_s = s\<rparr>, g))"

definition software_valid :: "('s, 'p) prims \<Rightarrow> ('s, 'p) software_signer \<Rightarrow> bool" where
  "software_valid R x \<longleftrightarrow> sws_public x = smul R (sws_secret x) (basepoint R)"

record 'p hsm_signer =
  hsm_public :: 'p

definition yubihsm_sign :: "'p hsm_signer \<Rightarrow> bytes \<Rightarrow> rng \<Rightarrow> (('s, 'p) schnorr_sig, signer_error) result \<times> rng" where
  "yubihsm_sign x msg g =
     (Err (Unimplemented ''YubiHSM Ristretto signing requires custom firmware or SGX enclave; use SoftwareSigner or write a domain-specific integration''), g)"

definition sgx_enclave_sign :: "'p hsm_signer \<Rightarrow> bytes \<Rightarrow> rng \<Rightarrow> (('s, 'p) schnorr_sig, signer_error) result \<times> rng" where
  "sgx_enclave_sign x msg g =
     (Err (Unimplemented ''SGX enclave signer not yet wired; requires Fortanix EDP build target''), g)"

sublocale ristretto_group \<subseteq> software: wallet_signer R "software_sign R" sws_public "software_valid R"
proof
  fix x msg g sig g'
  assume v: "software_valid R x" and s: "software_sign R x msg g = (Ok sig, g')"
  obtain k g1 where k: "random_scalar R g = (k, g1)" by fastforce
  have "sig = \<lparr>ss_r = smul R k (basepoint R), ss_s = k + signer_challenge R (smul R k (basepoint R)) (sws_public x) msg * sws_secret x\<rparr>"
    using s by (simp add: software_sign_def k Let_def)
  then show "signer_verify R sws_public x msg sig"
    using v by (simp add: signer_verify_def verify_schnorr_def Let_def software_valid_def smul_add_scalar smul_mult)
qed

sublocale ristretto_group \<subseteq> yubihsm: wallet_signer R yubihsm_sign hsm_public "\<lambda>_. True"
  by unfold_locales (simp add: yubihsm_sign_def)

sublocale ristretto_group \<subseteq> sgx_enclave: wallet_signer R sgx_enclave_sign hsm_public "\<lambda>_. True"
  by unfold_locales (simp add: sgx_enclave_sign_def)

lemma software_made_valid:
  "software_valid R (software_from_secret R secret)" "software_generate R g = (x, g') \<Longrightarrow> software_valid R x"
  by (auto simp: software_valid_def software_from_secret_def software_generate_def Let_def split: prod.splits)

end
