(* ===== verification/Secrets.thy ===== *)
theory Secrets
  imports Sbt_Scheme Networked Signer Handshake Wallet Memory_Guard "HOL-Library.Sublist"
begin

text \<open>
  What a value leaves behind and what it shows of itself: the \<^verbatim>\<open>Drop\<close> and \<^verbatim>\<open>Debug\<close> implementations of the types that hold a secret. A dropped value
  is given as what is left in its memory, after its own \<^verbatim>\<open>drop\<close> and then those of its fields. Formatting is that
  of \<^verbatim>\<open>Formatter::debug_struct\<close> and of the derived implementations, on one line; how scalars, points, encoded points and
  strings are printed is an argument.
\<close>

section \<open>Dropped values\<close>

definition zeroize_bytes :: "bytes \<Rightarrow> bytes" where
  "zeroize_bytes bs = replicate (length bs) 0"

definition share_drop :: "'s::zero share \<Rightarrow> 's share" where
  "share_drop sh = sh\<lparr>share_y := 0\<rparr>"

definition clause_session_drop :: "'s::zero clause_session \<Rightarrow> 's clause_session" where
  "clause_session_drop s = s\<lparr>cs_k0 := 0, cs_k1 := 0\<rparr>"

definition clause_blinding_drop :: "'s::zero clause_blinding_factors \<Rightarrow> 's clause_blinding_factors" where
  "clause_blinding_drop b = b\<lparr>cbf_alpha := 0, cbf_beta := 0\<rparr>"

definition dkg_participant_drop :: "('s::zero, 'p) dkg_participant \<Rightarrow> ('s, 'p) dkg_participant" where
  "dkg_participant_drop p = p\<lparr>dp_secret_poly := map (\<lambda>_. 0) (dp_secret_poly p)\<rparr>"

definition pok_drop :: "('s::zero, 'p) proof_of_knowledge \<Rightarrow> ('s, 'p) proof_of_knowledge" where
  "pok_drop p = p\<lparr>pok_s := 0\<rparr>"

definition signer_session_drop :: "'s::zero signer_session \<Rightarrow> 's signer_session" where
  "signer_session_drop s = s\<lparr>ss_k := 0\<rparr>"

definition blinding_factors_drop :: "'s::zero blinding_factors \<Rightarrow> 's blinding_factors" where
  "blinding_factors_drop b = b\<lparr>bf_alpha := 0, bf_beta := 0\<rparr>"

definition signer_keypair_drop :: "('s::zero, 'p) signer_keypair \<Rightarrow> ('s, 'p) signer_keypair" where
  "signer_keypair_drop k = k\<lparr>kp_secret := 0\<rparr>"

text \<open>The keyset wipes its shares, which are then dropped themselves.\<close>

definition keyset_drop :: "('s::zero, 'p) threshold_keyset \<Rightarrow> ('s, 'p) threshold_keyset" where
  "keyset_drop ks = ks\<lparr>ks_shares := map (apsnd share_drop) (map (apsnd (\<lambda>sh. sh\<lparr>share_y := 0\<rparr>)) (ks_shares ks))\<rparr>"

definition signer_session_state_drop :: "('s::zero, 'p) signer_session_state \<Rightarrow> ('s, 'p) signer_session_state" where
  "signer_session_state_drop s = s\<lparr>sst_nonce := 0\<rparr>"

definition user_token_secrets_drop :: "('s::zero, 'p) user_token_secrets \<Rightarrow> ('s, 'p) user_token_secrets" where
  "user_token_secrets_drop u = u\<lparr>uts_owner_secret := zeroize_bytes (uts_owner_secret u), uts_value_blinding := 0\<rparr>"

definition software_signer_drop :: "('s::zero, 'p) software_signer \<Rightarrow> ('s, 'p) software_signer" where
  "software_signer_drop s = s\<lparr>sws_secret := 0\<rparr>"

definition credential_drop :: "('s::zero, 'p) credential \<Rightarrow> ('s, 'p) credential" where
  "credential_drop c = c\<lparr>cred_blinding := 0\<rparr>"

definition issuer_drop :: "('s::zero, 'p) issuer \<Rightarrow> ('s, 'p) issuer" where
  "issuer_drop i = i\<lparr>iss_secret := 0\<rparr>"

definition validator_key_drop :: "('s::zero, 'p) validator_key \<Rightarrow> ('s, 'p) validator_key" where
  "validator_key_drop k = k\<lparr>vk_secret_key := 0\<rparr>"

definition node_identity_drop :: "('s::zero, 'p) node_identity \<Rightarrow> ('s, 'p) node_identity" where
  "node_identity_drop i = i\<lparr>ni_secret := 0\<rparr>"

text \<open>A token wipes the owner's secret; its credential and those of the pool are dropped with it.\<close>

definition token_drop :: "('s::zero, 'p) proof_carrying_token \<Rightarrow> ('s, 'p) proof_carrying_token" where
  "token_drop t = t\<lparr>tok_owner_secret := zeroize_bytes (tok_owner_secret t), tok_credential := map_option credential_drop (tok_credential t),
     tok_credential_pool := map (apfst credential_drop) (tok_credential_pool t)\<rparr>"

definition oprf_secret_share_drop :: "'s::zero oprf_secret_share \<Rightarrow> 's oprf_secret_share" where
  "oprf_secret_share_drop s = s\<lparr>sh_scalar := 0\<rparr>"

definition oprf_blinding_drop :: "('s::zero, 'p) oprf_blinding \<Rightarrow> ('s, 'p) oprf_blinding" where
  "oprf_blinding_drop b = b\<lparr>ob_alpha := 0, ob_alpha_inv := 0\<rparr>"

definition client_state_zeroize :: "('s::zero, 'p) sbt_client_state \<Rightarrow> ('s, 'p) sbt_client_state" where
  "client_state_zeroize s = s\<lparr>cst_s := 0, cst_r := 0, cst_oprf_state := (cst_oprf_state s)\<lparr>ob_alpha := 0, ob_alpha_inv := 0\<rparr>\<rparr>"

definition client_state_drop :: "('s::zero, 'p) sbt_client_state \<Rightarrow> ('s, 'p) sbt_client_state" where
  "client_state_drop s = (let s = client_state_zeroize s in s\<lparr>cst_oprf_state := oprf_blinding_drop (cst_oprf_state s)\<rparr>)"

definition sbt_scheme_drop :: "('s::zero, 'p) sbt_scheme \<Rightarrow> ('s, 'p) sbt_scheme" where
  "sbt_scheme_drop s = s\<lparr>sch_client_secret := zeroize_bytes (sch_client_secret s), sch_secret_key := map_option (\<lambda>_. 0) (sch_secret_key s)\<rparr>"

text \<open>Values without a \<^verbatim>\<open>Drop\<close> of their own drop their fields.\<close>

definition mint_drop :: "('s::zero, 'p) mint \<Rightarrow> ('s, 'p) mint" where
  "mint_drop m = m\<lparr>mint_keyset := keyset_drop (mint_keyset m), mint_issuer := issuer_drop (mint_issuer m)\<rparr>"

definition networked_drop :: "('s::zero, 'p) networked_node \<Rightarrow> ('s, 'p) networked_node" where
  "networked_drop n = n\<lparr>nw_mint := mint_drop (nw_mint n),
     nw_network := (nw_network n)\<lparr>nn_validator_key := validator_key_drop (nn_validator_key (nw_network n))\<rparr>\<rparr>"

definition wallet_drop :: "('s::zero, 'p) wallet \<Rightarrow> ('s, 'p) wallet" where
  "wallet_drop w = w\<lparr>w_tokens := map token_drop (w_tokens w)\<rparr>"

section \<open>Debug output\<close>

record ('s, 'p) formats =
  fmt_scalar :: "'s \<Rightarrow> string"
  fmt_point :: "'p \<Rightarrow> string"
  fmt_compressed :: "bytes \<Rightarrow> string"
  fmt_str :: "string \<Rightarrow> string"
  fmt_hex :: "bytes \<Rightarrow> string"

definition debug_struct :: "string \<Rightarrow> (string \<times> string) list \<Rightarrow> string" where
  "debug_struct name fs = name @ '' { '' @ separated '', '' (map (\<lambda>(f, v). f @ '': '' @ v) fs) @ '' }''"

definition show_bool :: "bool \<Rightarrow> string" where
  "show_bool b = (if b then ''true'' else ''false'')"

definition show_option :: "('a \<Rightarrow> string) \<Rightarrow> 'a option \<Rightarrow> string" where
  "show_option f x = (case x of None \<Rightarrow> ''None'' | Some y \<Rightarrow> ''Some('' @ f y @ '')'')"

definition show_list :: "('a \<Rightarrow> string) \<Rightarrow> 'a list \<Rightarrow> string" where
  "show_list f xs = ''['' @ separated '', '' (map f xs) @ '']''"

definition share_debug :: "('s, 'p) formats \<Rightarrow> 's share \<Rightarrow> string" where
  "share_debug F sh = debug_struct ''Share'' [(''x'', fmt_scalar F (share_x sh)), (''y'', fmt_str F ''[REDACTED]'')]"

definition signer_keypair_debug :: "('s, 'p) formats \<Rightarrow> ('s, 'p) signer_keypair \<Rightarrow> string" where
  "signer_keypair_debug F k =
     debug_struct ''SignerKeypair'' [(''secret'', fmt_str F ''[REDACTED]''), (''public'', fmt_point F (kp_public k))]"

definition software_signer_debug :: "('s, 'p) formats \<Rightarrow> ('s, 'p) software_signer \<Rightarrow> string" where
  "software_signer_debug F s =
     debug_struct ''SoftwareSigner'' [(''public'', fmt_point F (sws_public s)), (''secret'', fmt_str F ''[REDACTED]'')]"

definition token_debug :: "('s, 'p) formats \<Rightarrow> ('s, 'p) proof_carrying_token \<Rightarrow> string" where
  "token_debug F t = debug_struct ''ProofCarryingToken''
     [(''token_id'', fmt_str F (fmt_hex F (tok_id t))), (''value'', show_nat (unat (tok_value t))),
      (''owner_secret'', fmt_str F ''[REDACTED]''), (''value_proof'', fmt_str F ''[ZK proof]''),
      (''transfer_count'', show_nat (unat (tok_transfer_count t))), (''recursion_bound'', show_nat (unat (tok_recursion_bound t))),
      (''has_credential'', show_bool (tok_credential t \<noteq> None)), (''has_vdf'', show_bool (tok_vdf_proof t \<noteq> None)),
      (''has_bond'', show_bool (tok_bond_owner_id t \<noteq> None)), (''credential_pool_size'', show_nat (length (tok_credential_pool t)))]"

definition attributes_debug :: "('s, 'p) formats \<Rightarrow> attributes \<Rightarrow> string" where
  "attributes_debug F a = debug_struct ''Attributes''
     [(''kyc_passed'', show_bool (kyc_passed a)), (''not_sanctioned'', show_bool (not_sanctioned a)),
      (''jurisdiction'', fmt_str F (jurisdiction a)), (''age_over_18'', show_bool (age_over_18 a)),
      (''expires_at'', show_nat (unat (expires_at a)))]"

definition credential_debug :: "('s, 'p) formats \<Rightarrow> ('s, 'p) credential \<Rightarrow> string" where
  "credential_debug F c = debug_struct ''Credential''
     [(''commitment'', fmt_str F ''[point]''), (''blinding'', fmt_str F ''[REDACTED]''),
      (''attributes'', attributes_debug F (cred_attributes c)), (''issuer_pk'', fmt_str F ''[point]'')]"

definition transfer_step_debug :: "('s, 'p) prims \<Rightarrow> ('s, 'p) formats \<Rightarrow> ('s, 'p) transfer_step \<Rightarrow> string" where
  "transfer_step_debug R F st = debug_struct ''TransferStep''
     [(''new_owner_pk'', fmt_compressed F (compress R (new_owner_pk st))), (''sig_r'', fmt_compressed F (compress R (sig_r st))),
      (''sig_s'', fmt_str F ''<redacted>'')]"

definition locked_bytes_debug :: "('s, 'p) formats \<Rightarrow> locked_bytes \<Rightarrow> string" where
  "locked_bytes_debug F b = debug_struct ''LockedBytes''
     [(''len'', show_nat (lb_len b)), (''locked'', show_bool (lb_locked b)), (''data'', fmt_str F ''[REDACTED]'')]"

definition oprf_secret_share_debug :: "('s, 'p) formats \<Rightarrow> 's oprf_secret_share \<Rightarrow> string" where
  "oprf_secret_share_debug F s =
     debug_struct ''OprfSecretShare'' [(''index'', show_nat (unat (sh_index s))), (''scalar'', fmt_str F ''<redacted>'')]"

definition oprf_blinding_debug :: "('s, 'p) prims \<Rightarrow> ('s, 'p) formats \<Rightarrow> ('s, 'p) oprf_blinding \<Rightarrow> string" where
  "oprf_blinding_debug R F b =
     debug_struct ''OprfBlinding'' [(''alpha'', fmt_str F ''<redacted>''), (''base'', fmt_compressed F (compress R (ob_base b)))]"

text \<open>The scheme derives its \<^verbatim>\<open>Debug\<close>, as do the parameters and commitments in it.\<close>

definition pedersen_params_debug :: "('s, 'p) formats \<Rightarrow> 'p pedersen_params \<Rightarrow> string" where
  "pedersen_params_debug F p = debug_struct ''PedersenParams'' [(''g'', fmt_point F (ped_g p)), (''h'', fmt_point F (ped_h p))]"

definition server_commit_debug :: "('s, 'p) formats \<Rightarrow> 'p oprf_server_commit \<Rightarrow> string" where
  "server_commit_debug F c =
     debug_struct ''OprfServerCommit'' [(''index'', show_nat (unat (sc_index c))), (''commit'', fmt_point F (sc_commit c))]"

definition sbt_scheme_inner_debug :: "('s, 'p) formats \<Rightarrow> ('s, 'p) sbt_scheme \<Rightarrow> string" where
  "sbt_scheme_inner_debug F s = debug_struct ''SbtSchemeInner''
     [(''pedersen'', pedersen_params_debug F (sch_pedersen s)), (''commits'', show_list (server_commit_debug F) (sch_commits s)),
      (''threshold'', show_nat (sch_threshold s)), (''h2c_domain'', show_byte_array (sch_h2c_domain s)),
      (''session_id'', show_byte_array (sch_session_id s)), (''public_key'', ''OprfPublicKey('' @ fmt_point F (sch_public_key s) @ '')''),
      (''client_secret'', show_byte_array (sch_client_secret s)), (''secret_key'', show_option (fmt_scalar F) (sch_secret_key s))]"

definition sbt_scheme_debug :: "('s, 'p) formats \<Rightarrow> ('s, 'p) sbt_scheme \<Rightarrow> string" where
  "sbt_scheme_debug F s = debug_struct ''SbtScheme'' [(''inner'', sbt_scheme_inner_debug F s)]"

section \<open>What is left and what is shown\<close>

text \<open>
  Values are alike if they differ in their secrets only: shares in their ordinates, keys in the secret key, tokens in the owner's
  secret and in the blinding factors of their credentials.
\<close>

definition alike_share :: "'s share \<Rightarrow> 's share \<Rightarrow> bool" where
  "alike_share a b \<longleftrightarrow> share_x a = share_x b"

definition alike_credential :: "('s, 'p) credential \<Rightarrow> ('s, 'p) credential \<Rightarrow> bool" where
  "alike_credential a b \<longleftrightarrow> (\<exists>r. b = a\<lparr>cred_blinding := r\<rparr>)"

definition alike_token :: "('s, 'p) proof_carrying_token \<Rightarrow> ('s, 'p) proof_carrying_token \<Rightarrow> bool" where
  "alike_token a b \<longleftrightarrow> (\<exists>sk c pool. b = a\<lparr>tok_owner_secret := sk, tok_credential := c, tok_credential_pool := pool\<rparr> \<and>
     length sk = length (tok_owner_secret a) \<and> rel_option alike_credential (tok_credential a) c \<and>
     list_all2 (rel_prod alike_credential (=)) (tok_credential_pool a) pool)"

definition alike_mint :: "('s, 'p) mint \<Rightarrow> ('s, 'p) mint \<Rightarrow> bool" where
  "alike_mint a b \<longleftrightarrow> (\<exists>shares k. b = a\<lparr>mint_keyset := (mint_keyset a)\<lparr>ks_shares := shares\<rparr>, mint_issuer := (mint_issuer a)\<lparr>iss_secret := k\<rparr>\<rparr> \<and>
     list_all2 (rel_prod (=) alike_share) (ks_shares (mint_keyset a)) shares)"

definition alike_node :: "('s, 'p) networked_node \<Rightarrow> ('s, 'p) networked_node \<Rightarrow> bool" where
  "alike_node a b \<longleftrightarrow> (\<exists>m k. b = a\<lparr>nw_mint := m, nw_network := (nw_network a)\<lparr>nn_validator_key := (nn_validator_key (nw_network a))\<lparr>vk_secret_key := k\<rparr>\<rparr>\<rparr> \<and>
     alike_mint (nw_mint a) m)"

lemma map_eq_alike: "list_all2 P xs ys \<Longrightarrow> (\<And>x y. P x y \<Longrightarrow> f x = f y) \<Longrightarrow> map f xs = map f ys"
  by (induction rule: list_all2_induct) auto

lemma share_left: "alike_share a b \<Longrightarrow> share_drop a = share_drop b"
  by (cases a; cases b) (simp add: share_drop_def alike_share_def)

lemma credential_left: "alike_credential a b \<Longrightarrow> credential_drop a = credential_drop b"
  by (auto simp: alike_credential_def credential_drop_def)

lemma token_left:
  assumes "alike_token a b"
  shows "token_drop a = token_drop b"
proof -
  obtain sk c pool where b: "b = a\<lparr>tok_owner_secret := sk, tok_credential := c, tok_credential_pool := pool\<rparr>"
      "length sk = length (tok_owner_secret a)" "rel_option alike_credential (tok_credential a) c"
      "list_all2 (rel_prod alike_credential (=)) (tok_credential_pool a) pool"
    using assms unfolding alike_token_def by blast
  have "map (apfst credential_drop) (tok_credential_pool a) = map (apfst credential_drop) pool"
    by (rule map_eq_alike [OF b(4)]) (auto intro: credential_left)
  moreover have "map_option credential_drop (tok_credential a) = map_option credential_drop c"
    using b(3) by (cases rule: option.rel_cases) (auto intro: credential_left)
  ultimately show ?thesis by (simp add: token_drop_def b(1,2) zeroize_bytes_def)
qed

lemma mint_left:
  assumes "alike_mint a b"
  shows "mint_drop a = mint_drop b"
proof -
  obtain shares k where b: "b = a\<lparr>mint_keyset := (mint_keyset a)\<lparr>ks_shares := shares\<rparr>, mint_issuer := (mint_issuer a)\<lparr>iss_secret := k\<rparr>\<rparr>"
      "list_all2 (rel_prod (=) alike_share) (ks_shares (mint_keyset a)) shares"
    using assms unfolding alike_mint_def by blast
  have "map (apsnd share_drop) (map (apsnd (share_y_update (\<lambda>_. 0))) (ks_shares (mint_keyset a)))
      = map (apsnd share_drop) (map (apsnd (share_y_update (\<lambda>_. 0))) shares)"
    unfolding map_map by (rule map_eq_alike [OF b(2)]) (auto simp: share_drop_def alike_share_def intro: share_left [unfolded share_drop_def])
  then show ?thesis by (simp add: mint_drop_def keyset_drop_def issuer_drop_def b(1))
qed

text \<open>Nothing of a secret is left when a node or a wallet is dropped: values that are alike leave the same behind.\<close>

lemma dropped_values_keep_no_secret:
  assumes "alike_node a b" and "list_all2 alike_token ts us"
  shows "networked_drop a = networked_drop b" and "wallet_drop \<lparr>w_tokens = ts\<rparr> = wallet_drop \<lparr>w_tokens = us\<rparr>"
proof -
  show "networked_drop a = networked_drop b"
    using assms(1) by (auto simp: alike_node_def networked_drop_def validator_key_drop_def mint_left)
  show "wallet_drop \<lparr>w_tokens = ts\<rparr> = wallet_drop \<lparr>w_tokens = us\<rparr>"
    using map_eq_alike [OF assms(2), of token_drop] by (simp add: wallet_drop_def token_left)
qed

lemma dropped_short_lived:
  "clause_session_drop \<lparr>cs_k0 = k0, cs_k1 = k1\<rparr> = \<lparr>cs_k0 = 0, cs_k1 = 0\<rparr>"
  "clause_blinding_drop \<lparr>cbf_chosen = ch, cbf_alpha = al, cbf_beta = be\<rparr> = \<lparr>cbf_chosen = ch, cbf_alpha = 0, cbf_beta = 0\<rparr>"
  "signer_session_drop \<lparr>ss_k = k\<rparr> = \<lparr>ss_k = 0\<rparr>"
  "blinding_factors_drop \<lparr>bf_alpha = al, bf_beta = be\<rparr> = \<lparr>bf_alpha = 0, bf_beta = 0\<rparr>"
  "client_state_drop (client_state_zeroize s) = client_state_drop s"
  by (simp_all add: clause_session_drop_def clause_blinding_drop_def signer_session_drop_def blinding_factors_drop_def client_state_drop_def
      client_state_zeroize_def oprf_blinding_drop_def)

text \<open>Nothing of a secret is printed by the implementations written by hand.\<close>

lemma debug_shows_no_secret:
  "alike_share a b \<Longrightarrow> share_debug F a = share_debug F b"
  "alike_credential c d \<Longrightarrow> credential_debug F c = credential_debug F d"
  "alike_token t u \<Longrightarrow> token_debug F t = token_debug F u"
  "signer_keypair_debug F (k\<lparr>kp_secret := x\<rparr>) = signer_keypair_debug F k"
  "software_signer_debug F (s\<lparr>sws_secret := x\<rparr>) = software_signer_debug F s"
  "transfer_step_debug R F (st\<lparr>sig_s := x\<rparr>) = transfer_step_debug R F st"
  "oprf_secret_share_debug F (os\<lparr>sh_scalar := x\<rparr>) = oprf_secret_share_debug F os"
  "oprf_blinding_debug R F (ob\<lparr>ob_alpha := x, ob_alpha_inv := y\<rparr>) = oprf_blinding_debug R F ob"
  by (auto simp: share_debug_def alike_share_def credential_debug_def alike_credential_def token_debug_def alike_token_def signer_keypair_debug_def
      software_signer_debug_def transfer_step_debug_def oprf_secret_share_debug_def oprf_blinding_debug_def option.rel_sel
      dest: list_all2_lengthD)

text \<open>The derived one of the scheme prints the client's master secret and the secret key of the oblivious function.\<close>

lemma separated_member: "x \<in> set xs \<Longrightarrow> sublist x (separated sep xs)"
proof (induction sep xs rule: separated.induct)
  case (3 sep y z zs)
  then show ?case by (auto intro: sublist_appendI [of y "[]", simplified] sublist_order.order.trans [OF _ sublist_append_leftI])
qed simp_all

lemma debug_struct_field:
  assumes "(f, v) \<in> set fs"
  shows "sublist v (debug_struct name fs)"
proof -
  have "sublist v (f @ '': '' @ v)" by (metis append_assoc sublist_append_leftI)
  also have "sublist \<dots> (separated '', '' (map (\<lambda>(f, v). f @ '': '' @ v) fs))"
    using assms by (intro separated_member) force
  also have "sublist \<dots> (debug_struct name fs)"
    unfolding debug_struct_def by (metis append_assoc sublist_appendI)
  finally show ?thesis .
qed

lemma sbt_debug_shows_secrets:
  "sublist (show_byte_array (sch_client_secret s)) (sbt_scheme_debug F s)"
  "sch_secret_key s = Some k \<Longrightarrow> sublist (fmt_scalar F k) (sbt_scheme_debug F s)"
proof -
  have "sublist (sbt_scheme_inner_debug F s) (sbt_scheme_debug F s)"
    unfolding sbt_scheme_debug_def by (rule debug_struct_field [where f = "''inner''"]) simp
  note outer = sublist_order.order.trans [OF _ this]
  have c: "sublist (show_byte_array (sch_client_secret s)) (sbt_scheme_inner_debug F s)"
    unfolding sbt_scheme_inner_debug_def by (rule debug_struct_field [where f = "''client_secret''"]) simp
  have k: "sublist (show_option (fmt_scalar F) (sch_secret_key s)) (sbt_scheme_inner_debug F s)"
    unfolding sbt_scheme_inner_debug_def by (rule debug_struct_field [where f = "''secret_key''"]) simp
  show "sublist (show_byte_array (sch_client_secret s)) (sbt_scheme_debug F s)" by (rule outer [OF c])
  show "sublist (fmt_scalar F k) (sbt_scheme_debug F s)" if "sch_secret_key s = Some k"
  proof -
    have "sublist (fmt_scalar F k) (show_option (fmt_scalar F) (sch_secret_key s))"
      unfolding that show_option_def by (simp only: option.case) (rule sublist_appendI)
    then show ?thesis by (rule sublist_order.order.trans) (rule outer [OF k])
  qed
qed

end
