(* ===== verification/Pq_Readiness.thy ===== *)
theory Pq_Readiness
  imports Main
begin

text \<open>
  \<^verbatim>\<open>specter-sbt/src/pq_readiness.rs\<close>: which post-quantum components are linked. The message is a string of UTF-8 bytes.
\<close>

record pq_readiness =
  voleith_available :: bool
  lattice_oprf_available :: bool

definition detect :: pq_readiness where
  "detect = \<lparr>voleith_available = False, lattice_oprf_available = False\<rparr>"

definition is_fully_pq_ready :: "pq_readiness \<Rightarrow> bool" where
  "is_fully_pq_ready r \<longleftrightarrow> voleith_available r \<and> lattice_oprf_available r"

definition bool_text :: "bool \<Rightarrow> string" where
  "bool_text b = (if b then ''true'' else ''false'')"

definition summary :: "pq_readiness \<Rightarrow> string" where
  "summary r =
     (if is_fully_pq_ready r
      then ''PQ-SBT: all primitives available '' @ [CHR 0xE2, CHR 0x80, CHR 0x94] @ '' using lattice-OPRF + VOLEitH''
      else ''PQ-SBT: NOT READY (VOLEitH='' @ bool_text (voleith_available r) @ '', lattice-OPRF='' @ bool_text (lattice_oprf_available r) @
        ''). Using classical DH-OPRF + Schnorr NIZK.'')"

text \<open>The message tells the four states apart, and the state that is detected is never ready.\<close>

lemma summary_inject: "summary r = summary r' \<longleftrightarrow> r = r'"
  by (cases r; cases r') (auto simp: summary_def is_fully_pq_ready_def bool_text_def)

lemma detect_not_ready: "\<not> is_fully_pq_ready detect"
  by (simp add: detect_def is_fully_pq_ready_def)

end
