(* ===== verification/Spec2Isabelle.thy ===== *)
theory Spec2Isabelle
  imports Cli_Main Payments Tee Sis Deterrence Nova_Ivc Range_Proof Cluster Attestation Secrets Pq_Readiness
begin

text \<open>
  A verification development of the Specter protocol: bearer tokens that are issued under a blind threshold signature, change hands
  with a signed chain of owners, and are spent once through a set of nullifiers. The paths below are under \<^verbatim>\<open>src/crates\<close>.

  \<^bold>\<open>How the program is put together.\<close> A mint (\<^verbatim>\<open>specter-core/src/mint.rs\<close>) runs a distributed key generation, signs the identity of a
  token with a quorum of signers and attaches a commitment to its value, a proof of that value, a genesis proof of ownership and
  perhaps a credential. A transfer spends the token's nullifier, signs a step to the next owner's key and draws a new owner secret;
  a split and a renewal spend a token and have the mint issue new ones. Nullifiers are announced by gossip and committed by a
  vote of validators. A wallet holds tokens and saves them encrypted; the command line ties a mint, a wallet file and a connection to
  a peer together. Offline spends are backed by bonds.

  \<^bold>\<open>Conventions\<close> (theory \<open>Prelude\<close>). Machine integers are words, so additions wrap as in a release build where the code does not check
  them; \<^verbatim>\<open>usize\<close> is \<open>nat\<close>; \<^verbatim>\<open>[u8; N]\<close> and \<^verbatim>\<open>Vec<u8>\<close> are byte lists. \<^verbatim>\<open>Result\<close> is \<open>result\<close> with a third value \<open>Panic\<close>
  for an unwrap, an index or a slice out of range. The operating system's random source is a tape of bytes that each draw consumes
  and every operation threads. A \<^verbatim>\<open>HashMap\<close> is an association list, a \<^verbatim>\<open>HashSet\<close> a set. What a disk, a peer or a clock does is an
  argument of the operation. Constant-time comparison is outside the model; the wiping of dropped values and debug output are modelled on
  their own, in \<open>Memory_Guard\<close> and \<open>Secrets\<close>, and left out of the other operations.

  \<^bold>\<open>Third-party code\<close> is a record of functions that the definitions take as an argument, with its documented laws as a locale:
    \<^item> \<open>prims\<close> for \<^verbatim>\<open>curve25519-dalek\<close>, \<^verbatim>\<open>sha2\<close> and \<^verbatim>\<open>sha3\<close>, with the locales \<open>ristretto_group\<close> (a group with a generator, scalar
      multiplication, canonical encodings) and \<open>ristretto\<close> (the lengths and the converse of the encodings) of theory \<open>Ristretto\<close>.
      \<open>Prime_Field\<close> interprets both on the integers modulo a prime of 67 bits, which makes every hypothesis satisfiable and
      is where the witnesses run. No hardness is assumed: soundness is stated as extraction from two answers, or as an explicit collision.
    \<^item> \<open>aead_prims\<close> (Argon2id, ChaCha20-Poly1305), \<open>kem_prims\<close> (ML-KEM-768), the ML-DSA verifier of the consensus, \<open>sev_prims\<close> (the crates
      \<^verbatim>\<open>sev\<close> and \<^verbatim>\<open>bincode\<close>), \<open>cs_prims\<close> and \<open>nova_prims\<close> (\<^verbatim>\<open>bellpepper\<close>, \<^verbatim>\<open>nova_snark\<close>).

  \<^bold>\<open>Primitives\<close> (\<^verbatim>\<open>specter-primitives\<close>).
    \<^item> \<open>Interpolation\<close>, \<open>Shamir\<close>: polynomials over a field, \<^verbatim>\<open>shamir.rs\<close>. Any quorum of distinct shares reconstructs the secret, no shares or a repeated
      one are refused, a single share is taken as the secret; fewer shares fit every secret.
    \<^item> \<open>Pedersen\<close>: \<^verbatim>\<open>pedersen.rs\<close>, \<^verbatim>\<open>scalar_utils.rs\<close>, \<^verbatim>\<open>hardened.rs\<close>. Hiding, binding, the value proof, and that the masked
      multiplications are multiplications.
    \<^item> \<open>Range_Proof\<close>: \<^verbatim>\<open>range_proof.rs\<close>. Completeness, and an extractor that computes an opening below \<open>2 ^ 64\<close> from two accepted
      proofs per bit.
    \<^item> \<open>Sis\<close>: \<^verbatim>\<open>sis.rs\<close>. Two openings are a short kernel vector; where the sums wrap.

  \<^bold>\<open>Signatures\<close> (\<^verbatim>\<open>specter-blind-sig\<close>).
    \<^item> \<open>Blind_Sig\<close>: \<^verbatim>\<open>schnorr_blind.rs\<close>, \<^verbatim>\<open>clause_blind.rs\<close>, \<^verbatim>\<open>types.rs\<close>. The locale \<open>blind_scheme\<close> carries correctness and
      blindness for both protocols; the session limiter.
    \<^item> \<open>Threshold\<close>, \<open>Dkg\<close>: \<^verbatim>\<open>threshold.rs\<close>, \<^verbatim>\<open>dkg.rs\<close>. Signing by exactly the quorums; an honest key generation; what an
      accepted third round fixes; resharing keeps the group key.

  \<^bold>\<open>Tokens\<close> (\<^verbatim>\<open>specter-fold\<close>, \<^verbatim>\<open>specter-credential\<close>, \<^verbatim>\<open>specter-offline\<close>, \<^verbatim>\<open>specter-core\<close>).
    \<^item> \<open>Accumulator\<close>: \<^verbatim>\<open>accumulator.rs\<close>, \<^verbatim>\<open>transcript.rs\<close>. The walk along the chain accepts exactly the anchored chains of signatures.
    \<^item> \<open>Nova_Ivc\<close>: \<^verbatim>\<open>nova_ivc.rs\<close>. The two constraints of the step circuit, and that an accepted proof shows the step count only.
    \<^item> \<open>Credentials\<close>: \<^verbatim>\<open>credential.rs\<close>, \<^verbatim>\<open>issuer.rs\<close>, \<^verbatim>\<open>presentation.rs\<close>, \<^verbatim>\<open>revocation.rs\<close>. Selective disclosure is
      complete; two accepted answers to one announcement give, by an explicit computation, attributes and a blinding factor that
      open the commitment and agree with what was disclosed.
    \<^item> \<open>Number_Facts\<close>, \<open>Vdf\<close>: \<^verbatim>\<open>vdf.rs\<close>, \<^verbatim>\<open>vdf_rsa.rs\<close>, \<^verbatim>\<open>vdf_unified.rs\<close>. Completeness of the delay proof, termination of the search
      for the challenge prime.
    \<^item> \<open>Nullifier\<close>: \<^verbatim>\<open>nullifier.rs\<close>. The locale \<open>spend_set\<close> is the contract of the set, over a file system in which the lock has the path of
      the file with another extension; the file survives a restart unless it is its own lock; one winner in every interleaving of threads.
    \<^item> \<open>Token\<close>, \<open>Mint\<close>, \<open>Token_Transfer\<close>: \<^verbatim>\<open>token.rs\<close>, \<^verbatim>\<open>verify.rs\<close>, \<^verbatim>\<open>mint.rs\<close>, \<^verbatim>\<open>transfer.rs\<close>, \<^verbatim>\<open>renewal.rs\<close>. The invariant
      \<open>token_ok\<close> says a token passes the whole verification; issuing establishes it, transfers keep it, splits and
      renewals conserve value. Over any sequence of operations, failing ones included, a nullifier is spent once and the value returned is
      the value spent less what the operations that fail after the spending lose, which are characterised.
    \<^item> \<open>Codec\<close>, \<open>Serde\<close>, \<open>Token_Format\<close>: \<^verbatim>\<open>serde_token.rs\<close>. The locale \<open>codec\<close> pairs a writer with its reader; tokens round-trip; the reader is
      total on arbitrary bytes and what it accepts is within the caps.
    \<^item> \<open>Secure_Store\<close>, \<open>Wallet\<close>: \<^verbatim>\<open>secure_store.rs\<close>, \<^verbatim>\<open>wallet.rs\<close>. A saved wallet loads to itself; taking a token conserves the rest.
    \<^item> \<open>Payments\<close>: the operations of mint, transfer, renewal and wallet composed into payments between users, as a refinement of an abstract
      ledger of coins.
    \<^item> \<open>Signer\<close>: \<^verbatim>\<open>signer.rs\<close>. The signing trait as the locale \<open>wallet_signer\<close>, with its three backends.
    \<^item> \<open>Memory_Guard\<close>, \<open>Deterrence\<close>: \<^verbatim>\<open>memory_guard.rs\<close> over pages and addresses, \<^verbatim>\<open>deterrence.rs\<close> in rounded arithmetic.
    \<^item> \<open>Secrets\<close>: every \<^verbatim>\<open>Drop\<close> that wipes a secret and every \<^verbatim>\<open>Debug\<close> that hides one, across the crates. What is left of a node or a wallet and
      what is printed does not depend on the secrets, except for the scheme of \<^verbatim>\<open>specter-sbt\<close>, which prints them.
    \<^item> \<open>Bonds\<close>: \<^verbatim>\<open>bonds.rs\<close>. The accounts balance and exposure stays within the bond.

  \<^bold>\<open>Network\<close> (\<^verbatim>\<open>specter-net\<close>, \<^verbatim>\<open>specter-core/src/networked.rs\<close>).
    \<^item> \<open>Consensus\<close>: \<^verbatim>\<open>consensus.rs\<close>, \<^verbatim>\<open>pq_consensus.rs\<close>. The invariant of a validator's reachable states, agreement of two validators from the
      locale \<open>quorum_system\<close>, exactly which committee sizes its quorum is large enough for, and that a quorum of approvals commits.
    \<^item> \<open>Gossip\<close>, \<open>Networked\<close>: \<^verbatim>\<open>gossip.rs\<close>, \<^verbatim>\<open>protocol.rs\<close>, \<^verbatim>\<open>node.rs\<close>, \<^verbatim>\<open>networked.rs\<close>. Queued messages are authentic and queues bounded; what a
      networked transfer puts in the queue, and what it does not consult.
    \<^item> \<open>Cluster\<close>: many such nodes, with votes and broadcasts in flight, an arbitrary order of delivery and faulty validators that send
      whatever they can sign, as a step relation over the nodes and a history of what was signed, spent and committed. Agreement of the
      honest nodes within a view, a run of honest validators that disagree across views, and what backs the report of a double
      spend: a spending at an honest node, a message of a faulty validator on the wire, or a commit. That honest validators approve one hash for each height and view is a hypothesis: no operation checks it.
    \<^item> \<open>Attestation\<close>: \<^verbatim>\<open>attestation.rs\<close>. A reported conflict is a pair of valid signatures on two uses of one position.

  \<^bold>\<open>Symmetric blind tokens\<close> (\<^verbatim>\<open>specter-sbt\<close>): \<open>Sbt_Oprf\<close> (transcript, equality and token proofs, the threshold oblivious function) and
  \<open>Sbt_Scheme\<close> (configuration, minting and spending). An honest mint returns an accepted token; exactly which tokens and which configurations
  are accepted, which the comments of the source describe differently.
  \<open>Pq_Readiness\<close> is the start-up message of \<^verbatim>\<open>pq_readiness.rs\<close>.

  \<^bold>\<open>Confidential machines\<close> (\<^verbatim>\<open>specter-tee\<close>): \<open>Tee\<close>, with the provider trait as the locale \<open>attestation_provider\<close> and its four
  implementations. What an accepted report binds, and that its root of trust is not pinned.

  \<^bold>\<open>Command line\<close> (\<^verbatim>\<open>specter-cli/src/main.rs\<close>): \<open>Handshake\<close> (identity, both key exchanges over a connection that may break at any byte,
  session encryption), \<open>Cli\<close> (the commands over the two files) and \<open>Cli_Main\<close> (the entry point, the demonstration and the
  benchmark). Two honest ends that receive each other's bytes as they are written, in any pieces, both return and agree on a key, a key implies the peer's signature, minting from the command line, what a receiver gets,
  and what the demonstration shows.

  \<^bold>\<open>Loops and bounds.\<close> Recursion is structural or has a termination proof, with two exceptions that are \<open>partial_function (option)\<close>, where
  \<open>None\<close> is not returning: the search for the challenge prime in \<open>Vdf\<close>, which is proved to return for every input because there
  is a prime above every bound, and the redrawing of zero scalars in \<open>Sbt_Oprf\<close>, which returns for the tapes that have a
  non-zero draw. No fuel is used.

  \<^bold>\<open>Not modelled.\<close> The help text, printed messages and measured times; tests, benches
  and fuzz targets; accessors that return a field; the two gossip operations that exist in test builds only.
\<close>

end
